(* ===== verification/Prelude.thy ===== *)
theory Prelude
  imports Main "HOL-Library.Word"
begin

text \<open>
  Shared vocabulary of the development: the machine types of \<^verbatim>\<open>types.h\<close>, the sizes of
  \<^verbatim>\<open>param.h\<close>, the outcome of running kernel code, the operations that sequence kernel code,
  and the generic lemmas that the component theories use.

  Kernel code is a function from a state to an outcome.  An outcome is a returned value with
  the new state (\<open>Ok\<close>), a switch to the scheduler (\<open>Swtch\<close>: the code called \<^verbatim>\<open>swtch\<close> and the
  rest of the function runs when the process is resumed), a busy wait on a lock another
  processor holds (\<open>Spin\<close>), a call of \<^verbatim>\<open>panic\<close> with its message (\<open>Panic\<close>), or an access
  through a null or wild pointer, for which C gives no meaning (\<open>Fault\<close>), or a loop that did
  not end within the rounds the model allows it (\<open>NoFuel\<close>; the theorems show where it ends).
\<close>

section \<open>Machine types and sizes\<close>

type_synonym byte = "8 word"
type_synonym u16 = "16 word"
type_synonym u32 = "32 word"
type_synonym addr = "32 word"

text \<open>The value of a C \<^verbatim>\<open>int\<close> after an operation: two's complement at 32 bits.\<close>

definition s32 :: "int \<Rightarrow> int" where
  "s32 x = signed_take_bit 31 x"

lemma s32_id: "- (2 ^ 31) \<le> x \<Longrightarrow> x < 2 ^ 31 \<Longrightarrow> s32 x = x"
  by (simp add: s32_def signed_take_bit_int_eq_self)

lemma s32_range: "- (2 ^ 31) \<le> s32 x \<and> s32 x < 2 ^ 31"
  using signed_take_bit_int_greater_eq_minus_exp [of 31 x] signed_take_bit_int_less_exp [of 31 x]
  by (simp add: s32_def)

text \<open>The sizes of \<^verbatim>\<open>param.h\<close>.\<close>

definition NPROC :: nat where "NPROC = 64"
definition KSTACKSIZE :: nat where "KSTACKSIZE = 4096"
definition NCPU :: nat where "NCPU = 8"
definition NOFILE :: nat where "NOFILE = 16"
definition NFILE :: nat where "NFILE = 100"
definition NINODE :: nat where "NINODE = 50"
definition NDEV :: nat where "NDEV = 10"
definition ROOTDEV :: u32 where "ROOTDEV = 1"
definition MAXARG :: nat where "MAXARG = 32"
definition MAXOPBLOCKS :: nat where "MAXOPBLOCKS = 10"
definition LOGSIZE :: nat where "LOGSIZE = MAXOPBLOCKS * 3"
definition NBUF :: nat where "NBUF = MAXOPBLOCKS * 3"
definition FSSIZE :: nat where "FSSIZE = 1000"

lemmas param_defs = NPROC_def KSTACKSIZE_def NCPU_def NOFILE_def NFILE_def NINODE_def NDEV_def
  ROOTDEV_def MAXARG_def MAXOPBLOCKS_def LOGSIZE_def NBUF_def FSSIZE_def

section \<open>Words\<close>

lemma unat_of_nat32: "n < 2 ^ 32 \<Longrightarrow> unat (of_nat n :: u32) = n"
  by (simp add: unat_of_nat take_bit_nat_eq_self)

lemma unat_diff:
  "unat (a - b :: u32) = (if unat b \<le> unat a then unat a - unat b else unat a + 2 ^ 32 - unat b)"
  by (simp add: unat_sub_if')

lemma unat_add_of_nat:
  "unat (a :: u32) + n < 2 ^ 32 \<Longrightarrow> unat (a + of_nat n) = unat a + n"
  by (subst unat_plus_if') (simp add: unat_of_nat32)

section \<open>Outcomes and sequencing\<close>

datatype ('a, 's) outcome =
    Ok 'a 's
  | Swtch 's
  | Spin 's
  | Panic string
  | Fault
  | NoFuel

type_synonym ('a, 's) kop = "'s \<Rightarrow> ('a, 's) outcome"

text \<open>
  \<open>kop\<close>: rules that compute one step of sequenced kernel code; \<open>ok_iff\<close>: rules that invert
  a successful run into the successful runs of its parts.
\<close>

named_theorems kop
named_theorems ok_iff

definition bindK :: "('a, 's) kop \<Rightarrow> ('a \<Rightarrow> ('b, 's) kop) \<Rightarrow> ('b, 's) kop" where
  "bindK m f s = (case m s of
      Ok a t \<Rightarrow> f a t
    | Swtch t \<Rightarrow> Swtch t
    | Spin t \<Rightarrow> Spin t
    | Panic e \<Rightarrow> Panic e
    | Fault \<Rightarrow> Fault
    | NoFuel \<Rightarrow> NoFuel)"

definition thenK :: "(unit, 's) kop \<Rightarrow> ('b, 's) kop \<Rightarrow> ('b, 's) kop" where
  "thenK m k = bindK m (\<lambda>_. k)"

definition retK :: "'a \<Rightarrow> ('a, 's) kop" where
  "retK a s = Ok a s"

definition panicK :: "string \<Rightarrow> ('a, 's) kop" where
  "panicK e s = Panic e"

definition getK :: "('s \<Rightarrow> 'a) \<Rightarrow> ('a, 's) kop" where
  "getK f s = Ok (f s) s"

definition modK :: "('s \<Rightarrow> 's) \<Rightarrow> (unit, 's) kop" where
  "modK f s = Ok () (f s)"

definition whenK :: "bool \<Rightarrow> (unit, 's) kop \<Rightarrow> (unit, 's) kop" where
  "whenK b m = (if b then m else retK ())"

lemma thenK_unfold: "thenK m k s = bindK m (\<lambda>_. k) s"
  by (simp add: thenK_def)

declare bindK_def [kop] thenK_unfold [kop]

lemma basic_kops [simp]:
  "retK a s = Ok a s" "getK f s = Ok (f s) s" "modK g s = Ok () (g s)"
  "(panicK e s :: ('a, 's) outcome) = Panic e"
  "whenK True m = m" "whenK False m = retK ()"
  by (simp_all add: retK_def getK_def modK_def panicK_def whenK_def)

lemma bindK_Ok_iff [ok_iff]:
  "bindK m f s = Ok b t \<longleftrightarrow> (\<exists>a u. m s = Ok a u \<and> f a u = Ok b t)"
  by (cases "m s") (simp_all add: bindK_def)

lemma thenK_Ok_iff [ok_iff]:
  "thenK m k s = Ok b t \<longleftrightarrow> (\<exists>u. m s = Ok () u \<and> k u = Ok b t)"
  by (simp add: thenK_def bindK_Ok_iff)

lemma whenK_Ok_iff [ok_iff]:
  "whenK c m s = Ok a t \<longleftrightarrow> (if c then m s = Ok () t else t = s)"
  by (simp add: whenK_def) auto

text \<open>Run operations one after another.\<close>

fun seqK :: "(unit, 's) kop list \<Rightarrow> (unit, 's) kop" where
  "seqK [] = retK ()"
| "seqK (m # ms) = thenK m (seqK ms)"

text \<open>Run an operation \<open>n\<close> times and collect what it returns.\<close>

fun repeatK :: "nat \<Rightarrow> ('a, 's) kop \<Rightarrow> ('a list, 's) kop" where
  "repeatK 0 m = retK []"
| "repeatK (Suc n) m = bindK m (\<lambda>a. bindK (repeatK n m) (\<lambda>as. retK (a # as)))"

lemma bindK_if: "bindK (if b then m else n) f s = (if b then bindK m f s else bindK n f s)"
  by simp

lemma bindK_assoc: "bindK (bindK m f) g s = bindK m (\<lambda>a. bindK (f a) g) s"
  by (cases "m s") (simp_all add: bindK_def)

section \<open>Lists as tables\<close>

text \<open>Index of the first element with a property: the scans of the kernel's static tables.\<close>

fun find_index :: "('a \<Rightarrow> bool) \<Rightarrow> 'a list \<Rightarrow> nat option" where
  "find_index P [] = None"
| "find_index P (x # xs) = (if P x then Some 0 else map_option Suc (find_index P xs))"

lemma find_index_None: "find_index P xs = None \<longleftrightarrow> (\<forall>x \<in> set xs. \<not> P x)"
  by (induction xs) auto

lemma find_index_SomeD:
  "find_index P xs = Some i \<Longrightarrow> i < length xs \<and> P (xs ! i) \<and> (\<forall>j < i. \<not> P (xs ! j))"
proof (induction xs arbitrary: i)
  case (Cons x xs)
  then show ?case
    by (auto split: if_splits simp: less_Suc_eq_0_disj)
qed simp

lemma find_index_Some_iff:
  "find_index P xs = Some i \<longleftrightarrow> i < length xs \<and> P (xs ! i) \<and> (\<forall>j < i. \<not> P (xs ! j))"
proof
  assume i: "i < length xs \<and> P (xs ! i) \<and> (\<forall>j < i. \<not> P (xs ! j))"
  then obtain k where k: "find_index P xs = Some k"
    by (metis find_index_None nth_mem not_None_eq)
  with find_index_SomeD [OF k] i have "k = i"
    by (metis linorder_neqE_nat)
  with k show "find_index P xs = Some i" by simp
qed (rule find_index_SomeD)

lemma find_index_le_length: "find_index P xs = Some i \<Longrightarrow> i < length xs"
  by (simp add: find_index_SomeD)

lemma map_list_update_same [simp]:
  "i < length xs \<Longrightarrow> f v = f (xs ! i) \<Longrightarrow> map f (xs[i := v]) = map f xs"
  by (metis list_update_id map_update nth_map)

end
