(* ===== verification/Spinlock.thy ===== *)
theory Spinlock
  imports Prelude
begin

text \<open>
  \<^verbatim>\<open>spinlock.h\<close>, \<^verbatim>\<open>spinlock.c\<close> and the part of \<^verbatim>\<open>struct cpu\<close> (\<^verbatim>\<open>proc.h\<close>) that locks use.
  The state holds the processors, the processor that runs the code (the \<^verbatim>\<open>%gs\<close> register selects
  \<^verbatim>\<open>cpu\<close> and \<^verbatim>\<open>proc\<close>) and every spinlock of the kernel.  The call stack that \<^verbatim>\<open>acquire\<close> records
  in \<^verbatim>\<open>pcs\<close> is debugging data and is left out.

  The first part is the code as one processor runs it; the second part interleaves the memory
  accesses of several processors and shows mutual exclusion.
\<close>

section \<open>State\<close>

text \<open>The spinlocks of the kernel, by the variable that holds them; a pipe has its own.\<close>

datatype lockid =
    PtableLock | KmemLock | BcacheLock | IdeLock | LogLock | IcacheLock | FtableLock
  | TickLock | ConsLock | InputLock | PipeLock addr

record spinlock =
  locked :: bool
  lname :: string
  lcpu :: "nat option"

record cpu =
  ncli :: int
  intena :: bool
  flag_if :: bool
  cproc :: "nat option"
  cr3 :: addr
  ts_esp0 :: addr
  ts_ss0 :: u16

text \<open>
  \<open>conslog\<close> is what the kernel has printed: the calls of \<^verbatim>\<open>cprintf\<close>, each with its format string
  and arguments, in order.
\<close>

datatype carg = CInt int | CStr "byte list"

record kcpu =
  this_cpu :: nat
  cpus :: "nat \<Rightarrow> cpu"
  locks :: "lockid \<Rightarrow> spinlock"
  conslog :: "(string \<times> carg list) list"

abbreviation mycpu :: "'z kcpu_scheme \<Rightarrow> cpu" where
  "mycpu s \<equiv> cpus s (this_cpu s)"

definition upd_cpu :: "(cpu \<Rightarrow> cpu) \<Rightarrow> 'z kcpu_scheme \<Rightarrow> 'z kcpu_scheme" where
  "upd_cpu f s = s\<lparr>cpus := (cpus s)(this_cpu s := f (mycpu s))\<rparr>"

definition upd_lock :: "lockid \<Rightarrow> (spinlock \<Rightarrow> spinlock) \<Rightarrow> 'z kcpu_scheme \<Rightarrow> 'z kcpu_scheme" where
  "upd_lock lk f s = s\<lparr>locks := (locks s)(lk := f (locks s lk))\<rparr>"

section \<open>The code\<close>

definition cli :: "(unit, 'z kcpu_scheme) kop" where
  "cli = modK (upd_cpu (flag_if_update (\<lambda>_. False)))"

definition sti :: "(unit, 'z kcpu_scheme) kop" where
  "sti = modK (upd_cpu (flag_if_update (\<lambda>_. True)))"

definition cprintf :: "string \<Rightarrow> carg list \<Rightarrow> (unit, 'z kcpu_scheme) kop" where
  "cprintf fmt args = modK (\<lambda>s. s\<lparr>conslog := conslog s @ [(fmt, args)]\<rparr>)"

definition initlock :: "lockid \<Rightarrow> string \<Rightarrow> (unit, 'z kcpu_scheme) kop" where
  "initlock lk name = modK (upd_lock lk (\<lambda>_. \<lparr>locked = False, lname = name, lcpu = None\<rparr>))"

definition holding :: "lockid \<Rightarrow> 'z kcpu_scheme \<Rightarrow> bool" where
  "holding lk s \<longleftrightarrow> locked (locks s lk) \<and> lcpu (locks s lk) = Some (this_cpu s)"

definition pushcli :: "(unit, 'z kcpu_scheme) kop" where
  "pushcli =
     bindK (getK (\<lambda>s. flag_if (mycpu s))) (\<lambda>eflags.
     thenK cli (
     bindK (getK (\<lambda>s. ncli (mycpu s))) (\<lambda>n.
     thenK (modK (upd_cpu (ncli_update (\<lambda>_. s32 (n + 1))))) (
     whenK (n = 0) (modK (upd_cpu (intena_update (\<lambda>_. eflags))))))))"

definition popcli :: "(unit, 'z kcpu_scheme) kop" where
  "popcli =
     bindK (getK (\<lambda>s. flag_if (mycpu s))) (\<lambda>eflags.
     if eflags then panicK ''popcli - interruptible''
     else
       thenK (modK (upd_cpu (\<lambda>c. c\<lparr>ncli := s32 (ncli c - 1)\<rparr>))) (
       bindK (getK mycpu) (\<lambda>c.
       if ncli c < 0 then panicK ''popcli''
       else whenK (ncli c = 0 \<and> intena c) sti)))"

text \<open>
  The loop \<^verbatim>\<open>while(xchg(&lk->locked, 1) != 0)\<close> leaves a lock that is held as it is, so one
  round decides: the lock is taken, or the processor keeps spinning.
\<close>

definition acquire :: "lockid \<Rightarrow> (unit, 'z kcpu_scheme) kop" where
  "acquire lk =
     thenK pushcli (
     bindK (getK (holding lk)) (\<lambda>h.
     if h then panicK ''acquire''
     else (\<lambda>s. if locked (locks s lk) then Spin s
               else Ok () (upd_lock lk (\<lambda>l. l\<lparr>locked := True, lcpu := Some (this_cpu s)\<rparr>) s))))"

definition release :: "lockid \<Rightarrow> (unit, 'z kcpu_scheme) kop" where
  "release lk =
     bindK (getK (holding lk)) (\<lambda>h.
     if \<not> h then panicK ''release''
     else
       thenK (modK (upd_lock lk (\<lambda>l. l\<lparr>lcpu := None\<rparr>))) (
       thenK (modK (upd_lock lk (\<lambda>l. l\<lparr>locked := False\<rparr>)))
       popcli))"

section \<open>What a critical section does to the processor\<close>

text \<open>
  A processor is in order when its \<^verbatim>\<open>pushcli\<close> depth is not negative, has room to grow, and
  interrupts are off while the depth is positive.  \<open>pushed\<close> and \<open>popped\<close> are what \<^verbatim>\<open>pushcli\<close>
  and \<^verbatim>\<open>popcli\<close> do to it, and \<open>saved\<close> what a balanced pair leaves behind: the outermost
  \<^verbatim>\<open>pushcli\<close> stores the interrupt flag it found in \<^verbatim>\<open>intena\<close>.  \<open>taken\<close> and \<open>dropped\<close> do the same
  for a lock.
\<close>

definition cpu_ok :: "cpu \<Rightarrow> bool" where
  "cpu_ok c \<longleftrightarrow> 0 \<le> ncli c \<and> ncli c < 1000 \<and> (0 < ncli c \<longrightarrow> \<not> flag_if c)"

definition pushed :: "cpu \<Rightarrow> cpu" where
  "pushed c = c\<lparr>ncli := ncli c + 1, intena := (if ncli c = 0 then flag_if c else intena c), flag_if := False\<rparr>"

definition popped :: "cpu \<Rightarrow> cpu" where
  "popped c = c\<lparr>ncli := ncli c - 1, flag_if := (ncli c = 1 \<and> intena c)\<rparr>"

definition saved :: "cpu \<Rightarrow> cpu" where
  "saved c = (if ncli c = 0 then c\<lparr>intena := flag_if c\<rparr> else c)"

definition lock_free :: "spinlock \<Rightarrow> bool" where
  "lock_free l \<longleftrightarrow> \<not> locked l \<and> lcpu l = None"

definition taken :: "nat \<Rightarrow> spinlock \<Rightarrow> spinlock" where
  "taken c l = l\<lparr>locked := True, lcpu := Some c\<rparr>"

definition dropped :: "spinlock \<Rightarrow> spinlock" where
  "dropped l = l\<lparr>locked := False, lcpu := None\<rparr>"

abbreviation irqsave :: "'z kcpu_scheme \<Rightarrow> 'z kcpu_scheme" where
  "irqsave s \<equiv> s\<lparr>cpus := (cpus s)(this_cpu s := saved (mycpu s))\<rparr>"

lemma pushcli_ok:
  assumes "cpu_ok (mycpu s)"
  shows "pushcli s = Ok () (s\<lparr>cpus := (cpus s)(this_cpu s := pushed (mycpu s))\<rparr>)"
proof -
  have "s32 (ncli (mycpu s) + 1) = ncli (mycpu s) + 1"
    using assms by (intro s32_id) (auto simp: cpu_ok_def)
  then show ?thesis
    by (cases "ncli (mycpu s) = 0"; cases "mycpu s")
      (simp_all add: kop pushcli_def cli_def upd_cpu_def pushed_def)
qed

lemma popcli_ok:
  assumes "cpu_ok (mycpu s)" "0 < ncli (mycpu s)"
  shows "popcli s = Ok () (s\<lparr>cpus := (cpus s)(this_cpu s := popped (mycpu s))\<rparr>)"
proof -
  have "s32 (ncli (mycpu s) - 1) = ncli (mycpu s) - 1"
    using assms by (intro s32_id) (auto simp: cpu_ok_def)
  with assms show ?thesis
    by (cases "mycpu s")
      (auto simp: kop popcli_def upd_cpu_def popped_def sti_def cpu_ok_def whenK_def)
qed

text \<open>The rules that run a critical section.\<close>

named_theorems lock_rules

lemma acquire_ok [lock_rules]:
  assumes "cpu_ok (mycpu s)" "lock_free (locks s lk)"
  shows "acquire lk s = Ok () (s\<lparr>cpus := (cpus s)(this_cpu s := pushed (mycpu s)),
    locks := (locks s)(lk := taken (this_cpu s) (locks s lk))\<rparr>)"
  using assms
  by (simp add: kop acquire_def pushcli_ok holding_def lock_free_def upd_lock_def taken_def)

lemma release_ok [lock_rules]:
  assumes "cpu_ok (mycpu s)" "0 < ncli (mycpu s)" "locked (locks s lk)" "lcpu (locks s lk) = Some (this_cpu s)"
  shows "release lk s = Ok () (s\<lparr>cpus := (cpus s)(this_cpu s := popped (mycpu s)),
    locks := (locks s)(lk := dropped (locks s lk))\<rparr>)"
  using assms popcli_ok [of "s\<lparr>locks := (locks s)(lk := dropped (locks s lk))\<rparr>"]
  by (cases "locks s lk") (simp add: kop release_def holding_def upd_lock_def dropped_def)

lemma taken_simps [simp]:
  "locked (taken c l)" "lcpu (taken c l) = Some c" "lname (taken c l) = lname l"
  "\<not> lock_free (taken c l)" "lock_free (dropped l)"
  by (simp_all add: taken_def dropped_def lock_free_def)

lemma dropped_taken [simp]: "lock_free l \<Longrightarrow> dropped (taken c l) = l"
  by (cases l) (simp add: taken_def dropped_def lock_free_def)

lemma cpu_fields [simp]:
  "cproc (pushed c) = cproc c" "cproc (popped c) = cproc c" "cproc (saved c) = cproc c"
  "ncli (pushed c) = ncli c + 1" "ncli (popped c) = ncli c - 1" "ncli (saved c) = ncli c"
  "\<not> flag_if (pushed c)" "flag_if (saved c) = flag_if c"
  by (simp_all add: pushed_def popped_def saved_def)

lemma popped_pushed [simp]: "cpu_ok c \<Longrightarrow> popped (pushed c) = saved c"
  by (cases c) (auto simp: cpu_ok_def pushed_def popped_def saved_def)

lemma saved_saved [simp]: "saved (saved c) = saved c"
  by (simp add: saved_def)

lemma cpu_ok_saved [simp]: "cpu_ok (saved c) = cpu_ok c"
  by (simp add: cpu_ok_def)

lemma cpu_ok_pushed [simp]: "cpu_ok (pushed c) \<longleftrightarrow> - 1 \<le> ncli c \<and> ncli c < 999"
  by (auto simp: cpu_ok_def)

lemma cpu_okD: "cpu_ok c \<Longrightarrow> 0 \<le> ncli c"
  by (simp add: cpu_ok_def)

lemma lock_freeD: "lock_free l \<Longrightarrow> \<not> locked l"
  by (simp add: lock_free_def)

text \<open>A section entered with depth below the bound is run by \<open>lock_rules\<close> with the facts about
  \<open>cpu_shallow\<close>.\<close>

definition cpu_shallow :: "cpu \<Rightarrow> bool" where
  "cpu_shallow c \<longleftrightarrow> cpu_ok c \<and> ncli c < 900"

lemma cpu_shallowD [simp]:
  "cpu_shallow c \<Longrightarrow> cpu_ok c" "cpu_shallow c \<Longrightarrow> ncli c < 999" "cpu_shallow c \<Longrightarrow> - 1 \<le> ncli c"
  "cpu_shallow c \<Longrightarrow> 0 \<le> ncli c" "cpu_shallow c \<Longrightarrow> ncli c < 998" "cpu_shallow c \<Longrightarrow> - 2 \<le> ncli c"
  "cpu_shallow c \<Longrightarrow> - 1 < ncli c" "cpu_shallow c \<Longrightarrow> - 2 < ncli c" "cpu_shallow c \<Longrightarrow> - 3 \<le> ncli c"
  "cpu_shallow c \<Longrightarrow> ncli c < 997" "cpu_shallow c \<Longrightarrow> 0 < 2 + ncli c" "cpu_shallow c \<Longrightarrow> 0 < 3 + ncli c"
  by (auto simp: cpu_shallow_def cpu_ok_def)

lemma saved_pushed [simp]: "cpu_shallow c \<Longrightarrow> saved (pushed c) = pushed c"
  "cpu_shallow c \<Longrightarrow> saved (pushed (pushed c)) = pushed (pushed c)"
  by (auto simp: saved_def cpu_shallow_def cpu_ok_def)

lemma cpu_shallow_saved [simp]: "cpu_shallow (saved c) = cpu_shallow c"
  by (simp add: cpu_shallow_def)

section \<open>Interleaving: mutual exclusion\<close>

text \<open>
  Between the accesses to \<^verbatim>\<open>lk->locked\<close> and \<^verbatim>\<open>lk->cpu\<close> other processors may run.  Each processor
  is at one of these points: outside, in the loop around \<^verbatim>\<open>xchg\<close>, past the \<^verbatim>\<open>xchg\<close> that found the
  lock free, inside the critical section, or past \<^verbatim>\<open>lk->cpu = 0\<close> in \<^verbatim>\<open>release\<close>.
\<close>

datatype spc = Outside | Looping | Won | Inside | Leaving

record lockrun =
  lkvar :: spinlock
  lkat :: "nat \<Rightarrow> spc"

inductive lock_step :: "lockrun \<Rightarrow> lockrun \<Rightarrow> bool" where
  enter: "lkat r c = Outside \<Longrightarrow> \<not> (locked (lkvar r) \<and> lcpu (lkvar r) = Some c) \<Longrightarrow>
     lock_step r (r\<lparr>lkat := (lkat r)(c := Looping)\<rparr>)"
| xchg_held: "lkat r c = Looping \<Longrightarrow> locked (lkvar r) \<Longrightarrow> lock_step r r"
| xchg_free: "lkat r c = Looping \<Longrightarrow> \<not> locked (lkvar r) \<Longrightarrow>
     lock_step r (r\<lparr>lkvar := (lkvar r)\<lparr>locked := True\<rparr>, lkat := (lkat r)(c := Won)\<rparr>)"
| set_cpu: "lkat r c = Won \<Longrightarrow>
     lock_step r (r\<lparr>lkvar := (lkvar r)\<lparr>lcpu := Some c\<rparr>, lkat := (lkat r)(c := Inside)\<rparr>)"
| clear_cpu: "lkat r c = Inside \<Longrightarrow> locked (lkvar r) \<and> lcpu (lkvar r) = Some c \<Longrightarrow>
     lock_step r (r\<lparr>lkvar := (lkvar r)\<lparr>lcpu := None\<rparr>, lkat := (lkat r)(c := Leaving)\<rparr>)"
| xchg_release: "lkat r c = Leaving \<Longrightarrow>
     lock_step r (r\<lparr>lkvar := (lkvar r)\<lparr>locked := False\<rparr>, lkat := (lkat r)(c := Outside)\<rparr>)"

definition lock_start :: "string \<Rightarrow> lockrun" where
  "lock_start name = \<lparr>lkvar = \<lparr>locked = False, lname = name, lcpu = None\<rparr>, lkat = (\<lambda>_. Outside)\<rparr>"

inductive lock_reachable :: "lockrun \<Rightarrow> bool" where
  start: "lock_reachable (lock_start name)"
| step: "lock_reachable r \<Longrightarrow> lock_step r r' \<Longrightarrow> lock_reachable r'"

definition owner_at :: "spc \<Rightarrow> bool" where
  "owner_at p \<longleftrightarrow> p = Won \<or> p = Inside \<or> p = Leaving"

text \<open>The inductive invariant: one owner at most, the flag tells whether there is one, and
  \<^verbatim>\<open>lk->cpu\<close> names the processor inside.\<close>

definition lock_inv :: "lockrun \<Rightarrow> bool" where
  "lock_inv r \<longleftrightarrow>
     (\<forall>c d. owner_at (lkat r c) \<longrightarrow> owner_at (lkat r d) \<longrightarrow> c = d) \<and>
     (locked (lkvar r) \<longleftrightarrow> (\<exists>c. owner_at (lkat r c))) \<and>
     (\<forall>c. lcpu (lkvar r) = Some c \<longleftrightarrow> lkat r c = Inside)"

lemma lock_inv_start: "lock_inv (lock_start name)"
  by (simp add: lock_inv_def lock_start_def owner_at_def)

lemma lock_inv_step:
  assumes "lock_step r r'" and "lock_inv r"
  shows "lock_inv r'"
  using assms
proof (induction rule: lock_step.induct)
  case (enter r c)
  then show ?case by (auto simp: lock_inv_def owner_at_def split: if_splits) (metis spc.distinct)+
next
  case (xchg_free r c)
  then have "\<forall>d. \<not> owner_at (lkat r d)" by (auto simp: lock_inv_def)
  with xchg_free show ?case by (auto simp: lock_inv_def owner_at_def split: if_splits)
next
  case (set_cpu r c)
  then have "\<forall>d. owner_at (lkat r d) \<longrightarrow> d = c" by (auto simp: lock_inv_def owner_at_def)
  with set_cpu show ?case by (auto simp: lock_inv_def owner_at_def split: if_splits)
next
  case (clear_cpu r c)
  then have "\<forall>d. owner_at (lkat r d) \<longrightarrow> d = c" by (auto simp: lock_inv_def owner_at_def)
  with clear_cpu show ?case by (auto simp: lock_inv_def owner_at_def split: if_splits)
next
  case (xchg_release r c)
  then have "\<forall>d. owner_at (lkat r d) \<longrightarrow> d = c" by (auto simp: lock_inv_def owner_at_def)
  with xchg_release show ?case by (auto simp: lock_inv_def owner_at_def split: if_splits)
qed auto

lemma lock_reachable_inv: "lock_reachable r \<Longrightarrow> lock_inv r"
  by (induction rule: lock_reachable.induct) (auto intro: lock_inv_start lock_inv_step)

text \<open>
  The two models of the code agree: a run of \<^verbatim>\<open>acquire\<close> or \<^verbatim>\<open>release\<close> on one processor is a sequence of these steps of that processor, with
  the same effect on the lock, and a processor that spins in \<^verbatim>\<open>acquire\<close> repeats the step of a held lock.
\<close>

lemma pushcli_locks: "\<exists>u. pushcli s = Ok () u \<and> locks u = locks s \<and> this_cpu u = this_cpu s"
  by (auto simp: pushcli_def kop cli_def upd_cpu_def whenK_def)

lemma popcli_locks: "popcli s = Ok () u \<Longrightarrow> locks u = locks s"
  by (auto simp: popcli_def kop sti_def upd_cpu_def whenK_def split: if_splits)

lemma acquire_steps:
  assumes "acquire lk s = Ok () t" "lkvar r = locks s lk" "lkat r (this_cpu s) = Outside"
  shows "rtranclp lock_step r (r\<lparr>lkvar := locks t lk, lkat := (lkat r)(this_cpu s := Inside)\<rparr>)"
proof -
  let ?c = "this_cpu s" and ?l = "locks s lk"
  obtain u where u: "pushcli s = Ok () u" "locks u = locks s" "this_cpu u = this_cpu s" using pushcli_locks by blast
  have f: "\<not> (locked ?l \<and> lcpu ?l = Some ?c)" "\<not> locked ?l" "locks t lk = ?l\<lparr>locked := True, lcpu := Some ?c\<rparr>"
    using assms(1) u by (auto simp: acquire_def kop holding_def upd_lock_def split: if_splits)
  let ?r1 = "r\<lparr>lkat := (lkat r)(?c := Looping)\<rparr>"
  let ?r2 = "?r1\<lparr>lkvar := (lkvar ?r1)\<lparr>locked := True\<rparr>, lkat := (lkat ?r1)(?c := Won)\<rparr>"
  have "lock_step r ?r1" by (rule lock_step.enter [OF assms(3)]) (use f(1) assms(2) in simp)
  moreover have "lock_step ?r1 ?r2" by (rule lock_step.xchg_free) (use f(2) assms(2) in simp_all)
  moreover have "lock_step ?r2 (?r2\<lparr>lkvar := (lkvar ?r2)\<lparr>lcpu := Some ?c\<rparr>, lkat := (lkat ?r2)(?c := Inside)\<rparr>)"
    by (rule lock_step.set_cpu) simp
  ultimately have "rtranclp lock_step r (?r2\<lparr>lkvar := (lkvar ?r2)\<lparr>lcpu := Some ?c\<rparr>, lkat := (lkat ?r2)(?c := Inside)\<rparr>)" by auto
  then show ?thesis using f(3) assms(2) by simp
qed

lemma acquire_spins:
  assumes "acquire lk s = Spin t" "lkvar r = locks s lk" "lkat r (this_cpu s) = Outside"
  shows "lock_step r (r\<lparr>lkat := (lkat r)(this_cpu s := Looping)\<rparr>)"
    "lock_step (r\<lparr>lkat := (lkat r)(this_cpu s := Looping)\<rparr>) (r\<lparr>lkat := (lkat r)(this_cpu s := Looping)\<rparr>)"
proof -
  obtain u where u: "pushcli s = Ok () u" "locks u = locks s" "this_cpu u = this_cpu s" using pushcli_locks by blast
  have "\<not> holding lk s" "locked (locks s lk)"
    using assms(1) u by (auto simp: acquire_def kop holding_def split: if_splits)
  then show "lock_step r (r\<lparr>lkat := (lkat r)(this_cpu s := Looping)\<rparr>)"
    "lock_step (r\<lparr>lkat := (lkat r)(this_cpu s := Looping)\<rparr>) (r\<lparr>lkat := (lkat r)(this_cpu s := Looping)\<rparr>)"
    using assms(2,3) by (auto simp: holding_def intro: lock_step.enter lock_step.xchg_held [of _ "this_cpu s"])
qed

lemma release_steps:
  assumes "release lk s = Ok () t" "lkvar r = locks s lk" "lkat r (this_cpu s) = Inside"
  shows "rtranclp lock_step r (r\<lparr>lkvar := locks t lk, lkat := (lkat r)(this_cpu s := Outside)\<rparr>)"
proof -
  let ?c = "this_cpu s" and ?l = "locks s lk"
  have h: "locked ?l \<and> lcpu ?l = Some ?c" using assms(1) by (auto simp: release_def kop holding_def split: if_splits)
  then have "\<exists>u. popcli u = Ok () t \<and> locks u lk = ?l\<lparr>lcpu := None, locked := False\<rparr>"
    using assms(1) by (auto simp: release_def kop holding_def upd_lock_def split: if_splits)
  then have l: "locks t lk = ?l\<lparr>lcpu := None, locked := False\<rparr>" using popcli_locks by metis
  let ?r1 = "r\<lparr>lkvar := (lkvar r)\<lparr>lcpu := None\<rparr>, lkat := (lkat r)(?c := Leaving)\<rparr>"
  have "lock_step r ?r1" by (rule lock_step.clear_cpu [OF assms(3)]) (use h assms(2) in simp)
  moreover have "lock_step ?r1 (?r1\<lparr>lkvar := (lkvar ?r1)\<lparr>locked := False\<rparr>, lkat := (lkat ?r1)(?c := Outside)\<rparr>)"
    by (rule lock_step.xchg_release) simp
  ultimately have "rtranclp lock_step r (?r1\<lparr>lkvar := (lkvar ?r1)\<lparr>locked := False\<rparr>, lkat := (lkat ?r1)(?c := Outside)\<rparr>)" by auto
  then show ?thesis using l assms(2) by simp
qed

section \<open>Properties\<close>

inductive_cases lock_stepE: "lock_step r r'"

text \<open>
  C5.  Mutual exclusion.  Whatever the interleaving of the steps of \<^verbatim>\<open>acquire\<close> and \<^verbatim>\<open>release\<close> on
  any number of processors, at most one processor is inside the critical section, and the test
  of \<^verbatim>\<open>holding\<close> is true on exactly that processor.
\<close>

theorem spinlock_mutual_exclusion:
  assumes "lock_reachable r"
  shows "(lkat r c = Inside \<and> lkat r d = Inside \<longrightarrow> c = d) \<and>
    (locked (lkvar r) \<and> lcpu (lkvar r) = Some c \<longleftrightarrow> lkat r c = Inside)"
  using lock_reachable_inv [OF assms] by (auto simp: lock_inv_def owner_at_def)

definition lock_demo :: lockrun where
  "lock_demo = \<lparr>lkvar = \<lparr>locked = True, lname = ''kmem'', lcpu = Some 1\<rparr>,
     lkat = (\<lambda>_. Outside)(1 := Inside, 0 := Looping)\<rparr>"

lemma lock_demo_reachable: "lock_reachable lock_demo"
proof -
  let ?r0 = "lock_start ''kmem''"
  let ?r1 = "?r0\<lparr>lkat := (lkat ?r0)(1 := Looping)\<rparr>"
  let ?r2 = "?r1\<lparr>lkvar := (lkvar ?r1)\<lparr>locked := True\<rparr>, lkat := (lkat ?r1)(1 := Won)\<rparr>"
  let ?r3 = "?r2\<lparr>lkvar := (lkvar ?r2)\<lparr>lcpu := Some 1\<rparr>, lkat := (lkat ?r2)(1 := Inside)\<rparr>"
  let ?r4 = "?r3\<lparr>lkat := (lkat ?r3)(0 := Looping)\<rparr>"
  have "lock_step ?r0 ?r1" by (rule lock_step.enter) (simp_all add: lock_start_def)
  moreover have "lock_step ?r1 ?r2" by (rule lock_step.xchg_free) (simp_all add: lock_start_def)
  moreover have "lock_step ?r2 ?r3" by (rule lock_step.set_cpu) simp
  moreover have "lock_step ?r3 ?r4" by (rule lock_step.enter) (simp_all add: lock_start_def)
  ultimately have "lock_reachable ?r4" by (meson lock_reachable.intros)
  moreover have "?r4 = lock_demo" by (simp add: lock_demo_def lock_start_def)
  ultimately show ?thesis by (simp only:)
qed

theorem spinlock_mutual_exclusion_witness:
  "locked (lkvar lock_demo) \<and> lcpu (lkvar lock_demo) = Some 1 \<longleftrightarrow> lkat lock_demo 1 = Inside"
  using spinlock_mutual_exclusion [OF lock_demo_reachable, of 1 1] by simp

end
