(* ===== verification/Kstring.thy ===== *)
theory Kstring
  imports Prelude
begin

unbundle bit_operations_syntax

text \<open>
  Byte-addressed memory and the routines of \<^verbatim>\<open>string.c\<close> (with \<^verbatim>\<open>stosb\<close> and \<^verbatim>\<open>stosl\<close> of \<^verbatim>\<open>x86.h\<close>)
  on it.  Addresses are the kernel's virtual addresses, so pointer arithmetic wraps at 32 bits.
\<close>

section \<open>Memory\<close>

type_synonym memory = "addr \<Rightarrow> byte"

definition byte_of :: "nat \<Rightarrow> u32 \<Rightarrow> byte" where
  "byte_of k v = ucast (drop_bit (8 * k) v)"

definition word_of_bytes :: "byte \<Rightarrow> byte \<Rightarrow> byte \<Rightarrow> byte \<Rightarrow> u32" where
  "word_of_bytes b0 b1 b2 b3 =
     ucast b0 OR push_bit 8 (ucast b1) OR push_bit 16 (ucast b2) OR push_bit 24 (ucast b3)"

text \<open>32-bit loads and stores, little endian.\<close>

definition ld32 :: "memory \<Rightarrow> addr \<Rightarrow> u32" where
  "ld32 m a = word_of_bytes (m a) (m (a + 1)) (m (a + 2)) (m (a + 3))"

definition st32 :: "memory \<Rightarrow> addr \<Rightarrow> u32 \<Rightarrow> memory" where
  "st32 m a v = m(a := byte_of 0 v, a + 1 := byte_of 1 v, a + 2 := byte_of 2 v, a + 3 := byte_of 3 v)"

definition bytes_at :: "memory \<Rightarrow> addr \<Rightarrow> nat \<Rightarrow> byte list" where
  "bytes_at m a n = map (\<lambda>i. m (a + of_nat i)) [0..<n]"

lemma bit_byte_of [simp]: "bit (byte_of k v) n \<longleftrightarrow> n < 8 \<and> bit v (8 * k + n)"
  by (auto simp: byte_of_def bit_simps)

lemma bit_word_of_bytes:
  "bit (word_of_bytes b0 b1 b2 b3) n \<longleftrightarrow>
     (n < 8 \<and> bit b0 n) \<or> (8 \<le> n \<and> n < 16 \<and> bit b1 (n - 8)) \<or>
     (16 \<le> n \<and> n < 24 \<and> bit b2 (n - 16)) \<or> (24 \<le> n \<and> n < 32 \<and> bit b3 (n - 24))"
  by (auto simp: word_of_bytes_def bit_simps dest: bit_imp_le_length)

lemma word_of_bytes_byte_of [simp]:
  "word_of_bytes (byte_of 0 v) (byte_of (Suc 0) v) (byte_of 2 v) (byte_of 3 v) = v"
proof (rule bit_eqI)
  fix n
  show "bit (word_of_bytes (byte_of 0 v) (byte_of (Suc 0) v) (byte_of 2 v) (byte_of 3 v)) n = bit v n"
    by (cases "n < 8"; cases "n < 16"; cases "n < 24"; cases "n < 32")
      (simp_all add: bit_word_of_bytes, (auto dest: bit_imp_le_length)?)
qed

lemma byte_of_word_of_bytes [simp]:
  "byte_of 0 (word_of_bytes b0 b1 b2 b3) = b0"
  "byte_of (Suc 0) (word_of_bytes b0 b1 b2 b3) = b1"
  "byte_of 2 (word_of_bytes b0 b1 b2 b3) = b2"
  "byte_of 3 (word_of_bytes b0 b1 b2 b3) = b3"
  by (rule bit_eqI; auto simp: bit_word_of_bytes dest: bit_imp_le_length)+

lemma add_ne_self [simp]:
  fixes a :: addr
  shows "a + 1 \<noteq> a" "a + 2 \<noteq> a" "a + 3 \<noteq> a" "a + 2 \<noteq> a + 1" "a + 3 \<noteq> a + 1" "a + 3 \<noteq> a + 2"
  by simp_all

lemma ld32_st32_same [simp]: "ld32 (st32 m a v) a = v"
  by (simp add: ld32_def st32_def)

lemma st32_other: "unat (x - a) \<ge> 4 \<Longrightarrow> st32 m a v x = m x"
  by (auto simp: st32_def)

lemma st32_apply:
  "st32 m a v x = (if unat (x - a) < 4 then byte_of (unat (x - a)) v else m x)"
proof (cases "unat (x - a) < 4")
  case True
  then have "unat (x - a) = unat (0 :: addr) \<or> unat (x - a) = unat (1 :: addr) \<or>
      unat (x - a) = unat (2 :: addr) \<or> unat (x - a) = unat (3 :: addr)"
    unfolding unat_0 unat_1 unat_numeral by (simp add: take_bit_eq_mod) linarith
  then have "x - a = 0 \<or> x - a = 1 \<or> x - a = 2 \<or> x - a = 3"
    by (simp only: word_unat_eq_iff [symmetric])
  then have "x = a \<or> x = a + 1 \<or> x = a + 2 \<or> x = a + 3"
    by (simp only: diff_eq_eq add_0 add.commute)
  with True show ?thesis by (auto simp: st32_def)
next
  case False
  then show ?thesis by (simp add: st32_other)
qed

section \<open>memset\<close>

fun stosb :: "memory \<Rightarrow> addr \<Rightarrow> byte \<Rightarrow> nat \<Rightarrow> memory" where
  "stosb m a d 0 = m"
| "stosb m a d (Suc n) = stosb (m(a := d)) (a + 1) d n"

fun stosl :: "memory \<Rightarrow> addr \<Rightarrow> u32 \<Rightarrow> nat \<Rightarrow> memory" where
  "stosl m a d 0 = m"
| "stosl m a d (Suc n) = stosl (st32 m a d) (a + 4) d n"

definition memset :: "memory \<Rightarrow> addr \<Rightarrow> u32 \<Rightarrow> nat \<Rightarrow> memory" where
  "memset m dst c n =
     (if sint dst mod 4 = 0 \<and> n mod 4 = 0 then
        (let c = c AND 0xFF in
         stosl m dst (push_bit 24 c OR push_bit 16 c OR push_bit 8 c OR c) (n div 4))
      else stosb m dst (ucast c) n)"

lemma bit_0xFF: "bit (c AND 0xFF :: u32) j \<longleftrightarrow> j < 8 \<and> bit c j"
proof -
  have "bit (0xFF :: u32) j \<longleftrightarrow> j < 8"
    using bit_mask_iff [where 'a = u32, of 8 j] by (auto simp: mask_eq_exp_minus_1)
  then show ?thesis by (simp only: bit_and_iff) blast
qed

lemma splat_bytes:
  fixes e :: u32
  assumes e: "\<And>j. bit e j \<longleftrightarrow> j < 8 \<and> bit c j" and "k < 4"
  shows "byte_of k (push_bit 24 e OR push_bit 16 e OR push_bit 8 e OR e) = ucast c"
proof (rule bit_eqI)
  fix n assume n: "possible_bit TYPE(byte) n"
  from assms have "k = 0 \<or> k = 1 \<or> k = 2 \<or> k = 3" by linarith
  with n show "bit (byte_of k (push_bit 24 e OR push_bit 16 e OR push_bit 8 e OR e)) n = bit (ucast c :: byte) n"
    by (elim disjE) (simp_all add: bit_or_iff bit_push_bit_iff bit_ucast_iff e)
qed

lemmas memset_pattern = splat_bytes [OF bit_0xFF]

lemma stosl_pattern:
  assumes "\<And>k. k < 4 \<Longrightarrow> byte_of k d = b"
  shows "stosl m a d n = stosb m a b (4 * n)"
proof (induction n arbitrary: m a)
  case (Suc n)
  have "stosb m a b (4 * Suc n) = stosb (m(a := b, a + 1 := b, a + 2 := b, a + 3 := b)) (a + 4) b (4 * n)"
    by (simp add: numeral_eq_Suc add.assoc)
  moreover have "st32 m a d = m(a := b, a + 1 := b, a + 2 := b, a + 3 := b)"
    using assms [of 0] assms [of 1] assms [of 2] assms [of 3] by (simp add: st32_def)
  ultimately show ?case by (simp only: stosl.simps Suc.IH)
qed simp

lemma memset_is_stosb: "memset m dst c n = stosb m dst (ucast c) n"
proof (cases "sint dst mod 4 = 0 \<and> n mod 4 = 0")
  case True
  then have "4 * (n div 4) = n" by (auto simp: dvd_eq_mod_eq_0 [symmetric])
  with stosl_pattern [OF memset_pattern, of m dst c "n div 4"]
  show ?thesis unfolding memset_def Let_def by (simp only: True if_True simp_thms)
next
  case False
  then show ?thesis unfolding memset_def by (simp only: if_False)
qed

lemma unat_diff_Suc:
  fixes x a :: addr
  assumes "x \<noteq> a"
  shows "unat (x - (a + 1)) = unat (x - a) - 1"
proof -
  have "x - (a + 1) = (x - a) - 1" by simp
  moreover have "unat ((x - a) - 1) = unat (x - a) - 1"
    using assms by (intro unat_minus_one) simp
  ultimately show ?thesis by (simp only:)
qed

lemma stosb_apply:
  "n \<le> 2 ^ 32 \<Longrightarrow> stosb m a d n x = (if unat (x - a) < n then d else m x)"
proof (induction n arbitrary: m a)
  case (Suc n)
  show ?case
  proof (cases "x = a")
    case True
    have "unat (- 1 :: addr) = 2 ^ 32 - 1" by (simp add: unsigned_minus_1_eq_mask mask_eq_exp_minus_1)
    with Suc True show ?thesis by auto
  next
    case False
    then have "unat (x - a) \<noteq> 0" by (simp add: unat_eq_0)
    with False Suc show ?thesis by (auto simp: unat_diff_Suc)
  qed
qed simp

lemma memset_apply:
  "n \<le> 2 ^ 32 \<Longrightarrow> memset m dst c n x = (if unat (x - dst) < n then ucast c else m x)"
  by (simp add: memset_is_stosb stosb_apply)

section \<open>memmove\<close>

fun copy_up :: "memory \<Rightarrow> addr \<Rightarrow> addr \<Rightarrow> nat \<Rightarrow> memory" where
  "copy_up m d s 0 = m"
| "copy_up m d s (Suc n) = copy_up (m(d := m s)) (d + 1) (s + 1) n"

fun copy_down :: "memory \<Rightarrow> addr \<Rightarrow> addr \<Rightarrow> nat \<Rightarrow> memory" where
  "copy_down m d s 0 = m"
| "copy_down m d s (Suc n) = copy_down (m(d - 1 := m (s - 1))) (d - 1) (s - 1) n"

definition memmove :: "memory \<Rightarrow> addr \<Rightarrow> addr \<Rightarrow> nat \<Rightarrow> memory" where
  "memmove m dst src n =
     (if src < dst \<and> src + of_nat n > dst
      then copy_down m (dst + of_nat n) (src + of_nat n) n
      else copy_up m dst src n)"

text \<open>\<^verbatim>\<open>memcpy\<close> calls \<^verbatim>\<open>memmove\<close>.\<close>

definition memcpy :: "memory \<Rightarrow> addr \<Rightarrow> addr \<Rightarrow> nat \<Rightarrow> memory" where
  "memcpy m dst src n = memmove m dst src n"

lemma unat_ne_0: "x \<noteq> a \<Longrightarrow> unat (x - a :: addr) \<noteq> 0"
  by (simp add: unat_eq_0)

lemma copy_up_apply:
  "n \<le> 2 ^ 32 \<Longrightarrow> d = s \<or> n \<le> unat (d - s) \<Longrightarrow>
   copy_up m d s n x = (if unat (x - d) < n then m (s + (x - d)) else m x)"
proof (induction n arbitrary: m d s)
  case (Suc n)
  let ?m = "m(d := m s)"
  have IH: "copy_up ?m (d + 1) (s + 1) n x =
      (if unat (x - (d + 1)) < n then ?m (s + 1 + (x - (d + 1))) else ?m x)"
    using Suc.prems by (intro Suc.IH) auto
  have e: "s + 1 + (x - (d + 1)) = s + (x - d)" by simp
  show ?case
  proof (cases "x = d")
    case True
    have "unat (- 1 :: addr) = 2 ^ 32 - 1" by (simp add: unsigned_minus_1_eq_mask mask_eq_exp_minus_1)
    with True Suc.prems IH show ?thesis by auto
  next
    case False
    have "?m (s + (x - d)) = m (s + (x - d))" if "unat (x - d) < Suc n"
    proof (cases "s + (x - d) = d")
      case True
      then have "x - d = d - s" by (simp add: algebra_simps)
      with that Suc.prems False show ?thesis by auto
    qed simp
    moreover have "unat (x - d) \<noteq> 0" using False by (rule unat_ne_0)
    ultimately show ?thesis using IH False
      by (auto simp: e unat_diff_Suc)
  qed
qed simp

lemma copy_down_apply:
  "n \<le> 2 ^ 32 \<Longrightarrow> d = s \<or> n \<le> unat (s - d) \<Longrightarrow>
   copy_down m d s n x = (if unat (d - 1 - x) < n then m (x + (s - d)) else m x)"
proof (induction n arbitrary: m d s)
  case (Suc n)
  let ?m = "m(d - 1 := m (s - 1))"
  have IH: "copy_down ?m (d - 1) (s - 1) n x =
      (if unat (d - 1 - 1 - x) < n then ?m (x + (s - 1 - (d - 1))) else ?m x)"
    using Suc.prems by (intro Suc.IH) auto
  have e: "x + (s - 1 - (d - 1)) = x + (s - d)" by simp
  show ?case
  proof (cases "x = d - 1")
    case True
    have "unat (- 1 :: addr) = 2 ^ 32 - 1" by (simp add: unsigned_minus_1_eq_mask mask_eq_exp_minus_1)
    with True Suc.prems IH show ?thesis by (auto simp: algebra_simps)
  next
    case False
    have "?m (x + (s - d)) = m (x + (s - d))" if "unat (d - 1 - x) < Suc n"
    proof (cases "x + (s - d) = d - 1")
      case True
      then have "d - 1 - x = s - d" by (simp add: algebra_simps)
      with that Suc.prems have "d = s" by auto
      with True False show ?thesis by simp
    qed simp
    moreover have "unat (d - 1 - x) \<noteq> 0" using False unat_ne_0 [of "d - 1" x] by auto
    moreover have "unat (d - 1 - 1 - x) = unat (d - 1 - x) - 1"
      using False unat_minus_one [of "d - 1 - x"] by (simp add: algebra_simps)
    ultimately show ?thesis using IH False
      by (auto simp: e)
  qed
qed simp

text \<open>\<^verbatim>\<open>memmove\<close> copies the old contents of the source, whether or not the ranges overlap.\<close>

lemma memmove_apply:
  assumes "unat src + n < 2 ^ 32" "unat dst + n \<le> 2 ^ 32"
  shows "memmove m dst src n x = (if unat (x - dst) < n then m (src + (x - dst)) else m x)"
proof (cases "src < dst \<and> src + of_nat n > dst")
  case True
  then have lt: "unat src < unat dst" "unat dst < unat src + n"
    using assms by (auto simp: word_less_nat_alt unat_add_of_nat)
  have c: "n \<le> unat (src + of_nat n - (dst + of_nat n))"
    using lt assms by (simp add: unat_diff)
  have r: "unat (dst + of_nat n - 1 - x) < n \<longleftrightarrow> unat (x - dst) < n"
  proof -
    have n: "0 < n" "n < 2 ^ 32" using lt assms by auto
    define y where "y = x - dst"
    define k where "k = (of_nat (n - 1) :: addr)"
    have e: "dst + of_nat n - 1 - x = k - y"
      using n by (simp add: of_nat_diff k_def y_def)
    have k: "unat k = n - 1"
      unfolding k_def using n by (intro unat_of_nat32) simp
    have "unat y < 2 ^ 32" using unsigned_less [of y, where 'a = nat] by simp
    then show ?thesis unfolding e y_def [symmetric] unat_diff k using n by auto
  qed
  have "m (x + (src - dst)) = m (src + (x - dst))" by (simp add: algebra_simps)
  with True assms c r show ?thesis
    by (simp add: memmove_def copy_down_apply)
next
  case False
  then have "dst = src \<or> n \<le> unat (dst - src)"
    using assms by (auto simp: word_less_nat_alt unat_add_of_nat unat_diff not_less word_unat_eq_iff)
  then have "copy_up m dst src n x = (if unat (x - dst) < n then m (src + (x - dst)) else m x)"
    using assms by (intro copy_up_apply) auto
  then show ?thesis unfolding memmove_def using False by (simp only: if_False)
qed

section \<open>Comparison and strings\<close>

fun memcmp :: "memory \<Rightarrow> addr \<Rightarrow> addr \<Rightarrow> nat \<Rightarrow> int" where
  "memcmp m v1 v2 0 = 0"
| "memcmp m v1 v2 (Suc n) =
     (if m v1 \<noteq> m v2 then uint (m v1) - uint (m v2) else memcmp m (v1 + 1) (v2 + 1) n)"

fun strncmp :: "memory \<Rightarrow> addr \<Rightarrow> addr \<Rightarrow> nat \<Rightarrow> int" where
  "strncmp m p q 0 = 0"
| "strncmp m p q (Suc n) =
     (if m p \<noteq> 0 \<and> m p = m q then strncmp m (p + 1) (q + 1) n else uint (m p) - uint (m q))"

fun strncpy_loop :: "memory \<Rightarrow> addr \<Rightarrow> addr \<Rightarrow> nat \<Rightarrow> memory" where
  "strncpy_loop m s t 0 = m"
| "strncpy_loop m s t (Suc n) =
     (if m t \<noteq> 0 then strncpy_loop (m(s := m t)) (s + 1) (t + 1) n
      else stosb (m(s := m t)) (s + 1) 0 n)"

definition strncpy :: "memory \<Rightarrow> addr \<Rightarrow> addr \<Rightarrow> int \<Rightarrow> memory" where
  "strncpy m s t n = (if n \<le> 0 then m else strncpy_loop m s t (nat n))"

fun safestrcpy_loop :: "memory \<Rightarrow> addr \<Rightarrow> addr \<Rightarrow> nat \<Rightarrow> memory" where
  "safestrcpy_loop m s t 0 = m(s := 0)"
| "safestrcpy_loop m s t (Suc n) =
     (if m t \<noteq> 0 then safestrcpy_loop (m(s := m t)) (s + 1) (t + 1) n
      else (m(s := m t))(s + 1 := 0))"

definition safestrcpy :: "memory \<Rightarrow> addr \<Rightarrow> addr \<Rightarrow> int \<Rightarrow> memory" where
  "safestrcpy m s t n = (if n \<le> 0 then m else safestrcpy_loop m s t (nat (n - 1)))"

text \<open>\<^verbatim>\<open>strlen\<close> runs until it meets a zero byte; \<open>None\<close> when there is none.\<close>

partial_function (option) strlen_from :: "memory \<Rightarrow> addr \<Rightarrow> nat \<Rightarrow> nat option" where
  "strlen_from m s n = (if m (s + of_nat n) = 0 then Some n else strlen_from m s (Suc n))"

definition strlen :: "memory \<Rightarrow> addr \<Rightarrow> nat option" where
  "strlen m s = strlen_from m s 0"

text \<open>The C string in a byte array: the bytes before the first zero.\<close>

definition cstr :: "byte list \<Rightarrow> byte list" where
  "cstr bs = takeWhile (\<lambda>b. b \<noteq> 0) bs"

lemma bytes_at_0 [simp]: "bytes_at m a 0 = []"
  by (simp add: bytes_at_def)

lemma bytes_at_Suc: "bytes_at m a (Suc n) = m a # bytes_at m (a + 1) n"
proof -
  have "[0..<Suc n] = 0 # map Suc [0..<n]" by (simp add: map_Suc_upt upt_conv_Cons)
  then show ?thesis by (simp add: bytes_at_def add.assoc o_def del: upt_Suc)
qed

lemma length_bytes_at [simp]: "length (bytes_at m a n) = n"
  by (simp add: bytes_at_def)

lemma nth_bytes_at [simp]: "i < n \<Longrightarrow> bytes_at m a n ! i = m (a + of_nat i)"
  by (simp add: bytes_at_def)

lemma memcmp_eq_0: "memcmp m p q n = 0 \<longleftrightarrow> bytes_at m p n = bytes_at m q n"
  by (induction n arbitrary: p q) (auto simp: bytes_at_Suc word_uint_eq_iff)

lemma strncmp_eq_0: "strncmp m p q n = 0 \<longleftrightarrow> cstr (bytes_at m p n) = cstr (bytes_at m q n)"
  by (induction n arbitrary: p q) (auto simp: bytes_at_Suc cstr_def word_uint_eq_iff)

lemma strlen_from_first:
  assumes "m (s + of_nat k) = 0" "\<And>i. n \<le> i \<Longrightarrow> i < k \<Longrightarrow> m (s + of_nat i) \<noteq> 0" "n \<le> k"
  shows "strlen_from m s n = Some k"
  using assms
proof (induction "k - n" arbitrary: n)
  case 0
  then show ?case by (subst strlen_from.simps) simp
next
  case (Suc d)
  then have "strlen_from m s (Suc n) = Some k" by auto
  moreover have "m (s + of_nat n) \<noteq> 0" using Suc by auto
  ultimately show ?case by (subst strlen_from.simps) simp
qed

text \<open>
  The copies agree with their specification on the destination when the source lies outside it.
\<close>

lemma strncpy_loop_frame:
  "n \<le> 2 ^ 32 \<Longrightarrow> \<not> unat (x - s) < n \<Longrightarrow> strncpy_loop m s t n x = m x"
proof (induction n arbitrary: m s t)
  case (Suc n)
  have "x \<noteq> s" using Suc.prems by auto
  then have "\<not> unat (x - (s + 1)) < n"
    using Suc.prems by (auto simp: unat_diff_Suc)
  with Suc \<open>x \<noteq> s\<close> show ?case by (auto simp: stosb_apply)
qed simp

lemma bytes_at_stosb:
  "n < 2 ^ 32 \<Longrightarrow> bytes_at (stosb m s d n) s n = replicate n d"
  by (auto simp: stosb_apply unat_of_nat32 intro!: nth_equalityI)

lemma bytes_at_cong:
  "(\<And>i. i < n \<Longrightarrow> m (a + of_nat i) = m' (a + of_nat i)) \<Longrightarrow> bytes_at m a n = bytes_at m' a n"
  by (simp add: bytes_at_def)

text \<open>Where the bytes at \<open>t\<close> lie outside the \<open>n\<close> bytes at \<open>s\<close>.\<close>

definition apart :: "addr \<Rightarrow> addr \<Rightarrow> nat \<Rightarrow> bool" where
  "apart s t n \<longleftrightarrow> (\<forall>i < n. n \<le> unat (t + of_nat i - s))"

lemma apart_Suc:
  assumes "apart s t (Suc n)"
  shows "apart (s + 1) (t + 1) n" and "s \<noteq> t" and "i < n \<Longrightarrow> t + 1 + of_nat i \<noteq> s"
proof -
  have k: "Suc n \<le> unat (t + of_nat i - s)" if "i < Suc n" for i
    using assms that by (simp add: apart_def)
  have ne: "t + of_nat i \<noteq> s" if "i < Suc n" for i
    using k [OF that] by auto
  show "apart (s + 1) (t + 1) n"
  proof (unfold apart_def, intro allI impI)
    fix i assume "i < n"
    then have "Suc n \<le> unat (t + of_nat (Suc i) - s)" "t + of_nat (Suc i) \<noteq> s"
      using k [of "Suc i"] ne [of "Suc i"] by auto
    then show "n \<le> unat (t + 1 + of_nat i - (s + 1))"
      using unat_diff_Suc [of "t + of_nat (Suc i)" s] by (simp add: algebra_simps)
  qed
  show "s \<noteq> t" using ne [of 0] by auto
  show "i < n \<Longrightarrow> t + 1 + of_nat i \<noteq> s" using ne [of "Suc i"] by (simp add: add.assoc)
qed

lemma strncpy_loop_bytes:
  "n < 2 ^ 32 \<Longrightarrow> apart s t n \<Longrightarrow>
   bytes_at (strncpy_loop m s t n) s n =
     cstr (bytes_at m t n) @ replicate (n - length (cstr (bytes_at m t n))) 0"
proof (induction n arbitrary: m s t)
  case (Suc n)
  note ap = apart_Suc [OF Suc.prems(2)]
  have out: "\<not> unat (s - (s + 1)) < n"
    using Suc.prems by (simp add: unsigned_minus_1_eq_mask mask_eq_exp_minus_1)
  have src: "bytes_at (m(s := m t)) (t + 1) n = bytes_at m (t + 1) n"
    using ap(3) by (intro bytes_at_cong) auto
  show ?case
  proof (cases "m t = 0")
    case True
    have "stosb (m(s := 0)) (s + 1) 0 n s = 0" using Suc.prems out by (simp add: stosb_apply)
    with True Suc.prems show ?thesis
      by (simp add: bytes_at_Suc cstr_def bytes_at_stosb)
  next
    case False
    have "bytes_at (strncpy_loop (m(s := m t)) (s + 1) (t + 1) n) (s + 1) n =
        cstr (bytes_at m (t + 1) n) @ replicate (n - length (cstr (bytes_at m (t + 1) n))) 0"
      unfolding src [symmetric] using Suc.prems ap(1) by (intro Suc.IH) auto
    with False Suc.prems out show ?thesis
      by (simp add: bytes_at_Suc strncpy_loop_frame cstr_def)
  qed
qed (simp add: cstr_def)

lemma safestrcpy_loop_frame:
  "n < 2 ^ 32 \<Longrightarrow> \<not> unat (x - s) < Suc n \<Longrightarrow> safestrcpy_loop m s t n x = m x"
proof (induction n arbitrary: m s t)
  case (Suc n)
  have "x \<noteq> s" using Suc.prems by auto
  then have "\<not> unat (x - (s + 1)) < Suc n"
    using Suc.prems by (auto simp: unat_diff_Suc)
  moreover from this have "x \<noteq> s + 1" by auto
  ultimately show ?case using Suc \<open>x \<noteq> s\<close> by auto
qed auto

text \<open>\<^verbatim>\<open>safestrcpy\<close> always leaves a terminated string: as much of the source as fits.\<close>

lemma safestrcpy_loop_bytes:
  "Suc n < 2 ^ 32 \<Longrightarrow> apart s t (Suc n) \<Longrightarrow>
   cstr (bytes_at (safestrcpy_loop m s t n) s (Suc n)) = cstr (bytes_at m t n)"
proof (induction n arbitrary: m s t)
  case 0
  then show ?case by (simp add: bytes_at_Suc cstr_def)
next
  case (Suc n)
  note ap = apart_Suc [OF Suc.prems(2)]
  have out: "\<not> unat (s - (s + 1)) < Suc n"
    using Suc.prems by (simp add: unsigned_minus_1_eq_mask mask_eq_exp_minus_1)
  have src: "bytes_at (m(s := m t)) (t + 1) n = bytes_at m (t + 1) n"
    using ap(3) by (intro bytes_at_cong) auto
  show ?case
  proof (cases "m t = 0")
    case True
    then show ?thesis by (simp add: bytes_at_Suc cstr_def)
  next
    case False
    have "cstr (bytes_at (safestrcpy_loop (m(s := m t)) (s + 1) (t + 1) n) (s + 1) (Suc n)) =
        cstr (bytes_at m (t + 1) n)"
      unfolding src [symmetric] using Suc.prems ap(1) by (intro Suc.IH) auto
    with False Suc.prems out show ?thesis
      by (simp add: bytes_at_Suc [of _ s] bytes_at_Suc [of _ t] safestrcpy_loop_frame cstr_def)
  qed
qed

section \<open>Properties\<close>

text \<open>
  C37.  The word-at-a-time branch of \<^verbatim>\<open>memset\<close> writes what the byte loop writes: for every address,
  value and length, byte \<open>x\<close> of the result is the low byte of \<open>c\<close> inside the range and unchanged
  outside it.
\<close>

theorem memset_fills:
  assumes "n \<le> 2 ^ 32"
  shows "memset m dst c n = stosb m dst (ucast c) n \<and>
    memset m dst c n x = (if unat (x - dst) < n then ucast c else m x)"
  using assms by (simp add: memset_is_stosb stosb_apply)

theorem memset_fills_witness:
  "memset (\<lambda>_. 0) 0x80001000 7 8 0x80001007 = 7"
  using conjunct2 [OF memset_fills [where n = 8 and m = "\<lambda>_. 0" and dst = "0x80001000" and c = 7 and x = "0x80001007"]]
  by simp

text \<open>
  C36.  \<^verbatim>\<open>memmove\<close> copies correctly for every overlap of source and destination: afterwards each
  destination byte is the byte the source held before, and nothing else changed.
\<close>

theorem memmove_copies:
  assumes "unat src + n < 2 ^ 32" "unat dst + n \<le> 2 ^ 32"
  shows "bytes_at (memmove m dst src n) dst n = bytes_at m src n \<and>
    (\<forall>x. n \<le> unat (x - dst) \<longrightarrow> memmove m dst src n x = m x)"
proof -
  have "memmove m dst src n (dst + of_nat i) = m (src + of_nat i)" if "i < n" for i
    using that assms by (simp add: memmove_apply [OF assms] unat_of_nat32)
  then show ?thesis
    using assms by (auto simp: bytes_at_def memmove_apply [OF assms])
qed

theorem memmove_copies_witness:
  "bytes_at (memmove (\<lambda>a. ucast a) 0x1001 0x1000 3) 0x1001 3 = [0, 1, 2]"
proof -
  have "bytes_at (\<lambda>a. ucast a) 0x1000 3 = [0, 1, 2]"
    by code_simp
  then show ?thesis using memmove_copies [of "0x1000" 3 "0x1001" "\<lambda>a. ucast a"] by simp
qed

text \<open>
  \<^verbatim>\<open>safestrcpy\<close> stores the longest prefix of the source string that fits with its terminator
  into \<open>n\<close> bytes, always terminated, and writes nothing outside the \<open>n\<close> bytes.
\<close>

theorem safestrcpy_terminates_string:
  assumes "0 < n" "n < 2 ^ 31" "apart s t (nat n)"
  shows "cstr (bytes_at (safestrcpy m s t n) s (nat n)) = cstr (bytes_at m t (nat n - 1)) \<and>
    (\<forall>x. nat n \<le> unat (x - s) \<longrightarrow> safestrcpy m s t n x = m x)"
proof -
  obtain k where k: "nat n = Suc k" using assms by (cases "nat n") auto
  then have "nat (n - 1) = k" by linarith
  with k assms show ?thesis
    using safestrcpy_loop_bytes [of k s t m] safestrcpy_loop_frame [of k _ s m t]
    by (auto simp: safestrcpy_def)
qed

theorem safestrcpy_terminates_string_witness:
  "cstr (bytes_at (safestrcpy ((\<lambda>_. 7)(0x2002 := 0)) 0x1000 0x2000 16) 0x1000 16) = [7, 7]"
proof -
  have a: "apart 0x1000 0x2000 16"
  proof (unfold apart_def, intro allI impI)
    fix i :: nat assume "i < 16"
    then have "unat (0x1000 + of_nat i :: addr) = 0x1000 + i" by (simp add: unat_add_of_nat)
    then show "16 \<le> unat (0x2000 + of_nat i - 0x1000 :: addr)" by (simp add: algebra_simps)
  qed
  have "cstr (bytes_at ((\<lambda>_. 7)(0x2002 := 0)) 0x2000 15) = [7, 7]"
    by code_simp
  then show ?thesis
    using safestrcpy_terminates_string [of 16 "0x1000" "0x2000" "(\<lambda>_. 7)(0x2002 := 0)"] a by simp
qed

end
