(* ===== verification/Kalloc.thy ===== *)
theory Kalloc
  imports Spinlock Kstring
begin

unbundle bit_operations_syntax

text \<open>
  \<^verbatim>\<open>kalloc.c\<close>: the allocator of 4096-byte physical pages, with the address arithmetic of
  \<^verbatim>\<open>memlayout.h\<close> and \<^verbatim>\<open>mmu.h\<close> it uses.  The free list runs through the pages themselves: the
  first word of a free page is the address of the next one.  \<open>kend\<close> is the linker's symbol
  \<^verbatim>\<open>end\<close>; no operation writes it.
\<close>

section \<open>Addresses\<close>

definition PGSIZE :: nat where "PGSIZE = 4096"
definition KERNBASE :: addr where "KERNBASE = 0x80000000"
definition EXTMEM :: addr where "EXTMEM = 0x100000"
definition PHYSTOP :: addr where "PHYSTOP = 0xE000000"
definition DEVSPACE :: addr where "DEVSPACE = 0xFE000000"
definition KERNLINK :: addr where "KERNLINK = KERNBASE + EXTMEM"

definition v2p :: "addr \<Rightarrow> addr" where "v2p a = a - KERNBASE"
definition p2v :: "addr \<Rightarrow> addr" where "p2v a = a + KERNBASE"

definition PGROUNDUP :: "addr \<Rightarrow> addr" where
  "PGROUNDUP sz = (sz + of_nat PGSIZE - 1) AND NOT (of_nat PGSIZE - 1)"

definition PGROUNDDOWN :: "addr \<Rightarrow> addr" where
  "PGROUNDDOWN a = a AND NOT (of_nat PGSIZE - 1)"

lemma v2p_p2v [simp]: "v2p (p2v a) = a" and p2v_v2p [simp]: "p2v (v2p a) = a"
  by (simp_all add: v2p_def p2v_def)

section \<open>State and operations\<close>

record kmem = kcpu +
  mem :: memory
  kend :: addr
  use_lock :: bool
  freelist :: addr

definition kfree :: "addr \<Rightarrow> (unit, 'z kmem_scheme) kop" where
  "kfree v =
     bindK (getK kend) (\<lambda>e.
     if unat v mod PGSIZE \<noteq> 0 \<or> v < e \<or> v2p v \<ge> PHYSTOP then panicK ''kfree''
     else
       thenK (modK (\<lambda>s. s\<lparr>mem := memset (mem s) v 1 PGSIZE\<rparr>)) (
       bindK (getK use_lock) (\<lambda>ul.
       thenK (whenK ul (acquire KmemLock)) (
       thenK (modK (\<lambda>s. s\<lparr>mem := st32 (mem s) v (freelist s)\<rparr>)) (
       thenK (modK (\<lambda>s. s\<lparr>freelist := v\<rparr>)) (
       bindK (getK use_lock) (\<lambda>ul.
       whenK ul (release KmemLock))))))))"

definition kalloc :: "(addr, 'z kmem_scheme) kop" where
  "kalloc =
     bindK (getK use_lock) (\<lambda>ul.
     thenK (whenK ul (acquire KmemLock)) (
     bindK (getK freelist) (\<lambda>r.
     thenK (whenK (r \<noteq> 0) (modK (\<lambda>s. s\<lparr>freelist := ld32 (mem s) r\<rparr>))) (
     bindK (getK use_lock) (\<lambda>ul.
     thenK (whenK ul (release KmemLock)) (
     retK r))))))"

text \<open>What one call leaves of the processor and the lock.\<close>

definition kmem_lock_fx :: "'z kmem_scheme \<Rightarrow> 'z kmem_scheme" where
  "kmem_lock_fx s = (if use_lock s then irqsave s else s)"

definition kmem_ready :: "'z kmem_scheme \<Rightarrow> bool" where
  "kmem_ready s \<longleftrightarrow> (use_lock s \<longrightarrow> cpu_shallow (mycpu s) \<and> lock_free (locks s KmemLock))"

definition page_ok :: "'z kmem_scheme \<Rightarrow> addr \<Rightarrow> bool" where
  "page_ok s v \<longleftrightarrow> unat v mod PGSIZE = 0 \<and> kend s \<le> v \<and> v2p v < PHYSTOP"

lemma kfree_panics: "\<not> page_ok s v \<Longrightarrow> kfree v s = Panic ''kfree''"
  by (auto simp: kfree_def page_ok_def kop not_le not_less)

lemma kfree_eq:
  assumes "page_ok s v" "kmem_ready s"
  shows "kfree v s =
    Ok () ((kmem_lock_fx s)\<lparr>mem := st32 (memset (mem s) v 1 PGSIZE) v (freelist s), freelist := v\<rparr>)"
  using assms
  by (cases "use_lock s")
    (simp_all add: kfree_def page_ok_def kmem_ready_def kop not_le not_less kmem_lock_fx_def lock_rules)

lemma kalloc_eq:
  assumes "kmem_ready s"
  shows "kalloc s = Ok (freelist s) (if freelist s = 0 then kmem_lock_fx s
    else (kmem_lock_fx s)\<lparr>freelist := ld32 (mem s) (freelist s)\<rparr>)"
  using assms
  by (cases "use_lock s"; cases "freelist s = 0")
    (simp_all add: kalloc_def kmem_ready_def kop kmem_lock_fx_def lock_rules)

section \<open>Pages\<close>

definition aligned :: "addr \<Rightarrow> bool" where
  "aligned v \<longleftrightarrow> unat v mod PGSIZE = 0"

definition in_page :: "addr \<Rightarrow> addr \<Rightarrow> bool" where
  "in_page v x \<longleftrightarrow> unat (x - v) < PGSIZE"

lemma alignedE: "aligned a \<Longrightarrow> (\<And>k. unat a = PGSIZE * k \<Longrightarrow> thesis) \<Longrightarrow> thesis"
  by (auto simp: aligned_def dvd_eq_mod_eq_0 [symmetric] elim: dvdE)

lemma aligned_le: "aligned a \<Longrightarrow> unat a + PGSIZE \<le> 2 ^ 32"
  using unsigned_less [of a, where 'a = nat] by (elim alignedE) (simp add: PGSIZE_def)

lemma aligned_apart:
  assumes "aligned a" "aligned v" "a \<noteq> v"
  shows "unat a + PGSIZE \<le> unat v \<or> unat v + PGSIZE \<le> unat a"
proof -
  obtain j k where jk: "unat a = PGSIZE * j" "unat v = PGSIZE * k"
    using assms by (elim alignedE)
  with assms(3) have "j < k \<or> k < j" by (metis linorder_neqE_nat word_unat_eq_iff)
  with jk show ?thesis by (auto simp: PGSIZE_def)
qed

lemma other_page:
  assumes "aligned a" "aligned v" "a \<noteq> v" "i < PGSIZE"
  shows "\<not> in_page v (a + of_nat i)"
proof -
  have "unat (a + of_nat i) = unat a + i"
    using aligned_le [OF assms(1)] assms(4) by (intro unat_add_of_nat) simp
  then show ?thesis
    using aligned_apart [OF assms(1-3)] aligned_le [OF assms(1)] aligned_le [OF assms(2)] assms(4)
    by (auto simp: in_page_def unat_diff)
qed

text \<open>A change of memory inside one page.\<close>

definition only_page :: "addr \<Rightarrow> memory \<Rightarrow> memory \<Rightarrow> bool" where
  "only_page v m m' \<longleftrightarrow> (\<forall>x. \<not> in_page v x \<longrightarrow> m' x = m x)"

lemma only_page_ld32:
  assumes "only_page v m m'" "aligned a" "aligned v" "a \<noteq> v"
  shows "ld32 m' a = ld32 m a"
  using assms other_page [OF assms(2-4), of 0] other_page [OF assms(2-4), of 1]
    other_page [OF assms(2-4), of 2] other_page [OF assms(2-4), of 3]
  by (simp add: only_page_def ld32_def PGSIZE_def)

lemma only_page_trans: "only_page v m m' \<Longrightarrow> only_page v m' m'' \<Longrightarrow> only_page v m m''"
  by (simp add: only_page_def)

lemma only_page_memset: "n \<le> PGSIZE \<Longrightarrow> only_page v m (memset m v c n)"
  by (auto simp: only_page_def in_page_def memset_apply PGSIZE_def)

lemma only_page_st32: "only_page v m (st32 m v w)"
  by (auto simp: only_page_def in_page_def st32_apply PGSIZE_def)

section \<open>The free list\<close>

fun free_path :: "memory \<Rightarrow> addr \<Rightarrow> addr list \<Rightarrow> bool" where
  "free_path m p [] \<longleftrightarrow> p = 0"
| "free_path m p (a # as) \<longleftrightarrow> p = a \<and> a \<noteq> 0 \<and> free_path m (ld32 m a) as"

text \<open>The free list holds exactly the pages \<open>xs\<close>, and the allocator can run.\<close>

definition kmem_inv :: "'z kmem_scheme \<Rightarrow> addr list \<Rightarrow> bool" where
  "kmem_inv s xs \<longleftrightarrow> free_path (mem s) (freelist s) xs \<and> distinct xs \<and>
     (\<forall>a \<in> set xs. page_ok s a) \<and> kmem_ready s"

lemma page_ok_aligned: "page_ok s v \<Longrightarrow> aligned v"
  by (simp add: page_ok_def aligned_def)

lemma page_ok_nonzero: "page_ok s v \<Longrightarrow> v \<noteq> 0"
  by (auto simp: page_ok_def v2p_def KERNBASE_def PHYSTOP_def)

lemma free_path_only_page:
  "only_page v m m' \<Longrightarrow> aligned v \<Longrightarrow> \<forall>a \<in> set xs. aligned a \<Longrightarrow> v \<notin> set xs \<Longrightarrow>
   free_path m' p xs = free_path m p xs"
  by (induction xs arbitrary: p) (auto simp: only_page_ld32)

lemma kmem_fx_fields [simp]:
  "mem (kmem_lock_fx s) = mem s" "kend (kmem_lock_fx s) = kend s"
  "use_lock (kmem_lock_fx s) = use_lock s" "freelist (kmem_lock_fx s) = freelist s"
  "kmem.more (kmem_lock_fx s) = kmem.more s" "this_cpu (kmem_lock_fx s) = this_cpu s"
  "locks (kmem_lock_fx s) = locks s"
  by (simp_all add: kmem_lock_fx_def)

lemma kmem_ready_fx [simp]: "kmem_ready (kmem_lock_fx s) = kmem_ready s"
  by (simp add: kmem_ready_def kmem_lock_fx_def)

lemma kmem_ready_upd [simp]:
  "kmem_ready (s\<lparr>mem := m\<rparr>) = kmem_ready s" "kmem_ready (s\<lparr>freelist := f\<rparr>) = kmem_ready s"
  by (simp_all add: kmem_ready_def)

lemma page_ok_simps [simp]:
  "page_ok (s\<lparr>mem := m\<rparr>) v = page_ok s v" "page_ok (s\<lparr>freelist := f\<rparr>) v = page_ok s v"
  "page_ok (kmem_lock_fx s) v = page_ok s v"
  by (simp_all add: page_ok_def)

lemma kfree_inv:
  assumes "kmem_inv s xs" "page_ok s v" "v \<notin> set xs"
  obtains t where "kfree v s = Ok () t" "kmem_inv t (v # xs)" "kend t = kend s"
    "only_page v (mem s) (mem t)" "kmem.more t = kmem.more s"
proof -
  let ?m = "st32 (memset (mem s) v 1 PGSIZE) v (freelist s)"
  let ?t = "(kmem_lock_fx s)\<lparr>mem := ?m, freelist := v\<rparr>"
  have op: "only_page v (mem s) ?m"
    by (rule only_page_trans [OF only_page_memset only_page_st32]) simp
  have "\<forall>a \<in> set xs. aligned a"
    using assms by (auto simp: kmem_inv_def page_ok_aligned)
  then have "free_path ?m (freelist s) xs"
    using assms free_path_only_page [OF op page_ok_aligned [OF assms(2)], of xs]
    by (auto simp: kmem_inv_def page_ok_aligned)
  then have "kmem_inv ?t (v # xs)"
    using assms by (auto simp: kmem_inv_def page_ok_nonzero)
  moreover have "kfree v s = Ok () ?t"
    using assms by (intro kfree_eq) (auto simp: kmem_inv_def)
  ultimately show ?thesis using op by (intro that [of ?t]) simp_all
qed

lemma kalloc_cons:
  assumes "kmem_inv s (a # as)"
  shows "kalloc s = Ok a ((kmem_lock_fx s)\<lparr>freelist := ld32 (mem s) a\<rparr>)"
    and "kmem_inv ((kmem_lock_fx s)\<lparr>freelist := ld32 (mem s) a\<rparr>) as"
  using assms by (auto simp: kmem_inv_def kalloc_eq)

lemma kalloc_nil:
  assumes "kmem_inv s []"
  shows "kalloc s = Ok 0 (kmem_lock_fx s)" and "kmem_inv (kmem_lock_fx s) []"
  using assms by (auto simp: kmem_inv_def kalloc_eq)

section \<open>Initialisation\<close>

text \<open>
  The loop of \<^verbatim>\<open>freerange\<close> ends: \<^verbatim>\<open>kfree\<close> panics on an address past the top of physical memory, so
  a page that was freed is followed by an address that did not wrap.
\<close>

lemma page_below_top: "page_ok s p \<Longrightarrow> unat p < 0x8E000000"
  by (auto simp: page_ok_def v2p_def KERNBASE_def PHYSTOP_def word_less_nat_alt unat_diff split: if_splits)

function freerange_loop :: "addr \<Rightarrow> addr \<Rightarrow> (unit, 'z kmem_scheme) kop" where
  "freerange_loop p vend s =
     (if p + of_nat PGSIZE \<le> vend then
        (case kfree p s of
           Ok _ t \<Rightarrow> freerange_loop (p + of_nat PGSIZE) vend t
         | Swtch t \<Rightarrow> Swtch t | Spin t \<Rightarrow> Spin t | Panic e \<Rightarrow> Panic e | Fault \<Rightarrow> Fault
         | NoFuel \<Rightarrow> NoFuel)
      else Ok () s)"
  by pat_completeness auto

termination
proof (relation "measure (\<lambda>(p, vend, s). 2 ^ 32 - unat p)")
  fix p vend :: addr and s t :: "'z kmem_scheme" and u
  assume "p + of_nat PGSIZE \<le> vend" "kfree p s = Ok u t"
  then have "page_ok s p" using kfree_panics by fastforce
  then have lt: "unat p < 0x8E000000" by (rule page_below_top)
  then have "unat (p + of_nat PGSIZE) = unat p + PGSIZE"
    by (intro unat_add_of_nat) (simp add: PGSIZE_def)
  with lt show "((p + of_nat PGSIZE, vend, t), p, vend, s) \<in> measure (\<lambda>(p, vend, s). 2 ^ 32 - unat p)"
    by (simp add: PGSIZE_def)
qed simp

declare freerange_loop.simps [simp del]

definition freerange :: "addr \<Rightarrow> addr \<Rightarrow> (unit, 'z kmem_scheme) kop" where
  "freerange vstart vend = freerange_loop (PGROUNDUP vstart) vend"

definition kinit1 :: "addr \<Rightarrow> addr \<Rightarrow> (unit, 'z kmem_scheme) kop" where
  "kinit1 vstart vend =
     thenK (initlock KmemLock ''kmem'') (
     thenK (modK (\<lambda>s. s\<lparr>use_lock := False\<rparr>))
     (freerange vstart vend))"

definition kinit2 :: "addr \<Rightarrow> addr \<Rightarrow> (unit, 'z kmem_scheme) kop" where
  "kinit2 vstart vend =
     thenK (freerange vstart vend)
     (modK (\<lambda>s. s\<lparr>use_lock := True\<rparr>))"

section \<open>The contract of a page allocator\<close>

text \<open>
  What the rest of the kernel relies on: the allocator is a stack of distinct valid pages.
\<close>

locale page_stack =
  fixes alloc :: "'s \<Rightarrow> (addr, 's) outcome"
    and free :: "addr \<Rightarrow> 's \<Rightarrow> (unit, 's) outcome"
    and pages :: "'s \<Rightarrow> addr list \<Rightarrow> bool"
    and valid :: "'s \<Rightarrow> addr \<Rightarrow> bool"
  assumes alloc_pop: "pages s (a # as) \<Longrightarrow> \<exists>t. alloc s = Ok a t \<and> pages t as \<and> valid t = valid s"
    and alloc_empty: "pages s [] \<Longrightarrow> \<exists>t. alloc s = Ok 0 t \<and> pages t [] \<and> valid t = valid s"
    and free_push: "pages s xs \<Longrightarrow> valid s v \<Longrightarrow> v \<notin> set xs \<Longrightarrow>
      \<exists>t. free v s = Ok () t \<and> pages t (v # xs) \<and> valid t = valid s"
    and free_invalid: "\<not> valid s v \<Longrightarrow> \<exists>e. free v s = Panic e"
    and pages_distinct: "pages s xs \<Longrightarrow> distinct xs"
    and pages_valid: "pages s xs \<Longrightarrow> v \<in> set xs \<Longrightarrow> valid s v \<and> v \<noteq> 0"
begin

lemma alloc_many:
  "pages s xs \<Longrightarrow> n \<le> length xs \<Longrightarrow>
   \<exists>t. repeatK n alloc s = Ok (take n xs) t \<and> pages t (drop n xs) \<and> valid t = valid s"
proof (induction n arbitrary: s xs)
  case 0
  then show ?case by simp
next
  case (Suc n)
  then obtain a as where xs: "xs = a # as" by (cases xs) auto
  with Suc.prems obtain u where u: "alloc s = Ok a u" "pages u as" "valid u = valid s"
    using alloc_pop by blast
  with Suc xs obtain t where "repeatK n alloc u = Ok (take n as) t" "pages t (drop n as)" "valid t = valid u"
    by fastforce
  with u xs show ?case by (simp add: kop)
qed

lemma alloc_exhausted:
  assumes "pages s xs"
  shows "\<exists>t. repeatK (Suc (length xs)) alloc s = Ok (xs @ [0]) t \<and> pages t []"
  using assms
proof (induction xs arbitrary: s)
  case Nil
  then obtain t where "alloc s = Ok 0 t" "pages t []" using alloc_empty by blast
  then show ?case by (simp add: kop)
next
  case (Cons a as)
  then obtain u where u: "alloc s = Ok a u" "pages u as" using alloc_pop by blast
  with Cons obtain t where "repeatK (Suc (length as)) alloc u = Ok (as @ [0]) t" "pages t []"
    by blast
  with u show ?case by (simp add: kop)
qed

lemma free_then_alloc:
  assumes "pages s xs" "valid s v" "v \<notin> set xs"
  shows "\<exists>t. bindK (free v) (\<lambda>_. alloc) s = Ok v t \<and> pages t xs"
proof -
  obtain u where "free v s = Ok () u" "pages u (v # xs)" using free_push [OF assms] by blast
  moreover from this obtain t where "alloc u = Ok v t" "pages t xs" using alloc_pop by blast
  ultimately show ?thesis by (simp add: kop)
qed

end

interpretation kal: page_stack kalloc kfree kmem_inv page_ok
proof (unfold_locales, goal_cases)
  case (1 s a as)
  then show ?case using kalloc_cons [OF 1] by (auto simp: fun_eq_iff)
next
  case (2 s)
  then show ?case using kalloc_nil [OF 2] by (auto simp: fun_eq_iff)
next
  case (3 s xs v)
  then obtain t where "kfree v s = Ok () t" "kmem_inv t (v # xs)" "kend t = kend s"
    by (rule kfree_inv)
  then show ?case by (auto simp: fun_eq_iff page_ok_def)
next
  case (4 s v)
  then show ?case using kfree_panics by auto
next
  case (5 s xs)
  then show ?case by (simp add: kmem_inv_def)
next
  case (6 s xs v)
  then show ?case by (auto simp: kmem_inv_def dest: page_ok_nonzero)
qed

text \<open>\<^verbatim>\<open>freerange\<close> puts every whole page of its range on the free list, the last one first.\<close>

definition page_seq :: "addr \<Rightarrow> nat \<Rightarrow> addr list" where
  "page_seq p n = map (\<lambda>i. p + of_nat (PGSIZE * i)) [0..<n]"

lemma page_seq_Suc: "page_seq p (Suc n) = p # page_seq (p + of_nat PGSIZE) n"
proof -
  have "[0..<Suc n] = 0 # map Suc [0..<n]" by (simp add: map_Suc_upt upt_conv_Cons)
  then show ?thesis by (simp add: page_seq_def o_def algebra_simps del: upt_Suc)
qed

lemma freerange_loop_pages:
  assumes "kmem_inv s xs" "unat p + PGSIZE * n \<le> unat vend" "unat vend < unat p + PGSIZE * Suc n"
    "unat vend + PGSIZE < 2 ^ 32"
    "\<forall>v \<in> set (page_seq p n). page_ok s v" "distinct (page_seq p n)" "set (page_seq p n) \<inter> set xs = {}"
  shows "\<exists>t. freerange_loop p vend s = Ok () t \<and> kmem_inv t (rev (page_seq p n) @ xs) \<and> kend t = kend s"
  using assms
proof (induction n arbitrary: p s xs)
  case 0
  have "unat (p + of_nat PGSIZE) = unat p + PGSIZE"
    using 0 by (intro unat_add_of_nat) (simp add: PGSIZE_def)
  then have "\<not> p + of_nat PGSIZE \<le> vend" using 0 by (simp add: word_le_nat_alt)
  with 0 show ?case by (subst freerange_loop.simps) (simp add: page_seq_def)
next
  case (Suc n)
  let ?q = "p + of_nat PGSIZE"
  have q: "unat ?q = unat p + PGSIZE"
    using Suc.prems by (intro unat_add_of_nat) (simp add: PGSIZE_def)
  then have le: "?q \<le> vend" using Suc.prems by (simp add: word_le_nat_alt)
  have p: "page_ok s p" "p \<notin> set xs" using Suc.prems by (auto simp: page_seq_Suc)
  obtain u where u: "kfree p s = Ok () u" "kmem_inv u (p # xs)" "kend u = kend s"
    using kfree_inv [OF Suc.prems(1) p] by blast
  have ok: "page_ok u v = page_ok s v" for v using u(3) by (simp add: page_ok_def)
  have "\<exists>t. freerange_loop ?q vend u = Ok () t \<and> kmem_inv t (rev (page_seq ?q n) @ p # xs) \<and> kend t = kend u"
    using Suc.prems u(2) q by (intro Suc.IH) (auto simp: page_seq_Suc ok)
  with u le show ?case
    by (subst freerange_loop.simps) (auto simp: page_seq_Suc)
qed

section \<open>Rounding to pages\<close>

lemma page_mask: "(x :: addr) AND NOT (of_nat PGSIZE - 1) = push_bit 12 (drop_bit 12 x)"
proof -
  have "(of_nat PGSIZE - 1 :: addr) = mask 12" by (simp add: PGSIZE_def mask_eq_exp_minus_1)
  then show ?thesis by (auto intro!: bit_eqI simp: bit_simps)
qed

lemma unat_page_mask: "unat ((x :: addr) AND NOT (of_nat PGSIZE - 1)) = unat x div PGSIZE * PGSIZE"
proof -
  have "unat x div 4096 * 4096 < 2 ^ 32" using unsigned_less [of x, where 'a = nat] by simp
  then have "unat (push_bit 12 (drop_bit 12 x)) = unat x div 4096 * 4096"
    unfolding unsigned_push_bit_eq unsigned_drop_bit_eq
    by (simp add: push_bit_eq_mult drop_bit_eq_div take_bit_nat_eq_self take_bit_nat_less_exp unsigned_take_bit_eq)
  then show ?thesis unfolding page_mask by (simp add: PGSIZE_def)
qed

lemma unat_PGROUNDDOWN: "unat (PGROUNDDOWN a) = unat a div PGSIZE * PGSIZE"
  by (simp only: PGROUNDDOWN_def unat_page_mask)

lemma unat_PGROUNDUP:
  assumes "unat a + PGSIZE < 2 ^ 32"
  shows "unat (PGROUNDUP a) = (unat a + PGSIZE - 1) div PGSIZE * PGSIZE"
proof -
  have "a + of_nat PGSIZE - 1 = a + of_nat (PGSIZE - 1)" by (simp add: PGSIZE_def)
  then have "unat (a + of_nat PGSIZE - 1) = unat a + PGSIZE - 1"
    using assms unat_add_of_nat [of a "PGSIZE - 1"] by (simp add: PGSIZE_def add.commute)
  then show ?thesis by (simp only: PGROUNDUP_def unat_page_mask)
qed

lemma PGROUNDUP_bounds:
  assumes "unat a + PGSIZE < 2 ^ 32"
  shows "unat a \<le> unat (PGROUNDUP a)" "unat (PGROUNDUP a) < unat a + PGSIZE" "aligned (PGROUNDUP a)"
  using assms by (auto simp: unat_PGROUNDUP aligned_def PGSIZE_def)

section \<open>Boot\<close>

lemma unat_page_seq:
  fixes p :: addr
  assumes "unat p + PGSIZE * n \<le> 2 ^ 32" "i < n"
  shows "unat (p + of_nat (PGSIZE * i)) = unat p + PGSIZE * i"
  using assms by (intro unat_add_of_nat) (auto simp: PGSIZE_def)

lemma distinct_page_seq:
  assumes "unat p + PGSIZE * n \<le> 2 ^ 32"
  shows "distinct (page_seq p n)"
proof -
  have "inj_on (\<lambda>i. p + of_nat (PGSIZE * i)) {0..<n}"
  proof (rule inj_onI)
    fix i j assume ij: "i \<in> {0..<n}" "j \<in> {0..<n}" "p + of_nat (PGSIZE * i) = p + of_nat (PGSIZE * j)"
    then have "unat p + PGSIZE * i = unat p + PGSIZE * j"
      by (metis assms atLeastLessThan_iff unat_page_seq)
    then show "i = j" by (simp add: PGSIZE_def)
  qed
  then show ?thesis by (simp add: page_seq_def distinct_map)
qed

lemma page_seq_ok:
  assumes "aligned p" "kend s \<le> p" "KERNBASE \<le> p" "unat p + PGSIZE * n \<le> unat (KERNBASE + PHYSTOP)"
  shows "\<forall>v \<in> set (page_seq p n). page_ok s v"
proof
  fix v assume "v \<in> set (page_seq p n)"
  then obtain i where i: "i < n" "v = p + of_nat (PGSIZE * i)" by (auto simp: page_seq_def)
  have top: "unat (KERNBASE + PHYSTOP) = 0x8E000000" by (simp add: KERNBASE_def PHYSTOP_def)
  have v: "unat v = unat p + PGSIZE * i"
    unfolding i(2) by (rule unat_page_seq [of p n i]) (use assms(4) i top in simp_all)
  have "PGSIZE * Suc i \<le> PGSIZE * n" using i by (intro mult_le_mono2) simp
  then have "unat v + PGSIZE \<le> 0x8E000000" using v assms(4) top by simp
  with v assms(1-3) show "page_ok s v"
    by (auto simp: page_ok_def aligned_def word_le_nat_alt word_less_nat_alt v2p_def unat_diff KERNBASE_def PHYSTOP_def
        PGSIZE_def mod_add_eq [symmetric])
qed

section \<open>Properties\<close>

text \<open>
  C12.  The allocator hands out every page of the free list once: \<^verbatim>\<open>kalloc\<close> called once more than there
  are free pages returns the pages \<open>xs\<close> of the list, all different, valid and non-null, and then 0.
\<close>

theorem kalloc_hands_out_each_page_once:
  assumes "kmem_inv s xs"
  shows "\<exists>t. repeatK (Suc (length xs)) kalloc s = Ok (xs @ [0]) t \<and> kmem_inv t [] \<and> distinct xs \<and>
    (\<forall>v. v \<in> set xs \<longrightarrow> page_ok s v \<and> v \<noteq> 0)"
  using kal.alloc_exhausted [OF assms] kal.pages_distinct [OF assms] kal.pages_valid [OF assms] by blast

definition kmem0 :: "addr list \<Rightarrow> kmem" where
  "kmem0 xs = \<lparr>this_cpu = 0, cpus = \<lambda>_. \<lparr>ncli = 0, intena = False, flag_if = False, cproc = None, cr3 = 0,
       ts_esp0 = 0, ts_ss0 = 0\<rparr>,
     locks = \<lambda>_. \<lparr>locked = False, lname = '''', lcpu = None\<rparr>, conslog = [],
     mem = (case xs of [a, b] \<Rightarrow> st32 (st32 (\<lambda>_. 0) b 0) a b | _ \<Rightarrow> \<lambda>_. 0), kend = 0x80200000, use_lock = True,
     freelist = (case xs of [] \<Rightarrow> 0 | a # _ \<Rightarrow> a)\<rparr>"

lemma kmem0_inv: "kmem_inv (kmem0 [0x80400000, 0x80500000]) [0x80400000, 0x80500000]"
proof -
  have "ld32 (st32 (st32 (\<lambda>_. 0) 0x80500000 0) 0x80400000 0x80500000) 0x80500000 = 0"
    by code_simp
  then show ?thesis
    by (simp add: kmem_inv_def kmem0_def kmem_ready_def cpu_shallow_def cpu_ok_def lock_free_def page_ok_def PGSIZE_def
      v2p_def KERNBASE_def PHYSTOP_def)
qed

theorem kalloc_hands_out_each_page_once_witness:
  "\<exists>t. repeatK 3 kalloc (kmem0 [0x80400000, 0x80500000]) = Ok [0x80400000, 0x80500000, 0] t \<and> kmem_inv t []"
  using kalloc_hands_out_each_page_once [OF kmem0_inv] by (simp add: numeral_3_eq_3 numeral_2_eq_2 del: repeatK.simps) blast

text \<open>
  C29.  \<^verbatim>\<open>kfree\<close> of a page that is not free succeeds, keeps every byte outside the page, and the next
  \<^verbatim>\<open>kalloc\<close> returns that page; \<^verbatim>\<open>kfree\<close> of an address that is not page aligned, below the kernel's
  end or above physical memory panics.
\<close>

theorem kfree_then_kalloc:
  assumes "kmem_inv s xs"
  shows "(page_ok s v \<and> v \<notin> set xs \<longrightarrow>
      (\<exists>t. kfree v s = Ok () t \<and> only_page v (mem s) (mem t) \<and> (\<exists>u. kalloc t = Ok v u \<and> kmem_inv u xs))) \<and>
    (\<not> page_ok s v \<longrightarrow> kfree v s = Panic ''kfree'')"
proof (intro conjI impI)
  assume "page_ok s v \<and> v \<notin> set xs"
  then obtain t where t: "kfree v s = Ok () t" "kmem_inv t (v # xs)" "only_page v (mem s) (mem t)"
    using kfree_inv [OF assms] by blast
  with kal.alloc_pop [OF t(2)]
  show "\<exists>t. kfree v s = Ok () t \<and> only_page v (mem s) (mem t) \<and> (\<exists>u. kalloc t = Ok v u \<and> kmem_inv u xs)" by blast
qed (rule kfree_panics)

theorem kfree_then_kalloc_witness:
  "kfree 0x80400001 (kmem0 [0x80400000, 0x80500000]) = Panic ''kfree'' \<and>
    (\<exists>t. kfree 0x80600000 (kmem0 [0x80400000, 0x80500000]) = Ok () t)"
  using kfree_then_kalloc [OF kmem0_inv, of "0x80400001"] kfree_then_kalloc [OF kmem0_inv, of "0x80600000"]
  by (auto simp: page_ok_def kmem0_def PGSIZE_def v2p_def KERNBASE_def PHYSTOP_def)

text \<open>
  C30.  \<^verbatim>\<open>kinit1(vstart, vend)\<close> ends, and leaves on the free list exactly the whole pages between
  \<^verbatim>\<open>vstart\<close> and \<^verbatim>\<open>vend\<close>, the highest first.
\<close>

theorem kinit1_frees_range:
  assumes "freelist s = 0" "cpu_shallow (mycpu s)" "KERNBASE \<le> vstart" "kend s \<le> vstart"
    "vstart \<le> vend" "PGROUNDUP vstart \<le> vend" "vend \<le> KERNBASE + PHYSTOP"
  shows "\<exists>t. kinit1 vstart vend s = Ok () t \<and>
    kmem_inv t (rev (page_seq (PGROUNDUP vstart) ((unat vend - unat (PGROUNDUP vstart)) div PGSIZE)))"
proof -
  let ?p = "PGROUNDUP vstart" and ?n = "(unat vend - unat (PGROUNDUP vstart)) div PGSIZE"
  let ?s = "upd_lock KmemLock (\<lambda>_. \<lparr>locked = False, lname = ''kmem'', lcpu = None\<rparr>) s\<lparr>use_lock := False\<rparr>"
  have top: "unat (KERNBASE + PHYSTOP) = 0x8E000000" by (simp add: KERNBASE_def PHYSTOP_def)
  have le: "unat vstart \<le> unat vend" "unat ?p \<le> unat vend" "unat vend \<le> 0x8E000000"
    using assms(5-7) top by (simp_all add: word_le_nat_alt)
  then have "unat vstart + PGSIZE < 2 ^ 32" by (simp add: PGSIZE_def)
  note b = PGROUNDUP_bounds [OF this]
  have n: "unat ?p + PGSIZE * ?n \<le> unat vend" "unat vend < unat ?p + PGSIZE * Suc ?n"
    using le by (auto simp: PGSIZE_def)
  have ge: "kend ?s \<le> ?p" "KERNBASE \<le> ?p"
    using assms(3,4) b(1) by (simp_all add: word_le_nat_alt upd_lock_def)
  have "kmem_inv ?s []"
    using assms(1,2) by (simp add: kmem_inv_def kmem_ready_def upd_lock_def)
  then have "\<exists>t. freerange_loop ?p vend ?s = Ok () t \<and> kmem_inv t (rev (page_seq ?p ?n) @ []) \<and> kend t = kend ?s"
    using n le top by (intro freerange_loop_pages page_seq_ok distinct_page_seq ge b(3)) (auto simp: PGSIZE_def)
  then show ?thesis by (auto simp: kop kinit1_def initlock_def freerange_def)
qed

theorem kinit1_frees_range_witness:
  "\<exists>t. kinit1 0x80200001 0x80203fff (kmem0 []) = Ok () t \<and> kmem_inv t [0x80202000, 0x80201000]"
proof -
  have p: "PGROUNDUP 0x80200001 = 0x80201000" by (simp add: PGROUNDUP_def PGSIZE_def)
  have q: "page_seq 0x80201000 2 = [0x80201000, 0x80202000]" by code_simp
  show ?thesis
    using kinit1_frees_range [of "kmem0 []" "0x80200001" "0x80203fff"]
    by (simp add: p q kmem0_def cpu_shallow_def cpu_ok_def KERNBASE_def PHYSTOP_def PGSIZE_def)
qed

end
