(* ===== verification/Vm.thy ===== *)
theory Vm
  imports Kalloc
begin

unbundle bit_operations_syntax

text \<open>
  \<^verbatim>\<open>vm.c\<close> and the page-table part of \<^verbatim>\<open>mmu.h\<close>: two-level page tables in memory, the kernel
  mappings, and growing, shrinking, copying and freeing of user address spaces.  A page
  directory is the kernel address of its page, and a null pointer is 0.  \<open>kdata\<close> is the
  linker's symbol \<^verbatim>\<open>data\<close>.
\<close>

section \<open>Page-table entries\<close>

definition PTE_P :: u32 where "PTE_P = 0x001"
definition PTE_W :: u32 where "PTE_W = 0x002"
definition PTE_U :: u32 where "PTE_U = 0x004"
definition NPDENTRIES :: nat where "NPDENTRIES = 1024"
definition NPTENTRIES :: nat where "NPTENTRIES = 1024"

definition PDX :: "addr \<Rightarrow> u32" where "PDX va = drop_bit 22 va AND 0x3FF"
definition PTX :: "addr \<Rightarrow> u32" where "PTX va = drop_bit 12 va AND 0x3FF"
definition PTE_ADDR :: "u32 \<Rightarrow> addr" where "PTE_ADDR pte = pte AND NOT 0xFFF"
definition PTE_FLAGS :: "u32 \<Rightarrow> u32" where "PTE_FLAGS pte = pte AND 0xFFF"

record kvm = kmem +
  kpgdir :: addr
  kdata :: addr

section \<open>Walking and mapping\<close>

definition store32 :: "addr \<Rightarrow> u32 \<Rightarrow> (unit, 'z kmem_scheme) kop" where
  "store32 a v = modK (\<lambda>s. s\<lparr>mem := st32 (mem s) a v\<rparr>)"

definition fill :: "addr \<Rightarrow> u32 \<Rightarrow> nat \<Rightarrow> (unit, 'z kmem_scheme) kop" where
  "fill a c n = modK (\<lambda>s. s\<lparr>mem := memset (mem s) a c n\<rparr>)"

definition pde_at :: "addr \<Rightarrow> addr \<Rightarrow> addr" where
  "pde_at pgdir va = pgdir + 4 * PDX va"

definition walkpgdir :: "addr \<Rightarrow> addr \<Rightarrow> bool \<Rightarrow> (addr, 'z kmem_scheme) kop" where
  "walkpgdir pgdir va alloc =
     bindK (getK (\<lambda>s. ld32 (mem s) (pde_at pgdir va))) (\<lambda>pde.
     if pde AND PTE_P \<noteq> 0 then retK (p2v (PTE_ADDR pde) + 4 * PTX va)
     else if \<not> alloc then retK 0
     else
       bindK kalloc (\<lambda>pgtab.
       if pgtab = 0 then retK 0
       else
         thenK (fill pgtab 0 PGSIZE) (
         thenK (store32 (pde_at pgdir va) (v2p pgtab OR PTE_P OR PTE_W OR PTE_U)) (
         retK (pgtab + 4 * PTX va)))))"

text \<open>
  The loop of \<^verbatim>\<open>mappages\<close> goes from \<open>a\<close> to \<open>last\<close> page by page.  Both are page aligned, so
  \<open>unat (a1 - a) div PGSIZE\<close> more rounds are what it takes.
\<close>

fun mappages_loop :: "nat \<Rightarrow> addr \<Rightarrow> addr \<Rightarrow> addr \<Rightarrow> addr \<Rightarrow> u32 \<Rightarrow> (int, 'z kmem_scheme) kop" where
  "mappages_loop n pgdir a a1 pa perm =
     bindK (walkpgdir pgdir a True) (\<lambda>pte.
     if pte = 0 then retK (- 1)
     else
       bindK (getK (\<lambda>s. ld32 (mem s) pte)) (\<lambda>e.
       if e AND PTE_P \<noteq> 0 then panicK ''remap''
       else
         thenK (store32 pte (pa OR perm OR PTE_P)) (
         if a = a1 then retK 0
         else (case n of
             0 \<Rightarrow> (\<lambda>_. NoFuel)
           | Suc n' \<Rightarrow> mappages_loop n' pgdir (a + of_nat PGSIZE) a1 (pa + of_nat PGSIZE) perm))))"

declare mappages_loop.simps [simp del]

definition mappages :: "addr \<Rightarrow> addr \<Rightarrow> u32 \<Rightarrow> addr \<Rightarrow> u32 \<Rightarrow> (int, 'z kmem_scheme) kop" where
  "mappages pgdir va len pa perm =
     (let a = PGROUNDDOWN va; a1 = PGROUNDDOWN (va + len - 1) in
      mappages_loop (unat (a1 - a) div PGSIZE) pgdir a a1 pa perm)"

section \<open>Kernel mappings\<close>

text \<open>The table \<^verbatim>\<open>kmap\<close>: virtual address, physical start, physical end, permissions.\<close>

definition kmap :: "addr \<Rightarrow> (addr \<times> addr \<times> addr \<times> u32) list" where
  "kmap data =
     [(KERNBASE, 0, EXTMEM, PTE_W),
      (KERNLINK, v2p KERNLINK, v2p data, 0),
      (data, v2p data, PHYSTOP, PTE_W),
      (DEVSPACE, DEVSPACE, 0, PTE_W)]"

fun setupkvm_loop :: "addr \<Rightarrow> (addr \<times> addr \<times> addr \<times> u32) list \<Rightarrow> (addr, 'z kmem_scheme) kop" where
  "setupkvm_loop pgdir [] = retK pgdir"
| "setupkvm_loop pgdir ((virt, phys_start, phys_end, perm) # ks) =
     bindK (mappages pgdir virt (phys_end - phys_start) phys_start perm) (\<lambda>r.
     if r < 0 then retK 0 else setupkvm_loop pgdir ks)"

definition setupkvm :: "(addr, 'z kvm_scheme) kop" where
  "setupkvm =
     bindK kalloc (\<lambda>pgdir.
     if pgdir = 0 then retK 0
     else
       thenK (fill pgdir 0 PGSIZE) (
       if p2v PHYSTOP > DEVSPACE then panicK ''PHYSTOP too high''
       else bindK (getK kdata) (\<lambda>data. setupkvm_loop pgdir (kmap data))))"

definition lcr3 :: "addr \<Rightarrow> (unit, 'z kcpu_scheme) kop" where
  "lcr3 v = modK (upd_cpu (cr3_update (\<lambda>_. v)))"

definition switchkvm :: "(unit, 'z kvm_scheme) kop" where
  "switchkvm = bindK (getK kpgdir) (\<lambda>p. lcr3 (v2p p))"

definition kvmalloc :: "(unit, 'z kvm_scheme) kop" where
  "kvmalloc = bindK setupkvm (\<lambda>p. thenK (modK (\<lambda>s. s\<lparr>kpgdir := p\<rparr>)) switchkvm)"

section \<open>User address spaces\<close>

text \<open>\<^verbatim>\<open>memmove\<close> from a byte array outside the modelled memory into memory.\<close>

definition store_bytes :: "addr \<Rightarrow> byte list \<Rightarrow> (unit, 'z kmem_scheme) kop" where
  "store_bytes a bs = modK (\<lambda>s. s\<lparr>mem := (\<lambda>x. if unat (x - a) < length bs then bs ! unat (x - a) else mem s x)\<rparr>)"

definition inituvm :: "addr \<Rightarrow> byte list \<Rightarrow> (unit, 'z kmem_scheme) kop" where
  "inituvm pgdir init =
     (if length init \<ge> PGSIZE then panicK ''inituvm: more than a page''
      else
        bindK kalloc (\<lambda>m.
        if m = 0 then (\<lambda>_. Fault)
        else
          thenK (fill m 0 PGSIZE) (
          bindK (mappages pgdir 0 (of_nat PGSIZE) (v2p m) (PTE_W OR PTE_U)) (\<lambda>_.
          store_bytes m init))))"

text \<open>
  \<^verbatim>\<open>deallocuvm\<close>: the loop advances by at least a page a round, so the pages up to \<open>oldsz\<close> bound
  the rounds unless the address wraps.
\<close>

fun deallocuvm_loop :: "nat \<Rightarrow> addr \<Rightarrow> addr \<Rightarrow> addr \<Rightarrow> (unit, 'z kmem_scheme) kop" where
  "deallocuvm_loop n pgdir a oldsz =
     (if a < oldsz then
        bindK (walkpgdir pgdir a False) (\<lambda>pte.
        bindK
          (if pte = 0 then retK (a + of_nat ((NPTENTRIES - 1) * PGSIZE))
           else
             bindK (getK (\<lambda>s. ld32 (mem s) pte)) (\<lambda>e.
             if e AND PTE_P \<noteq> 0 then
               (let pa = PTE_ADDR e in
                if pa = 0 then panicK ''kfree''
                else thenK (kfree (p2v pa)) (thenK (store32 pte 0) (retK a)))
             else retK a)) (\<lambda>a'.
        case n of
          0 \<Rightarrow> (\<lambda>_. NoFuel)
        | Suc n' \<Rightarrow> deallocuvm_loop n' pgdir (a' + of_nat PGSIZE) oldsz))
      else retK ())"

declare deallocuvm_loop.simps [simp del]

definition deallocuvm :: "addr \<Rightarrow> u32 \<Rightarrow> u32 \<Rightarrow> (u32, 'z kmem_scheme) kop" where
  "deallocuvm pgdir oldsz newsz =
     (if newsz \<ge> oldsz then retK oldsz
      else thenK (deallocuvm_loop (unat oldsz div PGSIZE + 1) pgdir (PGROUNDUP newsz) oldsz) (retK newsz))"

text \<open>
  The result of \<^verbatim>\<open>mappages\<close> in \<^verbatim>\<open>allocuvm\<close> is not looked at.
\<close>

fun allocuvm_loop :: "nat \<Rightarrow> addr \<Rightarrow> addr \<Rightarrow> u32 \<Rightarrow> u32 \<Rightarrow> (u32, 'z kmem_scheme) kop" where
  "allocuvm_loop n pgdir a oldsz newsz =
     (if a < newsz then
        bindK kalloc (\<lambda>m.
        if m = 0 then
          thenK (cprintf (''allocuvm out of memory'' @ [CHR 0x0A]) []) (
          bindK (deallocuvm pgdir newsz oldsz) (\<lambda>_. retK 0))
        else
          thenK (fill m 0 PGSIZE) (
          bindK (mappages pgdir a (of_nat PGSIZE) (v2p m) (PTE_W OR PTE_U)) (\<lambda>_.
          case n of
            0 \<Rightarrow> (\<lambda>_. NoFuel)
          | Suc n' \<Rightarrow> allocuvm_loop n' pgdir (a + of_nat PGSIZE) oldsz newsz)))
      else retK newsz)"

declare allocuvm_loop.simps [simp del]

definition allocuvm :: "addr \<Rightarrow> u32 \<Rightarrow> u32 \<Rightarrow> (u32, 'z kmem_scheme) kop" where
  "allocuvm pgdir oldsz newsz =
     (if newsz \<ge> KERNBASE then retK 0
      else if newsz < oldsz then retK oldsz
      else allocuvm_loop (unat newsz div PGSIZE + 1) pgdir (PGROUNDUP oldsz) oldsz newsz)"

fun freevm_loop :: "nat list \<Rightarrow> addr \<Rightarrow> (unit, 'z kmem_scheme) kop" where
  "freevm_loop [] pgdir = retK ()"
| "freevm_loop (i # is) pgdir =
     bindK (getK (\<lambda>s. ld32 (mem s) (pgdir + of_nat (4 * i)))) (\<lambda>e.
     thenK (whenK (e AND PTE_P \<noteq> 0) (kfree (p2v (PTE_ADDR e)))) (
     freevm_loop is pgdir))"

definition freevm :: "addr \<Rightarrow> (unit, 'z kmem_scheme) kop" where
  "freevm pgdir =
     (if pgdir = 0 then panicK ''freevm: no pgdir''
      else
        bindK (deallocuvm pgdir KERNBASE 0) (\<lambda>_.
        thenK (freevm_loop [0..<NPDENTRIES] pgdir) (
        kfree pgdir)))"

definition clearpteu :: "addr \<Rightarrow> addr \<Rightarrow> (unit, 'z kmem_scheme) kop" where
  "clearpteu pgdir uva =
     bindK (walkpgdir pgdir uva False) (\<lambda>pte.
     if pte = 0 then panicK ''clearpteu''
     else bindK (getK (\<lambda>s. ld32 (mem s) pte)) (\<lambda>e. store32 pte (e AND NOT PTE_U)))"

definition move :: "addr \<Rightarrow> addr \<Rightarrow> nat \<Rightarrow> (unit, 'z kmem_scheme) kop" where
  "move dst src n = modK (\<lambda>s. s\<lparr>mem := memmove (mem s) dst src n\<rparr>)"

fun copyuvm_loop :: "nat \<Rightarrow> addr \<Rightarrow> addr \<Rightarrow> addr \<Rightarrow> u32 \<Rightarrow> (addr, 'z kmem_scheme) kop" where
  "copyuvm_loop n d pgdir i len =
     (if i < len then
        bindK (walkpgdir pgdir i False) (\<lambda>pte.
        if pte = 0 then panicK ''copyuvm: pte should exist''
        else
          bindK (getK (\<lambda>s. ld32 (mem s) pte)) (\<lambda>e.
          if e AND PTE_P = 0 then panicK ''copyuvm: page not present''
          else
            bindK kalloc (\<lambda>m.
            if m = 0 then thenK (freevm d) (retK 0)
            else
              thenK (move m (p2v (PTE_ADDR e)) PGSIZE) (
              bindK (mappages d i (of_nat PGSIZE) (v2p m) (PTE_FLAGS e)) (\<lambda>r.
              if r < 0 then thenK (freevm d) (retK 0)
              else (case n of
                  0 \<Rightarrow> (\<lambda>_. NoFuel)
                | Suc n' \<Rightarrow> copyuvm_loop n' d pgdir (i + of_nat PGSIZE) len))))))
      else retK d)"

declare copyuvm_loop.simps [simp del]

definition copyuvm :: "addr \<Rightarrow> u32 \<Rightarrow> (addr, 'z kvm_scheme) kop" where
  "copyuvm pgdir len =
     bindK setupkvm (\<lambda>d.
     if d = 0 then retK 0
     else copyuvm_loop (unat len div PGSIZE + 1) d pgdir 0 len)"

text \<open>\<^verbatim>\<open>uva2ka\<close> reads through the pointer of \<^verbatim>\<open>walkpgdir\<close> without looking whether it is null.\<close>

definition uva2ka :: "addr \<Rightarrow> addr \<Rightarrow> (addr, 'z kmem_scheme) kop" where
  "uva2ka pgdir uva =
     bindK (walkpgdir pgdir uva False) (\<lambda>pte.
     if pte = 0 then (\<lambda>_. Fault)
     else
       bindK (getK (\<lambda>s. ld32 (mem s) pte)) (\<lambda>e.
       if e AND PTE_P = 0 then retK 0
       else if e AND PTE_U = 0 then retK 0
       else retK (p2v (PTE_ADDR e))))"

text \<open>\<^verbatim>\<open>copyout\<close>: each round copies up to the end of a page, so the bytes left bound the rounds.\<close>

fun copyout_loop :: "nat \<Rightarrow> addr \<Rightarrow> u32 \<Rightarrow> byte list \<Rightarrow> (int, 'z kmem_scheme) kop" where
  "copyout_loop fuel pgdir va buf =
     (if 0 < length buf then
        (let va0 = PGROUNDDOWN va in
         bindK (uva2ka pgdir va0) (\<lambda>pa0.
         if pa0 = 0 then retK (- 1)
         else
           (let n = min (PGSIZE - unat (va - va0)) (length buf) in
            thenK (store_bytes (pa0 + (va - va0)) (take n buf)) (
            case fuel of
              0 \<Rightarrow> (\<lambda>_. NoFuel)
            | Suc fuel' \<Rightarrow> copyout_loop fuel' pgdir (va0 + of_nat PGSIZE) (drop n buf)))))
      else retK 0)"

declare copyout_loop.simps [simp del]

definition copyout :: "addr \<Rightarrow> u32 \<Rightarrow> byte list \<Rightarrow> (int, 'z kmem_scheme) kop" where
  "copyout pgdir va buf = copyout_loop (length buf) pgdir va buf"

end
