(* ===== verification/Proc.thy ===== *)
theory Proc
  imports Vm "HOL-Library.Signed_Division"
begin

unbundle bit_operations_syntax

text \<open>
  The process table of \<^verbatim>\<open>proc.c\<close> and \<^verbatim>\<open>proc.h\<close>, the stride scheduler, and the operations that change
  the state of a process without touching files: \<^verbatim>\<open>allocproc\<close>, \<^verbatim>\<open>growproc\<close>, \<^verbatim>\<open>scheduler\<close>,
  \<^verbatim>\<open>sched\<close>, \<^verbatim>\<open>yield\<close>, \<^verbatim>\<open>sleep\<close>, \<^verbatim>\<open>wakeup\<close>, \<^verbatim>\<open>kill\<close> and \<^verbatim>\<open>procdump\<close>.

  A pointer to a process is its index in the table.  Trap frames and contexts lie in memory at
  the addresses \<open>tf\<close> and \<open>ctx\<close>.  A function that calls \<^verbatim>\<open>swtch\<close> is split there: the first part ends
  with the outcome \<open>Swtch\<close>, and the part that runs when the process is resumed has the suffix
  \<open>_resume\<close>.  The local variable \<^verbatim>\<open>intena\<close> of \<^verbatim>\<open>sched\<close>, which lives on the kernel stack of the
  process meanwhile, is the field \<open>sv_intena\<close>.
\<close>

section \<open>State\<close>

definition MAX_TICKETS :: int where "MAX_TICKETS = 2000"
definition MIN_TICKETS :: int where "MIN_TICKETS = 25"
definition DEFAULT_TICKETS :: int where "DEFAULT_TICKETS = 50"

datatype procstate = UNUSED | EMBRYO | SLEEPING | RUNNABLE | RUNNING | ZOMBIE

text \<open>What a process sleeps on: the address of a variable of the kernel.\<close>

datatype chan =
    ChanProc nat | ChanBuf nat | ChanLog | ChanInode nat | ChanTicks
  | ChanNread addr | ChanNwrite addr | ChanInput

record proc =
  sz :: u32
  pgdir :: addr
  kstack :: addr
  state :: procstate
  pid :: int
  parent :: "nat option"
  tf :: addr
  ctx :: addr
  chan :: "chan option"
  killed :: bool
  ofile :: "nat option list"
  cwd :: "nat option"
  pname :: "byte list"
  passo :: int
  passada :: int
  sv_intena :: bool

record kproc = kvm +
  ptable :: "proc list"
  initproc :: "nat option"
  nextpid :: int
  sym_forkret :: addr
  sym_trapret :: addr

definition upd_proc :: "nat \<Rightarrow> (proc \<Rightarrow> proc) \<Rightarrow> (unit, 'z kproc_scheme) kop" where
  "upd_proc i f = modK (\<lambda>s. s\<lparr>ptable := (ptable s)[i := f (ptable s ! i)]\<rparr>)"

text \<open>Run code that reads through the pointer \<^verbatim>\<open>proc\<close> of this processor.\<close>

definition with_proc :: "(nat \<Rightarrow> ('a, 'z kproc_scheme) kop) \<Rightarrow> ('a, 'z kproc_scheme) kop" where
  "with_proc f = bindK (getK (\<lambda>s. cproc (mycpu s))) (\<lambda>p. case p of None \<Rightarrow> (\<lambda>_. Fault) | Some i \<Rightarrow> f i)"

definition set_proc :: "nat option \<Rightarrow> (unit, 'z kproc_scheme) kop" where
  "set_proc p = modK (upd_cpu (cproc_update (\<lambda>_. p)))"

section \<open>Creation\<close>

definition pinit :: "(unit, 'z kproc_scheme) kop" where
  "pinit = initlock PtableLock ''ptable''"

definition sizeof_trapframe :: nat where "sizeof_trapframe = 76"
definition sizeof_context :: nat where "sizeof_context = 20"

definition allocproc :: "int \<Rightarrow> (nat option, 'z kproc_scheme) kop" where
  "allocproc stride =
     thenK (acquire PtableLock) (
     bindK (getK ptable) (\<lambda>ps.
     case find_index (\<lambda>p. state p = UNUSED) ps of
       None \<Rightarrow> thenK (release PtableLock) (retK None)
     | Some i \<Rightarrow>
         thenK (upd_proc i (\<lambda>p. p\<lparr>state := EMBRYO\<rparr>)) (
         bindK (getK nextpid) (\<lambda>n.
         thenK (modK (\<lambda>s. s\<lparr>nextpid := s32 (n + 1)\<rparr>)) (
         thenK (upd_proc i (\<lambda>p. p\<lparr>pid := n\<rparr>)) (
         if stride = 0 then (\<lambda>_. Fault)
         else
         thenK (upd_proc i (\<lambda>p. p\<lparr>passo := 10000 sdiv stride\<rparr>)) (
         thenK (upd_proc i (\<lambda>p. p\<lparr>passada := 0\<rparr>)) (
         thenK (release PtableLock) (
         bindK kalloc (\<lambda>ks.
         thenK (upd_proc i (\<lambda>p. p\<lparr>kstack := ks\<rparr>)) (
         if ks = 0 then
           thenK (upd_proc i (\<lambda>p. p\<lparr>state := UNUSED\<rparr>)) (retK None)
         else
           (let sp1 = ks + of_nat KSTACKSIZE - of_nat sizeof_trapframe;
                sp2 = sp1 - 4;
                sp3 = sp2 - of_nat sizeof_context in
            thenK (upd_proc i (\<lambda>p. p\<lparr>tf := sp1\<rparr>)) (
            bindK (getK sym_trapret) (\<lambda>tr.
            thenK (store32 sp2 tr) (
            thenK (upd_proc i (\<lambda>p. p\<lparr>ctx := sp3\<rparr>)) (
            thenK (fill sp3 0 sizeof_context) (
            bindK (getK sym_forkret) (\<lambda>fr.
            thenK (store32 (sp3 + 16) fr) (
            retK (Some i))))))))))))))))))))"

section \<open>Address space of the current process\<close>

definition switchuvm :: "nat \<Rightarrow> (unit, 'z kproc_scheme) kop" where
  "switchuvm p =
     thenK pushcli (
     with_proc (\<lambda>cur.
     bindK (getK (\<lambda>s. kstack (ptable s ! cur))) (\<lambda>ks.
     thenK (modK (upd_cpu (\<lambda>c. c\<lparr>ts_ss0 := 2 * 8, ts_esp0 := ks + of_nat KSTACKSIZE\<rparr>))) (
     bindK (getK (\<lambda>s. pgdir (ptable s ! p))) (\<lambda>d.
     if d = 0 then panicK ''switchuvm: no pgdir''
     else thenK (lcr3 (v2p d)) popcli)))))"

definition growproc :: "int \<Rightarrow> (int, 'z kproc_scheme) kop" where
  "growproc n =
     with_proc (\<lambda>p.
     bindK (getK (\<lambda>s. sz (ptable s ! p))) (\<lambda>sz0.
     bindK (getK (\<lambda>s. pgdir (ptable s ! p))) (\<lambda>d.
     if n > 0 then
       bindK (allocuvm d sz0 (sz0 + of_int n)) (\<lambda>sz1.
       if sz1 = 0 then retK (- 1)
       else thenK (upd_proc p (\<lambda>q. q\<lparr>sz := sz1\<rparr>)) (thenK (switchuvm p) (retK 0)))
     else if n < 0 then
       bindK (deallocuvm d sz0 (sz0 + of_int n)) (\<lambda>sz1.
       if sz1 = 0 then retK (- 1)
       else thenK (upd_proc p (\<lambda>q. q\<lparr>sz := sz1\<rparr>)) (thenK (switchuvm p) (retK 0)))
     else thenK (upd_proc p (\<lambda>q. q\<lparr>sz := sz0\<rparr>)) (thenK (switchuvm p) (retK 0)))))"

definition printaProcessos :: "nat \<Rightarrow> bool \<Rightarrow> (unit, 'z kproc_scheme) kop" where
  "printaProcessos i estado =
     bindK (getK (\<lambda>s. ptable s ! i)) (\<lambda>p.
     if estado then
       cprintf (''Iniciando Id: %d Passo calculado %d'' @ [CHR 0x0A]) [CInt (pid p), CInt (passo p)]
     else
       cprintf (''Finalizado - ID: %d Passo atual %d'' @ [CHR 0x0A]) [CInt (pid p), CInt (passada p)])"

section \<open>Scheduling\<close>

text \<open>
  The scan of \<^verbatim>\<open>scheduler\<close>: \<open>mn\<close> is the variable \<^verbatim>\<open>min\<close>, \<open>mp\<close> the variable \<^verbatim>\<open>min_proc\<close>.  The latter
  is declared outside the endless loop and set by the scan only, so it keeps its value from
  the round before; before the first round it is whatever the stack held.
\<close>

fun scan_min :: "nat \<Rightarrow> proc list \<Rightarrow> int \<Rightarrow> nat option \<Rightarrow> int \<times> nat option" where
  "scan_min i [] mn mp = (mn, mp)"
| "scan_min i (p # ps) mn mp =
     (if state p = RUNNABLE \<and> (passada p \<le> mn \<or> mn = 0)
      then scan_min (Suc i) ps (passada p) (Some i)
      else scan_min (Suc i) ps mn mp)"

definition pick_proc :: "proc list \<Rightarrow> nat option \<Rightarrow> nat option" where
  "pick_proc ps mp = snd (scan_min 0 ps 0 mp)"

text \<open>
  One round up to \<^verbatim>\<open>swtch\<close>.  The result is the new \<^verbatim>\<open>min_proc\<close>: \<open>None\<close> when the round ended
  without a process, \<open>Some p\<close> when the processor now runs \<open>p\<close> with \<^verbatim>\<open>ptable.lock\<close> held.
\<close>

definition scheduler_round :: "nat option \<Rightarrow> (nat option, 'z kproc_scheme) kop" where
  "scheduler_round min_proc =
     thenK sti (
     thenK (acquire PtableLock) (
     bindK (getK ptable) (\<lambda>ps.
     case pick_proc ps min_proc of
       None \<Rightarrow> thenK (release PtableLock) (retK None)
     | Some p \<Rightarrow>
         thenK (upd_proc p (\<lambda>q. q\<lparr>passada := s32 (passada q + passo q)\<rparr>)) (
         thenK (set_proc (Some p)) (
         thenK (switchuvm p) (
         thenK (upd_proc p (\<lambda>q. q\<lparr>state := RUNNING\<rparr>)) (
         retK (Some p))))))))"

definition scheduler_resume :: "(unit, 'z kproc_scheme) kop" where
  "scheduler_resume = thenK switchkvm (thenK (set_proc None) (release PtableLock))"

definition sched :: "(unit, 'z kproc_scheme) kop" where
  "sched =
     bindK (getK (holding PtableLock)) (\<lambda>h.
     if \<not> h then panicK ''sched ptable.lock''
     else
       bindK (getK (\<lambda>s. ncli (mycpu s))) (\<lambda>n.
       if n \<noteq> 1 then panicK ''sched locks''
       else
         with_proc (\<lambda>p.
         bindK (getK (\<lambda>s. state (ptable s ! p))) (\<lambda>st.
         if st = RUNNING then panicK ''sched running''
         else
           bindK (getK (\<lambda>s. flag_if (mycpu s))) (\<lambda>fl.
           if fl then panicK ''sched interruptible''
           else
             bindK (getK (\<lambda>s. intena (mycpu s))) (\<lambda>ie.
             thenK (upd_proc p (\<lambda>q. q\<lparr>sv_intena := ie\<rparr>)) Swtch))))))"

definition sched_resume :: "(unit, 'z kproc_scheme) kop" where
  "sched_resume =
     with_proc (\<lambda>p.
     bindK (getK (\<lambda>s. sv_intena (ptable s ! p))) (\<lambda>ie.
     modK (upd_cpu (intena_update (\<lambda>_. ie)))))"

definition yield :: "(unit, 'z kproc_scheme) kop" where
  "yield =
     thenK (acquire PtableLock) (
     with_proc (\<lambda>p.
     thenK (upd_proc p (\<lambda>q. q\<lparr>state := RUNNABLE\<rparr>)) sched))"

definition yield_resume :: "(unit, 'z kproc_scheme) kop" where
  "yield_resume = thenK sched_resume (release PtableLock)"

section \<open>Sleeping and waking\<close>

text \<open>The statements of \<^verbatim>\<open>sleep\<close> before it calls \<^verbatim>\<open>sched\<close>, for the current process \<open>p\<close>.\<close>

definition sleep_steps :: "nat \<Rightarrow> chan \<Rightarrow> lockid \<Rightarrow> (unit, 'z kproc_scheme) kop list" where
  "sleep_steps p ch lk =
     [whenK (lk \<noteq> PtableLock) (acquire PtableLock),
      whenK (lk \<noteq> PtableLock) (release lk),
      upd_proc p (\<lambda>q. q\<lparr>chan := Some ch\<rparr>),
      upd_proc p (\<lambda>q. q\<lparr>state := SLEEPING\<rparr>)]"

text \<open>\<open>sched\<close> switches, panics or faults, so nothing follows it in this part.\<close>

definition sleep :: "chan \<Rightarrow> lockid \<Rightarrow> ('a, 'z kproc_scheme) kop" where
  "sleep ch lk =
     bindK (getK (\<lambda>s. cproc (mycpu s))) (\<lambda>cur.
     case cur of
       None \<Rightarrow> panicK ''sleep''
     | Some p \<Rightarrow> thenK (seqK (sleep_steps p ch lk)) (bindK sched (\<lambda>_ _. Fault)))"

definition sleep_resume :: "lockid \<Rightarrow> (unit, 'z kproc_scheme) kop" where
  "sleep_resume lk =
     thenK sched_resume (
     with_proc (\<lambda>p.
     thenK (upd_proc p (\<lambda>q. q\<lparr>chan := None\<rparr>)) (
     whenK (lk \<noteq> PtableLock) (thenK (release PtableLock) (acquire lk)))))"

definition wake :: "chan \<Rightarrow> proc \<Rightarrow> proc" where
  "wake ch p = (if state p = SLEEPING \<and> chan p = Some ch then p\<lparr>state := RUNNABLE\<rparr> else p)"

definition wakeup1 :: "chan \<Rightarrow> (unit, 'z kproc_scheme) kop" where
  "wakeup1 ch = modK (\<lambda>s. s\<lparr>ptable := map (wake ch) (ptable s)\<rparr>)"

definition wakeup :: "chan \<Rightarrow> (unit, 'z kproc_scheme) kop" where
  "wakeup ch = thenK (acquire PtableLock) (thenK (wakeup1 ch) (release PtableLock))"

definition kill :: "int \<Rightarrow> (int, 'z kproc_scheme) kop" where
  "kill n =
     thenK (acquire PtableLock) (
     bindK (getK ptable) (\<lambda>ps.
     case find_index (\<lambda>p. pid p = n) ps of
       None \<Rightarrow> thenK (release PtableLock) (retK (- 1))
     | Some i \<Rightarrow>
         thenK (upd_proc i (\<lambda>p. p\<lparr>killed := True\<rparr>)) (
         thenK (upd_proc i (\<lambda>p. if state p = SLEEPING then p\<lparr>state := RUNNABLE\<rparr> else p)) (
         thenK (release PtableLock) (
         retK 0)))))"

section \<open>Debugging output\<close>

fun callerpcs_loop :: "nat \<Rightarrow> memory \<Rightarrow> addr \<Rightarrow> u32 list" where
  "callerpcs_loop 0 m ebp = []"
| "callerpcs_loop (Suc n) m ebp =
     (if ebp = 0 \<or> ebp < KERNBASE \<or> ebp = 0xffffffff then replicate (Suc n) 0
      else ld32 m (ebp + 4) # callerpcs_loop n m (ld32 m ebp))"

definition getcallerpcs :: "memory \<Rightarrow> addr \<Rightarrow> u32 list" where
  "getcallerpcs m v = callerpcs_loop 10 m (v - 8)"

definition state_name :: "procstate \<Rightarrow> string" where
  "state_name st = (case st of
      UNUSED \<Rightarrow> ''unused'' | EMBRYO \<Rightarrow> ''embryo'' | SLEEPING \<Rightarrow> ''sleep ''
    | RUNNABLE \<Rightarrow> ''runble'' | RUNNING \<Rightarrow> ''run   '' | ZOMBIE \<Rightarrow> ''zombie'')"

definition bytes_of_string :: "string \<Rightarrow> byte list" where
  "bytes_of_string cs = map (\<lambda>c. of_nat (of_char c)) cs"

definition dump_proc :: "memory \<Rightarrow> proc \<Rightarrow> (string \<times> carg list) list" where
  "dump_proc m p =
     (if state p = UNUSED then []
      else
        [(''%d %d %s %s'', [CInt (pid p), CInt (passada p),
            CStr (bytes_of_string (state_name (state p))), CStr (pname p)])] @
        (if state p = SLEEPING then
           map (\<lambda>pc. ('' %p'', [CInt (uint pc)]))
             (takeWhile (\<lambda>pc. pc \<noteq> 0) (getcallerpcs m (ld32 m (ctx p + 12) + 8)))
         else []) @
        [([CHR 0x0A], [])])"

definition procdump :: "(unit, 'z kproc_scheme) kop" where
  "procdump = modK (\<lambda>s. s\<lparr>conslog := conslog s @ concat (map (dump_proc (mem s)) (ptable s))\<rparr>)"

text \<open>For the witnesses: a zeroed table entry and a zeroed processor.\<close>

definition proc0 :: proc where
  "proc0 = \<lparr>sz = 0, pgdir = 0, kstack = 0, state = UNUSED, pid = 0, parent = None, tf = 0, ctx = 0,
     chan = None, killed = False, ofile = replicate NOFILE None, cwd = None, pname = replicate 16 0,
     passo = 0, passada = 0, sv_intena = False\<rparr>"

definition cpu0 :: cpu where
  "cpu0 = \<lparr>ncli = 0, intena = False, flag_if = False, cproc = None, cr3 = 0, ts_esp0 = 0, ts_ss0 = 0\<rparr>"

end
