(* ===== verification/Layout.thy ===== *)
theory Layout
  imports Kstring
begin

unbundle bit_operations_syntax

text \<open>
  The on-disk format of \<^verbatim>\<open>fs.h\<close>: little-endian fields inside a block of bytes, the super block, the
  on-disk inode and the directory entry, each with the functions that read it from and write it
  into bytes at an offset.
\<close>

section \<open>Fields in byte arrays\<close>

definition get32 :: "byte list \<Rightarrow> nat \<Rightarrow> u32" where
  "get32 bs k = word_of_bytes (bs ! k) (bs ! (k + 1)) (bs ! (k + 2)) (bs ! (k + 3))"

definition put32 :: "byte list \<Rightarrow> nat \<Rightarrow> u32 \<Rightarrow> byte list" where
  "put32 bs k v = bs[k := byte_of 0 v, k + 1 := byte_of 1 v, k + 2 := byte_of 2 v, k + 3 := byte_of 3 v]"

definition get16 :: "byte list \<Rightarrow> nat \<Rightarrow> u16" where
  "get16 bs k = ucast (bs ! k) OR push_bit 8 (ucast (bs ! (k + 1)))"

definition put16 :: "byte list \<Rightarrow> nat \<Rightarrow> u16 \<Rightarrow> byte list" where
  "put16 bs k v = bs[k := ucast v, k + 1 := ucast (drop_bit 8 v)]"

text \<open>\<^verbatim>\<open>memmove\<close> of the bytes \<open>xs\<close> to offset \<open>k\<close> of an array.\<close>

definition splice :: "byte list \<Rightarrow> nat \<Rightarrow> byte list \<Rightarrow> byte list" where
  "splice bs k xs = take k bs @ xs @ drop (k + length xs) bs"

definition slice :: "nat \<Rightarrow> nat \<Rightarrow> byte list \<Rightarrow> byte list" where
  "slice k n bs = take n (drop k bs)"

lemma length_put32 [simp]: "length (put32 bs k v) = length bs"
  by (simp add: put32_def)

lemma length_put16 [simp]: "length (put16 bs k v) = length bs"
  by (simp add: put16_def)

lemma length_splice [simp]: "k + length xs \<le> length bs \<Longrightarrow> length (splice bs k xs) = length bs"
  by (simp add: splice_def)

lemma length_slice: "length (slice k n bs) = min n (length bs - k)"
  by (simp add: slice_def)

lemma get32_put32_same: "k + 4 \<le> length bs \<Longrightarrow> get32 (put32 bs k v) k = v"
  by (simp add: get32_def put32_def)

lemma get32_put32_other: "k + 4 \<le> j \<or> j + 4 \<le> k \<Longrightarrow> get32 (put32 bs k v) j = get32 bs j"
  by (auto simp: get32_def put32_def)

lemma u16_bytes: "ucast (ucast (v :: u16) :: byte) OR push_bit 8 (ucast (ucast (drop_bit 8 v) :: byte)) = v"
proof (rule bit_eqI)
  fix n assume "possible_bit TYPE(u16) n"
  then show "bit (ucast (ucast v :: byte) OR push_bit 8 (ucast (ucast (drop_bit 8 v) :: byte)) :: u16) n = bit v n"
    by (cases "n < 8") (auto simp: bit_simps)
qed

lemma get16_put16_same: "k + 2 \<le> length bs \<Longrightarrow> get16 (put16 bs k v) k = v"
  by (simp add: get16_def put16_def u16_bytes)

lemma get16_put16_other: "k + 2 \<le> j \<or> j + 2 \<le> k \<Longrightarrow> get16 (put16 bs k v) j = get16 bs j"
  by (auto simp: get16_def put16_def)

lemma get16_put32_other: "k + 4 \<le> j \<or> j + 2 \<le> k \<Longrightarrow> get16 (put32 bs k v) j = get16 bs j"
  by (auto simp: get16_def put32_def)

lemma get32_put16_other: "k + 2 \<le> j \<or> j + 4 \<le> k \<Longrightarrow> get32 (put16 bs k v) j = get32 bs j"
  by (auto simp: get32_def put16_def)

lemma slice_splice_same: "k + length xs \<le> length bs \<Longrightarrow> slice k (length xs) (splice bs k xs) = xs"
  by (simp add: slice_def splice_def)

lemma nth_splice:
  "k + length xs \<le> length bs \<Longrightarrow> i < length bs \<Longrightarrow>
   splice bs k xs ! i = (if k \<le> i \<and> i < k + length xs then xs ! (i - k) else bs ! i)"
  by (auto simp: splice_def nth_append min_def)

section \<open>Sizes\<close>

definition BSIZE :: nat where "BSIZE = 512"
definition ROOTINO :: u32 where "ROOTINO = 1"
definition NDIRECT :: nat where "NDIRECT = 12"
definition NINDIRECT :: nat where "NINDIRECT = BSIZE div 4"
definition MAXFILE :: nat where "MAXFILE = NDIRECT + NINDIRECT"
definition IPB :: nat where "IPB = BSIZE div 64"
definition BPB :: nat where "BPB = BSIZE * 8"
definition DIRSIZ :: nat where "DIRSIZ = 14"

definition T_DIR :: u16 where "T_DIR = 1"
definition T_FILE :: u16 where "T_FILE = 2"
definition T_DEV :: u16 where "T_DEV = 3"

lemmas fs_sizes = BSIZE_def NDIRECT_def NINDIRECT_def MAXFILE_def IPB_def BPB_def DIRSIZ_def

section \<open>Structures\<close>

record superblock =
  sb_size :: u32
  sb_nblocks :: u32
  sb_ninodes :: u32
  sb_nlog :: u32
  sb_logstart :: u32
  sb_inodestart :: u32
  sb_bmapstart :: u32

definition superblock_of :: "byte list \<Rightarrow> superblock" where
  "superblock_of bs = \<lparr>sb_size = get32 bs 0, sb_nblocks = get32 bs 4, sb_ninodes = get32 bs 8, sb_nlog = get32 bs 12,
     sb_logstart = get32 bs 16, sb_inodestart = get32 bs 20, sb_bmapstart = get32 bs 24\<rparr>"

record dinode =
  di_type :: u16
  di_major :: u16
  di_minor :: u16
  di_nlink :: u16
  di_size :: u32
  di_addrs :: "u32 list"

definition sizeof_dinode :: nat where "sizeof_dinode = 64"

text \<open>Arrays of 32-bit words.\<close>

fun get32s :: "nat \<Rightarrow> byte list \<Rightarrow> nat \<Rightarrow> u32 list" where
  "get32s 0 bs k = []"
| "get32s (Suc n) bs k = get32 bs k # get32s n bs (k + 4)"

fun put32s :: "byte list \<Rightarrow> nat \<Rightarrow> u32 list \<Rightarrow> byte list" where
  "put32s bs k [] = bs"
| "put32s bs k (v # vs) = put32s (put32 bs k v) (k + 4) vs"

definition dinode_at :: "byte list \<Rightarrow> nat \<Rightarrow> dinode" where
  "dinode_at bs k = \<lparr>di_type = get16 bs k, di_major = get16 bs (k + 2), di_minor = get16 bs (k + 4),
     di_nlink = get16 bs (k + 6), di_size = get32 bs (k + 8), di_addrs = get32s (NDIRECT + 1) bs (k + 12)\<rparr>"

definition put_dinode :: "byte list \<Rightarrow> nat \<Rightarrow> dinode \<Rightarrow> byte list" where
  "put_dinode bs k d =
     put32s (put32 (put16 (put16 (put16 (put16 bs k (di_type d)) (k + 2) (di_major d)) (k + 4) (di_minor d))
       (k + 6) (di_nlink d)) (k + 8) (di_size d)) (k + 12) (di_addrs d)"

record dirent =
  de_inum :: u16
  de_name :: "byte list"

definition sizeof_dirent :: nat where "sizeof_dirent = 16"

definition dirent_of :: "byte list \<Rightarrow> dirent" where
  "dirent_of bs = \<lparr>de_inum = get16 bs 0, de_name = slice 2 DIRSIZ bs\<rparr>"

definition bytes_of_dirent :: "dirent \<Rightarrow> byte list" where
  "bytes_of_dirent d = [ucast (de_inum d), ucast (drop_bit 8 (de_inum d))] @ de_name d"

definition IBLOCK :: "u32 \<Rightarrow> superblock \<Rightarrow> u32" where
  "IBLOCK i sb = i div of_nat IPB + sb_inodestart sb"

definition BBLOCK :: "u32 \<Rightarrow> superblock \<Rightarrow> u32" where
  "BBLOCK b sb = b div of_nat BPB + sb_bmapstart sb"

section \<open>Reading what was written\<close>

lemma length_get32s [simp]: "length (get32s n bs k) = n"
  by (induction n arbitrary: k) auto

lemma length_put32s [simp]: "length (put32s bs k vs) = length bs"
  by (induction vs arbitrary: bs k) auto

lemma get32_put32s_before: "j + 4 \<le> k \<Longrightarrow> get32 (put32s bs k vs) j = get32 bs j"
  by (induction vs arbitrary: bs k) (auto simp: get32_put32_other)

lemma get16_put32s_before: "j + 2 \<le> k \<Longrightarrow> get16 (put32s bs k vs) j = get16 bs j"
  by (induction vs arbitrary: bs k) (auto simp: get16_put32_other)

lemma get32_put32s_after: "k + 4 * length vs \<le> j \<Longrightarrow> get32 (put32s bs k vs) j = get32 bs j"
  by (induction vs arbitrary: bs k) (auto simp: get32_put32_other)

lemma get16_put32s_after: "k + 4 * length vs \<le> j \<Longrightarrow> get16 (put32s bs k vs) j = get16 bs j"
  by (induction vs arbitrary: bs k) (auto simp: get16_put32_other)

lemma get32s_put32s: "k + 4 * length vs \<le> length bs \<Longrightarrow> get32s (length vs) (put32s bs k vs) k = vs"
  by (induction vs arbitrary: bs k) (auto simp: get32_put32s_before get32_put32_same)

lemma get32s_cong:
  "(\<And>j. k \<le> j \<Longrightarrow> j + 4 \<le> k + 4 * n \<Longrightarrow> get32 bs j = get32 cs j) \<Longrightarrow> get32s n bs k = get32s n cs k"
  by (induction n arbitrary: k) auto

lemmas field_simps_fs = get16_put16_same get16_put16_other get16_put32_other get32_put16_other get32_put32_same
  get32_put32_other get32_put32s_before get16_put32s_before get32_put32s_after get16_put32s_after

lemma dinode_at_put_same:
  assumes "k + sizeof_dinode \<le> length bs" "length (di_addrs d) = NDIRECT + 1"
  shows "dinode_at (put_dinode bs k d) k = d"
proof -
  have "get32s (NDIRECT + 1) (put_dinode bs k d) (k + 12) = di_addrs d"
    unfolding put_dinode_def assms(2) [symmetric] using assms
    by (intro get32s_put32s) (simp add: sizeof_dinode_def NDIRECT_def)
  then show ?thesis
    using assms by (cases d) (simp add: dinode_at_def put_dinode_def field_simps_fs sizeof_dinode_def)
qed

lemma dinode_at_put_other:
  assumes "k + sizeof_dinode \<le> j \<or> j + sizeof_dinode \<le> k" "length (di_addrs d) = NDIRECT + 1"
  shows "dinode_at (put_dinode bs k d) j = dinode_at bs j"
proof -
  have "get32s (NDIRECT + 1) (put_dinode bs k d) (j + 12) = get32s (NDIRECT + 1) bs (j + 12)"
    using assms by (intro get32s_cong) (auto simp: put_dinode_def field_simps_fs sizeof_dinode_def NDIRECT_def)
  then show ?thesis
    using assms by (auto simp: dinode_at_def put_dinode_def field_simps_fs sizeof_dinode_def NDIRECT_def)
qed

lemma dirent_roundtrip:
  assumes "length (de_name d) = DIRSIZ"
  shows "dirent_of (bytes_of_dirent d) = d" "length (bytes_of_dirent d) = sizeof_dirent"
  using assms u16_bytes [of "de_inum d"]
  by (cases d; simp add: dirent_of_def bytes_of_dirent_def get16_def slice_def DIRSIZ_def sizeof_dirent_def)+

end
