(* ===== verification/Bio.thy ===== *)
theory Bio
  imports Proc Layout
begin

text \<open>
  The buffer cache of \<^verbatim>\<open>bio.c\<close> and \<^verbatim>\<open>buf.h\<close> over the disk in memory of \<^verbatim>\<open>memide.c\<close>.  A pointer to a
  buffer is its index in the array \<^verbatim>\<open>bcache.buf\<close>; the list head \<^verbatim>\<open>bcache.head\<close> is the index \<open>NBUF\<close>.  The
  flag bits of a buffer are three booleans.  The disk maps a block number to its bytes;
  \<open>dwrites\<close> records the block writes that reached the disk, in order, and nothing reads it.

  A buffer that another process uses makes \<^verbatim>\<open>bget\<close> sleep; the outcome is then \<open>Swtch\<close>, and
  \<open>bget_resume\<close> is what runs after the wakeup.
\<close>

section \<open>State\<close>

record buf =
  b_busy :: bool
  b_valid :: bool
  b_dirty :: bool
  bdev :: u32
  blockno :: u32
  bprev :: nat
  bnext :: nat
  bdata :: "byte list"

record kbio = kproc +
  bcache :: "buf list"
  disk :: "u32 \<Rightarrow> byte list"
  disksize :: int
  dwrites :: "(u32 \<times> byte list) list"

definition upd_buf :: "nat \<Rightarrow> (buf \<Rightarrow> buf) \<Rightarrow> (unit, 'z kbio_scheme) kop" where
  "upd_buf i f = modK (\<lambda>s. s\<lparr>bcache := (bcache s)[i := f (bcache s ! i)]\<rparr>)"

abbreviation bhead :: nat where "bhead \<equiv> NBUF"

section \<open>memide.c\<close>

text \<open>\<^verbatim>\<open>ideinit\<close> binds the disk to the file system image linked into the kernel.\<close>

definition ideinit :: "(u32 \<Rightarrow> byte list) \<Rightarrow> u32 \<Rightarrow> (unit, 'z kbio_scheme) kop" where
  "ideinit img img_size = modK (\<lambda>s. s\<lparr>disk := img, disksize := sint (img_size div of_nat BSIZE)\<rparr>)"

definition ideintr_mem :: "(unit, 'z kbio_scheme) kop" where
  "ideintr_mem = retK ()"

definition iderw :: "nat \<Rightarrow> (unit, 'z kbio_scheme) kop" where
  "iderw i =
     bindK (getK (\<lambda>s. bcache s ! i)) (\<lambda>b.
     if \<not> b_busy b then panicK ''iderw: buf not busy''
     else if b_valid b \<and> \<not> b_dirty b then panicK ''iderw: nothing to do''
     else if bdev b \<noteq> 1 then panicK ''iderw: request not for disk 1''
     else
       bindK (getK disksize) (\<lambda>ds.
       if blockno b \<ge> word_of_int ds then panicK ''iderw: block out of range''
       else
         thenK
           (if b_dirty b then
              thenK (upd_buf i (\<lambda>b. b\<lparr>b_dirty := False\<rparr>))
                (modK (\<lambda>s. s\<lparr>disk := (disk s)(blockno b := bdata b), dwrites := dwrites s @ [(blockno b, bdata b)]\<rparr>))
            else modK (\<lambda>s. s\<lparr>bcache := (bcache s)[i := (bcache s ! i)\<lparr>bdata := disk s (blockno b)\<rparr>]\<rparr>))
           (upd_buf i (\<lambda>b. b\<lparr>b_valid := True\<rparr>))))"

section \<open>bio.c\<close>

text \<open>
  A \<^verbatim>\<open>for\<close> loop along the list from the buffer \<open>b\<close> until the head: \<open>Some (Some i)\<close> is the first buffer
  with the property, \<open>Some None\<close> the end of the list, \<open>None\<close> a list longer than \<open>n\<close>.
\<close>

fun scan_list :: "nat \<Rightarrow> (nat \<Rightarrow> nat) \<Rightarrow> (nat \<Rightarrow> bool) \<Rightarrow> nat \<Rightarrow> nat option option" where
  "scan_list n nxt P b =
     (if b = bhead then Some None
      else if P b then Some (Some b)
      else (case n of 0 \<Rightarrow> None | Suc n' \<Rightarrow> scan_list n' nxt P (nxt b)))"

declare scan_list.simps [simp del]

definition bget_loop :: "u32 \<Rightarrow> u32 \<Rightarrow> (nat, 'z kbio_scheme) kop" where
  "bget_loop dev bno =
     bindK (getK bcache) (\<lambda>bs.
     case scan_list NBUF (\<lambda>i. bnext (bs ! i)) (\<lambda>i. bdev (bs ! i) = dev \<and> blockno (bs ! i) = bno) (bnext (bs ! bhead)) of
       None \<Rightarrow> (\<lambda>_. NoFuel)
     | Some (Some i) \<Rightarrow>
         if \<not> b_busy (bs ! i) then
           thenK (upd_buf i (\<lambda>b. b\<lparr>b_busy := True\<rparr>)) (thenK (release BcacheLock) (retK i))
         else sleep (ChanBuf i) BcacheLock
     | Some None \<Rightarrow>
         (case scan_list NBUF (\<lambda>i. bprev (bs ! i)) (\<lambda>i. \<not> b_busy (bs ! i) \<and> \<not> b_dirty (bs ! i)) (bprev (bs ! bhead)) of
            None \<Rightarrow> (\<lambda>_. NoFuel)
          | Some (Some i) \<Rightarrow>
              thenK (upd_buf i (\<lambda>b. b\<lparr>bdev := dev\<rparr>)) (
              thenK (upd_buf i (\<lambda>b. b\<lparr>blockno := bno\<rparr>)) (
              thenK (upd_buf i (\<lambda>b. b\<lparr>b_busy := True, b_valid := False, b_dirty := False\<rparr>)) (
              thenK (release BcacheLock) (retK i))))
          | Some None \<Rightarrow> panicK ''bget: no buffers''))"

definition bget :: "u32 \<Rightarrow> u32 \<Rightarrow> (nat, 'z kbio_scheme) kop" where
  "bget dev bno = thenK (acquire BcacheLock) (bget_loop dev bno)"

definition bget_resume :: "u32 \<Rightarrow> u32 \<Rightarrow> (nat, 'z kbio_scheme) kop" where
  "bget_resume dev bno = thenK (sleep_resume BcacheLock) (bget_loop dev bno)"

definition bread :: "u32 \<Rightarrow> u32 \<Rightarrow> (nat, 'z kbio_scheme) kop" where
  "bread dev bno =
     bindK (bget dev bno) (\<lambda>i.
     bindK (getK (\<lambda>s. b_valid (bcache s ! i))) (\<lambda>v.
     thenK (whenK (\<not> v) (iderw i)) (retK i)))"

definition bwrite :: "nat \<Rightarrow> (unit, 'z kbio_scheme) kop" where
  "bwrite i =
     bindK (getK (\<lambda>s. b_busy (bcache s ! i))) (\<lambda>busy.
     if \<not> busy then panicK ''bwrite''
     else thenK (upd_buf i (\<lambda>b. b\<lparr>b_dirty := True\<rparr>)) (iderw i))"

text \<open>The assignments \<^verbatim>\<open>b->next = v\<close> and \<^verbatim>\<open>b->prev = v\<close>, and those of \<^verbatim>\<open>brelse\<close> that move a buffer to
  the front of the list.\<close>

definition set_next :: "nat \<Rightarrow> nat \<Rightarrow> buf list \<Rightarrow> buf list" where
  "set_next b v bs = bs[b := (bs ! b)\<lparr>bnext := v\<rparr>]"

definition set_prev :: "nat \<Rightarrow> nat \<Rightarrow> buf list \<Rightarrow> buf list" where
  "set_prev b v bs = bs[b := (bs ! b)\<lparr>bprev := v\<rparr>]"

definition relink :: "nat \<Rightarrow> buf list \<Rightarrow> buf list" where
  "relink i bs =
     (let bs1 = set_prev (bnext (bs ! i)) (bprev (bs ! i)) bs;
          bs2 = set_next (bprev (bs1 ! i)) (bnext (bs1 ! i)) bs1;
          bs3 = set_next i (bnext (bs2 ! bhead)) bs2;
          bs4 = set_prev i bhead bs3;
          bs5 = set_prev (bnext (bs4 ! bhead)) i bs4
      in set_next bhead i bs5)"

definition brelse :: "nat \<Rightarrow> (unit, 'z kbio_scheme) kop" where
  "brelse i =
     bindK (getK (\<lambda>s. b_busy (bcache s ! i))) (\<lambda>busy.
     if \<not> busy then panicK ''brelse''
     else
       thenK (acquire BcacheLock) (
       thenK (modK (\<lambda>s. s\<lparr>bcache := relink i (bcache s)\<rparr>)) (
       thenK (upd_buf i (\<lambda>b. b\<lparr>b_busy := False\<rparr>)) (
       thenK (wakeup (ChanBuf i)) (
       release BcacheLock)))))"

fun binit_loop :: "nat list \<Rightarrow> buf list \<Rightarrow> buf list" where
  "binit_loop [] bs = bs"
| "binit_loop (b # rest) bs =
     (let bs1 = set_next b (bnext (bs ! bhead)) bs;
          bs2 = set_prev b bhead bs1;
          bs3 = bs2[b := (bs2 ! b)\<lparr>bdev := - 1\<rparr>];
          bs4 = set_prev (bnext (bs3 ! bhead)) b bs3
      in binit_loop rest (set_next bhead b bs4))"

definition binit :: "(unit, 'z kbio_scheme) kop" where
  "binit =
     thenK (initlock BcacheLock ''bcache'') (
     modK (\<lambda>s. s\<lparr>bcache := binit_loop [0..<NBUF] (set_next bhead bhead (set_prev bhead bhead (bcache s)))\<rparr>))"

section \<open>The list of buffers\<close>

text \<open>
  \<open>links N P a xs b\<close>: following \<open>N\<close> from \<open>a\<close> visits \<open>xs\<close> and then \<open>b\<close>, and \<open>P\<close> leads back.
\<close>

fun links :: "(nat \<Rightarrow> nat) \<Rightarrow> (nat \<Rightarrow> nat) \<Rightarrow> nat \<Rightarrow> nat list \<Rightarrow> nat \<Rightarrow> bool" where
  "links N P a [] b \<longleftrightarrow> N a = b \<and> P b = a"
| "links N P a (x # xs) b \<longleftrightarrow> N a = x \<and> P x = a \<and> links N P x xs b"

lemma links_append: "links N P a (xs @ y # ys) b \<longleftrightarrow> links N P a xs y \<and> links N P y ys b"
  by (induction xs arbitrary: a) auto

lemma links_N_other [simp]: "x \<noteq> a \<Longrightarrow> x \<notin> set xs \<Longrightarrow> links (N(x := v)) P a xs b = links N P a xs b"
  by (induction xs arbitrary: a) auto

lemma links_P_other [simp]: "x \<noteq> b \<Longrightarrow> x \<notin> set xs \<Longrightarrow> links N (P(x := v)) a xs b = links N P a xs b"
  by (induction xs arbitrary: a) auto

lemma links_first: "links N P a xs b \<Longrightarrow> N a = hd (xs @ [b])"
  by (cases xs) auto

lemma links_last: "links N P a xs b \<Longrightarrow> P b = last (a # xs)"
  by (induction xs arbitrary: a) auto

lemma links_unlink:
  assumes "links N P h (us @ i # vs) h" "distinct (h # us @ i # vs)"
  shows "links (N(P i := N i)) (P(N i := P i)) h (us @ vs) h"
proof (cases us rule: rev_cases; cases vs)
  fix v vs' assume "us = []" "vs = v # vs'"
  with assms show ?thesis by auto
next
  assume "us = []" "vs = []"
  with assms show ?thesis by auto
next
  fix us' u v vs' assume "us = us' @ [u]" "vs = v # vs'"
  with assms show ?thesis by (auto simp: links_append)
next
  fix us' u assume "us = us' @ [u]" "vs = []"
  with assms show ?thesis by (auto simp: links_append)
qed

lemma links_push:
  assumes "links N P h ys h" "distinct (h # i # ys)"
  shows "links (N(i := N h, h := i)) (P(i := h, N h := i)) h (i # ys) h"
  using assms by (cases ys) auto

text \<open>\<open>scan_list\<close> finds the first element of the list with the property.\<close>

lemma scan_list_links:
  assumes "links N P a xs bhead" "bhead \<notin> set xs" "length xs \<le> n"
  shows "scan_list n N Q (N a) = Some (find Q xs)"
  using assms
proof (induction xs arbitrary: a n)
  case (Cons x xs)
  then obtain m where "n = Suc m" "length xs \<le> m" by (cases n) auto
  with Cons show ?case by (subst scan_list.simps) auto
qed (subst scan_list.simps, simp)

lemma links_rev: "links N P a xs b \<Longrightarrow> links P N b (rev xs) a"
proof (induction xs arbitrary: a)
  case (Cons x xs)
  then have "links P N b (rev xs) x" "N a = x" "P x = a" by auto
  then show ?case by (simp add: links_append)
qed simp

abbreviation nexts :: "buf list \<Rightarrow> nat \<Rightarrow> nat" where "nexts bs \<equiv> \<lambda>i. bnext (bs ! i)"
abbreviation prevs :: "buf list \<Rightarrow> nat \<Rightarrow> nat" where "prevs bs \<equiv> \<lambda>i. bprev (bs ! i)"

lemma length_set_links [simp]: "length (set_next b v bs) = length bs" "length (set_prev b v bs) = length bs"
  by (simp_all add: set_next_def set_prev_def)

lemma nth_set_links [simp]:
  "b < length bs \<Longrightarrow> bnext (set_next b v bs ! k) = (if k = b then v else bnext (bs ! k))"
  "b < length bs \<Longrightarrow> bprev (set_next b v bs ! k) = bprev (bs ! k)"
  "b < length bs \<Longrightarrow> bnext (set_prev b v bs ! k) = bnext (bs ! k)"
  "b < length bs \<Longrightarrow> bprev (set_prev b v bs ! k) = (if k = b then v else bprev (bs ! k))"
  by (cases "k = b"; simp add: set_next_def set_prev_def)+

definition ring :: "buf list \<Rightarrow> nat list \<Rightarrow> bool" where
  "ring bs xs \<longleftrightarrow> links (nexts bs) (prevs bs) bhead xs bhead \<and>
     distinct xs \<and> set xs = {0..<NBUF} \<and> length bs = Suc NBUF"

lemma ring_length: "ring bs xs \<Longrightarrow> length xs = NBUF"
  by (metis ring_def card_atLeastLessThan diff_zero distinct_card)

lemma ring_notin: "ring bs xs \<Longrightarrow> bhead \<notin> set xs"
  by (simp add: ring_def)

lemma ring_mem: "ring bs xs \<Longrightarrow> i \<in> set xs \<longleftrightarrow> i < NBUF"
  by (simp add: ring_def)

lemma ring_scan_next:
  assumes "ring bs xs"
  shows "scan_list NBUF (nexts bs) Q (bnext (bs ! bhead)) = Some (find Q xs)"
proof -
  have "links (nexts bs) (prevs bs) bhead xs bhead" using assms by (simp add: ring_def)
  from scan_list_links [OF this] show ?thesis
    using ring_length [OF assms] ring_notin [OF assms] by simp
qed

lemma ring_scan_prev:
  assumes "ring bs xs"
  shows "scan_list NBUF (prevs bs) Q (bprev (bs ! bhead)) = Some (find Q (rev xs))"
proof -
  have "links (prevs bs) (nexts bs) bhead (rev xs) bhead"
    using assms by (intro links_rev) (simp add: ring_def)
  from scan_list_links [OF this] show ?thesis
    using ring_length [OF assms] ring_notin [OF assms] by simp
qed

text \<open>Changes that leave the links alone keep the ring.\<close>

lemma ring_upd:
  assumes "ring bs xs" "\<And>b. bnext (f b) = bnext b" "\<And>b. bprev (f b) = bprev b"
  shows "ring (bs[i := f (bs ! i)]) xs"
proof -
  have "bnext (bs[i := f (bs ! i)] ! k) = bnext (bs ! k)" "bprev (bs[i := f (bs ! i)] ! k) = bprev (bs ! k)" for k
    by (cases "k = i"; cases "i < length bs"; simp add: assms(2,3) list_update_beyond)+
  with assms(1) show ?thesis by (simp add: ring_def)
qed

lemma ring_split:
  assumes "ring bs xs" "i < NBUF"
  obtains us vs where "xs = us @ i # vs" "links (nexts bs) (prevs bs) bhead us i" "links (nexts bs) (prevs bs) i vs bhead"
    "distinct (bhead # us @ i # vs)" "\<And>k. k \<in> set (us @ i # vs) \<longleftrightarrow> k < NBUF"
proof -
  have "i \<in> set xs" using ring_mem [OF assms(1)] assms(2) by blast
  then obtain us vs where xs: "xs = us @ i # vs" by (metis split_list)
  with assms(1) ring_notin [OF assms(1)] ring_mem [OF assms(1)] show ?thesis
    by (intro that [of us vs]) (simp_all add: ring_def links_append)
qed

lemma ring_bounds:
  assumes "ring bs xs" "i < NBUF"
  shows "nexts bs i < length bs" "prevs bs i < length bs" "nexts bs bhead < length bs" "nexts bs i \<noteq> i"
proof -
  obtain us vs where xs: "xs = us @ i # vs" "links (nexts bs) (prevs bs) bhead us i" "links (nexts bs) (prevs bs) i vs bhead"
      "distinct (bhead # us @ i # vs)" "\<And>k. k \<in> set (us @ i # vs) \<longleftrightarrow> k < NBUF"
    using ring_split [OF assms] by metis
  have len: "length bs = Suc NBUF" using assms(1) by (simp add: ring_def)
  have n: "nexts bs i = hd (vs @ [bhead])" and p: "prevs bs i = last (bhead # us)" and h: "nexts bs bhead = hd (us @ [i])"
    using links_first [OF xs(3)] links_last [OF xs(2)] links_first [OF xs(2)] by simp_all
  have le: "k \<in> set (us @ i # vs) \<Longrightarrow> k < Suc NBUF" for k using xs(5) [of k] by simp
  show "nexts bs i < length bs" using le [of "hd vs"] by (cases vs) (simp_all add: n len)
  show "prevs bs i < length bs" using le [of "last us"] by (cases us rule: rev_cases) (simp_all add: p len)
  show "nexts bs bhead < length bs" using le [of "hd us"] assms(2) by (cases us) (simp_all add: h len)
  show "nexts bs i \<noteq> i" using xs(4) assms(2) by (cases vs) (simp_all add: n)
qed

lemma links_set_next: "b < length bs \<Longrightarrow> nexts (set_next b v bs) = (nexts bs)(b := v)"
    "b < length bs \<Longrightarrow> prevs (set_next b v bs) = prevs bs"
  and links_set_prev: "b < length bs \<Longrightarrow> nexts (set_prev b v bs) = nexts bs"
    "b < length bs \<Longrightarrow> prevs (set_prev b v bs) = (prevs bs)(b := v)"
  by (rule ext, simp)+

lemma relink_links:
  assumes "ring bs xs" "i < NBUF"
  defines "N \<equiv> (nexts bs)(prevs bs i := nexts bs i)" and "P \<equiv> (prevs bs)(nexts bs i := prevs bs i)"
  shows "nexts (relink i bs) = N(i := N bhead, bhead := i)" "prevs (relink i bs) = P(i := bhead, N bhead := i)"
proof -
  note b = ring_bounds [OF assms(1,2)]
  have len: "length bs = Suc NBUF" using assms(1) by (simp add: ring_def)
  define bs1 where "bs1 = set_prev (bnext (bs ! i)) (bprev (bs ! i)) bs"
  have 1: "nexts bs1 = nexts bs" "prevs bs1 = P" "length bs1 = Suc NBUF"
    using b len by (simp_all only: bs1_def links_set_prev length_set_links P_def)
  have "bnext (bs1 ! i) = nexts bs i" using fun_cong [OF 1(1)] by simp
  moreover have "bprev (bs1 ! i) = prevs bs i" using fun_cong [OF 1(2), of i] b(4) by (simp add: P_def)
  ultimately have r: "relink i bs = (let bs2 = set_next (prevs bs i) (nexts bs i) bs1;
          bs3 = set_next i (bnext (bs2 ! bhead)) bs2; bs4 = set_prev i bhead bs3;
          bs5 = set_prev (bnext (bs4 ! bhead)) i bs4 in set_next bhead i bs5)"
    unfolding relink_def Let_def bs1_def [symmetric] by (simp only:)
  define bs2 where "bs2 = set_next (prevs bs i) (nexts bs i) bs1"
  have 2: "nexts bs2 = N" "prevs bs2 = P" "length bs2 = Suc NBUF"
    using b len 1 by (simp_all only: bs2_def links_set_next length_set_links N_def)
  have h2: "bnext (bs2 ! bhead) = N bhead" using fun_cong [OF 2(1)] by simp
  define bs3 where "bs3 = set_next i (N bhead) bs2"
  define bs4 where "bs4 = set_prev i bhead bs3"
  have 4: "nexts bs4 = N(i := N bhead)" "prevs bs4 = P(i := bhead)" "length bs4 = Suc NBUF"
    using assms(2) 2 by (simp_all only: bs4_def bs3_def links_set_next links_set_prev length_set_links less_SucI)
  have h4: "bnext (bs4 ! bhead) = N bhead" using fun_cong [OF 4(1), of bhead] assms(2) by simp
  have "relink i bs = set_next bhead i (set_prev (N bhead) i bs4)"
    unfolding r Let_def bs2_def [symmetric] h2 bs3_def [symmetric] bs4_def [symmetric] h4 by (rule refl)
  moreover have "N bhead < Suc NBUF" using b len by (simp add: N_def)
  ultimately show "nexts (relink i bs) = N(i := N bhead, bhead := i)" "prevs (relink i bs) = P(i := bhead, N bhead := i)"
    using 4 by (simp_all only: links_set_next links_set_prev length_set_links lessI)
qed

lemma ring_relink:
  assumes "ring bs xs" "i < NBUF"
  shows "ring (relink i bs) (i # remove1 i xs)"
proof -
  obtain us vs where xs: "xs = us @ i # vs" "links (nexts bs) (prevs bs) bhead us i" "links (nexts bs) (prevs bs) i vs bhead"
      and d: "distinct (bhead # us @ i # vs)" "\<And>k. k \<in> set (us @ i # vs) \<longleftrightarrow> k < NBUF"
    using ring_split [OF assms] by metis
  then have l: "links (nexts bs) (prevs bs) bhead (us @ i # vs) bhead" by (simp add: links_append)
  have "links (nexts (relink i bs)) (prevs (relink i bs)) bhead (i # us @ vs) bhead"
    unfolding relink_links [OF assms] using d(1) by (intro links_push links_unlink [OF l]) auto
  moreover have "length (relink i bs) = length bs" by (simp add: relink_def Let_def)
  moreover have "remove1 i xs = us @ vs" using d(1) by (simp add: xs(1) remove1_append)
  moreover have "set (us @ i # vs) = {0..<NBUF}" by (rule set_eqI) (simp only: d(2) atLeastLessThan_iff zero_le simp_thms)
  moreover have "distinct (i # us @ vs)" using d(1) by auto
  ultimately show ?thesis using assms(1) by (simp add: ring_def)
qed

text \<open>Moving a buffer changes nothing but links.\<close>

lemma set_links_fields [simp]:
  "b_busy (set_next b v bs ! k) = b_busy (bs ! k)" "b_busy (set_prev b v bs ! k) = b_busy (bs ! k)"
  "b_valid (set_next b v bs ! k) = b_valid (bs ! k)" "b_valid (set_prev b v bs ! k) = b_valid (bs ! k)"
  "b_dirty (set_next b v bs ! k) = b_dirty (bs ! k)" "b_dirty (set_prev b v bs ! k) = b_dirty (bs ! k)"
  "bdev (set_next b v bs ! k) = bdev (bs ! k)" "bdev (set_prev b v bs ! k) = bdev (bs ! k)"
  "blockno (set_next b v bs ! k) = blockno (bs ! k)" "blockno (set_prev b v bs ! k) = blockno (bs ! k)"
  "bdata (set_next b v bs ! k) = bdata (bs ! k)" "bdata (set_prev b v bs ! k) = bdata (bs ! k)"
  by (cases "k = b"; cases "b < length bs"; simp add: set_next_def set_prev_def list_update_beyond)+

lemma relink_fields [simp]:
  "b_busy (relink i bs ! k) = b_busy (bs ! k)" "b_valid (relink i bs ! k) = b_valid (bs ! k)"
  "b_dirty (relink i bs ! k) = b_dirty (bs ! k)" "bdev (relink i bs ! k) = bdev (bs ! k)"
  "blockno (relink i bs ! k) = blockno (bs ! k)" "bdata (relink i bs ! k) = bdata (bs ! k)"
  "length (relink i bs) = length bs"
  by (simp_all add: relink_def Let_def)

section \<open>What the cache holds\<close>

text \<open>
  The buffer that stands for a block of the disk, the content of a block as the kernel sees it,
  and the invariant of the cache: one buffer per block, and a buffer that is neither in use nor
  dirty holds what the disk holds.
\<close>

definition buf_of :: "buf list \<Rightarrow> u32 \<Rightarrow> nat option" where
  "buf_of bs b = find_index (\<lambda>x. bdev x = 1 \<and> blockno x = b) (take NBUF bs)"

definition bview :: "buf list \<Rightarrow> (u32 \<Rightarrow> byte list) \<Rightarrow> u32 \<Rightarrow> byte list" where
  "bview bs d b = (case buf_of bs b of
      Some i \<Rightarrow> if b_valid (bs ! i) then bdata (bs ! i) else d b
    | None \<Rightarrow> d b)"

definition buf_ok :: "(u32 \<Rightarrow> byte list) \<Rightarrow> buf \<Rightarrow> bool" where
  "buf_ok d x \<longleftrightarrow> (b_valid x \<longrightarrow> bdev x = 1 \<and> length (bdata x) = BSIZE) \<and>
     (bdev x = 1 \<and> \<not> b_busy x \<longrightarrow> b_valid x) \<and>
     (b_valid x \<and> \<not> b_busy x \<and> \<not> b_dirty x \<longrightarrow> bdata x = d (blockno x)) \<and> (b_dirty x \<longrightarrow> b_valid x)"

definition one_per_block :: "buf list \<Rightarrow> bool" where
  "one_per_block bs \<longleftrightarrow> (\<forall>i < NBUF. \<forall>j < NBUF. bdev (bs ! i) = 1 \<and> bdev (bs ! j) = 1 \<and>
     blockno (bs ! i) = blockno (bs ! j) \<longrightarrow> i = j)"

definition cache_ok :: "buf list \<Rightarrow> (u32 \<Rightarrow> byte list) \<Rightarrow> bool" where
  "cache_ok bs d \<longleftrightarrow> (\<exists>xs. ring bs xs) \<and> one_per_block bs \<and> (\<forall>i < NBUF. buf_ok d (bs ! i)) \<and>
     (\<forall>b. length (d b) = BSIZE)"

lemma cache_ok_length: "cache_ok bs d \<Longrightarrow> length bs = Suc NBUF"
  by (auto simp: cache_ok_def ring_def)

lemma buf_of_SomeD:
  "buf_of bs b = Some i \<Longrightarrow> i < NBUF \<and> i < length bs \<and> bdev (bs ! i) = 1 \<and> blockno (bs ! i) = b"
  by (auto simp: buf_of_def dest!: find_index_SomeD)

lemma buf_of_SomeI:
  assumes "one_per_block bs" "i < NBUF" "length bs = Suc NBUF" "bdev (bs ! i) = 1" "blockno (bs ! i) = b"
  shows "buf_of bs b = Some i"
proof -
  have "\<not> (bdev (bs ! j) = 1 \<and> blockno (bs ! j) = b)" if "j < i" for j
    using assms(1,2,4,5) that unfolding one_per_block_def by (metis less_trans less_irrefl)
  with assms show ?thesis by (simp add: buf_of_def find_index_Some_iff)
qed

lemma buf_of_None: "length bs = Suc NBUF \<Longrightarrow>
    buf_of bs b = None \<longleftrightarrow> (\<forall>i < NBUF. \<not> (bdev (bs ! i) = 1 \<and> blockno (bs ! i) = b))"
  unfolding buf_of_def find_index_None all_set_conv_all_nth by simp

lemma length_bview: "cache_ok bs d \<Longrightarrow> length (bview bs d b) = BSIZE"
  by (auto simp: bview_def cache_ok_def buf_ok_def split: option.splits dest: buf_of_SomeD)

text \<open>How a change of one buffer changes the content.\<close>

lemma one_per_block_upd:
  assumes "one_per_block bs" "length bs = Suc NBUF" "i < NBUF"
    "bdev x = 1 \<Longrightarrow> \<forall>k < NBUF. k \<noteq> i \<longrightarrow> \<not> (bdev (bs ! k) = 1 \<and> blockno (bs ! k) = blockno x)"
  shows "one_per_block (bs[i := x])"
  using assms by (auto simp: one_per_block_def nth_list_update)

lemma bview_upd_other:
  assumes "one_per_block bs" "one_per_block (bs[i := x])" "length bs = Suc NBUF" "i < NBUF"
    "bdev (bs ! i) = 1 \<longrightarrow> blockno (bs ! i) \<noteq> b" "bdev x = 1 \<longrightarrow> blockno x \<noteq> b"
  shows "bview (bs[i := x]) d b = bview bs d b"
proof (cases "buf_of bs b")
  case None
  then have "buf_of (bs[i := x]) b = None"
    using assms by (auto simp: buf_of_None nth_list_update)
  with None show ?thesis by (simp add: bview_def)
next
  case (Some j)
  with assms have j: "j \<noteq> i" "j < NBUF" "bdev (bs ! j) = 1" "blockno (bs ! j) = b" by (auto dest: buf_of_SomeD)
  then have "buf_of (bs[i := x]) b = Some j" using assms by (intro buf_of_SomeI) auto
  with Some j show ?thesis by (simp add: bview_def)
qed

lemma bview_upd_same:
  assumes "one_per_block (bs[i := x])" "length bs = Suc NBUF" "i < NBUF" "bdev x = 1" "blockno x = b" "b_valid x"
  shows "bview (bs[i := x]) d b = bdata x"
proof -
  have "buf_of (bs[i := x]) b = Some i" using assms by (intro buf_of_SomeI) auto
  with assms show ?thesis by (simp add: bview_def)
qed

lemma cache_ok_upd:
  assumes "cache_ok bs d" "i < NBUF" "bnext x = bnext (bs ! i)" "bprev x = bprev (bs ! i)" "buf_ok d x"
    "bdev x = 1 \<Longrightarrow> \<forall>k < NBUF. k \<noteq> i \<longrightarrow> \<not> (bdev (bs ! k) = 1 \<and> blockno (bs ! k) = blockno x)"
  shows "cache_ok (bs[i := x]) d"
proof -
  obtain xs where xs: "ring bs xs" using assms(1) by (auto simp: cache_ok_def)
  have len: "length bs = Suc NBUF" by (rule cache_ok_length [OF assms(1)])
  have "nexts (bs[i := x]) = nexts bs" "prevs (bs[i := x]) = prevs bs"
    using assms(2-4) len by (auto simp: nth_list_update)
  with xs have "ring (bs[i := x]) xs" by (simp add: ring_def)
  moreover have "one_per_block (bs[i := x])"
    using assms len by (intro one_per_block_upd) (auto simp: cache_ok_def)
  ultimately show ?thesis using assms len by (auto simp: cache_ok_def nth_list_update)
qed

section \<open>The operations on the cache\<close>

definition bio_ready :: "'z kbio_scheme \<Rightarrow> bool" where
  "bio_ready s \<longleftrightarrow> cpu_shallow (mycpu s) \<and> lock_free (locks s BcacheLock) \<and> lock_free (locks s PtableLock)"

lemma find_unique:
  assumes "i \<in> set xs" "Q i" "\<And>j. j \<in> set xs \<Longrightarrow> Q j \<Longrightarrow> j = i"
  shows "find Q xs = Some i"
proof (cases "find Q xs")
  case None
  with assms(1,2) show ?thesis by (simp add: find_None_iff)
next
  case (Some j)
  then have "Q j" "j \<in> set xs" by (metis find_Some_iff nth_mem)+
  with assms(3) Some show ?thesis by simp
qed

lemma bget_hit:
  assumes "cache_ok (bcache s) (disk s)" "bio_ready s" "buf_of (bcache s) b = Some i" "\<not> b_busy (bcache s ! i)"
  shows "bget 1 b s = Ok i (irqsave s\<lparr>bcache := (bcache s)[i := (bcache s ! i)\<lparr>b_busy := True\<rparr>]\<rparr>)"
proof -
  let ?Q = "\<lambda>i. bdev (bcache s ! i) = 1 \<and> blockno (bcache s ! i) = b"
  obtain xs where xs: "ring (bcache s) xs" using assms(1) by (auto simp: cache_ok_def)
  have i: "i < NBUF" "?Q i" using buf_of_SomeD [OF assms(3)] by auto
  have "find ?Q xs = Some i"
    using i ring_mem [OF xs] assms(1) by (intro find_unique) (auto simp: cache_ok_def one_per_block_def)
  then show ?thesis
    using assms(2,4) by (simp add: kop bget_def bget_loop_def bio_ready_def lock_rules ring_scan_next [OF xs] upd_buf_def)
qed

lemma bget_miss:
  assumes "cache_ok (bcache s) (disk s)" "bio_ready s" "buf_of (bcache s) b = None"
    "\<exists>i < NBUF. \<not> b_busy (bcache s ! i) \<and> \<not> b_dirty (bcache s ! i)"
  shows "\<exists>i < NBUF. \<not> b_busy (bcache s ! i) \<and> \<not> b_dirty (bcache s ! i) \<and>
    bget 1 b s = Ok i (irqsave s\<lparr>bcache := (bcache s)[i := (bcache s ! i)\<lparr>b_busy := True, b_valid := False,
      b_dirty := False, bdev := 1, blockno := b\<rparr>]\<rparr>)"
proof -
  let ?Q = "\<lambda>i. bdev (bcache s ! i) = 1 \<and> blockno (bcache s ! i) = b"
  let ?R = "\<lambda>i. \<not> b_busy (bcache s ! i) \<and> \<not> b_dirty (bcache s ! i)"
  obtain xs where xs: "ring (bcache s) xs" using assms(1) by (auto simp: cache_ok_def)
  note len = cache_ok_length [OF assms(1)]
  have "\<forall>i < NBUF. \<not> ?Q i" using assms(3) len by (simp add: buf_of_None)
  then have n: "find ?Q xs = None" using ring_mem [OF xs] by (auto simp: find_None_iff)
  have "find ?R (rev xs) \<noteq> None" using assms(4) ring_mem [OF xs] by (auto simp: find_None_iff)
  then obtain i where r: "find ?R (rev xs) = Some i" by auto
  then have "?R i \<and> i \<in> set (rev xs)" by (metis find_Some_iff nth_mem)
  then have i: "?R i" "i < NBUF" using ring_mem [OF xs] by auto
  with n r assms(2) len show ?thesis
    by (intro exI [of _ i]; cases "bcache s ! i")
      (simp add: kop bget_def bget_loop_def bio_ready_def lock_rules ring_scan_next [OF xs] ring_scan_prev [OF xs] upd_buf_def)
qed

lemma iderw_read:
  assumes "b_busy (bcache s ! i)" "\<not> b_valid (bcache s ! i)" "\<not> b_dirty (bcache s ! i)" "bdev (bcache s ! i) = 1"
    "blockno (bcache s ! i) < word_of_int (disksize s)" "i < length (bcache s)"
  shows "iderw i s = Ok () (s\<lparr>bcache := (bcache s)[i := (bcache s ! i)\<lparr>b_valid := True,
    bdata := disk s (blockno (bcache s ! i))\<rparr>]\<rparr>)"
  using assms by (cases "bcache s ! i") (simp add: kop iderw_def upd_buf_def not_le)

lemma iderw_write:
  assumes "b_busy (bcache s ! i)" "b_dirty (bcache s ! i)" "bdev (bcache s ! i) = 1"
    "blockno (bcache s ! i) < word_of_int (disksize s)" "i < length (bcache s)"
  shows "iderw i s = Ok () (s\<lparr>bcache := (bcache s)[i := (bcache s ! i)\<lparr>b_valid := True, b_dirty := False\<rparr>],
    disk := (disk s)(blockno (bcache s ! i) := bdata (bcache s ! i)),
    dwrites := dwrites s @ [(blockno (bcache s ! i), bdata (bcache s ! i))]\<rparr>)"
  using assms by (cases "bcache s ! i") (simp add: kop iderw_def upd_buf_def not_le)

text \<open>What the caller of \<^verbatim>\<open>bread\<close> gets: buffer \<open>i\<close> holds the block \<open>b\<close>, and only that buffer changed.\<close>

definition bread_gives :: "buf list \<Rightarrow> (u32 \<Rightarrow> byte list) \<Rightarrow> u32 \<Rightarrow> nat \<Rightarrow> buf \<Rightarrow> bool" where
  "bread_gives bs d b i x \<longleftrightarrow> i < NBUF \<and> b_busy x \<and> b_valid x \<and> bdev x = 1 \<and> blockno x = b \<and>
     bdata x = bview bs d b \<and> \<not> b_busy (bs ! i) \<and> (buf_of bs b = Some i \<and> b_dirty x = b_dirty (bs ! i) \<or>
       buf_of bs b = None \<and> \<not> b_dirty (bs ! i) \<and> \<not> b_dirty x) \<and>
     cache_ok (bs[i := x]) d \<and> bview (bs[i := x]) d = bview bs d"

definition readable_block :: "'z kbio_scheme \<Rightarrow> u32 \<Rightarrow> bool" where
  "readable_block s b \<longleftrightarrow> b < word_of_int (disksize s) \<and>
     (case buf_of (bcache s) b of
        Some i \<Rightarrow> \<not> b_busy (bcache s ! i)
      | None \<Rightarrow> \<exists>i < NBUF. \<not> b_busy (bcache s ! i) \<and> \<not> b_dirty (bcache s ! i))"

lemma bview_hold:
  assumes "cache_ok bs d" "buf_of bs b = Some i" "b_valid (bs ! i)"
    "bdata x = bdata (bs ! i)" "b_valid x" "bdev x = 1" "blockno x = b"
  shows "bview (bs[i := x]) d = bview bs d"
proof
  fix c
  have i: "i < NBUF" "bdev (bs ! i) = 1" "blockno (bs ! i) = b" using buf_of_SomeD [OF assms(2)] by auto
  note len = cache_ok_length [OF assms(1)]
  have o: "one_per_block bs" "one_per_block (bs[i := x])"
    using assms i len by (auto simp: cache_ok_def one_per_block_def nth_list_update)
  show "bview (bs[i := x]) d c = bview bs d c"
  proof (cases "c = b")
    case True
    with assms i o len bview_upd_same [OF o(2) len i(1)] show ?thesis by (simp add: bview_def)
  next
    case False
    with assms i o len show ?thesis by (intro bview_upd_other) auto
  qed
qed

lemma bview_clean:
  assumes "cache_ok bs d" "i < NBUF" "\<not> b_busy (bs ! i)" "\<not> b_dirty (bs ! i)" "bdev (bs ! i) = 1"
  shows "bview bs d (blockno (bs ! i)) = d (blockno (bs ! i))"
proof -
  have "buf_of bs (blockno (bs ! i)) = Some i"
    using assms cache_ok_length [OF assms(1)] by (intro buf_of_SomeI) (auto simp: cache_ok_def)
  moreover have "buf_ok d (bs ! i)" using assms by (simp add: cache_ok_def)
  ultimately show ?thesis using assms by (simp add: bview_def buf_ok_def)
qed

lemma bview_fill:
  assumes "cache_ok bs d" "i < NBUF" "\<not> b_busy (bs ! i)" "\<not> b_dirty (bs ! i)" "buf_of bs b = None"
    "cache_ok (bs[i := x]) d" "bdev x = 1" "blockno x = b" "b_valid x" "bdata x = d b"
  shows "bview (bs[i := x]) d = bview bs d"
proof
  fix c
  note len = cache_ok_length [OF assms(1)]
  have o: "one_per_block bs" "one_per_block (bs[i := x])" using assms by (auto simp: cache_ok_def)
  consider "c = b" | "c \<noteq> b" "bdev (bs ! i) = 1" "blockno (bs ! i) = c" | "c \<noteq> b" "bdev (bs ! i) = 1 \<longrightarrow> blockno (bs ! i) \<noteq> c"
    by blast
  then show "bview (bs[i := x]) d c = bview bs d c"
  proof cases
    case 1
    with bview_upd_same [OF o(2) len assms(2,7,8,9)] assms(5,10) show ?thesis by (simp add: bview_def)
  next
    case 2
    have "buf_of (bs[i := x]) c = None"
      using 2 o(1) assms(2,8) len by (auto simp: buf_of_None nth_list_update one_per_block_def)
    with bview_clean [OF assms(1-4) 2(2)] 2(3) show ?thesis by (simp add: bview_def)
  next
    case 3
    with assms o len show ?thesis by (intro bview_upd_other) auto
  qed
qed

lemma bread_ok:
  assumes "cache_ok (bcache s) (disk s)" "bio_ready s" "readable_block s b"
  shows "\<exists>i x. bread 1 b s = Ok i (irqsave s\<lparr>bcache := (bcache s)[i := x]\<rparr>) \<and>
    bread_gives (bcache s) (disk s) b i x"
proof (cases "buf_of (bcache s) b")
  case (Some i)
  let ?bs = "bcache s" and ?x = "(bcache s ! i)\<lparr>b_busy := True\<rparr>"
  have nb: "\<not> b_busy (?bs ! i)" using assms(3) Some by (simp add: readable_block_def)
  have i: "i < NBUF" "bdev (?bs ! i) = 1" "blockno (?bs ! i) = b" using buf_of_SomeD [OF Some] by auto
  note len = cache_ok_length [OF assms(1)]
  have ok: "buf_ok (disk s) (?bs ! i)" "one_per_block ?bs" using assms(1) i by (auto simp: cache_ok_def)
  then have v: "b_valid (?bs ! i)" using nb i by (auto simp: buf_ok_def)
  have "bread 1 b s = Ok i (irqsave s\<lparr>bcache := ?bs[i := ?x]\<rparr>)"
    using v i len by (simp add: kop bread_def bget_hit [OF assms(1,2) Some nb])
  moreover have "cache_ok (?bs[i := ?x]) (disk s)"
    using ok i by (intro cache_ok_upd [OF assms(1)]) (auto simp: buf_ok_def one_per_block_def)
  moreover have "bview (?bs[i := ?x]) (disk s) = bview ?bs (disk s)"
    using v i by (intro bview_hold [OF assms(1) Some]) auto
  ultimately show ?thesis using i v nb Some by (intro exI [of _ i] exI [of _ ?x]) (simp add: bread_gives_def bview_def)
next
  case None
  let ?bs = "bcache s" and ?d = "disk s"
  note len = cache_ok_length [OF assms(1)]
  have "\<exists>i < NBUF. \<not> b_busy (?bs ! i) \<and> \<not> b_dirty (?bs ! i)"
    using assms(3) None by (simp add: readable_block_def)
  from bget_miss [OF assms(1,2) None this] obtain i where i: "i < NBUF" "\<not> b_busy (?bs ! i)" "\<not> b_dirty (?bs ! i)"
    and g: "bget 1 b s = Ok i (irqsave s\<lparr>bcache := ?bs[i := (?bs ! i)\<lparr>b_busy := True, b_valid := False,
      b_dirty := False, bdev := 1, blockno := b\<rparr>]\<rparr>)" by blast
  let ?x = "(?bs ! i)\<lparr>b_busy := True, b_valid := True, b_dirty := False, bdev := 1, blockno := b, bdata := ?d b\<rparr>"
  have nb: "\<forall>k < NBUF. \<not> (bdev (?bs ! k) = 1 \<and> blockno (?bs ! k) = b)" using None len by (simp add: buf_of_None)
  have ok: "buf_ok ?d (?bs ! i)" "one_per_block ?bs" "length (?d b) = BSIZE" using assms(1) i by (auto simp: cache_ok_def)
  have "bread 1 b s = Ok i (irqsave s\<lparr>bcache := ?bs[i := ?x]\<rparr>)"
    using i len assms(3) by (cases "?bs ! i") (simp add: kop bread_def g iderw_read readable_block_def)
  moreover have c: "cache_ok (?bs[i := ?x]) ?d"
    using ok i nb by (intro cache_ok_upd [OF assms(1)]) (auto simp: buf_ok_def)
  moreover have "bview (?bs[i := ?x]) ?d = bview ?bs ?d"
    using i ok c None by (intro bview_fill [OF assms(1)]) auto
  ultimately show ?thesis using i None
    by (intro exI [of _ i] exI [of _ ?x]) (simp add: bread_gives_def bview_def)
qed

lemma find_index_map: "find_index P xs = find_index id (map P xs)"
  by (induction xs) auto

lemma buf_of_cong:
  assumes "length bs = length bs'" "\<And>k. k < NBUF \<Longrightarrow> k < length bs \<Longrightarrow> bdev (bs ! k) = bdev (bs' ! k) \<and> blockno (bs ! k) = blockno (bs' ! k)"
  shows "buf_of bs b = buf_of bs' b"
proof -
  have "map (\<lambda>x. bdev x = 1 \<and> blockno x = b) (take NBUF bs) = map (\<lambda>x. bdev x = 1 \<and> blockno x = b) (take NBUF bs')"
    using assms by (intro nth_equalityI) auto
  then show ?thesis by (simp only: buf_of_def find_index_map [of "\<lambda>x. bdev x = 1 \<and> blockno x = b"])
qed

lemma buf_of_relink: "buf_of (relink i bs) b = buf_of bs b"
  by (rule buf_of_cong) auto

lemma bview_relink: "bview (relink i bs) d = bview bs d"
  by (rule ext) (simp add: bview_def buf_of_relink split: option.split)

lemma cache_ok_relink:
  assumes "cache_ok bs d" "i < NBUF"
  shows "cache_ok (relink i bs) d"
proof -
  obtain xs where "ring bs xs" using assms(1) by (auto simp: cache_ok_def)
  then have "ring (relink i bs) (i # remove1 i xs)" using assms(2) by (rule ring_relink)
  with assms(1) show ?thesis by (auto simp: cache_ok_def one_per_block_def buf_ok_def)
qed

text \<open>Changing the bytes of a buffer in use.\<close>

lemma cache_ok_held:
  assumes "cache_ok bs d" "i < NBUF" "b_busy (bs ! i)" "b_valid (bs ! i)" "length ys = BSIZE"
  shows "cache_ok (bs[i := (bs ! i)\<lparr>bdata := ys\<rparr>]) d"
    and "bview (bs[i := (bs ! i)\<lparr>bdata := ys\<rparr>]) d = (bview bs d)(blockno (bs ! i) := ys)"
    and "cache_ok (bs[i := (bs ! i)\<lparr>bdata := ys, b_dirty := True\<rparr>]) d"
    and "bview (bs[i := (bs ! i)\<lparr>bdata := ys, b_dirty := True\<rparr>]) d = (bview bs d)(blockno (bs ! i) := ys)"
proof -
  note len = cache_ok_length [OF assms(1)]
  have ok: "buf_ok d (bs ! i)" "one_per_block bs" using assms by (auto simp: cache_ok_def)
  then have dev: "bdev (bs ! i) = 1" using assms by (simp add: buf_ok_def)
  show c: "cache_ok (bs[i := (bs ! i)\<lparr>bdata := ys\<rparr>]) d" "cache_ok (bs[i := (bs ! i)\<lparr>bdata := ys, b_dirty := True\<rparr>]) d"
    using assms ok dev by (auto intro!: cache_ok_upd simp: buf_ok_def one_per_block_def)
  have v: "bview (bs[i := x]) d = (bview bs d)(blockno (bs ! i) := ys)"
    if x: "cache_ok (bs[i := x]) d" "bdev x = 1" "blockno x = blockno (bs ! i)" "b_valid x" "bdata x = ys" for x
  proof
    fix c
    have o: "one_per_block (bs[i := x])" using x by (simp add: cache_ok_def)
    show "bview (bs[i := x]) d c = ((bview bs d)(blockno (bs ! i) := ys)) c"
      using bview_upd_same [OF o len assms(2) x(2,3,4)] bview_upd_other [OF ok(2) o len assms(2), of c] x
      by (cases "c = blockno (bs ! i)") auto
  qed
  show "bview (bs[i := (bs ! i)\<lparr>bdata := ys\<rparr>]) d = (bview bs d)(blockno (bs ! i) := ys)"
    "bview (bs[i := (bs ! i)\<lparr>bdata := ys, b_dirty := True\<rparr>]) d = (bview bs d)(blockno (bs ! i) := ys)"
    using assms dev by (intro v c; simp)+
qed

text \<open>Releasing a buffer: its bytes must be on disk or marked dirty.\<close>

definition released :: "nat \<Rightarrow> buf list \<Rightarrow> buf list" where
  "released i bs = (relink i bs)[i := (relink i bs ! i)\<lparr>b_busy := False\<rparr>]"

lemma released_fields:
  "i < length bs \<Longrightarrow> k < length bs \<Longrightarrow> b_busy (released i bs ! k) = (k \<noteq> i \<and> b_busy (bs ! k))"
  "b_valid (released i bs ! k) = b_valid (bs ! k)" "b_dirty (released i bs ! k) = b_dirty (bs ! k)"
  "bdev (released i bs ! k) = bdev (bs ! k)" "blockno (released i bs ! k) = blockno (bs ! k)"
  "bdata (released i bs ! k) = bdata (bs ! k)" "length (released i bs) = length bs"
  by (cases "k = i"; cases "i < length bs"; simp add: released_def list_update_beyond)+

lemma buf_of_released: "buf_of (released i bs) b = buf_of bs b"
  by (rule buf_of_cong) (simp_all add: released_fields)

lemma bview_released: "bview (released i bs) d = bview bs d"
  by (rule ext) (simp add: bview_def buf_of_released released_fields split: option.split)

lemma brelse_ok:
  assumes "bio_ready s" "i < NBUF" "b_busy (bcache s ! i)" "length (bcache s) = Suc NBUF"
  shows "brelse i s = Ok () (irqsave s\<lparr>bcache := released i (bcache s), ptable := map (wake (ChanBuf i)) (ptable s)\<rparr>)"
  using assms by (simp add: kop brelse_def bio_ready_def lock_rules upd_buf_def wakeup_def wakeup1_def released_def)

lemma cache_ok_released:
  assumes "cache_ok bs d" "i < NBUF" "b_valid (bs ! i)" "b_dirty (bs ! i) \<or> bdata (bs ! i) = d (blockno (bs ! i))"
  shows "cache_ok (released i bs) d"
proof -
  have r: "cache_ok (relink i bs) d" by (rule cache_ok_relink [OF assms(1,2)])
  then have "buf_ok d (relink i bs ! i)" "one_per_block (relink i bs)" using assms(2) by (auto simp: cache_ok_def)
  with assms show ?thesis unfolding released_def
    by (intro cache_ok_upd [OF r]) (auto simp: buf_ok_def one_per_block_def)
qed

lemma bwrite_ok:
  assumes "cache_ok (bcache s) (disk s)" "i < NBUF" "b_busy (bcache s ! i)" "b_valid (bcache s ! i)"
    "blockno (bcache s ! i) < word_of_int (disksize s)"
  shows "bwrite i s = Ok () (s\<lparr>bcache := (bcache s)[i := (bcache s ! i)\<lparr>b_dirty := False\<rparr>],
    disk := (disk s)(blockno (bcache s ! i) := bdata (bcache s ! i)),
    dwrites := dwrites s @ [(blockno (bcache s ! i), bdata (bcache s ! i))]\<rparr>)"
proof -
  have "bdev (bcache s ! i) = 1" using assms by (auto simp: cache_ok_def buf_ok_def)
  with assms cache_ok_length [OF assms(1)] show ?thesis
    by (cases "bcache s ! i") (simp add: kop bwrite_def upd_buf_def iderw_write)
qed

lemma cache_ok_written:
  assumes "cache_ok bs d" "i < NBUF" "b_busy (bs ! i)" "b_valid (bs ! i)"
  defines "b \<equiv> blockno (bs ! i)"
  shows "cache_ok (bs[i := (bs ! i)\<lparr>b_dirty := False\<rparr>]) (d(b := bdata (bs ! i)))"
    and "bview (bs[i := (bs ! i)\<lparr>b_dirty := False\<rparr>]) (d(b := bdata (bs ! i))) = bview bs d"
proof -
  let ?x = "(bs ! i)\<lparr>b_dirty := False\<rparr>" and ?d = "d(b := bdata (bs ! i))"
  note len = cache_ok_length [OF assms(1)]
  have ok: "buf_ok d (bs ! i)" "one_per_block bs" using assms by (auto simp: cache_ok_def)
  then have dev: "bdev (bs ! i) = 1" "length (bdata (bs ! i)) = BSIZE" using assms by (auto simp: buf_ok_def)
  have "buf_ok ?d (bs ! k)" if "k < NBUF" for k
  proof -
    have "buf_ok d (bs ! k)" using assms(1) that by (simp add: cache_ok_def)
    moreover have "blockno (bs ! k) = b \<and> bdev (bs ! k) = 1 \<longrightarrow> k = i"
      using ok(2) that assms(2) dev by (auto simp: one_per_block_def b_def)
    ultimately show ?thesis using assms(3) by (auto simp: buf_ok_def)
  qed
  with assms(1) dev have c: "cache_ok bs ?d" by (auto simp: cache_ok_def)
  show "cache_ok (bs[i := ?x]) ?d"
    using ok dev assms by (intro cache_ok_upd [OF c]) (auto simp: buf_ok_def one_per_block_def)
  have "buf_of bs b = Some i" using ok dev assms len by (intro buf_of_SomeI) auto
  moreover from this have "bview bs ?d = bview bs d" using assms by (intro ext) (auto simp: bview_def split: option.split)
  ultimately show "bview (bs[i := ?x]) ?d = bview bs d"
    using bview_hold [OF c, of b i ?x] dev assms by (simp add: b_def)
qed

section \<open>Initialisation\<close>

lemma binit_loop_links:
  assumes "links (nexts bs) (prevs bs) bhead xs bhead" "distinct (bhead # ys @ xs)"
    "\<forall>b \<in> set (bhead # ys @ xs). b < length bs"
  shows "links (nexts (binit_loop ys bs)) (prevs (binit_loop ys bs)) bhead (rev ys @ xs) bhead \<and>
    length (binit_loop ys bs) = length bs"
  using assms
proof (induction ys arbitrary: bs xs)
  case (Cons b ys)
  let ?N = "nexts bs" and ?P = "prevs bs"
  have b: "b < length bs" "b \<noteq> bhead" "bhead < length bs" using Cons.prems by auto
  have hn: "?N bhead = hd (xs @ [bhead])" by (rule links_first [OF Cons.prems(1)])
  have "hd (xs @ [bhead]) \<in> set (bhead # ys @ xs)" by (cases xs) auto
  with Cons.prems(3) have h: "?N bhead < length bs" unfolding hn by auto
  define bs2 where "bs2 = set_prev b bhead (set_next b (?N bhead) bs)"
  define bs3 where "bs3 = bs2[b := (bs2 ! b)\<lparr>bdev := - 1\<rparr>]"
  have 2: "nexts bs2 = ?N(b := ?N bhead)" "prevs bs2 = ?P(b := bhead)" "length bs2 = length bs"
    using b by (simp_all only: bs2_def links_set_next links_set_prev length_set_links)
  have "nexts bs3 k = nexts bs2 k" "prevs bs3 k = prevs bs2 k" for k
    using b 2(3) by (cases "k = b"; simp add: bs3_def)+
  then have "nexts bs3 = nexts bs2" "prevs bs3 = prevs bs2" "length bs3 = length bs2" by (auto simp: bs3_def)
  with 2 have 3: "nexts bs3 = ?N(b := ?N bhead)" "prevs bs3 = ?P(b := bhead)" "length bs3 = length bs" by simp_all
  have h3: "bnext (bs3 ! bhead) = ?N bhead" using fun_cong [OF 3(1), of bhead] b by simp
  define bs5 where "bs5 = set_next bhead b (set_prev (?N bhead) b bs3)"
  have 5: "nexts bs5 = ?N(b := ?N bhead, bhead := b)" "prevs bs5 = ?P(b := bhead, ?N bhead := b)" "length bs5 = length bs"
    using b h 3 by (simp_all only: bs5_def links_set_next links_set_prev length_set_links)
  have "links (nexts bs5) (prevs bs5) bhead (b # xs) bhead"
    unfolding 5 using Cons.prems by (intro links_push) auto
  then have "links (nexts (binit_loop ys bs5)) (prevs (binit_loop ys bs5)) bhead (rev ys @ b # xs) bhead \<and>
      length (binit_loop ys bs5) = length bs5"
    using Cons.prems(2,3) 5(3) by (intro Cons.IH) auto
  moreover have "binit_loop (b # ys) bs = binit_loop ys bs5"
    unfolding binit_loop.simps Let_def bs2_def [symmetric] bs3_def [symmetric] h3 bs5_def [symmetric] by (rule refl)
  ultimately show ?case using 5(3) by simp
qed simp

lemma binit_ok:
  assumes "length (bcache s) = Suc NBUF"
  shows "\<exists>t. binit s = Ok () t \<and> ring (bcache t) (rev [0..<NBUF]) \<and> lock_free (locks t BcacheLock)"
proof -
  let ?bs = "set_next bhead bhead (set_prev bhead bhead (bcache s))"
  have "nexts ?bs bhead = bhead" "prevs ?bs bhead = bhead" using assms by simp_all
  then have "links (nexts ?bs) (prevs ?bs) bhead [] bhead" by simp
  from binit_loop_links [OF this, of "[0..<NBUF]"] assms
  have "ring (binit_loop [0..<NBUF] ?bs) (rev [0..<NBUF])" by (auto simp: ring_def)
  then show ?thesis by (simp add: kop binit_def initlock_def upd_lock_def lock_free_def)
qed

text \<open>Both scans of \<^verbatim>\<open>bget\<close> end, with the outcome \<^verbatim>\<open>panic\<close> when every buffer is in use or dirty.\<close>

lemma bget_full:
  assumes "ring (bcache s) xs" "bio_ready s" "buf_of (bcache s) b = None"
    "\<forall>i < NBUF. b_busy (bcache s ! i) \<or> b_dirty (bcache s ! i)"
  shows "bread 1 b s = Panic ''bget: no buffers''"
proof -
  have len: "length (bcache s) = Suc NBUF" using assms(1) by (simp add: ring_def)
  have "find (\<lambda>i. bdev (bcache s ! i) = 1 \<and> blockno (bcache s ! i) = b) xs = None"
    using assms(3) len ring_mem [OF assms(1)] by (auto simp: find_None_iff buf_of_None)
  moreover have "find (\<lambda>i. \<not> b_busy (bcache s ! i) \<and> \<not> b_dirty (bcache s ! i)) (rev xs) = None"
    using assms(4) ring_mem [OF assms(1)] by (auto simp: find_None_iff)
  ultimately show ?thesis
    using assms(2) by (simp add: kop bread_def bget_def bget_loop_def bio_ready_def lock_rules
      ring_scan_next [OF assms(1)] ring_scan_prev [OF assms(1)])
qed

end
