(* ===== verification/Log.thy ===== *)
theory Log
  imports Bio
begin

text \<open>
  The write-ahead log of \<^verbatim>\<open>log.c\<close> (and \<^verbatim>\<open>readsb\<close> of \<^verbatim>\<open>fs.c\<close>, which it calls).  The in-memory log header
  is \<open>lh_n\<close> with the array \<open>lh_block\<close>; the on-disk header is a block of little-endian words.  A header
  read from disk with more than \<open>LOGSIZE\<close> entries makes the code write past its array: \<open>Fault\<close>.
\<close>

section \<open>State\<close>

record klog = kbio +
  log_start :: u32
  log_size :: int
  log_outstanding :: int
  log_committing :: bool
  log_dev :: u32
  lh_n :: int
  lh_block :: "u32 list"

definition sizeof_logheader :: nat where
  "sizeof_logheader = 4 + 4 * LOGSIZE"

definition set_data :: "nat \<Rightarrow> byte list \<Rightarrow> (unit, 'z kbio_scheme) kop" where
  "set_data i ys = upd_buf i (\<lambda>b. b\<lparr>bdata := ys\<rparr>)"

definition get_data :: "nat \<Rightarrow> (byte list, 'z kbio_scheme) kop" where
  "get_data i = getK (\<lambda>s. bdata (bcache s ! i))"

definition readsb :: "u32 \<Rightarrow> (superblock, 'z kbio_scheme) kop" where
  "readsb dev =
     bindK (bread dev 1) (\<lambda>bp.
     bindK (get_data bp) (\<lambda>d.
     thenK (brelse bp) (retK (superblock_of d))))"

section \<open>Committing\<close>

text \<open>Copy one logged block to its home location.\<close>

definition install_one :: "nat \<Rightarrow> (unit, 'z klog_scheme) kop" where
  "install_one tail =
     bindK (getK (\<lambda>s. (log_dev s, log_start s + of_nat tail + 1, lh_block s ! tail))) (\<lambda>(dev, lb, hb).
     bindK (bread dev lb) (\<lambda>lbuf.
     bindK (bread dev hb) (\<lambda>dbuf.
     bindK (get_data lbuf) (\<lambda>d.
     thenK (set_data dbuf d) (
     thenK (bwrite dbuf) (
     thenK (brelse lbuf) (
     brelse dbuf)))))))"

definition install_trans :: "(unit, 'z klog_scheme) kop" where
  "install_trans = bindK (getK lh_n) (\<lambda>n. seqK (map install_one [0..<nat n]))"

text \<open>The header block as bytes: the count, then the block numbers.\<close>

definition head_n :: "byte list \<Rightarrow> int" where
  "head_n d = sint (get32 d 0)"

definition put_head :: "byte list \<Rightarrow> int \<Rightarrow> u32 list \<Rightarrow> byte list" where
  "put_head d n bl = put32s (put32 d 0 (word_of_int n)) 4 (take (nat n) bl)"

definition read_head :: "(unit, 'z klog_scheme) kop" where
  "read_head =
     bindK (getK (\<lambda>s. (log_dev s, log_start s))) (\<lambda>(dev, st).
     bindK (bread dev st) (\<lambda>buf.
     bindK (get_data buf) (\<lambda>d.
     thenK (modK (\<lambda>s. s\<lparr>lh_n := head_n d\<rparr>)) (
     if head_n d > int LOGSIZE then (\<lambda>_. Fault)
     else
       thenK (modK (\<lambda>s. s\<lparr>lh_block := get32s (nat (head_n d)) d 4 @ drop (nat (head_n d)) (lh_block s)\<rparr>)) (
       brelse buf)))))"

definition write_head :: "(unit, 'z klog_scheme) kop" where
  "write_head =
     bindK (getK (\<lambda>s. (log_dev s, log_start s))) (\<lambda>(dev, st).
     bindK (bread dev st) (\<lambda>buf.
     bindK (get_data buf) (\<lambda>d.
     bindK (getK (\<lambda>s. (lh_n s, lh_block s))) (\<lambda>(n, bl).
     thenK (set_data buf (put_head d n bl)) (
     thenK (bwrite buf) (
     brelse buf))))))"

definition recover_from_log :: "(unit, 'z klog_scheme) kop" where
  "recover_from_log =
     thenK read_head (
     thenK install_trans (
     thenK (modK (\<lambda>s. s\<lparr>lh_n := 0\<rparr>)) (
     write_head)))"

definition initlog :: "u32 \<Rightarrow> (unit, 'z klog_scheme) kop" where
  "initlog dev =
     (if sizeof_logheader \<ge> BSIZE then panicK ''initlog: too big logheader''
      else
        thenK (initlock LogLock ''log'') (
        bindK (readsb dev) (\<lambda>sb.
        thenK (modK (\<lambda>s. s\<lparr>log_start := sb_logstart sb, log_size := sint (sb_nlog sb), log_dev := dev\<rparr>)) (
        recover_from_log))))"

definition write_one :: "nat \<Rightarrow> (unit, 'z klog_scheme) kop" where
  "write_one tail =
     bindK (getK (\<lambda>s. (log_dev s, log_start s + of_nat tail + 1, lh_block s ! tail))) (\<lambda>(dev, lb, hb).
     bindK (bread dev lb) (\<lambda>t.
     bindK (bread dev hb) (\<lambda>from.
     bindK (get_data from) (\<lambda>d.
     thenK (set_data t d) (
     thenK (bwrite t) (
     thenK (brelse from) (
     brelse t)))))))"

definition write_log :: "(unit, 'z klog_scheme) kop" where
  "write_log = bindK (getK lh_n) (\<lambda>n. seqK (map write_one [0..<nat n]))"

definition commit :: "(unit, 'z klog_scheme) kop" where
  "commit =
     bindK (getK lh_n) (\<lambda>n.
     whenK (n > 0) (
       thenK write_log (
       thenK write_head (
       thenK install_trans (
       thenK (modK (\<lambda>s. s\<lparr>lh_n := 0\<rparr>)) (
       write_head))))))"

section \<open>System calls that write\<close>

text \<open>The loop of \<^verbatim>\<open>begin_op\<close>, entered with the lock held; a resumed process enters it again.\<close>

definition begin_loop :: "(unit, 'z klog_scheme) kop" where
  "begin_loop =
     bindK (getK (\<lambda>s. (log_committing s, lh_n s, log_outstanding s))) (\<lambda>(c, n, k).
     if c then sleep ChanLog LogLock
     else if n + (k + 1) * int MAXOPBLOCKS > int LOGSIZE then sleep ChanLog LogLock
     else thenK (modK (\<lambda>s. s\<lparr>log_outstanding := k + 1\<rparr>)) (release LogLock))"

definition begin_op :: "(unit, 'z klog_scheme) kop" where
  "begin_op = thenK (acquire LogLock) begin_loop"

definition begin_op_resume :: "(unit, 'z klog_scheme) kop" where
  "begin_op_resume = thenK (sleep_resume LogLock) begin_loop"

definition end_op :: "(unit, 'z klog_scheme) kop" where
  "end_op =
     thenK (acquire LogLock) (
     thenK (modK (\<lambda>s. s\<lparr>log_outstanding := log_outstanding s - 1\<rparr>)) (
     bindK (getK (\<lambda>s. (log_committing s, log_outstanding s))) (\<lambda>(c, k).
     if c then panicK ''log.committing''
     else
       thenK
         (if k = 0 then modK (\<lambda>s. s\<lparr>log_committing := True\<rparr>)
          else wakeup ChanLog) (
       thenK (release LogLock) (
       whenK (k = 0) (
         thenK commit (
         thenK (acquire LogLock) (
         thenK (modK (\<lambda>s. s\<lparr>log_committing := False\<rparr>)) (
         thenK (wakeup ChanLog) (
         release LogLock))))))))))"

text \<open>The slot of a block in the header: where it already is, or the first free one.\<close>

definition log_slot :: "u32 \<Rightarrow> int \<Rightarrow> u32 list \<Rightarrow> nat" where
  "log_slot b n bl = (case find_index (\<lambda>x. x = b) (take (nat n) bl) of Some k \<Rightarrow> k | None \<Rightarrow> nat n)"

definition log_write :: "nat \<Rightarrow> (unit, 'z klog_scheme) kop" where
  "log_write i =
     bindK (getK (\<lambda>s. (lh_n s, log_size s, log_outstanding s))) (\<lambda>(n, sz, k).
     if n \<ge> int LOGSIZE \<or> n \<ge> sz - 1 then panicK ''too big a transaction''
     else if k < 1 then panicK ''log_write outside of trans''
     else
       thenK (acquire LogLock) (
       bindK (getK (\<lambda>s. log_slot (blockno (bcache s ! i)) (lh_n s) (lh_block s))) (\<lambda>j.
       thenK (modK (\<lambda>s. s\<lparr>lh_block := (lh_block s)[j := blockno (bcache s ! i)]\<rparr>)) (
       thenK (modK (\<lambda>s. if int j = lh_n s then s\<lparr>lh_n := lh_n s + 1\<rparr> else s)) (
       thenK (upd_buf i (\<lambda>b. b\<lparr>b_dirty := True\<rparr>)) (
       release LogLock))))))"

end
