(* ===== verification/Fs.thy ===== *)
theory Fs
  imports Log
begin

unbundle bit_operations_syntax

text \<open>
  The file system of \<^verbatim>\<open>fs.c\<close>: block allocation in the free bitmap, the inode cache, the blocks of an
  inode, reading and writing of content, directories and path names.  A pointer to an inode is
  its index in \<^verbatim>\<open>icache.inode\<close>.  Content that is read is returned as bytes (\<open>None\<close> is the result -1), and
  the caller stores them; content to be written is passed as bytes.  Device inodes are handled
  with the console.  A path is the bytes of the string before its terminator; a name is the array
  of \<open>DIRSIZ\<close> bytes of the callers.
\<close>

section \<open>State\<close>

record inode =
  idev :: u32
  inum :: u32
  iref :: int
  i_busy :: bool
  i_valid :: bool
  itype :: u16
  imajor :: u16
  iminor :: u16
  inlink :: u16
  isize :: u32
  iaddrs :: "u32 list"

record kfs = klog +
  sb :: superblock
  icache :: "inode list"

definition upd_inode :: "nat \<Rightarrow> (inode \<Rightarrow> inode) \<Rightarrow> (unit, 'z kfs_scheme) kop" where
  "upd_inode i f = modK (\<lambda>s. s\<lparr>icache := (icache s)[i := f (icache s ! i)]\<rparr>)"

definition get_inode :: "nat \<Rightarrow> (inode, 'z kfs_scheme) kop" where
  "get_inode i = getK (\<lambda>s. icache s ! i)"

section \<open>Blocks\<close>

definition bzero :: "u32 \<Rightarrow> u32 \<Rightarrow> (unit, 'z klog_scheme) kop" where
  "bzero dev bno =
     bindK (bread dev bno) (\<lambda>bp.
     thenK (set_data bp (replicate BSIZE 0)) (
     thenK (log_write bp) (
     brelse bp)))"

text \<open>Bit \<open>bi\<close> of a bitmap block.\<close>

definition bmask :: "nat \<Rightarrow> byte" where
  "bmask bi = push_bit (bi mod 8) 1"

definition bit_used :: "byte list \<Rightarrow> nat \<Rightarrow> bool" where
  "bit_used d bi \<longleftrightarrow> d ! (bi div 8) AND bmask bi \<noteq> 0"

definition set_used :: "byte list \<Rightarrow> nat \<Rightarrow> byte list" where
  "set_used d bi = d[bi div 8 := d ! (bi div 8) OR bmask bi]"

definition clear_used :: "byte list \<Rightarrow> nat \<Rightarrow> byte list" where
  "clear_used d bi = d[bi div 8 := d ! (bi div 8) AND NOT (bmask bi)]"

text \<open>The outer loop of \<^verbatim>\<open>balloc\<close>; \<open>n\<close> bounds the bitmap blocks still to visit.\<close>

fun balloc_loop :: "nat \<Rightarrow> u32 \<Rightarrow> u32 \<Rightarrow> (u32, 'z kfs_scheme) kop" where
  "balloc_loop n dev b =
     bindK (getK sb) (\<lambda>sb.
     if b < sb_size sb then
       bindK (bread dev (BBLOCK b sb)) (\<lambda>bp.
       bindK (get_data bp) (\<lambda>d.
       case find (\<lambda>bi. \<not> bit_used d bi) [0..<min BPB (unat (sb_size sb - b))] of
         Some bi \<Rightarrow>
           thenK (set_data bp (set_used d bi)) (
           thenK (log_write bp) (
           thenK (brelse bp) (
           thenK (bzero dev (b + of_nat bi)) (
           retK (b + of_nat bi)))))
       | None \<Rightarrow>
           thenK (brelse bp) (
           case n of
             0 \<Rightarrow> (\<lambda>_. NoFuel)
           | Suc n' \<Rightarrow> balloc_loop n' dev (b + of_nat BPB))))
     else panicK ''balloc: out of blocks'')"

declare balloc_loop.simps [simp del]

definition balloc :: "u32 \<Rightarrow> (u32, 'z kfs_scheme) kop" where
  "balloc dev = bindK (getK sb) (\<lambda>sb. balloc_loop (unat (sb_size sb) div BPB + 1) dev 0)"

definition bfree :: "u32 \<Rightarrow> u32 \<Rightarrow> (unit, 'z kfs_scheme) kop" where
  "bfree dev b =
     bindK (readsb dev) (\<lambda>sb.
     thenK (modK (\<lambda>s. s\<lparr>sb := sb\<rparr>)) (
     bindK (bread dev (BBLOCK b sb)) (\<lambda>bp.
     bindK (get_data bp) (\<lambda>d.
     let bi = unat b mod BPB in
     if \<not> bit_used d bi then panicK ''freeing free block''
     else
       thenK (set_data bp (clear_used d bi)) (
       thenK (log_write bp) (
       brelse bp))))))"

section \<open>Inodes\<close>

definition iinit :: "u32 \<Rightarrow> (unit, 'z kfs_scheme) kop" where
  "iinit dev =
     thenK (initlock IcacheLock ''icache'') (
     bindK (readsb dev) (\<lambda>sb.
     thenK (modK (\<lambda>s. s\<lparr>sb := sb\<rparr>)) (
     cprintf (''sb: size %d nblocks %d ninodes %d nlog %d logstart %d inodestart %d bmap start %d'' @ [CHR 0x0A])
       [CInt (sint (sb_size sb)), CInt (sint (sb_nblocks sb)), CInt (sint (sb_ninodes sb)), CInt (sint (sb_nlog sb)),
        CInt (sint (sb_logstart sb)), CInt (sint (sb_inodestart sb)), CInt (sint (sb_bmapstart sb))])))"

text \<open>Index of the entry of \<^verbatim>\<open>icache\<close> that holds an inode.\<close>

definition iget :: "u32 \<Rightarrow> u32 \<Rightarrow> (nat, 'z kfs_scheme) kop" where
  "iget dev n =
     thenK (acquire IcacheLock) (
     bindK (getK icache) (\<lambda>is.
     case find_index (\<lambda>ip. iref ip > 0 \<and> idev ip = dev \<and> inum ip = n) is of
       Some i \<Rightarrow>
         thenK (upd_inode i (\<lambda>ip. ip\<lparr>iref := iref ip + 1\<rparr>)) (
         thenK (release IcacheLock) (retK i))
     | None \<Rightarrow>
         (case find_index (\<lambda>ip. iref ip = 0) is of
            None \<Rightarrow> panicK ''iget: no inodes''
          | Some i \<Rightarrow>
              thenK (upd_inode i (\<lambda>ip. ip\<lparr>idev := dev, inum := n, iref := 1, i_busy := False, i_valid := False\<rparr>)) (
              thenK (release IcacheLock) (retK i)))))"

definition ioffset :: "u32 \<Rightarrow> nat" where
  "ioffset n = (unat n mod IPB) * sizeof_dinode"

definition dinode0 :: "u16 \<Rightarrow> dinode" where
  "dinode0 t = \<lparr>di_type = t, di_major = 0, di_minor = 0, di_nlink = 0, di_size = 0, di_addrs = replicate (NDIRECT + 1) 0\<rparr>"

fun ialloc_loop :: "u32 list \<Rightarrow> u32 \<Rightarrow> u16 \<Rightarrow> (nat, 'z kfs_scheme) kop" where
  "ialloc_loop [] dev type = panicK ''ialloc: no inodes''"
| "ialloc_loop (n # ns) dev type =
     bindK (getK sb) (\<lambda>sb.
     bindK (bread dev (IBLOCK n sb)) (\<lambda>bp.
     bindK (get_data bp) (\<lambda>d.
     if di_type (dinode_at d (ioffset n)) = 0 then
       thenK (set_data bp (put_dinode d (ioffset n) (dinode0 type))) (
       thenK (log_write bp) (
       thenK (brelse bp) (
       iget dev n)))
     else thenK (brelse bp) (ialloc_loop ns dev type))))"

definition ialloc :: "u32 \<Rightarrow> u16 \<Rightarrow> (nat, 'z kfs_scheme) kop" where
  "ialloc dev type = bindK (getK sb) (\<lambda>sb. ialloc_loop (map of_nat [1..<unat (sb_ninodes sb)]) dev type)"

definition iupdate :: "nat \<Rightarrow> (unit, 'z kfs_scheme) kop" where
  "iupdate i =
     bindK (get_inode i) (\<lambda>ip.
     bindK (getK sb) (\<lambda>sb.
     bindK (bread (idev ip) (IBLOCK (inum ip) sb)) (\<lambda>bp.
     bindK (get_data bp) (\<lambda>d.
     thenK (set_data bp (put_dinode d (ioffset (inum ip)) \<lparr>di_type = itype ip, di_major = imajor ip,
       di_minor = iminor ip, di_nlink = inlink ip, di_size = isize ip, di_addrs = iaddrs ip\<rparr>)) (
     thenK (log_write bp) (
     brelse bp))))))"

definition idup :: "nat \<Rightarrow> (nat, 'z kfs_scheme) kop" where
  "idup i =
     thenK (acquire IcacheLock) (
     thenK (upd_inode i (\<lambda>ip. ip\<lparr>iref := iref ip + 1\<rparr>)) (
     thenK (release IcacheLock) (retK i)))"

text \<open>
  \<^verbatim>\<open>ilock\<close> from the test of the loop on, with the lock held: this is also where a process that
  waited for the inode goes on.
\<close>

definition ilock_loop :: "nat \<Rightarrow> (unit, 'z kfs_scheme) kop" where
  "ilock_loop i =
     bindK (get_inode i) (\<lambda>ip.
     if i_busy ip then sleep (ChanInode i) IcacheLock
     else
       thenK (upd_inode i (\<lambda>ip. ip\<lparr>i_busy := True\<rparr>)) (
       thenK (release IcacheLock) (
       whenK (\<not> i_valid ip) (
         bindK (getK sb) (\<lambda>sb.
         bindK (bread (idev ip) (IBLOCK (inum ip) sb)) (\<lambda>bp.
         bindK (get_data bp) (\<lambda>d.
         let dip = dinode_at d (ioffset (inum ip)) in
         thenK (upd_inode i (\<lambda>ip. ip\<lparr>itype := di_type dip, imajor := di_major dip, iminor := di_minor dip,
           inlink := di_nlink dip, isize := di_size dip, iaddrs := di_addrs dip\<rparr>)) (
         thenK (brelse bp) (
         thenK (upd_inode i (\<lambda>ip. ip\<lparr>i_valid := True\<rparr>)) (
         whenK (di_type dip = 0) (panicK ''ilock: no type'')))))))))))"

definition ilock :: "nat \<Rightarrow> (unit, 'z kfs_scheme) kop" where
  "ilock i =
     bindK (get_inode i) (\<lambda>ip.
     if iref ip < 1 then panicK ''ilock''
     else thenK (acquire IcacheLock) (ilock_loop i))"

definition ilock_resume :: "nat \<Rightarrow> (unit, 'z kfs_scheme) kop" where
  "ilock_resume i = thenK (sleep_resume IcacheLock) (ilock_loop i)"

definition iunlock :: "nat \<Rightarrow> (unit, 'z kfs_scheme) kop" where
  "iunlock i =
     bindK (get_inode i) (\<lambda>ip.
     if \<not> i_busy ip \<or> iref ip < 1 then panicK ''iunlock''
     else
       thenK (acquire IcacheLock) (
       thenK (upd_inode i (\<lambda>ip. ip\<lparr>i_busy := False\<rparr>)) (
       thenK (wakeup (ChanInode i)) (
       release IcacheLock))))"

section \<open>Content of an inode\<close>

definition bmap :: "nat \<Rightarrow> nat \<Rightarrow> (u32, 'z kfs_scheme) kop" where
  "bmap i bn =
     bindK (get_inode i) (\<lambda>ip.
     if bn < NDIRECT then
       (if iaddrs ip ! bn = 0 then
          bindK (balloc (idev ip)) (\<lambda>a.
          thenK (upd_inode i (\<lambda>ip. ip\<lparr>iaddrs := (iaddrs ip)[bn := a]\<rparr>)) (retK a))
        else retK (iaddrs ip ! bn))
     else if bn - NDIRECT < NINDIRECT then
       bindK
         (if iaddrs ip ! NDIRECT = 0 then
            bindK (balloc (idev ip)) (\<lambda>a.
            thenK (upd_inode i (\<lambda>ip. ip\<lparr>iaddrs := (iaddrs ip)[NDIRECT := a]\<rparr>)) (retK a))
          else retK (iaddrs ip ! NDIRECT)) (\<lambda>ind.
       bindK (bread (idev ip) ind) (\<lambda>bp.
       bindK (get_data bp) (\<lambda>d.
       let k = 4 * (bn - NDIRECT); a0 = get32 d k in
       bindK
         (if a0 = 0 then
            bindK (balloc (idev ip)) (\<lambda>a.
            bindK (get_data bp) (\<lambda>d'.
            thenK (set_data bp (put32 d' k a)) (
            thenK (log_write bp) (retK a))))
          else retK a0) (\<lambda>a.
       thenK (brelse bp) (retK a)))))
     else panicK ''bmap: out of range'')"

fun itrunc_direct :: "nat list \<Rightarrow> nat \<Rightarrow> (unit, 'z kfs_scheme) kop" where
  "itrunc_direct [] i = retK ()"
| "itrunc_direct (k # ks) i =
     bindK (get_inode i) (\<lambda>ip.
     thenK (whenK (iaddrs ip ! k \<noteq> 0) (
       thenK (bfree (idev ip) (iaddrs ip ! k)) (
       upd_inode i (\<lambda>ip. ip\<lparr>iaddrs := (iaddrs ip)[k := 0]\<rparr>)))) (
     itrunc_direct ks i))"

fun itrunc_indirect :: "nat list \<Rightarrow> u32 \<Rightarrow> nat \<Rightarrow> (unit, 'z kfs_scheme) kop" where
  "itrunc_indirect [] dev bp = retK ()"
| "itrunc_indirect (j # js) dev bp =
     bindK (get_data bp) (\<lambda>d.
     thenK (whenK (get32 d (4 * j) \<noteq> 0) (bfree dev (get32 d (4 * j)))) (
     itrunc_indirect js dev bp))"

definition itrunc :: "nat \<Rightarrow> (unit, 'z kfs_scheme) kop" where
  "itrunc i =
     thenK (itrunc_direct [0..<NDIRECT] i) (
     bindK (get_inode i) (\<lambda>ip.
     thenK (whenK (iaddrs ip ! NDIRECT \<noteq> 0) (
       bindK (bread (idev ip) (iaddrs ip ! NDIRECT)) (\<lambda>bp.
       thenK (itrunc_indirect [0..<NINDIRECT] (idev ip) bp) (
       thenK (brelse bp) (
       thenK (bfree (idev ip) (iaddrs ip ! NDIRECT)) (
       upd_inode i (\<lambda>ip. ip\<lparr>iaddrs := (iaddrs ip)[NDIRECT := 0]\<rparr>))))))) (
     thenK (upd_inode i (\<lambda>ip. ip\<lparr>isize := 0\<rparr>)) (
     iupdate i))))"

definition iput :: "nat \<Rightarrow> (unit, 'z kfs_scheme) kop" where
  "iput i =
     thenK (acquire IcacheLock) (
     bindK (get_inode i) (\<lambda>ip.
     thenK
       (if iref ip = 1 \<and> i_valid ip \<and> inlink ip = 0 then
          (if i_busy ip then panicK ''iput busy''
           else
             thenK (upd_inode i (\<lambda>ip. ip\<lparr>i_busy := True\<rparr>)) (
             thenK (release IcacheLock) (
             thenK (itrunc i) (
             thenK (upd_inode i (\<lambda>ip. ip\<lparr>itype := 0\<rparr>)) (
             thenK (iupdate i) (
             thenK (acquire IcacheLock) (
             thenK (upd_inode i (\<lambda>ip. ip\<lparr>i_busy := False, i_valid := False\<rparr>)) (
             wakeup (ChanInode i)))))))))
        else retK ()) (
     thenK (upd_inode i (\<lambda>ip. ip\<lparr>iref := iref ip - 1\<rparr>)) (
     release IcacheLock))))"

definition iunlockput :: "nat \<Rightarrow> (unit, 'z kfs_scheme) kop" where
  "iunlockput i = thenK (iunlock i) (iput i)"

record stat =
  st_type :: u16
  st_dev :: int
  st_ino :: u32
  st_nlink :: u16
  st_size :: u32

definition stati :: "inode \<Rightarrow> stat" where
  "stati ip = \<lparr>st_type = itype ip, st_dev = sint (idev ip), st_ino = inum ip, st_nlink = inlink ip, st_size = isize ip\<rparr>"

text \<open>
  The loops of \<^verbatim>\<open>readi\<close> and \<^verbatim>\<open>writei\<close> handle at least one byte a round, so the number of bytes bounds
  the rounds.
\<close>

fun readi_loop :: "nat \<Rightarrow> nat \<Rightarrow> u32 \<Rightarrow> nat \<Rightarrow> (byte list, 'z kfs_scheme) kop" where
  "readi_loop fuel i off n =
     (if n = 0 then retK []
      else
        bindK (get_inode i) (\<lambda>ip.
        bindK (bmap i (unat off div BSIZE)) (\<lambda>a.
        bindK (bread (idev ip) a) (\<lambda>bp.
        let m = min n (BSIZE - unat off mod BSIZE) in
        bindK (get_data bp) (\<lambda>d.
        thenK (brelse bp) (
        case fuel of
          0 \<Rightarrow> (\<lambda>_. NoFuel)
        | Suc fuel' \<Rightarrow>
            bindK (readi_loop fuel' i (off + of_nat m) (n - m)) (\<lambda>bs.
            retK (slice (unat off mod BSIZE) m d @ bs))))))))"

declare readi_loop.simps [simp del]

definition readi_file :: "nat \<Rightarrow> u32 \<Rightarrow> u32 \<Rightarrow> (byte list option, 'z kfs_scheme) kop" where
  "readi_file i off n =
     bindK (get_inode i) (\<lambda>ip.
     if off > isize ip \<or> off + n < off then retK None
     else
       (let n' = (if off + n > isize ip then isize ip - off else n) in
        bindK (readi_loop (unat n') i off (unat n')) (\<lambda>bs. retK (Some bs))))"

fun writei_loop :: "nat \<Rightarrow> nat \<Rightarrow> u32 \<Rightarrow> byte list \<Rightarrow> (u32, 'z kfs_scheme) kop" where
  "writei_loop fuel i off src =
     (if src = [] then retK off
      else
        bindK (get_inode i) (\<lambda>ip.
        bindK (bmap i (unat off div BSIZE)) (\<lambda>a.
        bindK (bread (idev ip) a) (\<lambda>bp.
        let m = min (length src) (BSIZE - unat off mod BSIZE) in
        bindK (get_data bp) (\<lambda>d.
        thenK (set_data bp (splice d (unat off mod BSIZE) (take m src))) (
        thenK (log_write bp) (
        thenK (brelse bp) (
        case fuel of
          0 \<Rightarrow> (\<lambda>_. NoFuel)
        | Suc fuel' \<Rightarrow> writei_loop fuel' i (off + of_nat m) (drop m src)))))))))"

declare writei_loop.simps [simp del]

definition writei_file :: "nat \<Rightarrow> byte list \<Rightarrow> u32 \<Rightarrow> (u32 option, 'z kfs_scheme) kop" where
  "writei_file i src off =
     bindK (get_inode i) (\<lambda>ip.
     let n = of_nat (length src) :: u32 in
     if off > isize ip \<or> off + n < off then retK None
     else if off + n > of_nat (MAXFILE * BSIZE) then retK None
     else
       bindK (writei_loop (length src) i off src) (\<lambda>off'.
       bindK (get_inode i) (\<lambda>ip'.
       thenK (whenK (n > 0 \<and> off' > isize ip') (
         thenK (upd_inode i (\<lambda>ip. ip\<lparr>isize := off'\<rparr>)) (iupdate i))) (
       retK (Some n)))))"

end
