(* ===== verification/Dir.thy ===== *)
theory Dir
  imports Fs
begin

text \<open>
  Directories and path names of \<^verbatim>\<open>fs.c\<close>.  A directory is read with \<open>readi_file\<close>: its type has been
  checked to be \<^verbatim>\<open>T_DIR\<close>, so the device branch of \<^verbatim>\<open>readi\<close> is not taken.
\<close>

section \<open>Directories\<close>

text \<open>\<^verbatim>\<open>strncmp\<close> on byte arrays; the end of a list is the terminator.\<close>

fun strncmp_list :: "byte list \<Rightarrow> byte list \<Rightarrow> nat \<Rightarrow> int" where
  "strncmp_list ps qs 0 = 0"
| "strncmp_list ps qs (Suc n) =
     (let p = (case ps of [] \<Rightarrow> 0 | x # _ \<Rightarrow> x); q = (case qs of [] \<Rightarrow> 0 | x # _ \<Rightarrow> x) in
      if p \<noteq> 0 \<and> p = q then strncmp_list (tl ps) (tl qs) n else uint p - uint q)"

definition namecmp :: "byte list \<Rightarrow> byte list \<Rightarrow> int" where
  "namecmp s t = strncmp_list s t DIRSIZ"

text \<open>The loops over the entries of a directory, from offset \<open>off\<close>; \<open>n\<close> bounds the entries left.\<close>

fun dirlookup_loop :: "nat \<Rightarrow> nat \<Rightarrow> byte list \<Rightarrow> u32 \<Rightarrow> ((nat \<times> u32) option, 'z kfs_scheme) kop" where
  "dirlookup_loop n dp name off =
     bindK (get_inode dp) (\<lambda>d.
     if off < isize d then
       bindK (readi_file dp off (of_nat sizeof_dirent)) (\<lambda>r.
       case r of
         None \<Rightarrow> panicK ''dirlink read''
       | Some bs \<Rightarrow>
           if length bs \<noteq> sizeof_dirent then panicK ''dirlink read''
           else
             (let de = dirent_of bs in
              if de_inum de \<noteq> 0 \<and> namecmp name (de_name de) = 0 then
                bindK (iget (idev d) (ucast (de_inum de))) (\<lambda>ip. retK (Some (ip, off)))
              else (case n of
                  0 \<Rightarrow> (\<lambda>_. NoFuel)
                | Suc n' \<Rightarrow> dirlookup_loop n' dp name (off + of_nat sizeof_dirent))))
     else retK None)"

declare dirlookup_loop.simps [simp del]

definition dir_entries :: "inode \<Rightarrow> nat" where
  "dir_entries d = unat (isize d) div sizeof_dirent + 1"

definition dirlookup :: "nat \<Rightarrow> byte list \<Rightarrow> ((nat \<times> u32) option, 'z kfs_scheme) kop" where
  "dirlookup dp name =
     bindK (get_inode dp) (\<lambda>d.
     if itype d \<noteq> T_DIR then panicK ''dirlookup not DIR''
     else dirlookup_loop (dir_entries d) dp name 0)"

text \<open>The offset of the first empty entry, or of the end.\<close>

fun dirfree_loop :: "nat \<Rightarrow> nat \<Rightarrow> u32 \<Rightarrow> (u32, 'z kfs_scheme) kop" where
  "dirfree_loop n dp off =
     bindK (get_inode dp) (\<lambda>d.
     if off < isize d then
       bindK (readi_file dp off (of_nat sizeof_dirent)) (\<lambda>r.
       case r of
         None \<Rightarrow> panicK ''dirlink read''
       | Some bs \<Rightarrow>
           if length bs \<noteq> sizeof_dirent then panicK ''dirlink read''
           else if de_inum (dirent_of bs) = 0 then retK off
           else (case n of
               0 \<Rightarrow> (\<lambda>_. NoFuel)
             | Suc n' \<Rightarrow> dirfree_loop n' dp (off + of_nat sizeof_dirent)))
     else retK off)"

declare dirfree_loop.simps [simp del]

text \<open>\<^verbatim>\<open>strncpy(de.name, name, DIRSIZ)\<close>: the bytes up to the terminator, then zeros.\<close>

definition name14 :: "byte list \<Rightarrow> byte list" where
  "name14 name = (let cs = take DIRSIZ (cstr name) in cs @ replicate (DIRSIZ - length cs) 0)"

definition dirlink :: "nat \<Rightarrow> byte list \<Rightarrow> u32 \<Rightarrow> (int, 'z kfs_scheme) kop" where
  "dirlink dp name n =
     bindK (dirlookup dp name) (\<lambda>r.
     case r of
       Some (ip, _) \<Rightarrow> thenK (iput ip) (retK (- 1))
     | None \<Rightarrow>
         bindK (get_inode dp) (\<lambda>d.
         bindK (dirfree_loop (dir_entries d) dp 0) (\<lambda>off.
         bindK (writei_file dp (bytes_of_dirent \<lparr>de_inum = ucast n, de_name = name14 name\<rparr>) off) (\<lambda>w.
         if w \<noteq> Some (of_nat sizeof_dirent) then panicK ''dirlink''
         else retK 0))))"

section \<open>Paths\<close>

definition SLASH :: byte where "SLASH = 0x2F"

definition skip_slashes :: "byte list \<Rightarrow> byte list" where
  "skip_slashes path = dropWhile (\<lambda>c. c = SLASH) path"

text \<open>\<open>skipelem path name\<close> is the rest of the path and the new content of \<open>name\<close>.\<close>

definition skipelem :: "byte list \<Rightarrow> byte list \<Rightarrow> (byte list \<times> byte list) option" where
  "skipelem path name =
     (let s = skip_slashes path in
      if s = [] then None
      else
        (let e = takeWhile (\<lambda>c. c \<noteq> SLASH) s; rest = dropWhile (\<lambda>c. c \<noteq> SLASH) s in
         Some (skip_slashes rest,
           if length e \<ge> DIRSIZ then take DIRSIZ e else splice name 0 (e @ [0]))))"

lemma dropWhile_other_shorter: "s \<noteq> [] \<Longrightarrow> P (hd s) \<Longrightarrow> length (dropWhile P s) < length s"
  using length_dropWhile_le [of P "tl s"] by (cases s) auto

lemma skipelem_shorter: "skipelem path name = Some (rest, nm) \<Longrightarrow> length rest < length path"
proof -
  assume e: "skipelem path name = Some (rest, nm)"
  define s where "s = skip_slashes path"
  define t where "t = dropWhile (\<lambda>c. c \<noteq> SLASH) s"
  from e have s: "s \<noteq> []" "rest = skip_slashes t"
    by (simp_all add: skipelem_def Let_def s_def t_def split: if_splits)
  have "hd s \<noteq> SLASH"
    using s(1) hd_dropWhile [of "\<lambda>c. c = SLASH" path] by (simp add: s_def skip_slashes_def)
  with s(1) have "length t < length s"
    unfolding t_def by (intro dropWhile_other_shorter) simp_all
  moreover have "length rest \<le> length t" "length s \<le> length path"
    by (simp_all add: s s_def skip_slashes_def length_dropWhile_le)
  ultimately show ?thesis by linarith
qed

text \<open>The loop of \<^verbatim>\<open>namex\<close>; every round takes an element off the path.\<close>

fun namex_loop :: "nat \<Rightarrow> byte list \<Rightarrow> bool \<Rightarrow> byte list \<Rightarrow> nat \<Rightarrow> ((nat \<times> byte list) option, 'z kfs_scheme) kop" where
  "namex_loop n path nparent name ip =
     (case skipelem path name of
        None \<Rightarrow> if nparent then thenK (iput ip) (retK None) else retK (Some (ip, name))
      | Some (path', name') \<Rightarrow>
          thenK (ilock ip) (
          bindK (get_inode ip) (\<lambda>d.
          if itype d \<noteq> T_DIR then thenK (iunlockput ip) (retK None)
          else if nparent \<and> path' = [] then thenK (iunlock ip) (retK (Some (ip, name')))
          else
            bindK (dirlookup ip name') (\<lambda>r.
            case r of
              None \<Rightarrow> thenK (iunlockput ip) (retK None)
            | Some (nxt, _) \<Rightarrow>
                thenK (iunlockput ip) (
                case n of
                  0 \<Rightarrow> (\<lambda>_. NoFuel)
                | Suc n' \<Rightarrow> namex_loop n' path' nparent name' nxt)))))"

declare namex_loop.simps [simp del]

definition namex :: "byte list \<Rightarrow> bool \<Rightarrow> byte list \<Rightarrow> ((nat \<times> byte list) option, 'z kfs_scheme) kop" where
  "namex path nparent name =
     bindK
       (if path \<noteq> [] \<and> hd path = SLASH then iget ROOTDEV ROOTINO
        else with_proc (\<lambda>p.
          bindK (getK (\<lambda>s. cwd (ptable s ! p))) (\<lambda>c.
          case c of None \<Rightarrow> (\<lambda>_. Fault) | Some i \<Rightarrow> idup i))) (\<lambda>ip.
     namex_loop (length path) path nparent name ip)"

definition namei :: "byte list \<Rightarrow> (nat option, 'z kfs_scheme) kop" where
  "namei path = bindK (namex path False (replicate DIRSIZ 0)) (\<lambda>r. retK (map_option fst r))"

definition nameiparent :: "byte list \<Rightarrow> byte list \<Rightarrow> ((nat \<times> byte list) option, 'z kfs_scheme) kop" where
  "nameiparent path name = namex path True name"

end
