(* ===== verification/Intr.thy ===== *)
theory Intr
  imports Dir
begin

unbundle bit_operations_syntax

text \<open>
  The interrupt hardware and what the kernel knows of the machine: \<^verbatim>\<open>picirq.c\<close>, \<^verbatim>\<open>ioapic.c\<close>,
  \<^verbatim>\<open>lapic.c\<close>, \<^verbatim>\<open>timer.c\<close> and \<^verbatim>\<open>mp.c\<close>.  The bytes written to ports are kept in \<open>ports_out\<close>, in order; the
  registers of the I/O APIC and of the local APICs are plain storage.  \<open>cmos k r\<close> is what the \<open>k\<close>-th read
  of the clock chip finds in register \<open>r\<close>, so that the time may change between two reads.
\<close>

section \<open>State and ports\<close>

record kintr = kfs +
  ports_out :: "(u16 \<times> byte) list"
  irqmask :: u16
  ioapic_reg :: "u32 \<Rightarrow> u32"
  lapic :: addr
  lapic_reg :: "nat \<Rightarrow> nat \<Rightarrow> u32"
  cpunum_calls :: int
  cmos :: "nat \<Rightarrow> byte \<Rightarrow> byte"
  cmos_reads :: nat
  imcr :: byte
  ismp :: bool
  ncpu :: nat
  bcpu :: nat
  ioapicid :: byte
  cpu_id :: "nat \<Rightarrow> byte"
  cpu_started :: "nat \<Rightarrow> bool"

definition outb :: "u16 \<Rightarrow> byte \<Rightarrow> (unit, 'z kintr_scheme) kop" where
  "outb port data = modK (\<lambda>s. s\<lparr>ports_out := ports_out s @ [(port, data)]\<rparr>)"

definition T_SYSCALL :: nat where "T_SYSCALL = 64"
definition T_IRQ0 :: nat where "T_IRQ0 = 32"
definition IRQ_TIMER :: nat where "IRQ_TIMER = 0"
definition IRQ_KBD :: nat where "IRQ_KBD = 1"
definition IRQ_COM1 :: nat where "IRQ_COM1 = 4"
definition IRQ_IDE :: nat where "IRQ_IDE = 14"
definition IRQ_ERROR :: nat where "IRQ_ERROR = 19"
definition IRQ_SPURIOUS :: nat where "IRQ_SPURIOUS = 31"

lemmas trap_defs = T_SYSCALL_def T_IRQ0_def IRQ_TIMER_def IRQ_KBD_def IRQ_COM1_def IRQ_IDE_def IRQ_ERROR_def
  IRQ_SPURIOUS_def

section \<open>8259A interrupt controllers\<close>

definition IO_PIC1 :: u16 where "IO_PIC1 = 0x20"
definition IO_PIC2 :: u16 where "IO_PIC2 = 0xA0"
definition IRQ_SLAVE :: nat where "IRQ_SLAVE = 2"

definition irqmask0 :: u16 where
  "irqmask0 = 0xFFFF AND NOT (push_bit IRQ_SLAVE 1)"

definition picsetmask :: "u16 \<Rightarrow> (unit, 'z kintr_scheme) kop" where
  "picsetmask mk =
     thenK (modK (\<lambda>s. s\<lparr>irqmask := mk\<rparr>)) (
     thenK (outb (IO_PIC1 + 1) (ucast mk)) (
     outb (IO_PIC2 + 1) (ucast (drop_bit 8 mk))))"

definition picenable :: "nat \<Rightarrow> (unit, 'z kintr_scheme) kop" where
  "picenable irq = bindK (getK irqmask) (\<lambda>m. picsetmask (m AND NOT (push_bit irq 1)))"

definition picinit :: "(unit, 'z kintr_scheme) kop" where
  "picinit =
     thenK (seqK [
       outb (IO_PIC1 + 1) 0xFF,
       outb (IO_PIC2 + 1) 0xFF,
       outb IO_PIC1 0x11,
       outb (IO_PIC1 + 1) (of_nat T_IRQ0),
       outb (IO_PIC1 + 1) (push_bit IRQ_SLAVE 1),
       outb (IO_PIC1 + 1) 0x3,
       outb IO_PIC2 0x11,
       outb (IO_PIC2 + 1) (of_nat (T_IRQ0 + 8)),
       outb (IO_PIC2 + 1) (of_nat IRQ_SLAVE),
       outb (IO_PIC2 + 1) 0x3,
       outb IO_PIC1 0x68,
       outb IO_PIC1 0x0a,
       outb IO_PIC2 0x68,
       outb IO_PIC2 0x0a]) (
     bindK (getK irqmask) (\<lambda>m.
     whenK (m \<noteq> 0xFFFF) (picsetmask m)))"

section \<open>I/O APIC\<close>

definition REG_ID :: u32 where "REG_ID = 0x00"
definition REG_VER :: u32 where "REG_VER = 0x01"
definition REG_TABLE :: u32 where "REG_TABLE = 0x10"
definition INT_DISABLED :: u32 where "INT_DISABLED = 0x00010000"

definition ioapicread :: "u32 \<Rightarrow> (u32, 'z kintr_scheme) kop" where
  "ioapicread reg = getK (\<lambda>s. ioapic_reg s reg)"

definition ioapicwrite :: "u32 \<Rightarrow> u32 \<Rightarrow> (unit, 'z kintr_scheme) kop" where
  "ioapicwrite reg data = modK (\<lambda>s. s\<lparr>ioapic_reg := (ioapic_reg s)(reg := data)\<rparr>)"

definition ioapic_mask :: "nat \<Rightarrow> (unit, 'z kintr_scheme) kop" where
  "ioapic_mask i =
     thenK (ioapicwrite (REG_TABLE + of_nat (2 * i)) (INT_DISABLED OR of_nat (T_IRQ0 + i))) (
     ioapicwrite (REG_TABLE + of_nat (2 * i) + 1) 0)"

definition ioapicinit :: "(unit, 'z kintr_scheme) kop" where
  "ioapicinit =
     bindK (getK ismp) (\<lambda>mp.
     whenK mp (
       bindK (ioapicread REG_VER) (\<lambda>ver.
       bindK (ioapicread REG_ID) (\<lambda>idr.
       bindK (getK ioapicid) (\<lambda>want.
       thenK (whenK (drop_bit 24 idr \<noteq> ucast want) (
         cprintf (''ioapicinit: id isn'' @ [CHR 0x27] @ ''t equal to ioapicid; not a MP'' @ [CHR 0x0A]) [])) (
       seqK (map ioapic_mask [0..<unat (drop_bit 16 ver AND 0xFF) + 1])))))))"

definition ioapicenable :: "nat \<Rightarrow> nat \<Rightarrow> (unit, 'z kintr_scheme) kop" where
  "ioapicenable irq cpun =
     bindK (getK ismp) (\<lambda>mp.
     whenK mp (
       thenK (ioapicwrite (REG_TABLE + of_nat (2 * irq)) (of_nat (T_IRQ0 + irq))) (
       ioapicwrite (REG_TABLE + of_nat (2 * irq) + 1) (push_bit 24 (of_nat cpun)))))"

section \<open>Local APIC\<close>

definition LA_ID :: nat where "LA_ID = 0x20 div 4"
definition LA_VER :: nat where "LA_VER = 0x30 div 4"
definition LA_TPR :: nat where "LA_TPR = 0x80 div 4"
definition LA_EOI :: nat where "LA_EOI = 0xB0 div 4"
definition LA_SVR :: nat where "LA_SVR = 0xF0 div 4"
definition LA_ESR :: nat where "LA_ESR = 0x280 div 4"
definition LA_ICRLO :: nat where "LA_ICRLO = 0x300 div 4"
definition LA_ICRHI :: nat where "LA_ICRHI = 0x310 div 4"
definition LA_TIMER :: nat where "LA_TIMER = 0x320 div 4"
definition LA_PCINT :: nat where "LA_PCINT = 0x340 div 4"
definition LA_LINT0 :: nat where "LA_LINT0 = 0x350 div 4"
definition LA_LINT1 :: nat where "LA_LINT1 = 0x360 div 4"
definition LA_ERROR :: nat where "LA_ERROR = 0x370 div 4"
definition LA_TICR :: nat where "LA_TICR = 0x380 div 4"
definition LA_TDCR :: nat where "LA_TDCR = 0x3E0 div 4"
definition ENABLE :: u32 where "ENABLE = 0x100"
definition INIT :: u32 where "INIT = 0x500"
definition STARTUP :: u32 where "STARTUP = 0x600"
definition DELIVS :: u32 where "DELIVS = 0x1000"
definition ASSERT :: u32 where "ASSERT = 0x4000"
definition LEVEL :: u32 where "LEVEL = 0x8000"
definition BCAST :: u32 where "BCAST = 0x80000"
definition X1 :: u32 where "X1 = 0xB"
definition PERIODIC :: u32 where "PERIODIC = 0x20000"
definition MASKED :: u32 where "MASKED = 0x10000"

definition lapicw :: "nat \<Rightarrow> u32 \<Rightarrow> (unit, 'z kintr_scheme) kop" where
  "lapicw i v = modK (\<lambda>s. s\<lparr>lapic_reg := (lapic_reg s)(this_cpu s := (lapic_reg s (this_cpu s))(i := v))\<rparr>)"

definition lapicr :: "nat \<Rightarrow> (u32, 'z kintr_scheme) kop" where
  "lapicr i = getK (\<lambda>s. lapic_reg s (this_cpu s) i)"

text \<open>The last loop waits while the delivery status bit is set.\<close>

definition lapicinit :: "(unit, 'z kintr_scheme) kop" where
  "lapicinit =
     bindK (getK lapic) (\<lambda>la.
     whenK (la \<noteq> 0) (
       thenK (seqK [
         lapicw LA_SVR (ENABLE OR of_nat (T_IRQ0 + IRQ_SPURIOUS)),
         lapicw LA_TDCR X1,
         lapicw LA_TIMER (PERIODIC OR of_nat (T_IRQ0 + IRQ_TIMER)),
         lapicw LA_TICR 10000000,
         lapicw LA_LINT0 MASKED,
         lapicw LA_LINT1 MASKED]) (
       bindK (lapicr LA_VER) (\<lambda>ver.
       thenK (whenK (drop_bit 16 ver AND 0xFF \<ge> 4) (lapicw LA_PCINT MASKED)) (
       thenK (seqK [
         lapicw LA_ERROR (of_nat (T_IRQ0 + IRQ_ERROR)),
         lapicw LA_ESR 0,
         lapicw LA_ESR 0,
         lapicw LA_EOI 0,
         lapicw LA_ICRHI 0,
         lapicw LA_ICRLO (BCAST OR INIT OR LEVEL)]) (
       bindK (lapicr LA_ICRLO) (\<lambda>st.
       if st AND DELIVS \<noteq> 0 then Spin
       else lapicw LA_TPR 0))))))) "

text \<open>\<open>ra\<close> is the return address that \<^verbatim>\<open>cpunum\<close> prints when interrupts are on.\<close>

definition cpunum :: "u32 \<Rightarrow> (nat, 'z kintr_scheme) kop" where
  "cpunum ra =
     bindK (getK (\<lambda>s. (flag_if (mycpu s), cpunum_calls s))) (\<lambda>(fl, n).
     thenK (whenK fl (
       thenK (modK (\<lambda>s. s\<lparr>cpunum_calls := s32 (n + 1)\<rparr>)) (
       whenK (n = 0) (cprintf (''cpu called from %x with interrupts enabled'' @ [CHR 0x0A]) [CInt (uint ra)])))) (
     bindK (getK lapic) (\<lambda>la.
     if la \<noteq> 0 then bindK (lapicr LA_ID) (\<lambda>v. retK (unat (drop_bit 24 v)))
     else retK 0)))"

definition lapiceoi :: "(unit, 'z kintr_scheme) kop" where
  "lapiceoi = bindK (getK lapic) (\<lambda>la. whenK (la \<noteq> 0) (lapicw LA_EOI 0))"

definition microdelay :: "int \<Rightarrow> (unit, 'z kintr_scheme) kop" where
  "microdelay us = retK ()"

definition CMOS_PORT :: u16 where "CMOS_PORT = 0x70"

definition store16 :: "addr \<Rightarrow> u16 \<Rightarrow> (unit, 'z kmem_scheme) kop" where
  "store16 a v = modK (\<lambda>s. s\<lparr>mem := (mem s)(a := ucast v, a + 1 := ucast (drop_bit 8 v))\<rparr>)"

definition lapicstartap :: "byte \<Rightarrow> u32 \<Rightarrow> (unit, 'z kintr_scheme) kop" where
  "lapicstartap apicid a =
     (let wrv = p2v (push_bit 4 0x40 OR 0x67); dest = push_bit 24 (ucast apicid) in
      seqK [
        outb CMOS_PORT 0xF,
        outb (CMOS_PORT + 1) 0x0A,
        store16 wrv 0,
        store16 (wrv + 2) (ucast (drop_bit 4 a)),
        lapicw LA_ICRHI dest,
        lapicw LA_ICRLO (INIT OR LEVEL OR ASSERT),
        microdelay 200,
        lapicw LA_ICRLO (INIT OR LEVEL),
        microdelay 100,
        lapicw LA_ICRHI dest,
        lapicw LA_ICRLO (STARTUP OR drop_bit 12 a),
        microdelay 200,
        lapicw LA_ICRHI dest,
        lapicw LA_ICRLO (STARTUP OR drop_bit 12 a),
        microdelay 200])"

section \<open>Time of day\<close>

record rtcdate =
  second :: u32
  minute :: u32
  hour :: u32
  day :: u32
  month :: u32
  year :: u32

definition cmos_read :: "byte \<Rightarrow> (u32, 'z kintr_scheme) kop" where
  "cmos_read reg =
     thenK (outb CMOS_PORT reg) (
     thenK (microdelay 200) (
     bindK (getK (\<lambda>s. cmos s (cmos_reads s) reg)) (\<lambda>v.
     thenK (modK (\<lambda>s. s\<lparr>cmos_reads := cmos_reads s + 1\<rparr>)) (
     retK (ucast v)))))"

definition fill_rtcdate :: "(rtcdate, 'z kintr_scheme) kop" where
  "fill_rtcdate =
     bindK (cmos_read 0x00) (\<lambda>sec.
     bindK (cmos_read 0x02) (\<lambda>mnt.
     bindK (cmos_read 0x04) (\<lambda>hr.
     bindK (cmos_read 0x07) (\<lambda>dy.
     bindK (cmos_read 0x08) (\<lambda>mon.
     bindK (cmos_read 0x09) (\<lambda>yr.
     retK \<lparr>second = sec, minute = mnt, hour = hr, day = dy, month = mon, year = yr\<rparr>))))))"

definition CMOS_UIP :: u32 where "CMOS_UIP = push_bit 7 1"

text \<open>The loop reads until two readings agree; nothing bounds it, so it has fuel.\<close>

fun cmostime_loop :: "nat \<Rightarrow> (rtcdate, 'z kintr_scheme) kop" where
  "cmostime_loop 0 = (\<lambda>_. NoFuel)"
| "cmostime_loop (Suc n) =
     bindK fill_rtcdate (\<lambda>t1.
     bindK (cmos_read 0x0a) (\<lambda>st.
     if st AND CMOS_UIP \<noteq> 0 then cmostime_loop n
     else
       bindK fill_rtcdate (\<lambda>t2.
       if t1 = t2 then retK t1 else cmostime_loop n)))"

definition bcd_conv :: "u32 \<Rightarrow> u32" where
  "bcd_conv x = drop_bit 4 x * 10 + (x AND 0xf)"

definition cmostime :: "nat \<Rightarrow> (rtcdate, 'z kintr_scheme) kop" where
  "cmostime fuel =
     bindK (cmos_read 0x0b) (\<lambda>sb.
     bindK (cmostime_loop fuel) (\<lambda>t.
     let t = (if sb AND push_bit 2 1 = 0 then
       \<lparr>second = bcd_conv (second t), minute = bcd_conv (minute t), hour = bcd_conv (hour t),
        day = bcd_conv (day t), month = bcd_conv (month t), year = bcd_conv (year t)\<rparr> else t) in
     retK (t\<lparr>year := year t + 2000\<rparr>)))"

section \<open>8253 timer\<close>

definition TIMER_DIV :: "nat \<Rightarrow> nat" where
  "TIMER_DIV x = (1193182 + x div 2) div x"

definition timerinit :: "(unit, 'z kintr_scheme) kop" where
  "timerinit =
     thenK (outb (0x40 + 3) (0x00 OR 0x04 OR 0x30)) (
     thenK (outb 0x40 (of_nat (TIMER_DIV 100 mod 256))) (
     thenK (outb 0x40 (of_nat (TIMER_DIV 100 div 256))) (
     picenable IRQ_TIMER)))"

section \<open>Processors\<close>

definition mp_sum :: "memory \<Rightarrow> addr \<Rightarrow> nat \<Rightarrow> byte" where
  "mp_sum m a len = sum_list (bytes_at m a len)"

definition mp_size :: nat where "mp_size = 16"
definition mpconf_size :: nat where "mpconf_size = 44"
definition mpproc_size :: nat where "mpproc_size = 20"
definition mpioapic_size :: nat where "mpioapic_size = 8"

definition ld16 :: "memory \<Rightarrow> addr \<Rightarrow> u32" where
  "ld16 m a = ucast (m a) OR push_bit 8 (ucast (m (a + 1)))"

text \<open>
  The callers pass a multiple of \<^verbatim>\<open>sizeof(struct mp)\<close> and an area that does not wrap around, so the
  loop visits \<open>len div mp_size\<close> places.
\<close>

definition mpsearch1 :: "memory \<Rightarrow> addr \<Rightarrow> nat \<Rightarrow> addr option" where
  "mpsearch1 m a len =
     find (\<lambda>p. bytes_at m p 4 = [0x5F, 0x4D, 0x50, 0x5F] \<and> mp_sum m p mp_size = 0)
       (map (\<lambda>k. p2v a + of_nat (k * mp_size)) [0..<len div mp_size])"

definition mpsearch :: "memory \<Rightarrow> addr option" where
  "mpsearch m =
     (let bda = p2v 0x400; p = push_bit 4 (ld16 m (bda + 0x0E)) in
      case (if p \<noteq> 0 then mpsearch1 m p 1024
            else mpsearch1 m (ld16 m (bda + 0x13) * 1024 - 1024) 1024) of
        Some mp \<Rightarrow> Some mp
      | None \<Rightarrow> mpsearch1 m 0xF0000 0x10000)"

text \<open>The addresses of the configuration table and of the floating pointer.\<close>

definition mpconfig :: "memory \<Rightarrow> (addr \<times> addr) option" where
  "mpconfig m =
     (case mpsearch m of
        None \<Rightarrow> None
      | Some mp \<Rightarrow>
          (let conf = p2v (ld32 m (mp + 4)) in
           if ld32 m (mp + 4) = 0 then None
           else if bytes_at m conf 4 \<noteq> [0x50, 0x43, 0x4D, 0x50] then None
           else if m (conf + 6) \<noteq> 1 \<and> m (conf + 6) \<noteq> 4 then None
           else if mp_sum m conf (unat (ld16 m (conf + 4))) \<noteq> 0 then None
           else Some (conf, mp)))"

text \<open>
  The loop over the entries of the table.  An entry of unknown type is not skipped, so the loop
  has fuel.  A processor beyond the last is written past the array \<^verbatim>\<open>cpus\<close>.
\<close>

fun mpinit_loop :: "nat \<Rightarrow> addr \<Rightarrow> addr \<Rightarrow> (unit, 'z kintr_scheme) kop" where
  "mpinit_loop fuel p e =
     (if p < e then
        (case fuel of
           0 \<Rightarrow> (\<lambda>_. NoFuel)
         | Suc n \<Rightarrow>
             bindK (getK mem) (\<lambda>m.
             let ty = m p in
             if ty = 0 then
               bindK (getK ncpu) (\<lambda>nc.
               thenK (whenK (int nc \<noteq> uint (m (p + 1))) (
                 thenK (cprintf (''mpinit: ncpu=%d apicid=%d'' @ [CHR 0x0A]) [CInt (int nc), CInt (uint (m (p + 1)))]) (
                 modK (\<lambda>s. s\<lparr>ismp := False\<rparr>)))) (
               thenK (whenK (m (p + 3) AND 0x02 \<noteq> 0) (modK (\<lambda>s. s\<lparr>bcpu := nc\<rparr>))) (
               if nc \<ge> NCPU then (\<lambda>_. Fault)
               else
                 thenK (modK (\<lambda>s. s\<lparr>cpu_id := (cpu_id s)(nc := of_nat nc), ncpu := nc + 1\<rparr>)) (
                 mpinit_loop n (p + of_nat mpproc_size) e))))
             else if ty = 2 then
               thenK (modK (\<lambda>s. s\<lparr>ioapicid := m (p + 1)\<rparr>)) (
               mpinit_loop n (p + of_nat mpioapic_size) e)
             else if ty = 1 \<or> ty = 3 \<or> ty = 4 then mpinit_loop n (p + 8) e
             else
               thenK (cprintf (''mpinit: unknown config type %x'' @ [CHR 0x0A]) [CInt (uint ty)]) (
               thenK (modK (\<lambda>s. s\<lparr>ismp := False\<rparr>)) (
               mpinit_loop n p e))))
      else retK ())"

declare mpinit_loop.simps [simp del]

definition mpinit :: "nat \<Rightarrow> (unit, 'z kintr_scheme) kop" where
  "mpinit fuel =
     thenK (modK (\<lambda>s. s\<lparr>bcpu := 0\<rparr>)) (
     bindK (getK mem) (\<lambda>m.
     case mpconfig m of
       None \<Rightarrow> retK ()
     | Some (conf, mp) \<Rightarrow>
         thenK (modK (\<lambda>s. s\<lparr>ismp := True, lapic := ld32 m (conf + 36)\<rparr>)) (
         thenK (mpinit_loop fuel (conf + of_nat mpconf_size) (conf + ld16 m (conf + 4))) (
         bindK (getK ismp) (\<lambda>b.
         if \<not> b then modK (\<lambda>s. s\<lparr>ncpu := 1, lapic := 0, ioapicid := 0\<rparr>)
         else
           whenK (m (mp + 12) \<noteq> 0) (
             thenK (outb 0x22 0x70) (
             bindK (getK imcr) (\<lambda>v. outb 0x23 (v OR 1)))))))))"

definition mpbcpu :: "(nat, 'z kintr_scheme) kop" where
  "mpbcpu = getK bcpu"

end
