(* ===== verification/Ide.thy ===== *)
theory Ide
  imports Intr
begin

unbundle bit_operations_syntax

text \<open>
  The interrupt-driven disk driver \<^verbatim>\<open>ide.c\<close>.  The queue of requests runs through the field \<^verbatim>\<open>qnext\<close> of the
  buffers, here the function \<open>qnext\<close>, with the head \<open>idequeue\<close>.  The hardware is the status register
  \<open>ide_status\<close>, the values \<open>ide_probe\<close> that the register shows while drive 1 is probed, the sector and drive
  selected by the last command, and the content of the two drives.  Data that is written with \<^verbatim>\<open>outsl\<close>
  is on the drive at once; the interrupt comes later, by a call of \<^verbatim>\<open>ideintr\<close>.
\<close>

section \<open>State\<close>

record kide = kintr +
  idequeue :: "nat option"
  qnext :: "nat \<Rightarrow> nat option"
  havedisk1 :: bool
  ide_status :: byte
  ide_probe :: "nat \<Rightarrow> byte"
  ide_sel :: "nat \<times> u32"
  drives :: "nat \<Rightarrow> u32 \<Rightarrow> byte list"

definition IDE_BSY :: byte where "IDE_BSY = 0x80"
definition IDE_DRDY :: byte where "IDE_DRDY = 0x40"
definition IDE_DF :: byte where "IDE_DF = 0x20"
definition IDE_ERR :: byte where "IDE_ERR = 0x01"
definition IDE_CMD_READ :: byte where "IDE_CMD_READ = 0x20"
definition IDE_CMD_WRITE :: byte where "IDE_CMD_WRITE = 0x30"

lemmas ide_defs = IDE_BSY_def IDE_DRDY_def IDE_DF_def IDE_ERR_def IDE_CMD_READ_def IDE_CMD_WRITE_def

section \<open>The code\<close>

definition idewait :: "bool \<Rightarrow> (int, 'z kide_scheme) kop" where
  "idewait checkerr =
     bindK (getK ide_status) (\<lambda>r.
     if r AND (IDE_BSY OR IDE_DRDY) \<noteq> IDE_DRDY then Spin
     else if checkerr \<and> r AND (IDE_DF OR IDE_ERR) \<noteq> 0 then retK (- 1)
     else retK 0)"

definition ideinit_ide :: "(unit, 'z kide_scheme) kop" where
  "ideinit_ide =
     thenK (initlock IdeLock ''ide'') (
     thenK (picenable IRQ_IDE) (
     bindK (getK ncpu) (\<lambda>n.
     thenK (ioapicenable IRQ_IDE (n - 1)) (
     bindK (idewait False) (\<lambda>_.
     thenK (outb 0x1f6 (0xe0 OR push_bit 4 1)) (
     thenK (modK (\<lambda>s. s\<lparr>havedisk1 := (\<exists>i \<in> set [0..<1000]. ide_probe s i \<noteq> 0)\<rparr>)) (
     outb 0x1f6 (0xe0 OR push_bit 4 0))))))))"

definition idestart :: "nat option \<Rightarrow> (unit, 'z kide_scheme) kop" where
  "idestart bp =
     (case bp of
        None \<Rightarrow> panicK ''idestart''
      | Some i \<Rightarrow>
          bindK (getK (\<lambda>s. bcache s ! i)) (\<lambda>b.
          if blockno b \<ge> of_nat FSSIZE then panicK ''incorrect blockno''
          else
            (let spb = BSIZE div 512; sector = blockno b * of_nat spb in
             if spb > 7 then panicK ''idestart''
             else
               bindK (idewait False) (\<lambda>_.
               thenK (seqK [
                 outb 0x3f6 0,
                 outb 0x1f2 (of_nat spb),
                 outb 0x1f3 (ucast (sector AND 0xff)),
                 outb 0x1f4 (ucast (drop_bit 8 sector AND 0xff)),
                 outb 0x1f5 (ucast (drop_bit 16 sector AND 0xff)),
                 outb 0x1f6 (ucast (0xe0 OR push_bit 4 (bdev b AND 1) OR (drop_bit 24 sector AND 0x0f)))]) (
               thenK (modK (\<lambda>s. s\<lparr>ide_sel := (unat (bdev b AND 1), sector)\<rparr>)) (
               if b_dirty b then
                 thenK (outb 0x1f7 IDE_CMD_WRITE) (
                 modK (\<lambda>s. s\<lparr>drives := (drives s)(unat (bdev b AND 1) :=
                   (drives s (unat (bdev b AND 1)))(sector := bdata b))\<rparr>))
               else outb 0x1f7 IDE_CMD_READ))))))"

definition ideintr :: "(unit, 'z kide_scheme) kop" where
  "ideintr =
     thenK (acquire IdeLock) (
     bindK (getK idequeue) (\<lambda>q.
     case q of
       None \<Rightarrow> release IdeLock
     | Some i \<Rightarrow>
         thenK (modK (\<lambda>s. s\<lparr>idequeue := qnext s i\<rparr>)) (
         bindK (getK (\<lambda>s. b_dirty (bcache s ! i))) (\<lambda>dirty.
         thenK (whenK (\<not> dirty) (
           bindK (idewait True) (\<lambda>r.
           whenK (r \<ge> 0) (
             bindK (getK (\<lambda>s. drives s (fst (ide_sel s)) (snd (ide_sel s)))) (\<lambda>d.
             upd_buf i (\<lambda>b. b\<lparr>bdata := d\<rparr>)))))) (
         thenK (upd_buf i (\<lambda>b. b\<lparr>b_valid := True, b_dirty := False\<rparr>)) (
         thenK (wakeup (ChanBuf i)) (
         bindK (getK idequeue) (\<lambda>q'.
         thenK (whenK (q' \<noteq> None) (idestart q')) (
         release IdeLock))))))))) "

text \<open>
  The end of the queue, following \<^verbatim>\<open>qnext\<close>; the buffers bound the walk.
\<close>

fun queue_end :: "nat \<Rightarrow> (nat \<Rightarrow> nat option) \<Rightarrow> nat \<Rightarrow> nat option" where
  "queue_end n nx i =
     (case nx i of
        None \<Rightarrow> Some i
      | Some j \<Rightarrow> (case n of 0 \<Rightarrow> None | Suc n' \<Rightarrow> queue_end n' nx j))"

declare queue_end.simps [simp del]

definition enqueue :: "nat \<Rightarrow> (unit, 'z kide_scheme) kop" where
  "enqueue i =
     thenK (modK (\<lambda>s. s\<lparr>qnext := (qnext s)(i := None)\<rparr>)) (
     bindK (getK (\<lambda>s. (idequeue s, length (bcache s), qnext s))) (\<lambda>(q, n, nx).
     case q of
       None \<Rightarrow> modK (\<lambda>s. s\<lparr>idequeue := Some i\<rparr>)
     | Some h \<Rightarrow>
         (case queue_end n nx h of
            None \<Rightarrow> (\<lambda>_. NoFuel)
          | Some e \<Rightarrow> modK (\<lambda>s. s\<lparr>qnext := (qnext s)(e := Some i)\<rparr>))))"

text \<open>The loop that waits for the request, with the lock held; a process that slept enters it again.\<close>

definition iderw_wait :: "nat \<Rightarrow> (unit, 'z kide_scheme) kop" where
  "iderw_wait i =
     bindK (getK (\<lambda>s. bcache s ! i)) (\<lambda>b.
     if \<not> (b_valid b \<and> \<not> b_dirty b) then sleep (ChanBuf i) IdeLock
     else release IdeLock)"

definition iderw_ide :: "nat \<Rightarrow> (unit, 'z kide_scheme) kop" where
  "iderw_ide i =
     bindK (getK (\<lambda>s. (bcache s ! i, havedisk1 s))) (\<lambda>(b, d1).
     if \<not> b_busy b then panicK ''iderw: buf not busy''
     else if b_valid b \<and> \<not> b_dirty b then panicK ''iderw: nothing to do''
     else if bdev b \<noteq> 0 \<and> \<not> d1 then panicK ''iderw: ide disk 1 not present''
     else
       thenK (acquire IdeLock) (
       thenK (enqueue i) (
       bindK (getK idequeue) (\<lambda>q.
       thenK (whenK (q = Some i) (idestart (Some i))) (
       iderw_wait i)))))"

definition iderw_resume :: "nat \<Rightarrow> (unit, 'z kide_scheme) kop" where
  "iderw_resume i = thenK (sleep_resume IdeLock) (iderw_wait i)"

end
