(* ===== verification/Blockspec.thy ===== *)
theory Blockspec
  imports Layout
begin

text \<open>
  The buffer cache as its callers see it.  A state has a content for every block (\<open>view\<close>), the blocks
  in use, the blocks that are dirty, and what is on disk; the operations of \<^verbatim>\<open>bio.c\<close> change these in a
  simple way.  The locale \<open>block_cache\<close> states that contract, and its clients (the log and the file system)
  are proved from it.  The theory Blocks shows that the code of \<^verbatim>\<open>bio.c\<close> keeps it.
\<close>

section \<open>The contract\<close>

text \<open>What a sequence of block writes makes of a disk.\<close>

definition apply_writes :: "(u32 \<times> byte list) list \<Rightarrow> (u32 \<Rightarrow> byte list) \<Rightarrow> u32 \<Rightarrow> byte list" where
  "apply_writes ws d = fold (\<lambda>(b, y) d. d(b := y)) ws d"

lemma apply_writes_simps [simp]:
  "apply_writes [] d = d" "apply_writes ((b, y) # ws) d = apply_writes ws (d(b := y))"
  "apply_writes (ws @ vs) d = apply_writes vs (apply_writes ws d)"
  by (simp_all add: apply_writes_def)

lemma apply_writes_other: "b \<notin> fst ` set ws \<Longrightarrow> apply_writes ws d b = d b"
  by (induction ws arbitrary: d) auto

lemma apply_writes_take_other: "b \<notin> fst ` set ws \<Longrightarrow> apply_writes (take m ws) d b = d b"
  by (rule apply_writes_other) (auto dest: in_set_takeD)

lemma apply_writes_in: "distinct (map fst ws) \<Longrightarrow> (b, y) \<in> set ws \<Longrightarrow> apply_writes ws d b = y"
proof (induction ws arbitrary: d)
  case (Cons w ws)
  then show ?case
  proof (cases "(b, y) = w")
    case True
    have "b \<notin> fst ` set ws" using Cons.prems(1) unfolding True [symmetric] by simp
    with True apply_writes_other [OF this] show ?thesis by auto
  next
    case False
    with Cons show ?thesis by (cases w) auto
  qed
qed simp

locale block_cache =
  fixes inv :: "'s \<Rightarrow> bool"
    and frame :: "'s \<Rightarrow> 's \<Rightarrow> bool"
    and okb :: "'s \<Rightarrow> u32 \<Rightarrow> bool"
    and held :: "'s \<Rightarrow> nat \<Rightarrow> u32 \<Rightarrow> bool"
    and view :: "'s \<Rightarrow> u32 \<Rightarrow> byte list"
    and dsk :: "'s \<Rightarrow> u32 \<Rightarrow> byte list"
    and busy :: "'s \<Rightarrow> u32 set"
    and dirty :: "'s \<Rightarrow> u32 set"
    and writes :: "'s \<Rightarrow> (u32 \<times> byte list) list"
    and rd :: "u32 \<Rightarrow> (nat, 's) kop"
    and put :: "nat \<Rightarrow> byte list \<Rightarrow> (unit, 's) kop"
    and "get" :: "nat \<Rightarrow> (byte list, 's) kop"
    and wr :: "nat \<Rightarrow> (unit, 's) kop"
    and rel :: "nat \<Rightarrow> (unit, 's) kop"
  assumes frame_refl: "frame s s"
    and frame_trans: "frame s t \<Longrightarrow> frame t u \<Longrightarrow> frame s u"
    and frame_okb: "frame s t \<Longrightarrow> okb t b = okb s b"
    and view_length: "inv s \<Longrightarrow> length (view s b) = BSIZE"
    and finite_use: "inv s \<Longrightarrow> finite (busy s \<union> dirty s)"
    and rd_law: "inv s \<Longrightarrow> okb s b \<Longrightarrow> b \<notin> busy s \<Longrightarrow> b \<in> dirty s \<or> card (busy s \<union> dirty s) < NBUF \<Longrightarrow>
      \<exists>i t. rd b s = Ok i t \<and> frame s t \<and> inv t \<and> held t i b \<and> view t = view s \<and> dsk t = dsk s \<and>
        writes t = writes s \<and> busy t = insert b (busy s) \<and> dirty t = dirty s \<and> (\<forall>j c. held s j c \<longrightarrow> held t j c)"
    and get_law: "inv s \<Longrightarrow> held s i b \<Longrightarrow> get i s = Ok (view s b) s"
    and put_law: "inv s \<Longrightarrow> held s i b \<Longrightarrow> length ys = BSIZE \<Longrightarrow>
      \<exists>t. put i ys s = Ok () t \<and> frame s t \<and> inv t \<and> view t = (view s)(b := ys) \<and> dsk t = dsk s \<and>
        writes t = writes s \<and> busy t = busy s \<and> dirty t = dirty s \<and> held t = held s"
    and wr_law: "inv s \<Longrightarrow> held s i b \<Longrightarrow> okb s b \<Longrightarrow>
      \<exists>t. wr i s = Ok () t \<and> frame s t \<and> inv t \<and> view t = view s \<and> dsk t = (dsk s)(b := view s b) \<and>
        writes t = writes s @ [(b, view s b)] \<and> busy t = busy s \<and> dirty t = dirty s - {b} \<and> held t = held s"
    and rel_law: "inv s \<Longrightarrow> held s i b \<Longrightarrow> b \<in> dirty s \<or> view s b = dsk s b \<Longrightarrow>
      \<exists>t. rel i s = Ok () t \<and> frame s t \<and> inv t \<and> view t = view s \<and> dsk t = dsk s \<and>
        writes t = writes s \<and> busy t = busy s - {b} \<and> dirty t = dirty s \<and>
        (\<forall>j c. held s j c \<and> c \<noteq> b \<longrightarrow> held t j c)"
    and held_busy: "inv s \<Longrightarrow> held s i b \<Longrightarrow> b \<in> busy s"
    and clean_view: "inv s \<Longrightarrow> b \<notin> busy s \<Longrightarrow> b \<notin> dirty s \<Longrightarrow> view s b = dsk s b"
begin

text \<open>Read a block and let it go again.\<close>

lemma read_cycle:
  assumes "inv s" "okb s b" "b \<notin> busy s" "b \<in> dirty s \<or> card (busy s \<union> dirty s) < NBUF"
  shows "\<exists>t. bindK (rd b) (\<lambda>i. bindK (get i) (\<lambda>d. thenK (rel i) (k d))) s = k (view s b) t \<and>
    frame s t \<and> inv t \<and> view t = view s \<and> dsk t = dsk s \<and> writes t = writes s \<and> busy t = busy s \<and> dirty t = dirty s"
proof -
  obtain i t1 where 1: "rd b s = Ok i t1" "frame s t1" "inv t1" "held t1 i b" "view t1 = view s" "dsk t1 = dsk s"
    "writes t1 = writes s" "busy t1 = insert b (busy s)" "dirty t1 = dirty s"
    using rd_law [OF assms] by blast
  have "b \<in> dirty t1 \<or> view t1 b = dsk t1 b" using clean_view [OF assms(1,3)] 1 by auto
  from rel_law [OF 1(3,4) this] obtain t2 where 2: "rel i t1 = Ok () t2" "frame t1 t2" "inv t2" "view t2 = view t1"
    "dsk t2 = dsk t1" "writes t2 = writes t1" "busy t2 = busy t1 - {b}" "dirty t2 = dirty t1" by blast
  have "bindK (rd b) (\<lambda>i. bindK (get i) (\<lambda>d. thenK (rel i) (k d))) s = k (view s b) t2"
    using 1 2 get_law [OF 1(3,4)] by (simp add: kop)
  moreover have "busy t2 = busy s" using 1 2 assms(3) by auto
  ultimately show ?thesis using 1 2 by (intro exI [of _ t2]) (auto intro: frame_trans)
qed

text \<open>
  Copy block \<open>a\<close> onto block \<open>b\<close> and write \<open>b\<close>: the two reads in one order, the two releases in any order.
\<close>

definition copy_op :: "u32 \<Rightarrow> u32 \<Rightarrow> (unit, 's) kop" where
  "copy_op a b = bindK (rd a) (\<lambda>i. bindK (rd b) (\<lambda>j. bindK (get i) (\<lambda>d.
     thenK (put j d) (thenK (wr j) (thenK (rel i) (rel j))))))"

definition copy_rev_op :: "u32 \<Rightarrow> u32 \<Rightarrow> (unit, 's) kop" where
  "copy_rev_op a b = bindK (rd b) (\<lambda>j. bindK (rd a) (\<lambda>i. bindK (get i) (\<lambda>d.
     thenK (put j d) (thenK (wr j) (thenK (rel i) (rel j))))))"

definition copied :: "u32 \<Rightarrow> u32 \<Rightarrow> 's \<Rightarrow> 's \<Rightarrow> bool" where
  "copied a b s t \<longleftrightarrow> frame s t \<and> inv t \<and> view t = (view s)(b := view s a) \<and> dsk t = (dsk s)(b := view s a) \<and>
     writes t = writes s @ [(b, view s a)] \<and> busy t = {} \<and> dirty t = dirty s - {b}"

lemma copy_tail:
  assumes s: "inv s" "held s i a" "held s j b" "a \<noteq> b" "busy s = {a, b}" "okb s b"
    and cl: "a \<in> dirty s \<or> view s a = dsk s a"
  shows "\<exists>t. bindK (get i) (\<lambda>d. thenK (put j d) (thenK (wr j) (thenK (rel i) (rel j)))) s = Ok () t \<and> copied a b s t"
proof -
  obtain t1 where 1: "put j (view s a) s = Ok () t1" "frame s t1" "inv t1" "view t1 = (view s)(b := view s a)"
    "dsk t1 = dsk s" "writes t1 = writes s" "busy t1 = busy s" "dirty t1 = dirty s" "held t1 = held s"
    using put_law [OF s(1,3) view_length [OF s(1)]] by blast
  have "held t1 j b" "okb t1 b" using 1 s frame_okb by auto
  from wr_law [OF 1(3) this] obtain t2 where 2: "wr j t1 = Ok () t2" "frame t1 t2" "inv t2" "view t2 = view t1"
    "dsk t2 = (dsk t1)(b := view t1 b)" "writes t2 = writes t1 @ [(b, view t1 b)]" "busy t2 = busy t1"
    "dirty t2 = dirty t1 - {b}" "held t2 = held t1" by blast
  have "held t2 i a" "a \<in> dirty t2 \<or> view t2 a = dsk t2 a" using 1 2 s cl by auto
  from rel_law [OF 2(3) this] obtain t3 where 3: "rel i t2 = Ok () t3" "frame t2 t3" "inv t3" "view t3 = view t2"
    "dsk t3 = dsk t2" "writes t3 = writes t2" "busy t3 = busy t2 - {a}" "dirty t3 = dirty t2"
    "\<forall>j c. held t2 j c \<and> c \<noteq> a \<longrightarrow> held t3 j c" by blast
  have "held t3 j b" "b \<in> dirty t3 \<or> view t3 b = dsk t3 b" using 1 2 3 s by auto
  from rel_law [OF 3(3) this] obtain t4 where 4: "rel j t3 = Ok () t4" "frame t3 t4" "inv t4" "view t4 = view t3"
    "dsk t4 = dsk t3" "writes t4 = writes t3" "busy t4 = busy t3 - {b}" "dirty t4 = dirty t3" by blast
  have "bindK (get i) (\<lambda>d. thenK (put j d) (thenK (wr j) (thenK (rel i) (rel j)))) s = Ok () t4"
    using get_law [OF s(1,2)] 1 2 3 4 by (simp add: kop)
  moreover have "frame s t4" by (rule frame_trans [OF 1(2) frame_trans [OF 2(2) frame_trans [OF 3(2) 4(2)]]])
  ultimately show ?thesis using s 1 2 3 4 by (intro exI [of _ t4]) (auto simp: copied_def)
qed

lemma two_reads:
  assumes "inv s" "okb s a" "okb s b" "a \<noteq> b" "busy s = {}"
    "a \<in> dirty s \<or> card (dirty s) < NBUF" "b \<in> dirty s \<or> card (insert a (dirty s)) < NBUF"
  shows "\<exists>i t1 j t. rd a s = Ok i t1 \<and> rd b t1 = Ok j t \<and> frame s t \<and> inv t \<and> held t i a \<and> held t j b \<and>
    busy t = {a, b} \<and> view t = view s \<and> dsk t = dsk s \<and> writes t = writes s \<and> dirty t = dirty s"
proof -
  have "a \<notin> busy s" "a \<in> dirty s \<or> card (busy s \<union> dirty s) < NBUF" using assms(5,6) by simp_all
  from rd_law [OF assms(1,2) this] obtain i t1 where 1: "rd a s = Ok i t1" "frame s t1" "inv t1" "held t1 i a"
    "view t1 = view s" "dsk t1 = dsk s" "writes t1 = writes s" "busy t1 = insert a (busy s)" "dirty t1 = dirty s"
    by blast
  have "okb t1 b" "b \<notin> busy t1" "b \<in> dirty t1 \<or> card (busy t1 \<union> dirty t1) < NBUF"
    using assms(3,4,5,7) 1(8,9) frame_okb [OF 1(2)] by simp_all
  from rd_law [OF 1(3) this] obtain j t2 where 2: "rd b t1 = Ok j t2" "frame t1 t2" "inv t2" "held t2 j b"
    "view t2 = view t1" "dsk t2 = dsk t1" "writes t2 = writes t1" "busy t2 = insert b (busy t1)" "dirty t2 = dirty t1"
    "\<forall>j c. held t1 j c \<longrightarrow> held t2 j c" by blast
  have "frame s t2" by (rule frame_trans [OF 1(2) 2(2)])
  moreover have "held t2 i a" using 1(4) 2(10) by simp
  ultimately show ?thesis using 1(1,5-9) 2(1,3-9) assms(5)
    by (intro exI [of _ i] exI [of _ t1] exI [of _ j] exI [of _ t2]) (simp add: insert_commute)
qed

lemma copied_after:
  assumes "copied a b t u" "frame s t" "view t = view s" "dsk t = dsk s" "writes t = writes s" "dirty t = dirty s"
  shows "copied a b s u"
  using assms by (auto simp: copied_def intro: frame_trans)

lemma copy_ok:
  assumes "inv s" "okb s a" "okb s b" "a \<noteq> b" "busy s = {}"
    "a \<in> dirty s \<or> card (dirty s) < NBUF" "b \<in> dirty s \<or> card (insert a (dirty s)) < NBUF"
  shows "\<exists>t. copy_op a b s = Ok () t \<and> copied a b s t"
proof -
  obtain i t1 j t where r: "rd a s = Ok i t1" "rd b t1 = Ok j t" "frame s t" "inv t" "held t i a" "held t j b"
    "busy t = {a, b}" "view t = view s" "dsk t = dsk s" "writes t = writes s" "dirty t = dirty s"
    using two_reads [OF assms] by blast
  have "okb t b" "a \<in> dirty t \<or> view t a = dsk t a"
    using r assms frame_okb clean_view [OF assms(1), of a] by auto
  from copy_tail [OF r(4,5,6) assms(4) r(7) this] obtain u
    where "bindK (get i) (\<lambda>d. thenK (put j d) (thenK (wr j) (thenK (rel i) (rel j)))) t = Ok () u" "copied a b t u"
    by blast
  with r show ?thesis by (intro exI [of _ u]) (auto simp: copy_op_def bindK_def [of "rd _"] intro: copied_after)
qed

lemma copy_rev_ok:
  assumes "inv s" "okb s a" "okb s b" "a \<noteq> b" "busy s = {}"
    "b \<in> dirty s \<or> card (dirty s) < NBUF" "a \<in> dirty s \<or> card (insert b (dirty s)) < NBUF"
  shows "\<exists>t. copy_rev_op a b s = Ok () t \<and> copied a b s t"
proof -
  obtain j t1 i t where r: "rd b s = Ok j t1" "rd a t1 = Ok i t" "frame s t" "inv t" "held t j b" "held t i a"
    "busy t = {b, a}" "view t = view s" "dsk t = dsk s" "writes t = writes s" "dirty t = dirty s"
    using two_reads [OF assms(1,3,2) assms(4) [symmetric] assms(5,6,7)] by blast
  have "okb t b" "a \<in> dirty t \<or> view t a = dsk t a" "busy t = {a, b}"
    using r assms frame_okb clean_view [OF assms(1), of a] by auto
  from copy_tail [OF r(4,6,5) assms(4) this(3,1,2)] obtain u
    where "bindK (get i) (\<lambda>d. thenK (put j d) (thenK (wr j) (thenK (rel i) (rel j)))) t = Ok () u" "copied a b t u"
    by blast
  with r show ?thesis by (intro exI [of _ u]) (auto simp: copy_rev_op_def bindK_def [of "rd _"] intro: copied_after)
qed

text \<open>Change a block and write it.\<close>

lemma update_ok:
  assumes "inv s" "okb s b" "b \<notin> busy s" "b \<in> dirty s \<or> card (busy s \<union> dirty s) < NBUF"
    "length (f (view s b)) = BSIZE"
  shows "\<exists>t. bindK (rd b) (\<lambda>i. bindK (get i) (\<lambda>d. thenK (put i (f d)) (thenK (wr i) (rel i)))) s = Ok () t \<and>
    frame s t \<and> inv t \<and> view t = (view s)(b := f (view s b)) \<and> dsk t = (dsk s)(b := f (view s b)) \<and>
    writes t = writes s @ [(b, f (view s b))] \<and> busy t = busy s \<and> dirty t = dirty s - {b}"
proof -
  obtain i t1 where 1: "rd b s = Ok i t1" "frame s t1" "inv t1" "held t1 i b" "view t1 = view s" "dsk t1 = dsk s"
    "writes t1 = writes s" "busy t1 = insert b (busy s)" "dirty t1 = dirty s"
    using rd_law [OF assms(1-4)] by blast
  have g: "get i t1 = Ok (view s b) t1" using get_law [OF 1(3,4)] 1(5) by simp
  from put_law [OF 1(3,4) assms(5)] obtain t2 where 2: "put i (f (view s b)) t1 = Ok () t2" "frame t1 t2" "inv t2"
    "view t2 = (view t1)(b := f (view s b))" "dsk t2 = dsk t1" "writes t2 = writes t1" "busy t2 = busy t1"
    "dirty t2 = dirty t1" "held t2 = held t1" by blast
  have h2: "held t2 i b" "okb t2 b" using 1(2,4) 2(2,9) assms(2) frame_okb by simp_all
  from wr_law [OF 2(3) h2] obtain t3 where 3: "wr i t2 = Ok () t3" "frame t2 t3" "inv t3" "view t3 = view t2"
    "dsk t3 = (dsk t2)(b := view t2 b)" "writes t3 = writes t2 @ [(b, view t2 b)]" "busy t3 = busy t2"
    "dirty t3 = dirty t2 - {b}" "held t3 = held t2" by blast
  have "held t3 i b" "b \<in> dirty t3 \<or> view t3 b = dsk t3 b" using h2 3 by simp_all
  from rel_law [OF 3(3) this] obtain t4 where 4: "rel i t3 = Ok () t4" "frame t3 t4" "inv t4" "view t4 = view t3"
    "dsk t4 = dsk t3" "writes t4 = writes t3" "busy t4 = busy t3 - {b}" "dirty t4 = dirty t3" by blast
  have "frame s t4" by (rule frame_trans [OF 1(2) frame_trans [OF 2(2) frame_trans [OF 3(2) 4(2)]]])
  moreover have "busy t4 = busy s" using 1(8) 2(7) 3(7) 4(7) assms(3) by auto
  ultimately show ?thesis using 1 g 2 3 4 by (intro exI [of _ t4]) (simp add: kop)
qed

text \<open>A sequence of copies whose sources are not among its destinations.\<close>

lemma copy_seq:
  assumes "\<And>u k. k \<in> set ks \<Longrightarrow> frame s u \<Longrightarrow> inv u \<Longrightarrow> busy u = {} \<Longrightarrow> D (dirty u) k \<Longrightarrow>
      \<exists>t. cp k u = Ok () t \<and> copied (src k) (dst k) u t"
    and "\<And>as k bs. ks = as @ k # bs \<Longrightarrow> D (dirty s - dst ` set as) k"
    and "inv s" "busy s = {}" "src ` set ks \<inter> dst ` set ks = {}"
  defines "ws \<equiv> map (\<lambda>k. (dst k, view s (src k))) ks"
  shows "\<exists>t. seqK (map cp ks) s = Ok () t \<and> frame s t \<and> inv t \<and> busy t = {} \<and>
    dirty t = dirty s - dst ` set ks \<and> writes t = writes s @ ws \<and> view t = apply_writes ws (view s) \<and>
    dsk t = apply_writes ws (dsk s)"
  using assms(1-5) unfolding ws_def
proof (induction ks arbitrary: s)
  case Nil
  then show ?case by (simp add: frame_refl)
next
  case (Cons k ks)
  have "D (dirty s) k" using Cons.prems(2) [of "[]" k ks] by simp
  with Cons.prems(1) [of k s] Cons.prems(3,4) frame_refl
  obtain t1 where 1: "cp k s = Ok () t1" "copied (src k) (dst k) s t1" by auto
  have 2: "frame s t1" "inv t1" "busy t1 = {}" "dirty t1 = dirty s - {dst k}" "view t1 = (view s)(dst k := view s (src k))"
    "dsk t1 = (dsk s)(dst k := view s (src k))" "writes t1 = writes s @ [(dst k, view s (src k))]"
    using 1(2) by (simp_all add: copied_def)
  let ?ws = "map (\<lambda>k. (dst k, view t1 (src k))) ks"
  have D: "D (dirty t1 - dst ` set as) j" if "ks = as @ j # bs" for as j bs
  proof -
    have "dirty t1 - dst ` set as = dirty s - dst ` set (k # as)" using 2(4) by auto
    with Cons.prems(2) [of "k # as" j bs] that show ?thesis by simp
  qed
  have step: "\<exists>t. cp j u = Ok () t \<and> copied (src j) (dst j) u t"
    if "j \<in> set ks" "frame t1 u" "inv u" "busy u = {}" "D (dirty u) j" for u j
    using Cons.prems(1) [of j u] that frame_trans [OF 2(1) that(2)] by simp
  have dis: "src ` set ks \<inter> dst ` set ks = {}" using Cons.prems(5) by auto
  have "\<exists>t. seqK (map cp ks) t1 = Ok () t \<and> frame t1 t \<and> inv t \<and> busy t = {} \<and> dirty t = dirty t1 - dst ` set ks \<and>
      writes t = writes t1 @ ?ws \<and> view t = apply_writes ?ws (view t1) \<and> dsk t = apply_writes ?ws (dsk t1)"
    by (rule Cons.IH [OF _ _ 2(2,3) dis]) (erule (4) step, erule D)
  then obtain t where t: "seqK (map cp ks) t1 = Ok () t" "frame t1 t" "inv t" "busy t = {}" "dirty t = dirty t1 - dst ` set ks"
    "writes t = writes t1 @ ?ws" "view t = apply_writes ?ws (view t1)" "dsk t = apply_writes ?ws (dsk t1)" by blast
  have "dst k \<noteq> src j" if "j \<in> set ks" for j using Cons.prems(5) that by (auto simp: image_iff)
  then have w: "?ws = map (\<lambda>k. (dst k, view s (src k))) ks" by (fastforce simp: 2(5))
  have "dirty t = dirty s - dst ` set (k # ks)" using 2(4) t(5) by auto
  moreover have "seqK (map cp (k # ks)) s = Ok () t" using 1(1) t(1) by (simp add: kop)
  ultimately show ?case using t(3,4) t(6-8) [unfolded w] frame_trans [OF 2(1) t(2)] by (auto simp: 2(5-7))
qed

end

end
