(* ===== verification/Blocks.thy ===== *)
theory Blocks
  imports Log Blockspec
begin

text \<open>
  The buffer cache of \<^verbatim>\<open>bio.c\<close> keeps the contract \<open>block_cache\<close>.
\<close>

section \<open>The buffer cache of bio.c\<close>

text \<open>What the operations may change besides the cache: the saved interrupt flag, and sleepers that wake up.\<close>

definition woken :: "proc list \<Rightarrow> proc list \<Rightarrow> bool" where
  "woken ps qs \<longleftrightarrow> list_all2 (\<lambda>p q. q = p \<or> state p = SLEEPING \<and> q = p\<lparr>state := RUNNABLE\<rparr>) ps qs"

lemma woken_refl [simp]: "woken ps ps"
  by (simp add: woken_def list.rel_refl)

lemma woken_trans: "woken ps qs \<Longrightarrow> woken qs rs \<Longrightarrow> woken ps rs"
  unfolding woken_def list_all2_conv_all_nth by (metis (no_types, lifting) proc.select_convs(4) proc.surjective
      proc.update_convs(4) procstate.distinct(17))

lemma woken_wake [simp]: "woken ps (map (wake ch) ps)"
  by (auto simp: woken_def wake_def list_all2_conv_all_nth)

definition bframe :: "'z kbio_scheme \<Rightarrow> 'z kbio_scheme \<Rightarrow> bool" where
  "bframe s t \<longleftrightarrow> t = s\<lparr>cpus := cpus t, ptable := ptable t, bcache := bcache t, disk := disk t, dwrites := dwrites t\<rparr> \<and>
     (cpus t = cpus s \<or> cpus t = cpus (irqsave s)) \<and> woken (ptable s) (ptable t)"

definition binv :: "'z kbio_scheme \<Rightarrow> bool" where
  "binv s \<longleftrightarrow> cache_ok (bcache s) (disk s) \<and> bio_ready s \<and> (\<forall>i < NBUF. b_busy (bcache s ! i) \<longrightarrow> b_valid (bcache s ! i))"

definition bheld :: "'z kbio_scheme \<Rightarrow> nat \<Rightarrow> u32 \<Rightarrow> bool" where
  "bheld s i b \<longleftrightarrow> i < NBUF \<and> b_busy (bcache s ! i) \<and> b_valid (bcache s ! i) \<and> bdev (bcache s ! i) = 1 \<and>
     blockno (bcache s ! i) = b"

definition bcontent :: "'z kbio_scheme \<Rightarrow> u32 \<Rightarrow> byte list" where
  "bcontent s = bview (bcache s) (disk s)"

definition busyb :: "'z kbio_scheme \<Rightarrow> u32 set" where
  "busyb s = (\<lambda>i. blockno (bcache s ! i)) ` {i. i < NBUF \<and> b_busy (bcache s ! i)}"

definition dirtyb :: "'z kbio_scheme \<Rightarrow> u32 set" where
  "dirtyb s = (\<lambda>i. blockno (bcache s ! i)) ` {i. i < NBUF \<and> b_dirty (bcache s ! i)}"

definition okb :: "'z kbio_scheme \<Rightarrow> u32 \<Rightarrow> bool" where
  "okb s b \<longleftrightarrow> b < word_of_int (disksize s)"

lemma bframe_refl [simp]: "bframe s s"
  by (simp add: bframe_def)

lemma irqsave_twice: "cpus (irqsave t) = cpus (irqsave s)"
  if "this_cpu t = this_cpu s" "cpus t = cpus s \<or> cpus t = cpus (irqsave s)"
  using that by auto

lemma bframe_trans:
  assumes "bframe s t" "bframe t u"
  shows "bframe s u"
proof -
  have t: "t = s\<lparr>cpus := cpus t, ptable := ptable t, bcache := bcache t, disk := disk t, dwrites := dwrites t\<rparr>"
    and u: "u = t\<lparr>cpus := cpus u, ptable := ptable u, bcache := bcache u, disk := disk u, dwrites := dwrites u\<rparr>"
    using assms by (simp_all add: bframe_def)
  have "u = s\<lparr>cpus := cpus u, ptable := ptable u, bcache := bcache u, disk := disk u, dwrites := dwrites u\<rparr>"
    by (subst u, subst t) simp
  moreover have c: "this_cpu t = this_cpu s" by (subst t) simp
  moreover have "cpus u = cpus s \<or> cpus u = cpus (irqsave s)"
    using assms irqsave_twice [OF c] unfolding bframe_def by argo
  moreover have "woken (ptable s) (ptable u)"
    using assms by (auto simp: bframe_def intro: woken_trans)
  ultimately show ?thesis by (simp only: bframe_def)
qed

lemma bframe_fields:
  assumes "bframe s t"
  shows "this_cpu t = this_cpu s" "locks t = locks s" "disksize t = disksize s" "mem t = mem s" "initproc t = initproc s"
proof -
  from assms have t: "t = s\<lparr>cpus := cpus t, ptable := ptable t, bcache := bcache t, disk := disk t, dwrites := dwrites t\<rparr>"
    by (simp add: bframe_def)
  show "this_cpu t = this_cpu s" "locks t = locks s" "disksize t = disksize s" "mem t = mem s" "initproc t = initproc s"
    by (subst t, simp)+
qed

lemma bframe_ready: "bframe s t \<Longrightarrow> bio_ready t = bio_ready s"
  by (frule bframe_fields(1), frule bframe_fields(2)) (auto simp: bframe_def bio_ready_def)

lemma binv_length: "binv s \<Longrightarrow> length (bcache s) = Suc NBUF"
  by (auto simp: binv_def dest: cache_ok_length)

lemma in_use_dev:
  assumes "binv s" "i < NBUF" "b_busy (bcache s ! i) \<or> b_dirty (bcache s ! i)"
  shows "bdev (bcache s ! i) = 1"
proof -
  have "buf_ok (disk s) (bcache s ! i)" "b_busy (bcache s ! i) \<longrightarrow> b_valid (bcache s ! i)"
    using assms by (auto simp: binv_def cache_ok_def)
  with assms(3) show ?thesis by (auto simp: buf_ok_def)
qed

lemma one_per_blockD:
  "one_per_block bs \<Longrightarrow> i < NBUF \<Longrightarrow> j < NBUF \<Longrightarrow> bdev (bs ! i) = 1 \<Longrightarrow> bdev (bs ! j) = 1 \<Longrightarrow>
    blockno (bs ! i) = blockno (bs ! j) \<Longrightarrow> i = j"
  unfolding one_per_block_def by blast

lemma binv_one: "binv s \<Longrightarrow> one_per_block (bcache s)"
  by (simp add: binv_def cache_ok_def)

text \<open>The blocks in use or dirty are as many as the buffers that are.\<close>

lemma free_buffer:
  assumes "binv s" "card (busyb s \<union> dirtyb s) < NBUF"
  shows "\<exists>i < NBUF. \<not> b_busy (bcache s ! i) \<and> \<not> b_dirty (bcache s ! i)"
proof (rule ccontr)
  assume "\<not> ?thesis"
  then have all: "\<And>i. i < NBUF \<Longrightarrow> b_busy (bcache s ! i) \<or> b_dirty (bcache s ! i)" by blast
  have sub: "(\<lambda>i. blockno (bcache s ! i)) ` {..<NBUF} \<subseteq> busyb s \<union> dirtyb s"
    using all by (auto simp: busyb_def dirtyb_def)
  have "busyb s \<union> dirtyb s \<subseteq> (\<lambda>i. blockno (bcache s ! i)) ` {..<NBUF}" by (auto simp: busyb_def dirtyb_def)
  with sub have eq: "busyb s \<union> dirtyb s = (\<lambda>i. blockno (bcache s ! i)) ` {..<NBUF}" by blast
  have "inj_on (\<lambda>i. blockno (bcache s ! i)) {..<NBUF}"
    using all in_use_dev [OF assms(1)] one_per_blockD [OF binv_one [OF assms(1)]] by (intro inj_onI) simp
  then have "card (busyb s \<union> dirtyb s) = NBUF" unfolding eq by (simp add: card_image)
  with assms(2) show False by simp
qed

lemma finite_use_b: "finite (busyb s \<union> dirtyb s)"
proof -
  have "busyb s \<union> dirtyb s \<subseteq> (\<lambda>i. blockno (bcache s ! i)) ` {..<NBUF}" by (auto simp: busyb_def dirtyb_def)
  then show ?thesis by (rule finite_subset) simp
qed

lemma busyb_buf:
  assumes "binv s" "i < NBUF" "bdev (bcache s ! i) = 1"
  shows "blockno (bcache s ! i) \<in> busyb s \<longleftrightarrow> b_busy (bcache s ! i)"
    and "blockno (bcache s ! i) \<in> dirtyb s \<longleftrightarrow> b_dirty (bcache s ! i)"
proof -
  have u: "k = i" if "k < NBUF" "blockno (bcache s ! k) = blockno (bcache s ! i)" "b_busy (bcache s ! k) \<or> b_dirty (bcache s ! k)" for k
    using one_per_blockD [OF binv_one [OF assms(1)] that(1) assms(2) in_use_dev [OF assms(1) that(1,3)] assms(3) that(2)] .
  have "b_busy (bcache s ! i)" if "blockno (bcache s ! i) \<in> busyb s"
  proof -
    from that obtain k where "k < NBUF" "b_busy (bcache s ! k)" "blockno (bcache s ! k) = blockno (bcache s ! i)"
      by (auto simp: busyb_def)
    with u [of k] show ?thesis by simp
  qed
  with assms(2) show "blockno (bcache s ! i) \<in> busyb s \<longleftrightarrow> b_busy (bcache s ! i)" by (auto simp: busyb_def)
  have "b_dirty (bcache s ! i)" if "blockno (bcache s ! i) \<in> dirtyb s"
  proof -
    from that obtain k where "k < NBUF" "b_dirty (bcache s ! k)" "blockno (bcache s ! k) = blockno (bcache s ! i)"
      by (auto simp: dirtyb_def)
    with u [of k] show ?thesis by simp
  qed
  with assms(2) show "blockno (bcache s ! i) \<in> dirtyb s \<longleftrightarrow> b_dirty (bcache s ! i)" by (auto simp: dirtyb_def)
qed

lemma not_cached:
  assumes "binv s" "buf_of (bcache s) b = None"
  shows "b \<notin> busyb s" "b \<notin> dirtyb s"
  using assms(2) in_use_dev [OF assms(1)] buf_of_None [OF binv_length [OF assms(1)]]
  by (auto simp: busyb_def dirtyb_def)

lemma bheld_buf: "binv s \<Longrightarrow> bheld s i b \<Longrightarrow> buf_of (bcache s) b = Some i"
  by (frule binv_length) (auto simp: bheld_def binv_def cache_ok_def intro!: buf_of_SomeI)

lemma bheld_content: "binv s \<Longrightarrow> bheld s i b \<Longrightarrow> bdata (bcache s ! i) = bcontent s b"
  by (frule (1) bheld_buf) (simp add: bcontent_def bview_def bheld_def)

text \<open>Changing one buffer changes the blocks in use and the dirty blocks at its block.\<close>

lemma use_upd:
  assumes "i < NBUF" "length (bcache s) = Suc NBUF" "bcache t = (bcache s)[i := x]"
  shows "busyb t = (\<lambda>k. blockno (bcache s ! k)) ` {k. k < NBUF \<and> k \<noteq> i \<and> b_busy (bcache s ! k)} \<union>
      (if b_busy x then {blockno x} else {})"
    and "dirtyb t = (\<lambda>k. blockno (bcache s ! k)) ` {k. k < NBUF \<and> k \<noteq> i \<and> b_dirty (bcache s ! k)} \<union>
      (if b_dirty x then {blockno x} else {})"
proof -
  have n: "\<And>k. k < NBUF \<Longrightarrow> bcache t ! k = (if k = i then x else bcache s ! k)" using assms by simp
  have "{k. k < NBUF \<and> b_busy (bcache t ! k)} = {k. k < NBUF \<and> k \<noteq> i \<and> b_busy (bcache s ! k)} \<union> (if b_busy x then {i} else {})"
    "{k. k < NBUF \<and> b_dirty (bcache t ! k)} = {k. k < NBUF \<and> k \<noteq> i \<and> b_dirty (bcache s ! k)} \<union> (if b_dirty x then {i} else {})"
    using assms(1) by (auto simp: n split: if_splits)
  then show "busyb t = (\<lambda>k. blockno (bcache s ! k)) ` {k. k < NBUF \<and> k \<noteq> i \<and> b_busy (bcache s ! k)} \<union>
      (if b_busy x then {blockno x} else {})"
    "dirtyb t = (\<lambda>k. blockno (bcache s ! k)) ` {k. k < NBUF \<and> k \<noteq> i \<and> b_dirty (bcache s ! k)} \<union>
      (if b_dirty x then {blockno x} else {})"
    using assms(1) unfolding busyb_def dirtyb_def by (auto simp: n image_Un intro!: image_cong)
qed

text \<open>The laws of the contract.\<close>

lemma others_use:
  assumes "binv s" "i < NBUF" "bdev (bcache s ! i) = 1"
  shows "(\<lambda>k. blockno (bcache s ! k)) ` {k. k < NBUF \<and> k \<noteq> i \<and> b_busy (bcache s ! k)} = busyb s - {blockno (bcache s ! i)}"
    and "(\<lambda>k. blockno (bcache s ! k)) ` {k. k < NBUF \<and> k \<noteq> i \<and> b_dirty (bcache s ! k)} = dirtyb s - {blockno (bcache s ! i)}"
proof -
  have "blockno (bcache s ! k) \<noteq> blockno (bcache s ! i)" if "k < NBUF" "k \<noteq> i" "b_busy (bcache s ! k) \<or> b_dirty (bcache s ! k)" for k
    using one_per_blockD [OF binv_one [OF assms(1)] that(1) assms(2) in_use_dev [OF assms(1) that(1,3)] assms(3)] that(2) by blast
  then show "(\<lambda>k. blockno (bcache s ! k)) ` {k. k < NBUF \<and> k \<noteq> i \<and> b_busy (bcache s ! k)} = busyb s - {blockno (bcache s ! i)}"
    "(\<lambda>k. blockno (bcache s ! k)) ` {k. k < NBUF \<and> k \<noteq> i \<and> b_dirty (bcache s ! k)} = dirtyb s - {blockno (bcache s ! i)}"
    unfolding busyb_def dirtyb_def by (auto intro!: image_eqI)
qed

lemma use_upd_idle:
  assumes "i < NBUF" "\<not> b_busy (bcache s ! i)"
  shows "{k. k < NBUF \<and> k \<noteq> i \<and> b_busy (bcache s ! k)} = {k. k < NBUF \<and> b_busy (bcache s ! k)}"
  using assms by auto

lemma bread_law:
  assumes s: "binv s" "okb s b" "b \<notin> busyb s" "b \<in> dirtyb s \<or> card (busyb s \<union> dirtyb s) < NBUF"
  shows "\<exists>i t. bread 1 b s = Ok i t \<and> bframe s t \<and> binv t \<and> bheld t i b \<and> bcontent t = bcontent s \<and> disk t = disk s \<and>
    dwrites t = dwrites s \<and> busyb t = insert b (busyb s) \<and> dirtyb t = dirtyb s \<and> (\<forall>j c. bheld s j c \<longrightarrow> bheld t j c)"
proof -
  have inv: "cache_ok (bcache s) (disk s)" "bio_ready s" using s(1) by (simp_all add: binv_def)
  note len = binv_length [OF s(1)]
  have "readable_block s b"
  proof (cases "buf_of (bcache s) b")
    case None
    with not_cached [OF s(1)] s(4) free_buffer [OF s(1)] s(2) show ?thesis by (auto simp: readable_block_def okb_def)
  next
    case (Some i)
    with s(2,3) busyb_buf(1) [OF s(1), of i] buf_of_SomeD [OF Some] show ?thesis by (simp add: readable_block_def okb_def)
  qed
  from bread_ok [OF inv this] obtain i x where r: "bread 1 b s = Ok i (irqsave s\<lparr>bcache := (bcache s)[i := x]\<rparr>)"
    and g: "bread_gives (bcache s) (disk s) b i x" by blast
  let ?t = "irqsave s\<lparr>bcache := (bcache s)[i := x]\<rparr>"
  have x: "i < NBUF" "b_busy x" "b_valid x" "bdev x = 1" "blockno x = b" "\<not> b_busy (bcache s ! i)"
    "cache_ok ((bcache s)[i := x]) (disk s)" "bview ((bcache s)[i := x]) (disk s) = bview (bcache s) (disk s)"
    "buf_of (bcache s) b = Some i \<and> b_dirty x = b_dirty (bcache s ! i) \<or> buf_of (bcache s) b = None \<and> \<not> b_dirty (bcache s ! i) \<and> \<not> b_dirty x"
    using g by (simp_all add: bread_gives_def)
  have u: "busyb ?t = insert b (busyb s)"
    using use_upd(1) [OF x(1) len, of ?t x] x(2,5) use_upd_idle [OF x(1,6)] by (simp add: busyb_def)
  have d: "dirtyb ?t = dirtyb s"
    using x(9)
  proof
    assume h: "buf_of (bcache s) b = Some i \<and> b_dirty x = b_dirty (bcache s ! i)"
    then have i: "bdev (bcache s ! i) = 1" "blockno (bcache s ! i) = b" using buf_of_SomeD by auto
    show ?thesis
      using use_upd(2) [OF x(1) len, of ?t x] others_use(2) [OF s(1) x(1) i(1)] busyb_buf(2) [OF s(1) x(1) i(1)] i(2) h x(5)
      by auto
  next
    assume h: "buf_of (bcache s) b = None \<and> \<not> b_dirty (bcache s ! i) \<and> \<not> b_dirty x"
    then have "{k. k < NBUF \<and> k \<noteq> i \<and> b_dirty (bcache s ! k)} = {k. k < NBUF \<and> b_dirty (bcache s ! k)}" by auto
    with use_upd(2) [OF x(1) len, of ?t x] h show ?thesis by (simp add: dirtyb_def)
  qed
  have "bframe s ?t" by (simp add: bframe_def)
  moreover have "binv ?t" using x s(1) len by (auto simp: binv_def bio_ready_def nth_list_update)
  moreover have "bheld ?t i b" using x(1-5) len by (simp add: bheld_def)
  moreover have "\<forall>j c. bheld s j c \<longrightarrow> bheld ?t j c" using x(1,6) len by (auto simp: bheld_def nth_list_update)
  ultimately show ?thesis using r u d x(8) by (intro exI [of _ i] exI [of _ ?t]) (simp add: bcontent_def)
qed

lemma get_data_law: "binv s \<Longrightarrow> bheld s i b \<Longrightarrow> get_data i s = Ok (bcontent s b) s"
  by (simp add: get_data_def bheld_content)

text \<open>Changing the data of a buffer in use, and marking it dirty.\<close>

lemma held_upd_law:
  assumes s: "binv s" "bheld s i b" and c: "cache_ok ((bcache s)[i := x]) (disk s)"
    and x: "b_busy x" "b_valid x" "bdev x = 1" "blockno x = b"
  defines "t \<equiv> s\<lparr>bcache := (bcache s)[i := x]\<rparr>"
  shows "bframe s t" "binv t" "busyb t = busyb s" "dirtyb t = (if b_dirty x then insert b (dirtyb s) else dirtyb s - {b})" "bheld t = bheld s"
proof -
  note len = binv_length [OF s(1)]
  have i: "i < NBUF" "bdev (bcache s ! i) = 1" "blockno (bcache s ! i) = b" "b_busy (bcache s ! i)" "b_valid (bcache s ! i)"
    using s(2) by (simp_all add: bheld_def)
  have t: "bcache t = (bcache s)[i := x]" by (simp add: t_def)
  show "bframe s t" by (simp add: bframe_def t_def)
  show "binv t" using c x s(1) i(1) len by (auto simp: binv_def t_def bio_ready_def nth_list_update)
  show "busyb t = busyb s"
    using use_upd(1) [OF i(1) len t] others_use(1) [OF s(1) i(1,2)] busyb_buf(1) [OF s(1) i(1,2)] i x by auto
  show "dirtyb t = (if b_dirty x then insert b (dirtyb s) else dirtyb s - {b})"
    using use_upd(2) [OF i(1) len t] others_use(2) [OF s(1) i(1,2)] i x by auto
  have "bheld t j c = bheld s j c" for j c
    using i x len by (cases "j = i") (auto simp: bheld_def t_def)
  then show "bheld t = bheld s" by (intro ext)
qed

lemma set_data_law:
  assumes s: "binv s" "bheld s i b" "length ys = BSIZE"
  shows "\<exists>t. set_data i ys s = Ok () t \<and> bframe s t \<and> binv t \<and> bcontent t = (bcontent s)(b := ys) \<and> disk t = disk s \<and>
    dwrites t = dwrites s \<and> busyb t = busyb s \<and> dirtyb t = dirtyb s \<and> bheld t = bheld s"
proof -
  let ?x = "(bcache s ! i)\<lparr>bdata := ys\<rparr>"
  have i: "i < NBUF" "bdev (bcache s ! i) = 1" "blockno (bcache s ! i) = b" "b_busy (bcache s ! i)" "b_valid (bcache s ! i)"
    using s(2) by (simp_all add: bheld_def)
  note h = cache_ok_held [OF conjunct1 [OF s(1) [unfolded binv_def]] i(1,4,5) s(3)]
  note l = held_upd_law [OF s(1,2) h(1), simplified i, simplified]
  have "dirtyb (s\<lparr>bcache := (bcache s)[i := ?x]\<rparr>) = dirtyb s"
    using l(4) busyb_buf(2) [OF s(1) i(1,2)] i by auto
  with l h(2) i show ?thesis
    by (intro exI [of _ "s\<lparr>bcache := (bcache s)[i := ?x]\<rparr>"]) (simp add: set_data_def upd_buf_def bcontent_def)
qed

lemma bwrite_law:
  assumes s: "binv s" "bheld s i b" "okb s b"
  shows "\<exists>t. bwrite i s = Ok () t \<and> bframe s t \<and> binv t \<and> bcontent t = bcontent s \<and> disk t = (disk s)(b := bcontent s b) \<and>
    dwrites t = dwrites s @ [(b, bcontent s b)] \<and> busyb t = busyb s \<and> dirtyb t = dirtyb s - {b} \<and> bheld t = bheld s"
proof -
  let ?x = "(bcache s ! i)\<lparr>b_dirty := False\<rparr>" and ?d = "(disk s)(b := bcontent s b)"
  let ?t = "s\<lparr>bcache := (bcache s)[i := ?x], disk := ?d, dwrites := dwrites s @ [(b, bcontent s b)]\<rparr>"
  note len = binv_length [OF s(1)]
  have i: "i < NBUF" "bdev (bcache s ! i) = 1" "blockno (bcache s ! i) = b" "b_busy (bcache s ! i)" "b_valid (bcache s ! i)"
    using s(2) by (simp_all add: bheld_def)
  have inv: "cache_ok (bcache s) (disk s)" using s(1) by (simp add: binv_def)
  note dat = bheld_content [OF s(1,2)]
  have w: "bwrite i s = Ok () ?t"
    using bwrite_ok [OF inv i(1,4,5)] s(3) i(3) dat by (simp add: okb_def)
  note cw = cache_ok_written [OF inv i(1,4,5), unfolded i(3) dat]
  have t: "bcache ?t = (bcache s)[i := ?x]" by simp
  have "bframe s ?t" by (simp add: bframe_def)
  moreover have "binv ?t" using cw(1) i s(1) len by (auto simp: binv_def bio_ready_def nth_list_update)
  moreover have "bcontent ?t = bcontent s" using cw(2) by (simp add: bcontent_def)
  moreover have "busyb ?t = busyb s" "dirtyb ?t = dirtyb s - {b}"
    using use_upd [OF i(1) len t] others_use [OF s(1) i(1,2)] busyb_buf(1) [OF s(1) i(1,2)] i by auto
  moreover have "bheld ?t = bheld s"
    using i len by (intro ext) (auto simp: bheld_def nth_list_update)
  ultimately show ?thesis using w by (intro exI [of _ ?t]) simp
qed

lemma brelse_law:
  assumes s: "binv s" "bheld s i b" "b \<in> dirtyb s \<or> bcontent s b = disk s b"
  shows "\<exists>t. brelse i s = Ok () t \<and> bframe s t \<and> binv t \<and> bcontent t = bcontent s \<and> disk t = disk s \<and>
    dwrites t = dwrites s \<and> busyb t = busyb s - {b} \<and> dirtyb t = dirtyb s \<and> (\<forall>j c. bheld s j c \<and> c \<noteq> b \<longrightarrow> bheld t j c)"
proof -
  let ?t = "irqsave s\<lparr>bcache := released i (bcache s), ptable := map (wake (ChanBuf i)) (ptable s)\<rparr>"
  note len = binv_length [OF s(1)]
  have i: "i < NBUF" "bdev (bcache s ! i) = 1" "blockno (bcache s ! i) = b" "b_busy (bcache s ! i)" "b_valid (bcache s ! i)"
    using s(2) by (simp_all add: bheld_def)
  have inv: "cache_ok (bcache s) (disk s)" "bio_ready s" using s(1) by (simp_all add: binv_def)
  have "brelse i s = Ok () ?t" by (rule brelse_ok [OF inv(2) i(1,4) len])
  moreover have "cache_ok (released i (bcache s)) (disk s)"
    using s(3) busyb_buf(2) [OF s(1) i(1,2)] i bheld_content [OF s(1,2)] by (intro cache_ok_released [OF inv(1)]) auto
  then have "binv ?t" using s(1) i len by (auto simp: binv_def bio_ready_def released_fields)
  moreover have "bframe s ?t" by (simp add: bframe_def)
  moreover have "busyb ?t = busyb s - {b}"
  proof -
    have "{k. k < NBUF \<and> b_busy (released i (bcache s) ! k)} = {k. k < NBUF \<and> k \<noteq> i \<and> b_busy (bcache s ! k)}"
      using i len by (auto simp: released_fields)
    then show ?thesis using others_use(1) [OF s(1) i(1,2)] i by (simp add: busyb_def released_fields)
  qed
  moreover have "dirtyb ?t = dirtyb s" by (simp add: dirtyb_def released_fields)
  moreover have "\<forall>j c. bheld s j c \<and> c \<noteq> b \<longrightarrow> bheld ?t j c" using i len by (auto simp: bheld_def released_fields)
  ultimately show ?thesis by (intro exI [of _ ?t]) (simp add: bcontent_def bview_released)
qed

lemma clean_content:
  assumes "binv s" "b \<notin> busyb s" "b \<notin> dirtyb s"
  shows "bcontent s b = disk s b"
proof (cases "buf_of (bcache s) b")
  case (Some i)
  then have i: "i < NBUF" "bdev (bcache s ! i) = 1" "blockno (bcache s ! i) = b" using buf_of_SomeD by auto
  with assms busyb_buf [OF assms(1) i(1,2)] have "\<not> b_busy (bcache s ! i)" "\<not> b_dirty (bcache s ! i)" by auto
  with i assms(1) bview_clean [of "bcache s" "disk s" i] show ?thesis by (simp add: bcontent_def binv_def)
qed (simp add: bcontent_def bview_def)

interpretation bc: block_cache binv bframe okb bheld bcontent disk busyb dirtyb dwrites "bread 1" set_data get_data bwrite brelse
proof
  show "length (bcontent s b) = BSIZE" if "binv s" for s :: "'a kbio_scheme" and b
    using that by (simp add: bcontent_def binv_def length_bview)
  show "okb t b = okb s b" if "bframe s t" for s t :: "'a kbio_scheme" and b
    by (simp add: okb_def bframe_fields(3) [OF that])
  show "b \<in> busyb s" if "binv s" "bheld s i b" for s :: "'a kbio_scheme" and i b
    using that by (auto simp: bheld_def busyb_def)
qed (rule finite_use_b | fact bframe_refl bframe_trans bread_law get_data_law set_data_law bwrite_law brelse_law clean_content)+

text \<open>For the witnesses: the cache as \<^verbatim>\<open>binit\<close> leaves it on zeroed buffers.\<close>

definition buf0 :: "nat \<Rightarrow> buf" where
  "buf0 i = \<lparr>b_busy = False, b_valid = False, b_dirty = False, bdev = (if i = NBUF then 0 else - 1), blockno = 0,
     bprev = (if i = NBUF then 0 else Suc i), bnext = (if i = 0 then NBUF else i - 1), bdata = replicate BSIZE 0\<rparr>"

definition cache0 :: "buf list" where
  "cache0 = map buf0 [0..<Suc NBUF]"

lemma cache0_binit:
  "binit_loop [0..<NBUF] (set_next bhead bhead (set_prev bhead bhead (map (\<lambda>i. (buf0 NBUF)\<lparr>bnext := 0\<rparr>) [0..<Suc NBUF]))) = cache0"
  by code_simp

lemma cache0_nth: "i < NBUF \<Longrightarrow> cache0 ! i = buf0 i"
  by (simp add: cache0_def del: upt_Suc)

lemma cache0_ring: "ring cache0 (rev [0..<NBUF])"
proof -
  have len: "length (map (\<lambda>i. (buf0 NBUF)\<lparr>bnext := 0\<rparr>) [0..<Suc NBUF]) = Suc NBUF" by simp
  let ?bs = "set_next bhead bhead (set_prev bhead bhead (map (\<lambda>i. (buf0 NBUF)\<lparr>bnext := 0\<rparr>) [0..<Suc NBUF]))"
  have "nexts ?bs bhead = bhead" "prevs ?bs bhead = bhead" using len by simp_all
  then have "links (nexts ?bs) (prevs ?bs) bhead [] bhead" by simp
  from binit_loop_links [OF this, of "[0..<NBUF]"] len show ?thesis by (auto simp: ring_def simp flip: cache0_binit)
qed

definition klog0 :: "buf list \<Rightarrow> (u32 \<Rightarrow> byte list) \<Rightarrow> u32 list \<Rightarrow> klog" where
  "klog0 bs d bl = \<lparr>this_cpu = 0, cpus = \<lambda>_. cpu0, locks = \<lambda>_. \<lparr>locked = False, lname = '''', lcpu = None\<rparr>,
     conslog = [], mem = \<lambda>_. 0, kend = 0x80200000, use_lock = True, freelist = 0, kpgdir = 0x80300000, kdata = 0x80108000,
     ptable = [proc0], initproc = Some 0, nextpid = 5, sym_forkret = 0x80103f00, sym_trapret = 0x80105c00,
     bcache = bs, disk = d, disksize = 1000, dwrites = [], log_start = 2, log_size = 30, log_outstanding = 0,
     log_committing = True, log_dev = 1, lh_n = int (length bl), lh_block = bl @ replicate (LOGSIZE - length bl) 0\<rparr>"

lemma klog0_fields [simp]:
  "bcache (klog0 bs d bl) = bs" "disk (klog0 bs d bl) = d" "disksize (klog0 bs d bl) = 1000" "dwrites (klog0 bs d bl) = []"
  "log_start (klog0 bs d bl) = 2" "log_size (klog0 bs d bl) = 30" "log_dev (klog0 bs d bl) = 1" "lh_n (klog0 bs d bl) = int (length bl)"
  "lh_block (klog0 bs d bl) = bl @ replicate (LOGSIZE - length bl) 0"
  by (simp_all add: klog0_def)

definition zero_disk :: "u32 \<Rightarrow> byte list" where
  "zero_disk b = replicate BSIZE 0"

lemma klog0_ready [simp]: "bio_ready (klog0 bs d bl)"
  by (simp add: klog0_def bio_ready_def cpu_shallow_def cpu_ok_def cpu0_def lock_free_def)

lemma binv_klog0: "(\<And>b. length (d b) = BSIZE) \<Longrightarrow> binv (klog0 cache0 d bl)"
  using cache0_ring by (auto simp: binv_def cache_ok_def klog0_def one_per_block_def buf_ok_def cache0_nth buf0_def
      bio_ready_def cpu_shallow_def cpu_ok_def cpu0_def lock_free_def)

lemma idle_klog0: "busyb (klog0 cache0 d bl) = {}" "dirtyb (klog0 cache0 d bl) = {}"
  by (auto simp: busyb_def dirtyb_def klog0_def cache0_nth buf0_def)

text \<open>The same cache with one block changed and logged: the first block behind the log, which holds the root inode.\<close>

definition cache1 :: "buf list" where
  "cache1 = cache0[5 := (buf0 5)\<lparr>b_valid := True, b_dirty := True, bdev := 1, blockno := 32, bdata := replicate BSIZE 7\<rparr>]"

lemma cache1_nth: "i < NBUF \<Longrightarrow> cache1 ! i = (if i = 5 then (buf0 5)\<lparr>b_valid := True, b_dirty := True, bdev := 1, blockno := 32,
    bdata := replicate BSIZE 7\<rparr> else buf0 i)"
  by (simp add: cache1_def nth_list_update cache0_nth) (simp add: cache0_def)

lemma cache1_ring: "ring cache1 (rev [0..<NBUF])"
  using ring_upd [OF cache0_ring, of "\<lambda>b. b\<lparr>b_valid := True, b_dirty := True, bdev := 1, blockno := 32, bdata := replicate BSIZE 7\<rparr>" 5]
  by (simp add: cache1_def cache0_nth param_defs)

lemma binv_klog1: "(\<And>b. length (d b) = BSIZE) \<Longrightarrow> binv (klog0 cache1 d bl)"
  using cache1_ring by (auto simp: binv_def cache_ok_def klog0_def one_per_block_def buf_ok_def cache1_nth buf0_def
      bio_ready_def cpu_shallow_def cpu_ok_def cpu0_def lock_free_def)

lemma use_klog1: "busyb (klog0 cache1 d bl) = {}" "dirtyb (klog0 cache1 d bl) = {32}"
  by (auto simp: busyb_def dirtyb_def klog0_def cache1_nth buf0_def image_iff param_defs intro: exI [of _ 5] split: if_splits)

end
