(* ===== verification/Logsafe.thy ===== *)
theory Logsafe
  imports Blocks
begin

text \<open>
  The log keeps its promise.  \<open>commit\<close> writes the logged blocks to the log, then the header, then the blocks
  to their places, then an empty header; whatever prefix of these writes reaches the disk before a
  crash, \<open>recover_from_log\<close> leaves either none of the transaction's changes or all of them.
\<close>

section \<open>Blocks of the log\<close>

text \<open>Entry \<open>k\<close> of the log lies in the block after the header and \<open>k\<close> others.\<close>

definition slot :: "'z klog_scheme \<Rightarrow> nat \<Rightarrow> u32" where
  "slot s k = log_start s + of_nat k + 1"

definition logged :: "'z klog_scheme \<Rightarrow> u32 list" where
  "logged s = take (nat (lh_n s)) (lh_block s)"

text \<open>The log on disk is the \<^verbatim>\<open>log.size\<close> blocks from \<^verbatim>\<open>log.start\<close> on, the header first.\<close>

definition log_area :: "'z klog_scheme \<Rightarrow> u32 set" where
  "log_area s = (\<lambda>k. log_start s + of_nat k) ` {..<nat (log_size s)}"

text \<open>
  The entries fit behind the header, as \<^verbatim>\<open>log_write\<close> makes sure, and the log is at most \<^verbatim>\<open>LOGSIZE\<close> blocks long, as \<^verbatim>\<open>mkfs\<close> makes it.
\<close>

definition log_wf :: "'z klog_scheme \<Rightarrow> bool" where
  "log_wf s \<longleftrightarrow> log_dev s = 1 \<and> 0 \<le> lh_n s \<and> lh_n s < log_size s \<and> log_size s \<le> int LOGSIZE \<and> length (lh_block s) = LOGSIZE \<and> distinct (logged s) \<and>
     set (logged s) \<inter> log_area s = {} \<and> (\<forall>b \<in> log_area s \<union> set (logged s). okb s b)"

lemma bframe_log:
  assumes "bframe s t"
  shows "log_start t = log_start s" "log_dev t = log_dev s" "lh_n t = lh_n s" "lh_block t = lh_block s"
    "log_size t = log_size s" "log_outstanding t = log_outstanding s" "log_committing t = log_committing s"
proof -
  from assms have t: "t = s\<lparr>cpus := cpus t, ptable := ptable t, bcache := bcache t, disk := disk t, dwrites := dwrites t\<rparr>"
    by (simp add: bframe_def)
  show "log_start t = log_start s" "log_dev t = log_dev s" "lh_n t = lh_n s" "lh_block t = lh_block s"
    "log_size t = log_size s" "log_outstanding t = log_outstanding s" "log_committing t = log_committing s"
    by (subst t, simp)+
qed

lemma log_start_area: "0 < log_size s \<Longrightarrow> log_start s \<in> log_area s"
  by (auto simp: log_area_def intro!: image_eqI [of _ _ 0])

lemma slot_area: "int k + 1 < log_size s \<Longrightarrow> slot s k \<in> log_area s"
  by (auto simp: log_area_def slot_def intro!: image_eqI [of _ _ "Suc k"])

lemma log_wf_start: "log_wf s \<Longrightarrow> log_start s \<in> log_area s"
  by (auto simp: log_wf_def intro: log_start_area)

lemma slot_eq: "j < LOGSIZE \<Longrightarrow> k < LOGSIZE \<Longrightarrow> slot s j = slot s k \<longleftrightarrow> j = k"
  by (simp add: slot_def word_of_nat_eq_iff take_bit_nat_eq_self param_defs)

lemma slot_not_start: "k < LOGSIZE \<Longrightarrow> slot s k \<noteq> log_start s"
proof
  assume k: "k < LOGSIZE" and "slot s k = log_start s"
  then have "word_of_nat (k + 1) = (word_of_nat 0 :: u32)" by (simp add: slot_def add.assoc add.commute)
  then have "take_bit 32 (k + 1) = 0" by (simp only: word_of_nat_eq_iff) simp
  then show False using k by (simp add: take_bit_nat_eq_self param_defs)
qed

lemma slot_frame: "bframe s t \<Longrightarrow> slot t = slot s"
  by (auto simp: slot_def bframe_log)

text \<open>
  \<^verbatim>\<open>log_write\<close> keeps the log in order: the block of the buffer is recorded, once, and the buffer marked dirty.
\<close>

lemma log_slot_cases:
  assumes "log_wf s"
  obtains (old) "b \<in> set (logged s)" "log_slot b (lh_n s) (lh_block s) < nat (lh_n s)"
      "lh_block s ! log_slot b (lh_n s) (lh_block s) = b"
  | (new) "b \<notin> set (logged s)" "log_slot b (lh_n s) (lh_block s) = nat (lh_n s)"
proof (cases "find_index (\<lambda>x. x = b) (logged s)")
  case None
  then have "b \<notin> set (logged s)" by (auto simp: find_index_None)
  then show thesis using new None by (simp add: log_slot_def logged_def)
next
  case (Some k)
  then have "k < length (logged s)" "logged s ! k = b" using find_index_SomeD [OF Some] by auto
  then show thesis using old Some nth_mem [of k "logged s"] by (auto simp: log_slot_def logged_def)
qed

lemma log_write_wf:
  assumes "log_wf s" "cpu_shallow (mycpu s)" "lock_free (locks s LogLock)" "0 < log_outstanding s" "lh_n s < log_size s - 1"
    and b: "b = blockno (bcache s ! i)" "b \<notin> log_area s" "okb s b" "i < length (bcache s)"
  shows "\<exists>t. log_write i s = Ok () t \<and> log_wf t \<and> set (logged t) = insert b (set (logged s)) \<and> b_dirty (bcache t ! i)"
proof -
  define j where "j = log_slot b (lh_n s) (lh_block s)"
  define t where "t = s\<lparr>cpus := (cpus s)(this_cpu s := saved (mycpu s)), lh_block := (lh_block s)[j := b],
    lh_n := (if int j = lh_n s then lh_n s + 1 else lh_n s), bcache := (bcache s)[i := (bcache s ! i)\<lparr>b_dirty := True\<rparr>]\<rparr>"
  have n: "0 \<le> lh_n s" "lh_n s < int LOGSIZE" "length (lh_block s) = LOGSIZE" "log_size s \<le> int LOGSIZE"
    using assms(1,5) by (auto simp: log_wf_def)
  have "log_write i s = Ok () t"
    using assms(2-5) n by (auto simp: log_write_def kop lock_rules upd_buf_def t_def j_def b(1))
  moreover have "distinct (logged t) \<and> set (logged t) = insert b (set (logged s)) \<and> 0 \<le> lh_n t \<and> lh_n t < log_size t"
    using assms(1)
  proof (cases rule: log_slot_cases [where b = b])
    case old
    then have "(lh_block s)[j := b] = lh_block s" by (metis j_def list_update_id)
    then have "logged t = logged s" "lh_n t = lh_n s" using old(2) by (auto simp: logged_def t_def j_def)
    then show ?thesis using assms(1) old(1) by (auto simp: log_wf_def t_def)
  next
    case new
    then have "logged t = logged s @ [b]" "lh_n t = lh_n s + 1"
      using n by (simp_all add: logged_def t_def j_def nat_add_distrib take_Suc_conv_app_nth nat_less_iff)
    then show ?thesis using assms(1,5) new(1) by (auto simp: log_wf_def t_def)
  qed
  moreover have "log_area t = log_area s" "okb t = okb s" "log_dev t = log_dev s" "log_size t = log_size s" "length (lh_block t) = LOGSIZE"
    using n by (simp_all add: log_area_def okb_def t_def fun_eq_iff)
  moreover have "b_dirty (bcache t ! i)" using b(4) by (simp add: t_def)
  ultimately show ?thesis using assms(1) b(2,3) by (auto simp: log_wf_def)
qed

section \<open>The header\<close>

lemma put_head_get:
  assumes "0 \<le> n" "n \<le> int LOGSIZE" "length bl = LOGSIZE" "length d = BSIZE"
  shows "head_n (put_head d n bl) = n" "get32s (nat n) (put_head d n bl) 4 = take (nat n) bl" "length (put_head d n bl) = BSIZE"
proof -
  have "get32 (put_head d n bl) 0 = word_of_int n"
    using assms(4) by (simp add: put_head_def get32_put32s_before get32_put32_same BSIZE_def)
  moreover have "sint (word_of_int n :: u32) = n"
    using assms(1,2) by (simp add: sint_sbintrunc' param_defs signed_take_bit_int_eq_self)
  ultimately show "head_n (put_head d n bl) = n" by (simp add: head_n_def)
  have "length (take (nat n) bl) = nat n" using assms by simp
  then show "get32s (nat n) (put_head d n bl) 4 = take (nat n) bl"
    using get32s_put32s [of 4 "take (nat n) bl" "put32 d 0 (word_of_int n)"] assms
    by (simp add: put_head_def BSIZE_def param_defs)
  show "length (put_head d n bl) = BSIZE" using assms by (simp add: put_head_def)
qed

section \<open>The steps of a commit\<close>

lemma install_one_copy: "log_dev s = 1 \<Longrightarrow> install_one k s = bc.copy_op (slot s k) (lh_block s ! k) s"
  by (simp add: install_one_def bc.copy_op_def slot_def bindK_def [of "getK _"])

lemma write_one_copy: "log_dev s = 1 \<Longrightarrow> write_one k s = bc.copy_rev_op (lh_block s ! k) (slot s k) s"
  by (simp add: write_one_def bc.copy_rev_op_def slot_def bindK_def [of "getK _"])

lemma logged_nth: "log_wf s \<Longrightarrow> k < nat (lh_n s) \<Longrightarrow> lh_block s ! k = logged s ! k \<and> k < length (logged s) \<and> k < LOGSIZE"
  by (auto simp: log_wf_def logged_def param_defs)

lemma logged_blocks:
  assumes "log_wf s"
  shows "(\<lambda>k. lh_block s ! k) ` {..<nat (lh_n s)} = set (logged s)" "length (logged s) = nat (lh_n s)"
proof -
  show l: "length (logged s) = nat (lh_n s)" using assms by (auto simp: log_wf_def logged_def param_defs)
  have "set (logged s) = (\<lambda>k. logged s ! k) ` {..<nat (lh_n s)}" using l by (auto simp: set_conv_nth)
  then show "(\<lambda>k. lh_block s ! k) ` {..<nat (lh_n s)} = set (logged s)" using logged_nth [OF assms] by auto
qed

lemma log_wf_area:
  assumes "log_wf s" "k < nat (lh_n s)"
  shows "slot s k \<in> log_area s" "slot s k \<notin> set (logged s)" "lh_block s ! k \<in> set (logged s)" "okb s (slot s k)"
    "okb s (lh_block s ! k)" "slot s k \<noteq> lh_block s ! k" "slot s k \<noteq> log_start s"
proof -
  have k: "lh_block s ! k = logged s ! k" "k < length (logged s)" "k < LOGSIZE" using logged_nth [OF assms] by auto
  then show a: "slot s k \<in> log_area s" "lh_block s ! k \<in> set (logged s)"
    using assms by (auto simp: log_wf_def intro: slot_area)
  with assms(1) show "slot s k \<notin> set (logged s)" "okb s (slot s k)" "okb s (lh_block s ! k)" "slot s k \<noteq> lh_block s ! k"
    by (auto simp: log_wf_def)
  show "slot s k \<noteq> log_start s" by (rule slot_not_start [OF k(3)])
qed

lemma log_wf_apart:
  assumes "log_wf s" "j < nat (lh_n s)" "k < nat (lh_n s)"
  shows "lh_block s ! j \<noteq> slot s k"
  using log_wf_area(3) [OF assms(1,2)] log_wf_area(2) [OF assms(1,3)] by auto

lemma log_wf_inj:
  assumes "log_wf s" "j < nat (lh_n s)" "k < nat (lh_n s)" "j \<noteq> k"
  shows "lh_block s ! j \<noteq> lh_block s ! k"
  using logged_nth [OF assms(1,2)] logged_nth [OF assms(1,3)] assms(1,4) by (simp add: log_wf_def nth_eq_iff_index_eq)

text \<open>
  The cache does not look at the in-memory header; \<open>wrote\<close> says that the blocks of a list were written, in order,
  no buffer is left locked, and only the header differs otherwise.
\<close>

lemma binv_head [simp]:
  "binv (s\<lparr>lh_n := n\<rparr>) = binv s" "binv (s\<lparr>lh_block := bl\<rparr>) = binv s" "busyb (s\<lparr>lh_n := n\<rparr>) = busyb s"
  "busyb (s\<lparr>lh_block := bl\<rparr>) = busyb s" "dirtyb (s\<lparr>lh_n := n\<rparr>) = dirtyb s" "dirtyb (s\<lparr>lh_block := bl\<rparr>) = dirtyb s"
  "bcontent (s\<lparr>lh_n := n\<rparr>) = bcontent s" "bcontent (s\<lparr>lh_block := bl\<rparr>) = bcontent s" "okb (s\<lparr>lh_n := n\<rparr>) = okb s"
  "okb (s\<lparr>lh_block := bl\<rparr>) = okb s" "bheld (s\<lparr>lh_n := n\<rparr>) = bheld s" "bheld (s\<lparr>lh_block := bl\<rparr>) = bheld s"
  by (auto simp: binv_def busyb_def dirtyb_def bcontent_def okb_def bheld_def bio_ready_def fun_eq_iff)

definition lframe :: "'z klog_scheme \<Rightarrow> 'z klog_scheme \<Rightarrow> bool" where
  "lframe s t \<longleftrightarrow> bframe (s\<lparr>lh_n := lh_n t, lh_block := lh_block t\<rparr>) t"

definition wrote :: "(u32 \<times> byte list) list \<Rightarrow> 'z klog_scheme \<Rightarrow> 'z klog_scheme \<Rightarrow> bool" where
  "wrote ws s t \<longleftrightarrow> lframe s t \<and> binv t \<and> busyb t = {} \<and> dwrites t = dwrites s @ ws \<and>
     bcontent t = apply_writes ws (bcontent s) \<and> disk t = apply_writes ws (disk s)"

lemma bframe_lframe: "bframe s t \<Longrightarrow> lframe s t"
  by (simp add: lframe_def bframe_log)

lemma lframe_head [simp]: "lframe s (s\<lparr>lh_n := n\<rparr>)" "lframe s (s\<lparr>lh_n := n, lh_block := bl\<rparr>)"
  by (simp_all add: lframe_def)

lemma bframe_head: "bframe s t \<Longrightarrow> bframe (s\<lparr>lh_n := n, lh_block := bl\<rparr>) (t\<lparr>lh_n := n, lh_block := bl\<rparr>)"
proof -
  assume a: "bframe s t"
  then have t: "t = s\<lparr>cpus := cpus t, ptable := ptable t, bcache := bcache t, disk := disk t, dwrites := dwrites t\<rparr>"
    by (simp add: bframe_def)
  have "t\<lparr>lh_n := n, lh_block := bl\<rparr> = s\<lparr>lh_n := n, lh_block := bl, cpus := cpus t, ptable := ptable t, bcache := bcache t,
      disk := disk t, dwrites := dwrites t\<rparr>"
    by (subst t) simp
  then show ?thesis using a by (simp add: bframe_def)
qed

lemma lframe_trans:
  assumes "lframe s t" "lframe t u"
  shows "lframe s u"
  using bframe_trans [OF bframe_head [where n = "lh_n u" and bl = "lh_block u", OF assms(1) [unfolded lframe_def]]]
    assms(2)
  by (simp add: lframe_def)

lemma lframe_fields:
  assumes "lframe s t"
  shows "log_start t = log_start s" "log_dev t = log_dev s" "slot t = slot s" "log_area t = log_area s" "okb t = okb s"
    "log_size t = log_size s"
  using bframe_log [OF assms [unfolded lframe_def]] bframe_fields(3) [OF assms [unfolded lframe_def]]
  by (auto simp: slot_def log_area_def okb_def fun_eq_iff)

lemma wrote_trans: "wrote xs s t \<Longrightarrow> wrote ys t u \<Longrightarrow> wrote (xs @ ys) s u"
  by (auto simp: wrote_def intro: lframe_trans)

lemma wrote_head: "wrote ws (s\<lparr>lh_n := n\<rparr>) t \<Longrightarrow> wrote ws s t"
  by (auto simp: wrote_def intro: lframe_trans [OF lframe_head(1)])

text \<open>The writes of the two copying loops.\<close>

definition log_writes :: "'z klog_scheme \<Rightarrow> (u32 \<times> byte list) list" where
  "log_writes s = map (\<lambda>k. (slot s k, bcontent s (lh_block s ! k))) [0..<nat (lh_n s)]"

definition home_writes :: "'z klog_scheme \<Rightarrow> (u32 \<times> byte list) list" where
  "home_writes s = map (\<lambda>k. (lh_block s ! k, bcontent s (slot s k))) [0..<nat (lh_n s)]"

lemma card_dirty: "log_wf s \<Longrightarrow> dirtyb s = set (logged s) \<Longrightarrow> card (dirtyb s) < NBUF"
  using logged_blocks(2) [of s] by (auto simp: distinct_card log_wf_def param_defs)

lemma write_log_ok:
  assumes s: "binv s" "log_wf s" "busyb s = {}" "dirtyb s = set (logged s)"
  shows "\<exists>t. write_log s = Ok () t \<and> wrote (log_writes s) s t \<and> bframe s t \<and> dirtyb t = dirtyb s"
proof -
  let ?D = "\<lambda>X k. lh_block s ! k \<in> X \<and> slot s k \<notin> X \<and> card X < NBUF"
  let ?ks = "[0..<nat (lh_n s)]"
  note a = log_wf_area [OF s(2)]
  have "\<exists>t. seqK (map write_one ?ks) s = Ok () t \<and> bframe s t \<and> binv t \<and> busyb t = {} \<and>
    dirtyb t = dirtyb s - slot s ` set ?ks \<and> dwrites t = dwrites s @ map (\<lambda>k. (slot s k, bcontent s (lh_block s ! k))) ?ks \<and>
    bcontent t = apply_writes (map (\<lambda>k. (slot s k, bcontent s (lh_block s ! k))) ?ks) (bcontent s) \<and>
    disk t = apply_writes (map (\<lambda>k. (slot s k, bcontent s (lh_block s ! k))) ?ks) (disk s)"
  proof (rule bc.copy_seq [where D = ?D])
    fix u k assume k: "k \<in> set ?ks" and u: "bframe s u" "binv u" "busyb u = {}" "?D (dirtyb u) k"
    have f: "log_dev u = 1" "slot u = slot s" "lh_block u = lh_block s" "okb u = okb s"
      using u(1) s(2) by (auto simp: bframe_log slot_frame log_wf_def okb_def bframe_fields)
    have "\<exists>t. bc.copy_rev_op (lh_block s ! k) (slot s k) u = Ok () t \<and> bc.copied (lh_block s ! k) (slot s k) u t"
      using a [of k] k f u(3,4) by (intro bc.copy_rev_ok [OF u(2)]) auto
    then show "\<exists>t. write_one k u = Ok () t \<and> bc.copied (lh_block s ! k) (slot s k) u t"
      using f by (simp add: write_one_copy)
  next
    fix as k bs assume k: "?ks = as @ k # bs"
    then have "set as \<union> {k} \<subseteq> set ?ks" by auto
    then have "dirtyb s - slot s ` set as = dirtyb s" "k < nat (lh_n s)" using s(4) a(2) by auto
    with a [of k] s(4) card_dirty [OF s(2,4)] show "?D (dirtyb s - slot s ` set as) k" by simp
  next
    show "(\<lambda>k. lh_block s ! k) ` set ?ks \<inter> slot s ` set ?ks = {}" using log_wf_apart [OF s(2)] by auto
  qed (fact s)+
  moreover have "dirtyb s - slot s ` set ?ks = dirtyb s" using s(4) a(2) by auto
  ultimately show ?thesis by (auto simp: write_log_def log_writes_def bindK_def [of "getK _"] wrote_def bframe_lframe)
qed


lemma install_trans_ok:
  assumes s: "binv s" "log_wf s" "busyb s = {}" "dirtyb s = set (logged s) \<or> dirtyb s = {}"
  shows "\<exists>t. install_trans s = Ok () t \<and> wrote (home_writes s) s t \<and> bframe s t \<and> dirtyb t = {}"
proof -
  let ?D = "\<lambda>X k. card X < NBUF \<and> (lh_block s ! k \<in> X \<or> X = {})"
  let ?ks = "[0..<nat (lh_n s)]"
  note a = log_wf_area [OF s(2)]
  have "\<exists>t. seqK (map install_one ?ks) s = Ok () t \<and> bframe s t \<and> binv t \<and> busyb t = {} \<and>
    dirtyb t = dirtyb s - (\<lambda>k. lh_block s ! k) ` set ?ks \<and> dwrites t = dwrites s @ map (\<lambda>k. (lh_block s ! k, bcontent s (slot s k))) ?ks \<and>
    bcontent t = apply_writes (map (\<lambda>k. (lh_block s ! k, bcontent s (slot s k))) ?ks) (bcontent s) \<and>
    disk t = apply_writes (map (\<lambda>k. (lh_block s ! k, bcontent s (slot s k))) ?ks) (disk s)"
  proof (rule bc.copy_seq [where D = ?D])
    fix u k assume k: "k \<in> set ?ks" and u: "bframe s u" "binv u" "busyb u = {}" "?D (dirtyb u) k"
    have f: "log_dev u = 1" "slot u = slot s" "lh_block u = lh_block s" "okb u = okb s"
      using u(1) s(2) by (auto simp: bframe_log slot_frame log_wf_def okb_def bframe_fields)
    have "\<exists>t. bc.copy_op (slot s k) (lh_block s ! k) u = Ok () t \<and> bc.copied (slot s k) (lh_block s ! k) u t"
      using a [of k] k f u(3,4) by (intro bc.copy_ok [OF u(2)]) (auto simp: param_defs)
    then show "\<exists>t. install_one k u = Ok () t \<and> bc.copied (slot s k) (lh_block s ! k) u t"
      using f by (simp add: install_one_copy)
  next
    fix as k bs assume k: "?ks = as @ k # bs"
    then have "distinct (as @ k # bs)" "set (as @ k # bs) = {..<nat (lh_n s)}" by (metis distinct_upt) (metis atLeast_upt k)
    then have "\<forall>j \<in> set as. j < nat (lh_n s) \<and> j \<noteq> k" "k < nat (lh_n s)" by auto
    then have "\<forall>j \<in> set as. lh_block s ! j \<noteq> lh_block s ! k" "k < nat (lh_n s)"
      using log_wf_inj [OF s(2)] by blast+
    then have "lh_block s ! k \<in> set (logged s) - (\<lambda>k. lh_block s ! k) ` set as" using a(3) by auto
    moreover have "card (dirtyb s - (\<lambda>k. lh_block s ! k) ` set as) < NBUF"
      using s(4) card_dirty [OF s(2)] by (auto simp: param_defs intro: le_less_trans [OF card_mono [OF _ Diff_subset]])
    ultimately show "?D (dirtyb s - (\<lambda>k. lh_block s ! k) ` set as) k" using s(4) by auto
  next
    show "slot s ` set ?ks \<inter> (\<lambda>k. lh_block s ! k) ` set ?ks = {}" using log_wf_apart [OF s(2)] by fastforce
  qed (fact s)+
  moreover have "dirtyb s - (\<lambda>k. lh_block s ! k) ` set ?ks = {}" using s(4) logged_blocks(1) [OF s(2)] by (auto simp: atLeast0LessThan)
  ultimately show ?thesis by (auto simp: install_trans_def home_writes_def bindK_def [of "getK _"] wrote_def bframe_lframe)
qed

lemma write_head_ok:
  assumes s: "binv s" "log_dev s = 1" "okb s (log_start s)" "busyb s = {}" "card (dirtyb s) < NBUF"
    "0 \<le> lh_n s" "lh_n s \<le> int LOGSIZE" "length (lh_block s) = LOGSIZE"
  defines "h \<equiv> put_head (bcontent s (log_start s)) (lh_n s) (lh_block s)"
  shows "\<exists>t. write_head s = Ok () t \<and> wrote [(log_start s, h)] s t \<and> bframe s t \<and> dirtyb t = dirtyb s - {log_start s}"
proof -
  let ?b = "log_start s" and ?f = "\<lambda>d. put_head d (lh_n s) (lh_block s)"
  have "length (?f (bcontent s ?b)) = BSIZE"
    using put_head_get(3) [OF s(6-8)] bc.view_length [OF s(1)] by simp
  from bc.update_ok [where f = ?f, OF s(1,3) _ _ this] s(4,5)
  obtain t where t: "bindK (bread 1 ?b) (\<lambda>i. bindK (get_data i) (\<lambda>d. thenK (set_data i (?f d)) (thenK (bwrite i) (brelse i)))) s = Ok () t"
    "bframe s t" "binv t" "bcontent t = (bcontent s)(?b := ?f (bcontent s ?b))" "disk t = (disk s)(?b := ?f (bcontent s ?b))"
    "dwrites t = dwrites s @ [(?b, ?f (bcontent s ?b))]" "busyb t = busyb s" "dirtyb t = dirtyb s - {?b}" by auto
  obtain i u where u: "bread 1 ?b s = Ok i u" "bframe s u" "get_data i u = Ok (bcontent s ?b) u"
    using bread_law [OF s(1,3)] s(4,5) get_data_law by (metis (no_types, lifting) Un_empty_left empty_iff)
  have "write_head s = Ok () t"
    using t(1) u bframe_log [OF u(2)] s(2) by (simp add: write_head_def kop)
  then show ?thesis using t s(4) by (intro exI [of _ t]) (simp add: wrote_def h_def bframe_lframe)
qed

section \<open>The whole commit\<close>

definition commit_head :: "'z klog_scheme \<Rightarrow> byte list" where
  "commit_head s = put_head (bcontent s (log_start s)) (lh_n s) (lh_block s)"

definition commit_homes :: "'z klog_scheme \<Rightarrow> (u32 \<times> byte list) list" where
  "commit_homes s = map (\<lambda>b. (b, bcontent s b)) (logged s)"

definition commit_writes :: "'z klog_scheme \<Rightarrow> (u32 \<times> byte list) list" where
  "commit_writes s = log_writes s @ [(log_start s, commit_head s)] @ commit_homes s @
     [(log_start s, put_head (commit_head s) 0 (lh_block s))]"

lemma bframe_wf:
  assumes "bframe s t"
  shows "log_wf t = log_wf s" "logged t = logged s" "log_area t = log_area s" "okb t = okb s"
proof -
  show 1: "logged t = logged s" "log_area t = log_area s" "okb t = okb s"
    by (auto simp: logged_def log_area_def okb_def bframe_log [OF assms] slot_frame [OF assms] bframe_fields [OF assms] fun_eq_iff)
  show "log_wf t = log_wf s" by (simp add: log_wf_def 1 bframe_log [OF assms])
qed

lemma log_writes_fst: "fst ` set (log_writes s) = slot s ` {..<nat (lh_n s)}"
  by (force simp: log_writes_def)

lemma log_writes_distinct: "log_wf s \<Longrightarrow> distinct (map fst (log_writes s))"
  by (auto simp: log_writes_def comp_def distinct_map inj_on_def slot_eq log_wf_def param_defs)

lemma log_writes_start: "log_wf s \<Longrightarrow> log_start s \<notin> fst ` set (log_writes s)"
  by (auto simp: log_writes_fst dest: log_wf_area(7) [OF _ _ , THEN not_sym])

lemma log_writes_area: "log_wf s \<Longrightarrow> fst ` set (log_writes s) \<subseteq> log_area s"
  by (auto simp: log_writes_fst dest: log_wf_area(1))

lemma log_start_home: "log_wf s \<Longrightarrow> log_start s \<notin> set (logged s)"
  using log_wf_start [of s] by (auto simp: log_wf_def)

lemma commit_homes_fst [simp]: "map fst (commit_homes s) = logged s" "fst ` set (commit_homes s) = set (logged s)"
  by (simp_all add: commit_homes_def comp_def image_image)

lemma after_log:
  assumes "log_wf s" "k < nat (lh_n s)"
  shows "apply_writes (log_writes s @ [(log_start s, h)]) d (slot s k) = bcontent s (lh_block s ! k)"
proof -
  have "(slot s k, bcontent s (lh_block s ! k)) \<in> set (log_writes s)" using assms(2) by (auto simp: log_writes_def)
  from apply_writes_in [OF log_writes_distinct [OF assms(1)] this] log_wf_area(7) [OF assms]
  show ?thesis by simp
qed

lemma home_writes_commit:
  assumes "log_wf s" "bframe s t" "bcontent t = apply_writes (log_writes s @ [(log_start s, h)]) (bcontent s)"
  shows "home_writes t = commit_homes s"
proof -
  have "home_writes t = map (\<lambda>k. (lh_block s ! k, bcontent s (lh_block s ! k))) [0..<nat (lh_n s)]"
    using after_log [OF assms(1)] assms(3) by (auto simp: home_writes_def bframe_log [OF assms(2)] slot_frame [OF assms(2)])
  also have "\<dots> = commit_homes s"
    using logged_nth [OF assms(1)] logged_blocks(2) [OF assms(1)] by (auto simp: commit_homes_def intro: nth_equalityI)
  finally show ?thesis .
qed

lemma commit_steps:
  assumes s: "binv s" "log_wf s" "busyb s = {}" "dirtyb s = set (logged s)"
  shows "\<exists>t1 t2 t3. write_log s = Ok () t1 \<and> write_head t1 = Ok () t2 \<and> install_trans t2 = Ok () t3 \<and>
    wrote (log_writes s @ [(log_start s, commit_head s)] @ commit_homes s) s t3 \<and> bframe s t3 \<and> dirtyb t3 = {}"
proof -
  have b: "0 \<le> lh_n s" "lh_n s \<le> int LOGSIZE" "length (lh_block s) = LOGSIZE" "okb s (log_start s)" "log_dev s = 1"
    using s(2) log_wf_start [OF s(2)] by (auto simp: log_wf_def param_defs)
  obtain t1 where 1: "write_log s = Ok () t1" "wrote (log_writes s) s t1" "bframe s t1" "dirtyb t1 = dirtyb s"
    using write_log_ok [OF s] by blast
  note f1 = bframe_log [OF 1(3)] bframe_wf [OF 1(3)]
  have h: "bcontent t1 (log_start s) = bcontent s (log_start s)"
    using 1(2) by (simp add: wrote_def apply_writes_other [OF log_writes_start [OF s(2)]])
  have "binv t1" "busyb t1 = {}" using 1(2) by (simp_all add: wrote_def)
  with write_head_ok [of t1] f1 b 1(4) card_dirty [OF s(2,4)] h
  obtain t2 where 2: "write_head t1 = Ok () t2" "wrote [(log_start s, commit_head s)] t1 t2" "bframe t1 t2"
    "dirtyb t2 = dirtyb s - {log_start s}" by (auto simp: commit_head_def)
  have f2: "bframe s t2" by (rule bframe_trans [OF 1(3) 2(3)])
  have w2: "wrote (log_writes s @ [(log_start s, commit_head s)]) s t2" by (rule wrote_trans [OF 1(2) 2(2)])
  then have c2: "binv t2" "busyb t2 = {}" "log_wf t2" "dirtyb t2 = set (logged t2) \<or> dirtyb t2 = {}"
    using 2(4) s(2,4) bframe_wf [OF f2] log_start_home [OF s(2)] by (auto simp: wrote_def)
  from install_trans_ok [OF c2(1,3,2,4)] obtain t3 where 3: "install_trans t2 = Ok () t3" "wrote (home_writes t2) t2 t3" "bframe t2 t3"
    "dirtyb t3 = {}" by blast
  have "home_writes t2 = commit_homes s" using home_writes_commit [OF s(2) f2] w2 by (simp add: wrote_def)
  then have "wrote (log_writes s @ [(log_start s, commit_head s)] @ commit_homes s) s t3"
    using wrote_trans [OF w2 3(2)] by simp
  with 1(1) 2(1) 3(1,4) bframe_trans [OF f2 3(3)] show ?thesis by blast
qed

lemma commit_ok:
  assumes s: "binv s" "log_wf s" "0 < lh_n s" "busyb s = {}" "dirtyb s = set (logged s)"
  shows "\<exists>t. commit s = Ok () t \<and> wrote (commit_writes s) s t \<and> lh_n t = 0 \<and> dirtyb t = {}"
proof -
  obtain t1 t2 t3 where 1: "write_log s = Ok () t1" "write_head t1 = Ok () t2" "install_trans t2 = Ok () t3"
    and w: "wrote (log_writes s @ [(log_start s, commit_head s)] @ commit_homes s) s t3" and f: "bframe s t3" and d: "dirtyb t3 = {}"
    using commit_steps [OF s(1,2,4,5)] by blast
  let ?t = "t3\<lparr>lh_n := 0\<rparr>"
  have h: "bcontent t3 (log_start s) = commit_head s"
    using w log_start_home [OF s(2)] by (simp add: wrote_def apply_writes_other)
  have "binv ?t" "busyb ?t = {}" "log_dev ?t = 1" "okb ?t (log_start ?t)" "length (lh_block ?t) = LOGSIZE" "card (dirtyb ?t) < NBUF"
    using w d s(2) log_wf_start [OF s(2)] bframe_log [OF f] bframe_wf [OF f] by (auto simp: wrote_def log_wf_def param_defs)
  with write_head_ok [of ?t] h d bframe_log [OF f] obtain t where
    t: "write_head ?t = Ok () t" "wrote [(log_start s, put_head (commit_head s) 0 (lh_block s))] ?t t" "bframe ?t t" "dirtyb t = {}"
    by (auto simp: param_defs)
  have "wrote (commit_writes s) s t"
    using wrote_trans [OF w wrote_head [OF t(2)]] by (simp add: commit_writes_def)
  moreover have "commit s = Ok () t" using 1 t(1) s(3) by (simp add: commit_def kop)
  moreover have "lh_n t = 0" using bframe_log(3) [OF t(3)] by simp
  ultimately show ?thesis using t(4) by blast
qed

section \<open>Recovery\<close>

text \<open>What recovery leaves on a disk whose log starts at \<open>st\<close>, the header apart.\<close>

definition replay_writes :: "u32 \<Rightarrow> (u32 \<Rightarrow> byte list) \<Rightarrow> (u32 \<times> byte list) list" where
  "replay_writes st d = (let n = nat (head_n (d st)) in
     map (\<lambda>k. (get32s n (d st) 4 ! k, d (st + of_nat k + 1))) [0..<n])"

definition replay :: "u32 \<Rightarrow> (u32 \<Rightarrow> byte list) \<Rightarrow> u32 \<Rightarrow> byte list" where
  "replay st d = apply_writes (replay_writes st d) d"

text \<open>The header on a disk names blocks outside the log, each once.\<close>

definition head_ok :: "'z klog_scheme \<Rightarrow> byte list \<Rightarrow> bool" where
  "head_ok s h \<longleftrightarrow> log_wf (s\<lparr>lh_n := head_n h, lh_block := get32s (nat (head_n h)) h 4 @ replicate (LOGSIZE - nat (head_n h)) 0\<rparr>)"

lemma head_ok_iff: "head_ok s h \<longleftrightarrow> log_dev s = 1 \<and> 0 \<le> head_n h \<and> head_n h < log_size s \<and> log_size s \<le> int LOGSIZE \<and> distinct (get32s (nat (head_n h)) h 4) \<and>
    set (get32s (nat (head_n h)) h 4) \<inter> log_area s = {} \<and> (\<forall>b \<in> log_area s \<union> set (get32s (nat (head_n h)) h 4). okb s b)"
  by (auto simp: head_ok_def log_wf_def logged_def log_area_def slot_def param_defs)

lemma read_head_ok:
  assumes s: "binv s" "head_ok s (bcontent s (log_start s))" "length (lh_block s) = LOGSIZE" "busyb s = {}" "dirtyb s = {}"
  defines "h \<equiv> bcontent s (log_start s)"
  shows "\<exists>t. read_head s = Ok () t \<and> wrote [] s t \<and> dirtyb t = {} \<and> log_wf t \<and> lh_n t = head_n h \<and>
    logged t = get32s (nat (head_n h)) h 4"
proof -
  let ?b = "log_start s" and ?n = "nat (head_n h)"
  have h: "log_dev s = 1" "0 \<le> head_n h" "head_n h < int NBUF" "okb s ?b"
    using s(2) log_start_area [of s] by (auto simp: h_def head_ok_iff param_defs)
  obtain i t where t: "bread 1 ?b s = Ok i t" "bframe s t" "binv t" "bheld t i ?b" "bcontent t = bcontent s" "disk t = disk s"
    "dwrites t = dwrites s" "busyb t = {?b}" "dirtyb t = {}"
    using bread_law [OF s(1) h(4)] s(4,5) by (auto simp: param_defs)
  let ?u = "t\<lparr>lh_n := head_n h, lh_block := get32s ?n h 4 @ drop ?n (lh_block t)\<rparr>"
  have "bcontent ?u ?b = disk ?u ?b" using t(5,6) clean_content [OF s(1), of ?b] s(4,5) by simp
  with brelse_law [of ?u i ?b] t(3,4) obtain v where v: "brelse i ?u = Ok () v" "bframe ?u v" "binv v" "bcontent v = bcontent t"
    "disk v = disk t" "dwrites v = dwrites t" "busyb v = {}" "dirtyb v = {}" using t(8,9) by auto
  have l: "lframe s v" by (rule lframe_trans [OF bframe_lframe [OF t(2)] lframe_trans [OF lframe_head(2) bframe_lframe [OF v(2)]]])
  have hd: "lh_n v = head_n h" "logged v = get32s ?n h 4" "length (lh_block v) = LOGSIZE"
    using bframe_log [OF v(2)] bframe_log [OF t(2)] s(3) h(2,3) by (simp_all add: logged_def param_defs)
  have "log_wf v" using s(2) hd lframe_fields [OF l] by (simp add: log_wf_def head_ok_iff h_def)
  moreover have "read_head s = Ok () v"
    using t(1) v(1) get_data_law [OF t(3,4)] h(1,3) by (simp add: read_head_def kop h_def t(5) param_defs)
  moreover have "wrote [] s v" using l v t(5-7) by (simp add: wrote_def)
  ultimately show ?thesis using hd v(8) by blast
qed

lemma recover_from_log_ok:
  assumes s: "binv s" "head_ok s (disk s (log_start s))" "length (lh_block s) = LOGSIZE" "busyb s = {}" "dirtyb s = {}"
  shows "\<exists>t. recover_from_log s = Ok () t \<and> lframe s t \<and> binv t \<and> busyb t = {} \<and> dirtyb t = {} \<and> lh_n t = 0 \<and> bcontent t = disk t \<and>
    head_n (disk t (log_start s)) = 0 \<and>
    disk t = (replay (log_start s) (disk s))(log_start s := put32 (disk s (log_start s)) 0 0) \<and>
    dwrites t = dwrites s @ replay_writes (log_start s) (disk s) @ [(log_start s, disk t (log_start s))]"
proof -
  let ?b = "log_start s" and ?h = "disk s (log_start s)"
  have c: "bcontent s = disk s" using clean_content [OF s(1)] s(4,5) by auto
  obtain t1 where 1: "read_head s = Ok () t1" "wrote [] s t1" "dirtyb t1 = {}" "log_wf t1" "lh_n t1 = head_n ?h"
    "logged t1 = get32s (nat (head_n ?h)) ?h 4" using read_head_ok [OF s(1) _ s(3-5)] s(2) c by auto
  have "binv t1" "busyb t1 = {}" using 1(2) by (simp_all add: wrote_def)
  with install_trans_ok [OF this(1) 1(4) this(2)] 1(3) obtain t2 where 2: "install_trans t1 = Ok () t2" "wrote (home_writes t1) t1 t2"
    "bframe t1 t2" "dirtyb t2 = {}" by blast
  have w: "wrote (home_writes t1) s t2" using wrote_trans [OF 1(2) 2(2)] by simp
  have l: "lframe s t1" "bcontent t1 = disk s" using 1(2) c by (simp_all add: wrote_def)
  have hw: "home_writes t1 = replay_writes ?b (disk s)"
    using logged_nth [OF 1(4)] lframe_fields [OF l(1)] by (simp add: home_writes_def replay_writes_def Let_def 1(5,6) l(2) slot_def)
  let ?t = "t2\<lparr>lh_n := 0\<rparr>"
  note f = lframe_fields [OF l(1)] bframe_log [OF 2(3)] bframe_wf [OF 2(3)]
  have "binv ?t" "busyb ?t = {}" "log_dev ?t = 1" "okb ?t (log_start ?t)" "length (lh_block ?t) = LOGSIZE" "card (dirtyb ?t) < NBUF"
    using w 2(4) 1(4) log_wf_start [OF 1(4)] f by (auto simp: wrote_def log_wf_def param_defs)
  with write_head_ok [of ?t] 2(4) f obtain t where
    t: "write_head ?t = Ok () t" "wrote [(?b, put_head (bcontent t2 ?b) 0 (lh_block t2))] ?t t" "bframe ?t t" "dirtyb t = {}"
    by (auto simp: param_defs)
  have w2: "wrote (home_writes t1 @ [(?b, put_head (bcontent t2 ?b) 0 (lh_block t2))]) s t"
    by (rule wrote_trans [OF w wrote_head [OF t(2)]])
  have "length (bcontent t2 ?b) = BSIZE" "length (lh_block t2) = LOGSIZE" using bc.view_length \<open>binv ?t\<close> \<open>length (lh_block ?t) = _\<close> by simp_all
  then have "head_n (disk t ?b) = 0" using w2 put_head_get(1) [of 0 "lh_block t2" "bcontent t2 ?b"]
    by (simp add: wrote_def param_defs)
  moreover have "disk t = (replay ?b (disk s))(?b := put32 (disk s ?b) 0 0)"
  proof -
    have "fst ` set (home_writes t1) = set (logged t1)"
      using logged_blocks(1) [OF 1(4)] by (auto simp: home_writes_def image_image atLeast0LessThan)
    then have "?b \<notin> fst ` set (home_writes t1)" using log_start_home [OF 1(4)] lframe_fields(1) [OF l(1)] by simp
    then have "bcontent t2 ?b = disk s ?b" using w c by (simp add: wrote_def apply_writes_other)
    then show ?thesis using w2 by (simp add: wrote_def replay_def hw put_head_def)
  qed
  moreover have "recover_from_log s = Ok () t" using 1(1) 2(1) t(1) by (simp add: recover_from_log_def kop)
  moreover have "bcontent t = disk t" using clean_content [of t] w2 t(4) by (auto simp: wrote_def)
  moreover have "dwrites t = dwrites s @ replay_writes ?b (disk s) @ [(?b, disk t ?b)]"
    using w2 by (simp add: wrote_def hw)
  ultimately show ?thesis using w2 t(4) bframe_log(3) [OF t(3)] by (auto simp: wrote_def)
qed

section \<open>Crashes\<close>

lemma replay_empty: "head_n (d st) = 0 \<Longrightarrow> replay st d = d"
  by (simp add: replay_def replay_writes_def)

lemma commit_head_get:
  assumes "binv s" "log_wf s"
  shows "head_n (commit_head s) = lh_n s" "get32s (nat (lh_n s)) (commit_head s) 4 = logged s" "length (commit_head s) = BSIZE"
    "head_n (put_head (commit_head s) 0 (lh_block s)) = 0"
proof -
  have b: "0 \<le> lh_n s" "lh_n s \<le> int LOGSIZE" "length (lh_block s) = LOGSIZE" "length (bcontent s (log_start s)) = BSIZE"
    using assms(2) bc.view_length [OF assms(1)] by (auto simp: log_wf_def param_defs)
  note g = put_head_get [OF b]
  show "head_n (commit_head s) = lh_n s" "get32s (nat (lh_n s)) (commit_head s) 4 = logged s" "length (commit_head s) = BSIZE"
    using g by (simp_all add: commit_head_def logged_def)
  then show "head_n (put_head (commit_head s) 0 (lh_block s)) = 0"
    using put_head_get(1) [of 0 "lh_block s" "commit_head s"] b(3) by (simp add: param_defs)
qed

lemma commit_head_ok: "binv s \<Longrightarrow> log_wf s \<Longrightarrow> head_ok s (commit_head s)"
  using commit_head_get(1,2) by (auto simp: head_ok_iff log_wf_def)

lemma empty_head_ok: "log_wf s \<Longrightarrow> head_n h = 0 \<Longrightarrow> head_ok s h"
  by (auto simp: head_ok_iff log_wf_def param_defs)

text \<open>Before the header is written the log area alone has changed.\<close>

lemma crash_before:
  fixes m :: nat
  assumes "log_wf s" "head_n (d (log_start s)) = 0"
  defines "d' \<equiv> apply_writes (take m (log_writes s)) d"
  shows "d' (log_start s) = d (log_start s)" "b \<notin> log_area s \<Longrightarrow> replay (log_start s) d' b = d b"
proof -
  show st: "d' (log_start s) = d (log_start s)"
    using log_writes_start [OF assms(1)] by (simp add: d'_def apply_writes_take_other)
  assume "b \<notin> log_area s"
  then have "b \<notin> fst ` set (log_writes s)" using log_writes_area [OF assms(1)] by blast
  then show "replay (log_start s) d' b = d b"
    using st assms(2) by (simp add: replay_empty) (simp add: d'_def apply_writes_take_other)
qed

lemma homes_applied:
  assumes "log_wf s"
  shows "apply_writes (commit_homes s) d b = (if b \<in> set (logged s) then bcontent s b else d b)"
proof (cases "b \<in> set (logged s)")
  case True
  then have "(b, bcontent s b) \<in> set (commit_homes s)" by (auto simp: commit_homes_def)
  moreover have "distinct (map fst (commit_homes s))" using assms by (simp add: log_wf_def)
  ultimately show ?thesis using True by (simp add: apply_writes_in del: commit_homes_fst)
qed (simp add: apply_writes_other)

text \<open>From then on until the empty header is written the log holds every block.\<close>

lemma crash_logged:
  fixes m :: nat and d :: "u32 \<Rightarrow> byte list"
  assumes s: "binv s" "log_wf s"
  defines "d' \<equiv> apply_writes (log_writes s @ [(log_start s, commit_head s)] @ take m (commit_homes s)) d"
  shows "d' (log_start s) = commit_head s"
    "b \<notin> log_area s \<Longrightarrow> replay (log_start s) d' b = (if b \<in> set (logged s) then bcontent s b else d b)"
proof -
  let ?d = "apply_writes (log_writes s @ [(log_start s, commit_head s)]) d"
  have d': "d' = apply_writes (take m (commit_homes s)) ?d" by (simp add: d'_def)
  show st: "d' (log_start s) = commit_head s" using log_start_home [OF s(2)] by (simp add: d' apply_writes_take_other)
  have sl: "d' (log_start s + of_nat k + 1) = bcontent s (lh_block s ! k)" if "k < nat (lh_n s)" for k
    using log_wf_area(2) [OF s(2) that] after_log [OF s(2) that, of "commit_head s" d]
    by (simp add: d' apply_writes_take_other flip: slot_def del: apply_writes_simps)
  have "replay_writes (log_start s) d' = map (\<lambda>k. (logged s ! k, bcontent s (logged s ! k))) [0..<nat (lh_n s)]"
    using sl logged_nth [OF s(2)] by (auto simp: replay_writes_def st commit_head_get [OF s] Let_def)
  also have "\<dots> = commit_homes s"
    using logged_blocks(2) [OF s(2)] by (auto simp: commit_homes_def intro: nth_equalityI)
  finally have r: "replay (log_start s) d' = apply_writes (commit_homes s) d'" by (simp add: replay_def)
  assume b: "b \<notin> log_area s"
  then have "b \<notin> fst ` set (log_writes s)" "b \<noteq> log_start s" using log_writes_area [OF s(2)] log_wf_start [OF s(2)] by auto
  then have "b \<notin> set (logged s) \<Longrightarrow> d' b = d b" by (simp add: d' apply_writes_take_other apply_writes_other)
  then show "replay (log_start s) d' b = (if b \<in> set (logged s) then bcontent s b else d b)"
    by (simp add: r homes_applied [OF s(2)])
qed

lemma crash_after:
  fixes d :: "u32 \<Rightarrow> byte list"
  assumes s: "binv s" "log_wf s"
  defines "d' \<equiv> apply_writes (commit_writes s) d"
  shows "head_n (d' (log_start s)) = 0"
    "b \<notin> log_area s \<Longrightarrow> replay (log_start s) d' b = (if b \<in> set (logged s) then bcontent s b else d b)"
proof -
  show st: "head_n (d' (log_start s)) = 0" by (simp add: d'_def commit_writes_def commit_head_get(4) [OF s])
  assume "b \<notin> log_area s"
  then have "b \<notin> fst ` set (log_writes s)" "b \<noteq> log_start s" using log_writes_area [OF s(2)] log_wf_start [OF s(2)] by auto
  then have "d' b = (if b \<in> set (logged s) then bcontent s b else d b)"
    by (simp add: d'_def commit_writes_def homes_applied [OF s(2)] apply_writes_other)
  then show "replay (log_start s) d' b = (if b \<in> set (logged s) then bcontent s b else d b)"
    using st by (simp add: replay_empty)
qed

lemma take_commit_writes:
  "(\<exists>j. take m (commit_writes s) = take j (log_writes s)) \<or>
   (\<exists>j. take m (commit_writes s) = log_writes s @ [(log_start s, commit_head s)] @ take j (commit_homes s)) \<or>
   take m (commit_writes s) = commit_writes s"
proof -
  let ?n = "length (log_writes s)"
  consider "m \<le> ?n" | "?n < m" "m - ?n - 1 \<le> length (commit_homes s)" | "length (commit_homes s) < m - ?n - 1" by linarith
  then show ?thesis
  proof cases
    case 1
    then have "take m (commit_writes s) = take m (log_writes s)" by (simp add: commit_writes_def)
    then show ?thesis by blast
  next
    case 2
    then obtain j where m: "m = ?n + Suc j" "j \<le> length (commit_homes s)" by (metis add_Suc_right diff_diff_left less_imp_Suc_add add_diff_cancel_left' add.commute plus_1_eq_Suc)
    then have "take m (commit_writes s) = log_writes s @ [(log_start s, commit_head s)] @ take j (commit_homes s)"
      by (simp add: commit_writes_def)
    then show ?thesis by blast
  next
    case 3
    then show ?thesis by (simp add: commit_writes_def)
  qed
qed

lemma crash_replay:
  fixes m :: nat
  assumes s: "binv s" "log_wf s" "busyb s = {}" "dirtyb s = set (logged s)" "head_n (disk s (log_start s)) = 0"
  defines "d \<equiv> apply_writes (take m (commit_writes s)) (disk s)"
  shows "head_ok s (d (log_start s)) \<and>
    ((\<forall>b. b \<notin> log_area s \<longrightarrow> replay (log_start s) d b = disk s b) \<or> (\<forall>b. b \<notin> log_area s \<longrightarrow> replay (log_start s) d b = bcontent s b))"
proof -
  have c: "(if b \<in> set (logged s) then bcontent s b else disk s b) = bcontent s b" for b
    using clean_content [OF s(1), of b] s(3,4) by auto
  consider (1) j where "take m (commit_writes s) = take j (log_writes s)"
    | (2) j where "take m (commit_writes s) = log_writes s @ [(log_start s, commit_head s)] @ take j (commit_homes s)"
    | (3) "take m (commit_writes s) = commit_writes s"
    using take_commit_writes [of m s] by blast
  then show ?thesis
  proof cases
    case (1 j)
    note b = crash_before [where d = "disk s" and m = j, OF s(2,5), folded 1, folded d_def]
    show ?thesis using b s(5) empty_head_ok [OF s(2)] by simp
  next
    case (2 j)
    note b = crash_logged [OF s(1,2), where m = j and d = "disk s", folded 2, folded d_def]
    show ?thesis using b commit_head_ok [OF s(1,2)] by (simp add: c)
  next
    case 3
    note b = crash_after [OF s(1,2), where d = "disk s", folded d_def [unfolded 3]]
    show ?thesis using b empty_head_ok [OF s(2)] by (simp add: c)
  qed
qed

text \<open>A machine that starts with an empty cache on the disk that a crash left.\<close>

definition rebooted :: "'z klog_scheme \<Rightarrow> (u32 \<Rightarrow> byte list) \<Rightarrow> 'y klog_scheme \<Rightarrow> bool" where
  "rebooted s d r \<longleftrightarrow> binv r \<and> busyb r = {} \<and> dirtyb r = {} \<and> length (lh_block r) = LOGSIZE \<and> log_start r = log_start s \<and>
     log_size r = log_size s \<and> log_dev r = 1 \<and> disksize r = disksize s \<and> disk r = d"

lemma rebooted_ok: "rebooted s d r \<Longrightarrow> log_dev s = 1 \<Longrightarrow> head_ok r h = head_ok s h"
  by (auto simp: head_ok_iff rebooted_def log_area_def slot_def okb_def)

text \<open>A transaction about to be committed: each block it wrote is in the log and in a dirty buffer, and the header on disk is empty.\<close>

definition committable :: "'z klog_scheme \<Rightarrow> bool" where
  "committable s \<longleftrightarrow> binv s \<and> log_wf s \<and> 0 < lh_n s \<and> busyb s = {} \<and> dirtyb s = set (logged s) \<and> head_n (disk s (log_start s)) = 0"

lemma replay_writes_after:
  assumes "head_ok s (d (log_start s))"
  defines "ws \<equiv> replay_writes (log_start s) d"
  shows "replay_writes (log_start s) (apply_writes (take m ws) d) = ws" "log_start s \<notin> fst ` set ws"
proof -
  let ?n = "nat (head_n (d (log_start s)))" and ?bl = "get32s (nat (head_n (d (log_start s)))) (d (log_start s)) 4"
  have f: "fst ` set ws \<subseteq> set ?bl" by (auto simp: ws_def replay_writes_def Let_def)
  moreover have "set ?bl \<inter> log_area s = {}" using assms(1) by (simp add: head_ok_iff)
  ultimately have o: "b \<notin> fst ` set ws" if "b \<in> log_area s" for b using that by blast
  then show "log_start s \<notin> fst ` set ws" using assms(1) log_start_area [of s] by (simp add: head_ok_iff)
  then have st: "apply_writes (take m ws) d (log_start s) = d (log_start s)" by (rule apply_writes_take_other)
  have "slot s k \<in> log_area s" if "k < ?n" for k using assms(1) that by (auto simp: head_ok_iff intro: slot_area)
  then have "apply_writes (take m ws) d (log_start s + of_nat k + 1) = d (log_start s + of_nat k + 1)" if "k < ?n" for k
    using that o apply_writes_take_other by (auto simp flip: slot_def)
  then have "replay_writes (log_start s) (apply_writes (take m ws) d) = replay_writes (log_start s) d"
    by (simp add: replay_writes_def st Let_def)
  then show "replay_writes (log_start s) (apply_writes (take m ws) d) = ws" by (simp add: ws_def)
qed

lemma apply_writes_upd: "b \<in> fst ` set vs \<Longrightarrow> apply_writes vs (e(b := z)) = apply_writes vs e"
proof (induction vs arbitrary: e)
  case (Cons v vs)
  obtain a y where v: "v = (a, y)" by force
  show ?case
  proof (cases "a = b")
    case False
    then have "e(b := z, a := y) = e(a := y, b := z)" by (simp add: fun_upd_twist)
    moreover have "b \<in> fst ` set vs" using Cons.prems False v by auto
    ultimately show ?thesis by (simp only: v apply_writes_simps Cons.IH)
  qed (simp only: v apply_writes_simps fun_upd_upd)
qed simp

lemma apply_writes_again: "apply_writes ws (apply_writes (take m ws) d) = apply_writes ws d"
proof (induction ws arbitrary: m d)
  case (Cons w ws)
  obtain b y where w: "w = (b, y)" by force
  show ?case
  proof (cases m)
    case (Suc k)
    have "apply_writes ws ((apply_writes (take k ws) (d(b := y)))(b := y)) = apply_writes ws (apply_writes (take k ws) (d(b := y)))"
    proof (cases "b \<in> fst ` set ws")
      case True
      then show ?thesis by (rule apply_writes_upd)
    next
      case False
      then show ?thesis by (simp add: apply_writes_take_other fun_upd_idem)
    qed
    then show ?thesis by (simp only: Suc w take_Suc_Cons apply_writes_simps Cons.IH)
  qed (simp add: w)
qed simp

text \<open>For the witnesses: a transaction that wrote block 32, the first one behind the log, and the machine started again on what a crash left.\<close>

definition tx0 :: klog where
  "tx0 = klog0 cache1 zero_disk [32]"

lemma head_zero: "head_n (zero_disk b) = 0"
  by (simp add: zero_disk_def head_n_def get32_def word_of_bytes_def BSIZE_def numeral_eq_Suc)

lemma log_area_klog0: "log_area (klog0 bs d bl) = of_nat ` {2..<32}"
proof -
  have "log_area (klog0 bs d bl) = of_nat ` (\<lambda>k. 2 + k) ` {..<30}" by (simp add: log_area_def image_image)
  also have "(\<lambda>k. 2 + k) ` {..<30} = {2..<32::nat}" using image_add_atLeastLessThan [of 2 0 "30::nat"] by (simp add: lessThan_atLeast0 numeral_2_eq_2)
  finally show ?thesis .
qed

lemma log_area_klog0_okb: "b \<in> log_area (klog0 bs d bl) \<Longrightarrow> okb (klog0 bs d bl) b"
  unfolding log_area_klog0 by (auto simp: okb_def klog0_def word_less_nat_alt unat_of_nat)

lemma not_log_area_klog0: "31 < b \<Longrightarrow> b \<notin> log_area (klog0 bs d bl)"
  unfolding log_area_klog0 by (auto simp: word_less_nat_alt unat_of_nat)

lemma log_wf_klog0: "log_wf (klog0 bs d [32])"
proof -
  have "logged (klog0 bs d [32]) = [32]" by (simp add: logged_def)
  then show ?thesis using log_area_klog0_okb [of _ bs d "[32]"] not_log_area_klog0 [of 32 bs d "[32]"]
    by (auto simp: log_wf_def param_defs okb_def)
qed

lemma committable_tx0: "committable tx0"
  using log_wf_klog0 use_klog1 binv_klog1 [of zero_disk] head_zero
  by (simp add: committable_def tx0_def logged_def) (simp add: zero_disk_def)

lemma content_tx0: "bcontent tx0 32 = replicate BSIZE 7"
proof -
  have "one_per_block cache1" "length cache1 = Suc NBUF" using binv_one [of tx0] binv_length [of tx0] committable_tx0
    by (auto simp: committable_def tx0_def)
  from buf_of_SomeI [OF this(1) _ this(2), of 5 32] have "buf_of cache1 32 = Some 5" by (simp add: cache1_nth param_defs)
  then show ?thesis by (simp add: bcontent_def bview_def tx0_def cache1_nth param_defs)
qed

lemma length_apply_writes: "\<forall>w \<in> set ws. length (snd w) = BSIZE \<Longrightarrow> \<forall>b. length (d b) = BSIZE \<Longrightarrow> length (apply_writes ws d b) = BSIZE"
  by (induction ws arbitrary: d) auto

lemma length_apply_take: "\<forall>w \<in> set ws. length (snd w) = BSIZE \<Longrightarrow> \<forall>b. length (d b) = BSIZE \<Longrightarrow> \<forall>b. length (apply_writes (take m ws) d b) = BSIZE"
  by (intro allI length_apply_writes) (auto dest: in_set_takeD)

lemma length_commit_writes:
  assumes "committable s" "w \<in> set (commit_writes s)"
  shows "length (snd w) = BSIZE"
proof -
  have s: "binv s" "log_wf s" using assms(1) by (simp_all add: committable_def)
  have "length (put_head (commit_head s) 0 (lh_block s)) = BSIZE"
    using commit_head_get(3) [OF s] by (simp add: put_head_def)
  then show ?thesis using assms(2) commit_head_get(3) [OF s] bc.view_length [OF s(1)]
    by (auto simp: commit_writes_def log_writes_def commit_homes_def)
qed

lemma rebooted_klog0:
  assumes "\<forall>b. length (d b) = BSIZE"
  shows "rebooted (klog0 bs e bl) d (klog0 cache0 d [])"
  using binv_klog0 [of d "[]"] idle_klog0 [of d "[]"] assms by (simp add: rebooted_def)

text \<open>
  C23. A commit succeeds: every block that the transaction wrote reaches its place on disk, nothing outside the log
  changes otherwise, the header on disk and in memory is empty again and no buffer stays locked or dirty.
\<close>

theorem commit_installs:
  assumes "committable s"
  shows "\<exists>t. commit s = Ok () t \<and> binv t \<and> busyb t = {} \<and> dirtyb t = {} \<and> lh_n t = 0 \<and> head_n (disk t (log_start s)) = 0 \<and>
    (\<forall>b. b \<notin> log_area s \<longrightarrow> disk t b = bcontent s b \<and> bcontent t b = bcontent s b)"
proof -
  have s: "binv s" "log_wf s" "0 < lh_n s" "busyb s = {}" "dirtyb s = set (logged s)" using assms by (simp_all add: committable_def)
  obtain t where t: "commit s = Ok () t" "wrote (commit_writes s) s t" "lh_n t = 0" "dirtyb t = {}" using commit_ok [OF s] by blast
  have c: "bcontent t b = disk t b" for b using clean_content [of t b] t(2,4) by (simp add: wrote_def)
  have "(if b \<in> set (logged s) then bcontent s b else disk s b) = bcontent s b" for b
    using clean_content [OF s(1), of b] s(4,5) by auto
  with crash_after [OF s(1,2), where d = "disk s"] t(2)
  have "head_n (disk t (log_start s)) = 0" "\<forall>b. b \<notin> log_area s \<longrightarrow> disk t b = bcontent s b"
    by (simp_all add: wrote_def replay_empty)
  with t c show ?thesis by (auto simp: wrote_def)
qed

theorem commit_installs_witness: "\<exists>t. commit tx0 = Ok () t \<and> lh_n t = 0 \<and> disk tx0 32 = replicate BSIZE 0 \<and> disk t 32 = replicate BSIZE 7"
proof -
  have "32 \<notin> log_area tx0" using not_log_area_klog0 [of 32] by (simp add: tx0_def)
  with commit_installs [OF committable_tx0] content_tx0 show ?thesis by (auto simp: tx0_def zero_disk_def)
qed

text \<open>
  C3. Crash atomicity of the log: stop the machine after any number \<open>m\<close> of the block writes that \<open>commit\<close> performs and
  start it again with an empty cache; \<open>recover_from_log\<close> succeeds, and outside the log the disk then holds either the
  state before the transaction or the state with all of its blocks, never a mixture.
\<close>

theorem commit_crash_atomic:
  assumes "committable s" "commit s = Ok () t" "dwrites t = dwrites s @ ws"
    and "rebooted s (apply_writes (take m ws) (disk s)) r"
  shows "\<exists>u. recover_from_log r = Ok () u \<and> head_n (disk u (log_start s)) = 0 \<and>
    ((\<forall>b. b \<notin> log_area s \<longrightarrow> disk u b = disk s b) \<or> (\<forall>b. b \<notin> log_area s \<longrightarrow> disk u b = bcontent s b))"
proof -
  have s: "binv s" "log_wf s" "0 < lh_n s" "busyb s = {}" "dirtyb s = set (logged s)" "head_n (disk s (log_start s)) = 0"
    using assms(1) by (simp_all add: committable_def)
  have ws: "ws = commit_writes s" using commit_ok [OF s(1-5)] assms(2,3) by (auto simp: wrote_def)
  note k = crash_replay [OF s(1,2,4-6), of m, folded ws]
  note r = assms(4) [unfolded rebooted_def]
  have "head_ok r (disk r (log_start r))" using k rebooted_ok [OF assms(4)] r s(2) by (simp add: log_wf_def)
  with recover_from_log_ok [of r] r obtain u where u: "recover_from_log r = Ok () u" "head_n (disk u (log_start s)) = 0"
    "\<forall>b. b \<noteq> log_start s \<longrightarrow> disk u b = replay (log_start s) (apply_writes (take m ws) (disk s)) b" by auto
  have "\<forall>b. b \<notin> log_area s \<longrightarrow> b \<noteq> log_start s" using log_wf_start [OF s(2)] by auto
  then show ?thesis using u k by (intro exI [of _ u]) metis
qed

theorem commit_crash_atomic_witness:
  "\<exists>t ws u. commit tx0 = Ok () t \<and> dwrites t = dwrites tx0 @ ws \<and> length ws = 4 \<and>
    recover_from_log (klog0 cache0 (apply_writes (take 2 ws) (disk tx0)) []) = Ok () u \<and>
    (disk u 32 = disk tx0 32 \<or> disk u 32 = bcontent tx0 32)"
proof -
  have s: "binv tx0" "log_wf tx0" "0 < lh_n tx0" "busyb tx0 = {}" "dirtyb tx0 = set (logged tx0)"
    using committable_tx0 by (simp_all add: committable_def)
  obtain t where t: "commit tx0 = Ok () t" "dwrites t = dwrites tx0 @ commit_writes tx0"
    using commit_ok [OF s] by (auto simp: wrote_def)
  have "\<forall>b. length (apply_writes (take 2 (commit_writes tx0)) (disk tx0) b) = BSIZE"
    using length_commit_writes [OF committable_tx0] by (intro length_apply_take) (auto simp: tx0_def zero_disk_def)
  from rebooted_klog0 [OF this, of cache1 zero_disk "[32]"]
  have "rebooted tx0 (apply_writes (take 2 (commit_writes tx0)) (disk tx0)) (klog0 cache0 (apply_writes (take 2 (commit_writes tx0)) (disk tx0)) [])"
    by (simp add: tx0_def)
  from commit_crash_atomic [OF committable_tx0 t this] not_log_area_klog0 [of 32 cache1 zero_disk "[32]"] t
  show ?thesis by (force simp: tx0_def commit_writes_def log_writes_def commit_homes_def logged_def)
qed

lemma put32_again: "put32 (put32 bs k v) k v = put32 bs k v"
  by (simp add: put32_def list_update_swap)

text \<open>
  C24. Recovery may itself be interrupted.  On a disk whose log header names distinct blocks outside the log, as \<open>commit\<close> writes it, stop
  after any number of the block writes of \<open>recover_from_log\<close> and recover again from an empty cache: the second recovery succeeds,
  and the whole disk is the one an uninterrupted recovery leaves, the log and its header included.
\<close>

theorem recovery_idempotent:
  assumes "rebooted s d r" "head_ok r (d (log_start r))" "recover_from_log r = Ok () t" "dwrites t = dwrites r @ ws"
    and "rebooted r (apply_writes (take m ws) d) r'"
  shows "\<exists>u. recover_from_log r' = Ok () u \<and> disk u = disk t"
proof -
  let ?st = "log_start r" and ?rs = "replay_writes (log_start r) d" and ?h = "put32 (d (log_start r)) 0 0"
  note r = assms(1) [unfolded rebooted_def] note r' = assms(5) [unfolded rebooted_def]
  have t: "head_n (disk t ?st) = 0" "disk t = (replay ?st d)(?st := ?h)" "ws = ?rs @ [(?st, disk t ?st)]"
    using recover_from_log_ok [of r] r assms(2-4) by auto
  note n = replay_writes_after [where d = d, OF assms(2)]
  let ?d = "apply_writes (take m ws) d"
  have "head_ok r (?d ?st) \<and> (replay ?st ?d)(?st := put32 (?d ?st) 0 0) = disk t"
  proof (cases "m \<le> length ?rs")
    case True
    then have "take m ws = take m ?rs" by (simp add: t(3))
    moreover have "replay ?st (apply_writes (take m ?rs) d) = replay ?st d"
      by (simp add: replay_def n(1) apply_writes_again)
    ultimately show ?thesis using assms(2) n(2) t(2) by (simp add: apply_writes_take_other)
  next
    case False
    then have d: "?d = (apply_writes ?rs d)(?st := ?h)" using t(2) by (simp add: t(3))
    moreover have "head_n ?h = 0" using t(1,2) by simp
    moreover from this have "head_ok r ?h" using assms(2) by (auto simp: head_ok_iff)
    ultimately show ?thesis using t(2) put32_again [of "d ?st"] by (simp add: replay_empty) (simp add: replay_def)
  qed
  then have k: "head_ok r' (disk r' (log_start r'))" "(replay ?st ?d)(?st := put32 (?d ?st) 0 0) = disk t"
    using rebooted_ok [OF assms(5)] r r' by auto
  with recover_from_log_ok [of r'] r' show ?thesis by auto
qed

definition torn_disk :: "u32 \<Rightarrow> byte list" where
  "torn_disk = apply_writes (log_writes tx0 @ [(2, commit_head tx0)]) zero_disk"

theorem recovery_idempotent_witness:
  "\<exists>t u. recover_from_log (klog0 cache0 torn_disk []) = Ok () t \<and>
    recover_from_log (klog0 cache0 (apply_writes (take 1 (dwrites t)) torn_disk) []) = Ok () u \<and> disk u = disk t"
proof -
  let ?r = "klog0 cache0 torn_disk []"
  have s: "binv tx0" "log_wf tx0" using committable_tx0 by (simp_all add: committable_def)
  have len: "\<forall>w \<in> set (log_writes tx0 @ [(2, commit_head tx0)]). length (snd w) = BSIZE"
    using length_commit_writes [OF committable_tx0] commit_head_get(3) [OF s] by (simp add: commit_writes_def)
  have d: "\<forall>b. length (torn_disk b) = BSIZE"
    using length_apply_writes [OF len, of zero_disk] by (simp add: torn_disk_def zero_disk_def)
  have r: "rebooted tx0 torn_disk ?r" using rebooted_klog0 [OF d] by (simp add: tx0_def)
  have "torn_disk 2 = commit_head tx0" by (simp add: torn_disk_def)
  then have h: "head_ok ?r (torn_disk (log_start ?r))"
    using commit_head_ok [OF s] rebooted_ok [OF r] by (simp add: tx0_def)
  obtain t where t: "recover_from_log ?r = Ok () t" "dwrites t = replay_writes 2 torn_disk @ [(2, disk t 2)]" "binv t"
    using recover_from_log_ok [of ?r] r h by (auto simp: rebooted_def)
  have "length (snd w) = BSIZE" if "w \<in> set (dwrites t)" for w
    using that d t(2,3) by (auto simp: replay_writes_def Let_def binv_def cache_ok_def)
  then have "\<forall>b. length (apply_writes (take 1 (dwrites t)) torn_disk b) = BSIZE"
    using d by (intro length_apply_take) auto
  from recovery_idempotent [OF r h t(1) _ rebooted_klog0 [OF this]] show ?thesis using t(1) by auto
qed

end
