(* ===== verification/Uaccess.thy ===== *)
theory Uaccess
  imports Proc
begin

unbundle bit_operations_syntax

text \<open>
  How kernel code reads and writes through a pointer of the current process: the processor translates
  the address with the page table that \<^verbatim>\<open>%cr3\<close> points to (set by \<^verbatim>\<open>switchuvm\<close> with the instruction of
  \<^verbatim>\<open>x86.h\<close>).  Memory is addressed by kernel addresses, so an address from \<open>KERNBASE\<close> on is its own
  translation.  An access to a page that is not present, or a write to a page that is not writable,
  is a page fault in the kernel: \<open>Fault\<close>.  \<^verbatim>\<open>struct trapframe\<close> of \<^verbatim>\<open>x86.h\<close> is read and written here too.
\<close>

section \<open>Translation\<close>

definition xlate :: "memory \<Rightarrow> addr \<Rightarrow> bool \<Rightarrow> addr \<Rightarrow> addr option" where
  "xlate m pd write va =
     (if va \<ge> KERNBASE then Some va
      else
        (let pde = ld32 m (p2v pd + 4 * PDX va) in
         if pde AND PTE_P = 0 \<or> (write \<and> pde AND PTE_W = 0) then None
         else
           (let pte = ld32 m (p2v (PTE_ADDR pde) + 4 * PTX va) in
            if pte AND PTE_P = 0 \<or> (write \<and> pte AND PTE_W = 0) then None
            else Some (p2v (PTE_ADDR pte) + (va AND 0xFFF)))))"

definition uload1 :: "addr \<Rightarrow> (byte, 'z kmem_scheme) kop" where
  "uload1 va = bindK (getK (\<lambda>s. (mem s, xlate (mem s) (cr3 (mycpu s)) False va))) (\<lambda>(m, t).
     case t of None \<Rightarrow> (\<lambda>_. Fault) | Some a \<Rightarrow> retK (m a))"

definition ustore1 :: "addr \<Rightarrow> byte \<Rightarrow> (unit, 'z kmem_scheme) kop" where
  "ustore1 va v = bindK (getK (\<lambda>s. xlate (mem s) (cr3 (mycpu s)) True va)) (\<lambda>t.
     case t of None \<Rightarrow> (\<lambda>_. Fault) | Some a \<Rightarrow> modK (\<lambda>s. s\<lparr>mem := (mem s)(a := v)\<rparr>))"

fun uload :: "addr \<Rightarrow> nat \<Rightarrow> (byte list, 'z kmem_scheme) kop" where
  "uload va 0 = retK []"
| "uload va (Suc n) = bindK (uload1 va) (\<lambda>b. bindK (uload (va + 1) n) (\<lambda>bs. retK (b # bs)))"

fun ustore :: "addr \<Rightarrow> byte list \<Rightarrow> (unit, 'z kmem_scheme) kop" where
  "ustore va [] = retK ()"
| "ustore va (b # bs) = thenK (ustore1 va b) (ustore (va + 1) bs)"

definition uload32 :: "addr \<Rightarrow> (u32, 'z kmem_scheme) kop" where
  "uload32 va = bindK (uload va 4) (\<lambda>bs. retK (word_of_bytes (bs ! 0) (bs ! 1) (bs ! 2) (bs ! 3)))"

definition ustore32 :: "addr \<Rightarrow> u32 \<Rightarrow> (unit, 'z kmem_scheme) kop" where
  "ustore32 va v = ustore va (map (\<lambda>k. byte_of k v) [0..<4])"

section \<open>Trap frames\<close>

text \<open>Offsets of the fields of \<^verbatim>\<open>struct trapframe\<close>.\<close>

definition TF_EAX :: u32 where "TF_EAX = 28"
definition TF_ES :: u32 where "TF_ES = 40"
definition TF_DS :: u32 where "TF_DS = 44"
definition TF_TRAPNO :: u32 where "TF_TRAPNO = 48"
definition TF_ERR :: u32 where "TF_ERR = 52"
definition TF_EIP :: u32 where "TF_EIP = 56"
definition TF_CS :: u32 where "TF_CS = 60"
definition TF_EFLAGS :: u32 where "TF_EFLAGS = 64"
definition TF_ESP :: u32 where "TF_ESP = 68"
definition TF_SS :: u32 where "TF_SS = 72"

lemmas tf_defs = TF_EAX_def TF_ES_def TF_DS_def TF_TRAPNO_def TF_ERR_def TF_EIP_def TF_CS_def TF_EFLAGS_def
  TF_ESP_def TF_SS_def

definition tf_get :: "addr \<Rightarrow> u32 \<Rightarrow> (u32, 'z kmem_scheme) kop" where
  "tf_get t off = getK (\<lambda>s. ld32 (mem s) (t + off))"

text \<open>A 16-bit segment register of the frame.\<close>

definition tf_get16 :: "addr \<Rightarrow> u32 \<Rightarrow> (u32, 'z kmem_scheme) kop" where
  "tf_get16 t off = getK (\<lambda>s. ld32 (mem s) (t + off) AND 0xFFFF)"

definition tf_put :: "addr \<Rightarrow> u32 \<Rightarrow> u32 \<Rightarrow> (unit, 'z kmem_scheme) kop" where
  "tf_put t off v = store32 (t + off) v"

definition tf_put16 :: "addr \<Rightarrow> u32 \<Rightarrow> u16 \<Rightarrow> (unit, 'z kmem_scheme) kop" where
  "tf_put16 t off v = modK (\<lambda>s. s\<lparr>mem := (mem s)(t + off := ucast v, t + off + 1 := ucast (drop_bit 8 v))\<rparr>)"

definition cur_tf :: "(addr, 'z kproc_scheme) kop" where
  "cur_tf = with_proc (\<lambda>p. getK (\<lambda>s. tf (ptable s ! p)))"

end
