(* ===== verification/Console.thy ===== *)
theory Console
  imports Intr Uaccess
begin

unbundle bit_operations_syntax

text \<open>
  The console: \<^verbatim>\<open>console.c\<close>, the keyboard \<^verbatim>\<open>kbd.c\<close> with the tables of \<^verbatim>\<open>kbd.h\<close>, and the serial port
  \<^verbatim>\<open>uart.c\<close>.  \<open>crt\<close> is the text memory of the screen and \<open>crt_pos\<close> the cursor position in the registers
  14 and 15 of its controller.  The bytes sent to the serial line are \<open>uart_out\<close>; \<open>uart_in\<close> and \<open>kbd_in\<close>
  are the bytes the two input devices hold, oldest first, so a status register shows data exactly
  when the list is not empty.  The transmitter is always ready.

  The operation \<open>cprintf\<close> of the other theories only records the call; \<open>cprintf_con\<close> is what the code
  does with it.  A character that is to be printed is an \<open>int\<close>, as in the code.
\<close>

section \<open>State\<close>

datatype devfn = Consoleread | Consolewrite

record devsw =
  dv_read :: "devfn option"
  dv_write :: "devfn option"

record kcons = kintr +
  cons_locking :: bool
  panicked :: bool
  crt :: "int \<Rightarrow> u16"
  crt_pos :: u16
  uart :: bool
  uart_lsr :: byte
  uart_out :: "byte list"
  uart_in :: "byte list"
  kbd_in :: "byte list"
  kbd_shift :: u32
  input_buf :: "byte list"
  input_r :: u32
  input_w :: u32
  input_e :: u32
  devsw :: "devsw list"

definition BACKSPACE :: int where "BACKSPACE = 0x100"
definition CONSOLE :: nat where "CONSOLE = 1"
definition INPUT_BUF :: nat where "INPUT_BUF = 128"

section \<open>Serial port\<close>

definition COM1 :: u16 where "COM1 = 0x3f8"

definition uartputc :: "int \<Rightarrow> (unit, 'z kcons_scheme) kop" where
  "uartputc c =
     bindK (getK uart) (\<lambda>u.
     whenK u (modK (\<lambda>s. s\<lparr>uart_out := uart_out s @ [word_of_int c]\<rparr>)))"

text \<open>The line status register reads 0xFF when there is no serial port.\<close>

definition uartinit :: "(unit, 'z kcons_scheme) kop" where
  "uartinit =
     thenK (seqK [
       outb (COM1 + 2) 0,
       outb (COM1 + 3) 0x80,
       outb COM1 (of_nat (115200 div 9600)),
       outb (COM1 + 1) 0,
       outb (COM1 + 3) 0x03,
       outb (COM1 + 4) 0,
       outb (COM1 + 1) 0x01]) (
     bindK (getK uart_lsr) (\<lambda>lsr.
     whenK (lsr \<noteq> 0xFF) (
       thenK (modK (\<lambda>s. s\<lparr>uart := True, uart_in := tl (uart_in s)\<rparr>)) (
       thenK (picenable IRQ_COM1) (
       thenK (ioapicenable IRQ_COM1 0) (
       seqK (map (\<lambda>b. uartputc (uint b)) (bytes_of_string (''xv6...'' @ [CHR 0x0A])))))))))"

definition uartgetc :: "(int, 'z kcons_scheme) kop" where
  "uartgetc =
     bindK (getK (\<lambda>s. (uart s, uart_in s))) (\<lambda>(u, inp).
     if \<not> u then retK (- 1)
     else (case inp of
         [] \<Rightarrow> retK (- 1)
       | b # bs \<Rightarrow> thenK (modK (\<lambda>s. s\<lparr>uart_in := bs\<rparr>)) (retK (uint b))))"

section \<open>Screen\<close>

text \<open>The part of \<^verbatim>\<open>cgaputc\<close> after the new position is known.\<close>

definition cga_move :: "int \<Rightarrow> (unit, 'z kcons_scheme) kop" where
  "cga_move p1 =
     (if p1 < 0 \<or> p1 > 25 * 80 then panicK ''pos under/overflow''
     else
       bindK
         (if p1 div 80 \<ge> 24 then
            (let p2 = p1 - 80 in
             thenK (modK (\<lambda>s. s\<lparr>crt := (\<lambda>i. if 0 \<le> i \<and> i < 23 * 80 then crt s (i + 80) else crt s i)\<rparr>)) (
             thenK (modK (\<lambda>s. s\<lparr>crt := (\<lambda>i. if p2 \<le> i \<and> i < 24 * 80 then 0 else crt s i)\<rparr>)) (
             retK p2)))
          else retK p1) (\<lambda>p2.
       thenK (modK (\<lambda>s. s\<lparr>crt_pos := word_of_int p2\<rparr>)) (
       modK (\<lambda>s. s\<lparr>crt := (crt s)(p2 := 0x20 OR 0x0700)\<rparr>))))"

definition cgaputc :: "int \<Rightarrow> (unit, 'z kcons_scheme) kop" where
  "cgaputc c =
     bindK (getK (\<lambda>s. uint (crt_pos s))) (\<lambda>p0.
     bindK
       (if c = 10 then retK (p0 + (80 - p0 mod 80))
        else if c = BACKSPACE then retK (if p0 > 0 then p0 - 1 else p0)
        else
          thenK (modK (\<lambda>s. s\<lparr>crt := (crt s)(p0 := (word_of_int c AND 0xff) OR 0x0700)\<rparr>)) (
          retK (p0 + 1)))
     cga_move)"

text \<open>After a panic every processor that prints stops here for ever.\<close>

definition consputc :: "int \<Rightarrow> (unit, 'z kcons_scheme) kop" where
  "consputc c =
     bindK (getK panicked) (\<lambda>dead.
     if dead then thenK cli Spin
     else
       thenK
         (if c = BACKSPACE then thenK (uartputc 8) (thenK (uartputc 0x20) (uartputc 8))
          else uartputc c) (
       cgaputc c))"

section \<open>Formatted output\<close>

definition digit :: "nat \<Rightarrow> int" where
  "digit d = (if d < 10 then 48 + int d else 97 + int d - 10)"

text \<open>The digits of \<open>x\<close> as the loop of \<^verbatim>\<open>printint\<close> stores them: the least significant first.\<close>

function digits_rev :: "nat \<Rightarrow> nat \<Rightarrow> int list" where
  "digits_rev base x = digit (x mod base) # (if base \<le> 1 \<or> x div base = 0 then [] else digits_rev base (x div base))"
  by pat_completeness auto
termination
  by (relation "measure snd") (auto simp: not_le div_greater_zero_iff intro!: div_less_dividend)

declare digits_rev.simps [simp del]

text \<open>What \<^verbatim>\<open>buf\<close> holds after the digits and the sign.\<close>

definition printint_buf :: "int \<Rightarrow> nat \<Rightarrow> bool \<Rightarrow> int list" where
  "printint_buf xx base sgnd =
     (let neg = sgnd \<and> xx < 0; x = (if neg then word_of_int (- xx) else word_of_int xx :: u32) in
      digits_rev base (unat x) @ (if neg then [45] else []))"

definition printint_chars :: "int \<Rightarrow> nat \<Rightarrow> bool \<Rightarrow> int list" where
  "printint_chars xx base sgnd = rev (printint_buf xx base sgnd)"

text \<open>
  The characters that a format string and its arguments stand for.  Too few arguments, or a string
  where a number is expected, have no meaning.
\<close>

fun cformat :: "byte list \<Rightarrow> carg list \<Rightarrow> int list option" where
  "cformat [] args = Some []"
| "cformat (c # fmt) args =
     (if c \<noteq> 0x25 then map_option ((#) (uint c)) (cformat fmt args)
      else (case fmt of
          [] \<Rightarrow> Some []
        | d # fmt' \<Rightarrow>
            (if d = 0x64 then
               (case args of CInt x # args' \<Rightarrow> map_option ((@) (printint_chars x 10 True)) (cformat fmt' args') | _ \<Rightarrow> None)
             else if d = 0x78 \<or> d = 0x70 then
               (case args of CInt x # args' \<Rightarrow> map_option ((@) (printint_chars x 16 False)) (cformat fmt' args') | _ \<Rightarrow> None)
             else if d = 0x73 then
               (case args of
                  CStr bs # args' \<Rightarrow> map_option ((@) (map sint (cstr bs))) (cformat fmt' args')
                | CInt x # args' \<Rightarrow>
                    (if x = 0 then map_option ((@) (map uint (bytes_of_string ''(null)''))) (cformat fmt' args') else None)
                | _ \<Rightarrow> None)
             else if d = 0x25 then map_option ((#) 0x25) (cformat fmt' args)
             else map_option ((@) [0x25, uint d]) (cformat fmt' args))))"

definition cprintf_con :: "byte list \<Rightarrow> carg list \<Rightarrow> (unit, 'z kcons_scheme) kop" where
  "cprintf_con fmt args =
     bindK (getK cons_locking) (\<lambda>locking.
     thenK (whenK locking (acquire ConsLock)) (
     case cformat (cstr fmt) args of
       None \<Rightarrow> (\<lambda>_. Fault)
     | Some cs \<Rightarrow>
         thenK (seqK (map consputc cs)) (
         whenK locking (release ConsLock))))"

text \<open>\<open>pcs\<close> are the return addresses that \<^verbatim>\<open>getcallerpcs\<close> finds on the stack.\<close>

definition panic_con :: "byte list \<Rightarrow> u32 list \<Rightarrow> (unit, 'z kcons_scheme) kop" where
  "panic_con msg pcs =
     thenK cli (
     thenK (modK (\<lambda>s. s\<lparr>cons_locking := False\<rparr>)) (
     bindK (getK (\<lambda>s. cpu_id s (this_cpu s))) (\<lambda>n.
     thenK (cprintf_con (bytes_of_string ''cpu%d: panic: '') [CInt (uint n)]) (
     thenK (cprintf_con msg []) (
     thenK (cprintf_con [10] []) (
     thenK (seqK (map (\<lambda>pc. cprintf_con (bytes_of_string '' %p'') [CInt (uint pc)]) pcs)) (
     thenK (modK (\<lambda>s. s\<lparr>panicked := True\<rparr>)) (
     Spin))))))))"

section \<open>Keyboard\<close>

definition KSHIFT :: u32 where "KSHIFT = 1"
definition KCTL :: u32 where "KCTL = 2"
definition KALT :: u32 where "KALT = 4"
definition CAPSLOCK :: u32 where "CAPSLOCK = 8"
definition NUMLOCK :: u32 where "NUMLOCK = 16"
definition SCROLLLOCK :: u32 where "SCROLLLOCK = 32"
definition E0ESC :: u32 where "E0ESC = 64"

text \<open>A table of 256 bytes: the first ones, then single entries; the rest is 0.\<close>

definition table256 :: "byte list \<Rightarrow> (nat \<times> byte) list \<Rightarrow> byte list" where
  "table256 xs us = fold (\<lambda>(i, v) t. t[i := v]) us (xs @ replicate (256 - length xs) 0)"

definition shiftcode :: "byte list" where
  "shiftcode = table256 [] [(0x1D, 2), (0x2A, 1), (0x36, 1), (0x38, 4), (0x9D, 2), (0xB8, 4)]"

definition togglecode :: "byte list" where
  "togglecode = table256 [] [(0x3A, 8), (0x45, 16), (0x46, 32)]"

definition normalmap :: "byte list" where
  "normalmap = table256
     [0x00, 0x1B, 0x31, 0x32, 0x33, 0x34, 0x35, 0x36, 0x37, 0x38, 0x39, 0x30, 0x2D, 0x3D, 0x08, 0x09,
      0x71, 0x77, 0x65, 0x72, 0x74, 0x79, 0x75, 0x69, 0x6F, 0x70, 0x5B, 0x5D, 0x0A, 0x00, 0x61, 0x73,
      0x64, 0x66, 0x67, 0x68, 0x6A, 0x6B, 0x6C, 0x3B, 0x27, 0x60, 0x00, 0x5C, 0x7A, 0x78, 0x63, 0x76,
      0x62, 0x6E, 0x6D, 0x2C, 0x2E, 0x2F, 0x00, 0x2A, 0x00, 0x20, 0x00, 0x00, 0x00, 0x00, 0x00, 0x00,
      0x00, 0x00, 0x00, 0x00, 0x00, 0x00, 0x00, 0x37, 0x38, 0x39, 0x2D, 0x34, 0x35, 0x36, 0x2B, 0x31,
      0x32, 0x33, 0x30, 0x2E, 0x00, 0x00, 0x00, 0x00]
     [(0x9C, 0x0A), (0xB5, 0x2F), (0xC8, 0xE2), (0xD0, 0xE3), (0xC9, 0xE6), (0xD1, 0xE7), (0xCB, 0xE4), (0xCD, 0xE5), (0x97, 0xE0), (0xCF, 0xE1), (0xD2, 0xE8), (0xD3, 0xE9)]"

definition shiftmap :: "byte list" where
  "shiftmap = table256
     [0x00, 0x1B, 0x21, 0x40, 0x23, 0x24, 0x25, 0x5E, 0x26, 0x2A, 0x28, 0x29, 0x5F, 0x2B, 0x08, 0x09,
      0x51, 0x57, 0x45, 0x52, 0x54, 0x59, 0x55, 0x49, 0x4F, 0x50, 0x7B, 0x7D, 0x0A, 0x00, 0x41, 0x53,
      0x44, 0x46, 0x47, 0x48, 0x4A, 0x4B, 0x4C, 0x3A, 0x22, 0x7E, 0x00, 0x7C, 0x5A, 0x58, 0x43, 0x56,
      0x42, 0x4E, 0x4D, 0x3C, 0x3E, 0x3F, 0x00, 0x2A, 0x00, 0x20, 0x00, 0x00, 0x00, 0x00, 0x00, 0x00,
      0x00, 0x00, 0x00, 0x00, 0x00, 0x00, 0x00, 0x37, 0x38, 0x39, 0x2D, 0x34, 0x35, 0x36, 0x2B, 0x31,
      0x32, 0x33, 0x30, 0x2E, 0x00, 0x00, 0x00, 0x00]
     [(0x9C, 0x0A), (0xB5, 0x2F), (0xC8, 0xE2), (0xD0, 0xE3), (0xC9, 0xE6), (0xD1, 0xE7), (0xCB, 0xE4), (0xCD, 0xE5), (0x97, 0xE0), (0xCF, 0xE1), (0xD2, 0xE8), (0xD3, 0xE9)]"

definition ctlmap :: "byte list" where
  "ctlmap = table256
     [0x00, 0x00, 0x00, 0x00, 0x00, 0x00, 0x00, 0x00, 0x00, 0x00, 0x00, 0x00, 0x00, 0x00, 0x00, 0x00,
      0x11, 0x17, 0x05, 0x12, 0x14, 0x19, 0x15, 0x09, 0x0F, 0x10, 0x00, 0x00, 0x0D, 0x00, 0x01, 0x13,
      0x04, 0x06, 0x07, 0x08, 0x0A, 0x0B, 0x0C, 0x00, 0x00, 0x00, 0x00, 0x1C, 0x1A, 0x18, 0x03, 0x16,
      0x02, 0x0E, 0x0D, 0x00, 0x00, 0xEF, 0x00, 0x00]
     [(0x9C, 0x0D), (0xB5, 0xEF), (0xC8, 0xE2), (0xD0, 0xE3), (0xC9, 0xE6), (0xD1, 0xE7), (0xCB, 0xE4), (0xCD, 0xE5), (0x97, 0xE0), (0xCF, 0xE1), (0xD2, 0xE8), (0xD3, 0xE9)]"

definition charcode :: "u32 \<Rightarrow> byte list" where
  "charcode sh = (if sh = 0 then normalmap else if sh = 1 then shiftmap else ctlmap)"

text \<open>One byte from the keyboard: the new shift state and the character.\<close>

definition kbd_step :: "u32 \<Rightarrow> u32 \<Rightarrow> u32 \<times> u32" where
  "kbd_step sh d =
     (if d = 0xE0 then (sh OR E0ESC, 0)
      else if d AND 0x80 \<noteq> 0 then
        (let d' = (if sh AND E0ESC \<noteq> 0 then d else d AND 0x7F) in
         (sh AND NOT (ucast (shiftcode ! unat d') OR E0ESC), 0))
      else
        (let (d', sh1) = (if sh AND E0ESC \<noteq> 0 then (d OR 0x80, sh AND NOT E0ESC) else (d, sh));
             sh2 = sh1 OR ucast (shiftcode ! unat d');
             sh3 = sh2 XOR ucast (togglecode ! unat d');
             c = ucast (charcode (sh3 AND (KCTL OR KSHIFT)) ! unat d') in
         (sh3,
          if sh3 AND CAPSLOCK \<noteq> 0 then
            (if 0x61 \<le> c \<and> c \<le> 0x7A then c - 0x20 else if 0x41 \<le> c \<and> c \<le> 0x5A then c + 0x20 else c)
          else c)))"

definition kbdgetc :: "(int, 'z kcons_scheme) kop" where
  "kbdgetc =
     bindK (getK (\<lambda>s. (kbd_in s, kbd_shift s))) (\<lambda>(inp, sh).
     case inp of
       [] \<Rightarrow> retK (- 1)
     | b # bs \<Rightarrow>
         (let (sh', c) = kbd_step sh (ucast b) in
          thenK (modK (\<lambda>s. s\<lparr>kbd_in := bs, kbd_shift := sh'\<rparr>)) (retK (uint c))))"

section \<open>Input\<close>

definition ctrl :: "char \<Rightarrow> int" where
  "ctrl x = int (of_char x) - 64"

definition input_at :: "'z kcons_scheme \<Rightarrow> u32 \<Rightarrow> byte" where
  "input_at s i = input_buf s ! (unat i mod INPUT_BUF)"

text \<open>Control-U: the loop removes one character a round, at most those after \<^verbatim>\<open>input.w\<close>.\<close>

fun killline :: "nat \<Rightarrow> (unit, 'z kcons_scheme) kop" where
  "killline n =
     bindK (getK (\<lambda>s. (input_e s, input_w s, input_at s (input_e s - 1)))) (\<lambda>(e, w, b).
     if e \<noteq> w \<and> b \<noteq> 10 then
       (case n of
          0 \<Rightarrow> (\<lambda>_. NoFuel)
        | Suc n' \<Rightarrow>
            thenK (modK (\<lambda>s. s\<lparr>input_e := input_e s - 1\<rparr>)) (
            thenK (consputc BACKSPACE) (killline n')))
     else retK ())"

declare killline.simps [simp del]

definition put_input :: "int \<Rightarrow> (unit, 'z kcons_scheme) kop" where
  "put_input c =
     bindK (getK (\<lambda>s. input_e s - input_r s)) (\<lambda>used.
     whenK (c \<noteq> 0 \<and> used < of_nat INPUT_BUF) (
       let c = (if c = 13 then 10 else c) in
       thenK (modK (\<lambda>s. s\<lparr>input_buf := (input_buf s)[unat (input_e s) mod INPUT_BUF := word_of_int c],
         input_e := input_e s + 1\<rparr>)) (
       thenK (consputc c) (
       bindK (getK (\<lambda>s. input_e s = input_r s + of_nat INPUT_BUF)) (\<lambda>full.
       whenK (c = 10 \<or> c = ctrl (CHR ''D'') \<or> full) (
         thenK (modK (\<lambda>s. s\<lparr>input_w := input_e s\<rparr>)) (
         wakeup ChanInput)))))))"

text \<open>One character: whether a process listing was asked for.\<close>

definition consoleintr_char :: "int \<Rightarrow> (bool, 'z kcons_scheme) kop" where
  "consoleintr_char c =
     (if c = ctrl (CHR ''P'') then retK True
      else if c = ctrl (CHR ''U'') then
        bindK (getK (\<lambda>s. unat (input_e s - input_w s))) (\<lambda>n. thenK (killline n) (retK False))
      else if c = ctrl (CHR ''H'') \<or> c = 0x7f then
        bindK (getK (\<lambda>s. input_e s \<noteq> input_w s)) (\<lambda>b.
        thenK (whenK b (
          thenK (modK (\<lambda>s. s\<lparr>input_e := input_e s - 1\<rparr>)) (consputc BACKSPACE))) (retK False))
      else thenK (put_input c) (retK False))"

fun consoleintr_loop :: "nat \<Rightarrow> (int, 'z kcons_scheme) kop \<Rightarrow> bool \<Rightarrow> (bool, 'z kcons_scheme) kop" where
  "consoleintr_loop n getc dump =
     bindK getc (\<lambda>c.
     if c < 0 then retK dump
     else (case n of
         0 \<Rightarrow> (\<lambda>_. NoFuel)
       | Suc n' \<Rightarrow> bindK (consoleintr_char c) (\<lambda>d. consoleintr_loop n' getc (dump \<or> d))))"

declare consoleintr_loop.simps [simp del]

text \<open>The device holds \<open>n\<close> bytes.\<close>

definition consoleintr :: "nat \<Rightarrow> (int, 'z kcons_scheme) kop \<Rightarrow> (unit, 'z kcons_scheme) kop" where
  "consoleintr n getc =
     thenK (acquire ConsLock) (
     bindK (consoleintr_loop n getc False) (\<lambda>dump.
     thenK (release ConsLock) (
     whenK dump procdump)))"

definition kbdintr :: "(unit, 'z kcons_scheme) kop" where
  "kbdintr = bindK (getK (\<lambda>s. length (kbd_in s))) (\<lambda>n. consoleintr n kbdgetc)"

definition uartintr :: "(unit, 'z kcons_scheme) kop" where
  "uartintr = bindK (getK (\<lambda>s. length (uart_in s))) (\<lambda>n. consoleintr n uartgetc)"

section \<open>Reading and writing the console\<close>

text \<open>
  The loop of \<^verbatim>\<open>consoleread\<close> with the lock held: \<open>n\<close> bytes are still wanted of \<open>target\<close>, and \<open>dst\<close> is
  where the next one goes.  A process that slept enters it again.
\<close>

fun consoleread_loop :: "nat \<Rightarrow> addr \<Rightarrow> nat \<Rightarrow> nat \<Rightarrow> (int, 'z kcons_scheme) kop" where
  "consoleread_loop ip dst target n =
     (let finish = (\<lambda>n. thenK (release ConsLock) (thenK (ilock ip) (retK (int target - int n)))) in
      case n of
        0 \<Rightarrow> finish 0
      | Suc n' \<Rightarrow>
          bindK (getK (\<lambda>s. (input_r s, input_w s))) (\<lambda>(r, w).
          if r = w then
            with_proc (\<lambda>p.
            bindK (getK (\<lambda>s. killed (ptable s ! p))) (\<lambda>k.
            if k then thenK (release ConsLock) (thenK (ilock ip) (retK (- 1)))
            else sleep ChanInput ConsLock))
          else
            bindK (getK (\<lambda>s. input_at s r)) (\<lambda>c.
            thenK (modK (\<lambda>s. s\<lparr>input_r := r + 1\<rparr>)) (
            if uint c = ctrl (CHR ''D'') then
              thenK (whenK (n < target) (modK (\<lambda>s. s\<lparr>input_r := input_r s - 1\<rparr>))) (
              finish n)
            else
              thenK (ustore1 dst c) (
              if c = 10 then finish n' else consoleread_loop ip (dst + 1) target n')))))"

declare consoleread_loop.simps [simp del]

text \<open>
  A negative count converts to a large target, and the loop is not entered: the result is 0.
\<close>

definition consoleread :: "nat \<Rightarrow> addr \<Rightarrow> int \<Rightarrow> (int, 'z kcons_scheme) kop" where
  "consoleread ip dst n =
     thenK (iunlock ip) (
     thenK (acquire ConsLock) (
     consoleread_loop ip dst (nat n) (nat n)))"

definition consoleread_resume :: "nat \<Rightarrow> addr \<Rightarrow> nat \<Rightarrow> nat \<Rightarrow> (int, 'z kcons_scheme) kop" where
  "consoleread_resume ip dst target n = thenK (sleep_resume ConsLock) (consoleread_loop ip dst target n)"

fun consolewrite_loop :: "addr \<Rightarrow> nat \<Rightarrow> (unit, 'z kcons_scheme) kop" where
  "consolewrite_loop buf 0 = retK ()"
| "consolewrite_loop buf (Suc n) =
     bindK (uload1 buf) (\<lambda>b. thenK (consputc (uint b)) (consolewrite_loop (buf + 1) n))"

definition consolewrite :: "nat \<Rightarrow> addr \<Rightarrow> int \<Rightarrow> (int, 'z kcons_scheme) kop" where
  "consolewrite ip buf n =
     thenK (iunlock ip) (
     thenK (acquire ConsLock) (
     thenK (consolewrite_loop buf (nat n)) (
     thenK (release ConsLock) (
     thenK (ilock ip) (
     retK n)))))"

definition consoleinit :: "(unit, 'z kcons_scheme) kop" where
  "consoleinit =
     thenK (initlock ConsLock ''console'') (
     thenK (modK (\<lambda>s. s\<lparr>devsw := (devsw s)[CONSOLE := \<lparr>dv_read = Some Consoleread, dv_write = Some Consolewrite\<rparr>]\<rparr>)) (
     thenK (modK (\<lambda>s. s\<lparr>cons_locking := True\<rparr>)) (
     thenK (picenable IRQ_KBD) (
     ioapicenable IRQ_KBD 0))))"

section \<open>Inodes that may be devices\<close>

definition dev_read :: "devfn \<Rightarrow> nat \<Rightarrow> addr \<Rightarrow> int \<Rightarrow> (int, 'z kcons_scheme) kop" where
  "dev_read f ip dst n = (case f of Consoleread \<Rightarrow> consoleread ip dst n | Consolewrite \<Rightarrow> consolewrite ip dst n)"

definition dev_fn :: "(devsw \<Rightarrow> devfn option) \<Rightarrow> inode \<Rightarrow> (devfn option, 'z kcons_scheme) kop" where
  "dev_fn sel ip =
     bindK (getK devsw) (\<lambda>ds.
     if sint (imajor ip) < 0 \<or> sint (imajor ip) \<ge> int NDEV then retK None
     else retK (sel (ds ! unat (imajor ip))))"

definition readi :: "nat \<Rightarrow> addr \<Rightarrow> u32 \<Rightarrow> u32 \<Rightarrow> (int, 'z kcons_scheme) kop" where
  "readi i dst off n =
     bindK (get_inode i) (\<lambda>ip.
     if itype ip = T_DEV then
       bindK (dev_fn dv_read ip) (\<lambda>f.
       case f of
         None \<Rightarrow> retK (- 1)
       | Some f \<Rightarrow> dev_read f i dst (sint n))
     else
       bindK (readi_file i off n) (\<lambda>r.
       case r of
         None \<Rightarrow> retK (- 1)
       | Some bs \<Rightarrow> thenK (ustore dst bs) (retK (int (length bs)))))"

definition writei :: "nat \<Rightarrow> addr \<Rightarrow> u32 \<Rightarrow> u32 \<Rightarrow> (int, 'z kcons_scheme) kop" where
  "writei i src off n =
     bindK (get_inode i) (\<lambda>ip.
     if itype ip = T_DEV then
       bindK (dev_fn dv_write ip) (\<lambda>f.
       case f of
         None \<Rightarrow> retK (- 1)
       | Some f \<Rightarrow> dev_read f i src (sint n))
     else if off > isize ip \<or> off + n < off then retK (- 1)
     else if off + n > of_nat (MAXFILE * BSIZE) then retK (- 1)
     else
       bindK (uload src (unat n)) (\<lambda>bs.
       bindK (writei_file i bs off) (\<lambda>r.
       case r of None \<Rightarrow> retK (- 1) | Some m \<Rightarrow> retK (sint m))))"

end
