(* ===== verification/Pipe.thy ===== *)
theory Pipe
  imports Console
begin

text \<open>
  Pipes (\<^verbatim>\<open>pipe.c\<close>).  A pipe lies in a page of its own, and the address of the page names it; its
  content is \<open>pipes p\<close>.  \<^verbatim>\<open>nread\<close> and \<^verbatim>\<open>nwrite\<close> count bytes and wrap around at 32 bits.  \<^verbatim>\<open>pipealloc\<close> is
  with the file table, which it calls.
\<close>

section \<open>State\<close>

definition PIPESIZE :: nat where "PIPESIZE = 512"

record pipe =
  pdata :: "byte list"
  nread :: u32
  nwrite :: u32
  readopen :: bool
  writeopen :: bool

record kpipe = kcons +
  pipes :: "addr \<Rightarrow> pipe"

definition upd_pipe :: "addr \<Rightarrow> (pipe \<Rightarrow> pipe) \<Rightarrow> (unit, 'z kpipe_scheme) kop" where
  "upd_pipe p f = modK (\<lambda>s. s\<lparr>pipes := (pipes s)(p := f (pipes s p))\<rparr>)"

definition get_pipe :: "addr \<Rightarrow> (pipe, 'z kpipe_scheme) kop" where
  "get_pipe p = getK (\<lambda>s. pipes s p)"

section \<open>The ring buffer\<close>

definition pipe_full :: "pipe \<Rightarrow> bool" where
  "pipe_full q \<longleftrightarrow> nwrite q = nread q + of_nat PIPESIZE"

definition pipe_empty :: "pipe \<Rightarrow> bool" where
  "pipe_empty q \<longleftrightarrow> nread q = nwrite q"

definition put_byte :: "byte \<Rightarrow> pipe \<Rightarrow> pipe" where
  "put_byte b q = q\<lparr>pdata := (pdata q)[unat (nwrite q) mod PIPESIZE := b], nwrite := nwrite q + 1\<rparr>"

definition next_byte :: "pipe \<Rightarrow> byte" where
  "next_byte q = pdata q ! (unat (nread q) mod PIPESIZE)"

definition take_byte :: "pipe \<Rightarrow> pipe" where
  "take_byte q = q\<lparr>nread := nread q + 1\<rparr>"

section \<open>Operations\<close>

definition pipeclose :: "addr \<Rightarrow> bool \<Rightarrow> (unit, 'z kpipe_scheme) kop" where
  "pipeclose p w =
     thenK (acquire (PipeLock p)) (
     thenK
       (if w then thenK (upd_pipe p (\<lambda>q. q\<lparr>writeopen := False\<rparr>)) (wakeup (ChanNread p))
        else thenK (upd_pipe p (\<lambda>q. q\<lparr>readopen := False\<rparr>)) (wakeup (ChanNwrite p))) (
     bindK (get_pipe p) (\<lambda>q.
     if \<not> readopen q \<and> \<not> writeopen q then thenK (release (PipeLock p)) (kfree p)
     else release (PipeLock p))))"

definition cur_killed :: "(bool, 'z kproc_scheme) kop" where
  "cur_killed = with_proc (\<lambda>p. getK (\<lambda>s. killed (ptable s ! p)))"

text \<open>
  \<^verbatim>\<open>pipewrite\<close> with the lock held, \<open>k\<close> bytes at \<open>a\<close> still to be written of \<open>n\<close>; a writer that slept goes
  on here.
\<close>

fun pipewrite_loop :: "addr \<Rightarrow> addr \<Rightarrow> int \<Rightarrow> nat \<Rightarrow> (int, 'z kpipe_scheme) kop" where
  "pipewrite_loop p a n 0 =
     thenK (wakeup (ChanNread p)) (
     thenK (release (PipeLock p)) (
     retK n))"
| "pipewrite_loop p a n (Suc k) =
     bindK (get_pipe p) (\<lambda>q.
     if pipe_full q then
       bindK cur_killed (\<lambda>dead.
       if \<not> readopen q \<or> dead then thenK (release (PipeLock p)) (retK (- 1))
       else thenK (wakeup (ChanNread p)) (sleep (ChanNwrite p) (PipeLock p)))
     else
       bindK (uload1 a) (\<lambda>b.
       thenK (upd_pipe p (put_byte b)) (
       pipewrite_loop p (a + 1) n k)))"

definition pipewrite :: "addr \<Rightarrow> addr \<Rightarrow> int \<Rightarrow> (int, 'z kpipe_scheme) kop" where
  "pipewrite p a n = thenK (acquire (PipeLock p)) (pipewrite_loop p a n (nat n))"

definition pipewrite_resume :: "addr \<Rightarrow> addr \<Rightarrow> int \<Rightarrow> nat \<Rightarrow> (int, 'z kpipe_scheme) kop" where
  "pipewrite_resume p a n k = thenK (sleep_resume (PipeLock p)) (pipewrite_loop p a n k)"

fun piperead_copy :: "addr \<Rightarrow> addr \<Rightarrow> int \<Rightarrow> nat \<Rightarrow> (int, 'z kpipe_scheme) kop" where
  "piperead_copy p a i 0 = retK i"
| "piperead_copy p a i (Suc k) =
     bindK (get_pipe p) (\<lambda>q.
     if pipe_empty q then retK i
     else
       thenK (upd_pipe p take_byte) (
       thenK (ustore1 a (next_byte q)) (
       piperead_copy p (a + 1) (i + 1) k)))"

definition piperead_loop :: "addr \<Rightarrow> addr \<Rightarrow> int \<Rightarrow> (int, 'z kpipe_scheme) kop" where
  "piperead_loop p a n =
     bindK (get_pipe p) (\<lambda>q.
     if pipe_empty q \<and> writeopen q then
       bindK cur_killed (\<lambda>dead.
       if dead then thenK (release (PipeLock p)) (retK (- 1))
       else sleep (ChanNread p) (PipeLock p))
     else
       bindK (piperead_copy p a 0 (nat n)) (\<lambda>i.
       thenK (wakeup (ChanNwrite p)) (
       thenK (release (PipeLock p)) (
       retK i))))"

definition piperead :: "addr \<Rightarrow> addr \<Rightarrow> int \<Rightarrow> (int, 'z kpipe_scheme) kop" where
  "piperead p a n = thenK (acquire (PipeLock p)) (piperead_loop p a n)"

definition piperead_resume :: "addr \<Rightarrow> addr \<Rightarrow> int \<Rightarrow> (int, 'z kpipe_scheme) kop" where
  "piperead_resume p a n = thenK (sleep_resume (PipeLock p)) (piperead_loop p a n)"

end
