(* ===== verification/File.thy ===== *)
theory File
  imports Pipe
begin

text \<open>
  Open files (\<^verbatim>\<open>file.c\<close>, \<^verbatim>\<open>file.h\<close>) and \<^verbatim>\<open>pipealloc\<close> of \<^verbatim>\<open>pipe.c\<close>.  A pointer to a file is its index in
  \<^verbatim>\<open>ftable.file\<close>.  Data moves between the file and the memory of the current process at a user address.
\<close>

section \<open>State\<close>

datatype filetype = FD_NONE | FD_PIPE | FD_INODE

record kfile_entry =
  ftype :: filetype
  fref :: int
  readable :: bool
  writable :: bool
  fpipe :: addr
  fip :: nat
  foff :: u32

record kfile = kpipe +
  ftable :: "kfile_entry list"

definition upd_file :: "nat \<Rightarrow> (kfile_entry \<Rightarrow> kfile_entry) \<Rightarrow> (unit, 'z kfile_scheme) kop" where
  "upd_file i f = modK (\<lambda>s. s\<lparr>ftable := (ftable s)[i := f (ftable s ! i)]\<rparr>)"

definition get_file :: "nat \<Rightarrow> (kfile_entry, 'z kfile_scheme) kop" where
  "get_file i = getK (\<lambda>s. ftable s ! i)"

section \<open>The file table\<close>

definition fileinit :: "(unit, 'z kfile_scheme) kop" where
  "fileinit = initlock FtableLock ''ftable''"

definition filealloc :: "(nat option, 'z kfile_scheme) kop" where
  "filealloc =
     thenK (acquire FtableLock) (
     bindK (getK ftable) (\<lambda>fs.
     case find_index (\<lambda>f. fref f = 0) fs of
       Some i \<Rightarrow>
         thenK (upd_file i (\<lambda>f. f\<lparr>fref := 1\<rparr>)) (
         thenK (release FtableLock) (
         retK (Some i)))
     | None \<Rightarrow> thenK (release FtableLock) (retK None)))"

definition filedup :: "nat \<Rightarrow> (nat, 'z kfile_scheme) kop" where
  "filedup i =
     thenK (acquire FtableLock) (
     bindK (get_file i) (\<lambda>f.
     if fref f < 1 then panicK ''filedup''
     else
       thenK (upd_file i (\<lambda>f. f\<lparr>fref := s32 (fref f + 1)\<rparr>)) (
       thenK (release FtableLock) (
       retK i))))"

definition fileclose :: "nat \<Rightarrow> (unit, 'z kfile_scheme) kop" where
  "fileclose i =
     thenK (acquire FtableLock) (
     bindK (get_file i) (\<lambda>f.
     if fref f < 1 then panicK ''fileclose''
     else
       thenK (upd_file i (\<lambda>f. f\<lparr>fref := fref f - 1\<rparr>)) (
       if fref f - 1 > 0 then release FtableLock
       else
         bindK (get_file i) (\<lambda>ff.
         thenK (upd_file i (\<lambda>f. f\<lparr>fref := 0, ftype := FD_NONE\<rparr>)) (
         thenK (release FtableLock) (
         case ftype ff of
           FD_PIPE \<Rightarrow> pipeclose (fpipe ff) (writable ff)
         | FD_INODE \<Rightarrow> thenK begin_op (thenK (iput (fip ff)) end_op)
         | FD_NONE \<Rightarrow> retK ()))))))"

section \<open>Metadata, reading and writing\<close>

text \<open>The fields of \<^verbatim>\<open>struct stat\<close>, stored one by one: the padding keeps its content.\<close>

definition store_stat :: "addr \<Rightarrow> stat \<Rightarrow> (unit, 'z kmem_scheme) kop" where
  "store_stat a st =
     thenK (ustore (a + 4) (map (\<lambda>k. byte_of k (word_of_int (st_dev st))) [0..<4])) (
     thenK (ustore32 (a + 8) (st_ino st)) (
     thenK (ustore a [ucast (st_type st), ucast (drop_bit 8 (st_type st))]) (
     thenK (ustore (a + 12) [ucast (st_nlink st), ucast (drop_bit 8 (st_nlink st))]) (
     ustore32 (a + 16) (st_size st)))))"

definition filestat :: "nat \<Rightarrow> addr \<Rightarrow> (int, 'z kfile_scheme) kop" where
  "filestat i st =
     bindK (get_file i) (\<lambda>f.
     if ftype f = FD_INODE then
       thenK (ilock (fip f)) (
       bindK (get_inode (fip f)) (\<lambda>ip.
       thenK (store_stat st (stati ip)) (
       thenK (iunlock (fip f)) (
       retK 0))))
     else retK (- 1))"

definition fileread :: "nat \<Rightarrow> addr \<Rightarrow> int \<Rightarrow> (int, 'z kfile_scheme) kop" where
  "fileread i a n =
     bindK (get_file i) (\<lambda>f.
     if \<not> readable f then retK (- 1)
     else (case ftype f of
         FD_PIPE \<Rightarrow> piperead (fpipe f) a n
       | FD_INODE \<Rightarrow>
           thenK (ilock (fip f)) (
           bindK (readi (fip f) a (foff f) (word_of_int n)) (\<lambda>r.
           thenK (whenK (r > 0) (upd_file i (\<lambda>f. f\<lparr>foff := foff f + word_of_int r\<rparr>))) (
           thenK (iunlock (fip f)) (
           retK r))))
       | FD_NONE \<Rightarrow> panicK ''fileread''))"

definition max_write :: int where
  "max_write = ((int LOGSIZE - 1 - 1 - 2) div 2) * 512"

text \<open>Every round of the loop of \<^verbatim>\<open>filewrite\<close> writes at least a byte or leaves it.\<close>

fun filewrite_loop :: "nat \<Rightarrow> nat \<Rightarrow> addr \<Rightarrow> int \<Rightarrow> int \<Rightarrow> (int, 'z kfile_scheme) kop" where
  "filewrite_loop fuel fi a n i =
     (if i < n then
        (let n1 = min (n - i) max_write in
         thenK begin_op (
         bindK (get_file fi) (\<lambda>f.
         thenK (ilock (fip f)) (
         bindK (writei (fip f) (a + word_of_int i) (foff f) (word_of_int n1)) (\<lambda>r.
         thenK (whenK (r > 0) (upd_file fi (\<lambda>f. f\<lparr>foff := foff f + word_of_int r\<rparr>))) (
         thenK (iunlock (fip f)) (
         thenK end_op (
         if r < 0 then retK i
         else if r \<noteq> n1 then panicK ''short filewrite''
         else (case fuel of
             0 \<Rightarrow> (\<lambda>_. NoFuel)
           | Suc fuel' \<Rightarrow> filewrite_loop fuel' fi a n (i + r))))))))))
      else retK i)"

declare filewrite_loop.simps [simp del]

definition filewrite :: "nat \<Rightarrow> addr \<Rightarrow> int \<Rightarrow> (int, 'z kfile_scheme) kop" where
  "filewrite fi a n =
     bindK (get_file fi) (\<lambda>f.
     if \<not> writable f then retK (- 1)
     else (case ftype f of
         FD_PIPE \<Rightarrow> pipewrite (fpipe f) a n
       | FD_INODE \<Rightarrow>
           bindK (filewrite_loop (nat n) fi a n 0) (\<lambda>i.
           retK (if i = n then n else - 1))
       | FD_NONE \<Rightarrow> panicK ''filewrite''))"

section \<open>Creating a pipe\<close>

definition pipealloc :: "((nat \<times> nat) option, 'z kfile_scheme) kop" where
  "pipealloc =
     bindK filealloc (\<lambda>f0.
     case f0 of
       None \<Rightarrow> retK None
     | Some i0 \<Rightarrow>
         bindK filealloc (\<lambda>f1.
         case f1 of
           None \<Rightarrow> thenK (fileclose i0) (retK None)
         | Some i1 \<Rightarrow>
             bindK kalloc (\<lambda>p.
             if p = 0 then thenK (fileclose i0) (thenK (fileclose i1) (retK None))
             else
               thenK (upd_pipe p (\<lambda>q. q\<lparr>readopen := True, writeopen := True, nwrite := 0, nread := 0\<rparr>)) (
               thenK (initlock (PipeLock p) ''pipe'') (
               thenK (upd_file i0 (\<lambda>f. f\<lparr>ftype := FD_PIPE, readable := True, writable := False, fpipe := p\<rparr>)) (
               thenK (upd_file i1 (\<lambda>f. f\<lparr>ftype := FD_PIPE, readable := False, writable := True, fpipe := p\<rparr>)) (
               retK (Some (i0, i1)))))))))"

end
