(* ===== verification/ProcLife.thy ===== *)
theory ProcLife
  imports File
begin

unbundle bit_operations_syntax

text \<open>
  The life of a process (\<^verbatim>\<open>proc.c\<close>): \<^verbatim>\<open>userinit\<close>, \<^verbatim>\<open>fork\<close> with the number of tickets of the child,
  \<^verbatim>\<open>exit\<close>, \<^verbatim>\<open>wait\<close> and \<^verbatim>\<open>forkret\<close>.  The state gets what is left of the kernel's variables: the static
  variable of \<^verbatim>\<open>forkret\<close>, the clock, the trap table and the segment descriptors, and where the compiler
  puts the local variables \<^verbatim>\<open>elf\<close> and \<^verbatim>\<open>ph\<close> of \<^verbatim>\<open>exec\<close> on a kernel stack.
\<close>

section \<open>State\<close>

record gatedesc =
  g_off :: u32
  g_cs :: u16
  g_trap :: bool
  g_dpl :: nat

record segdesc =
  sg_type :: nat
  sg_base :: u32
  sg_lim :: u32
  sg_dpl :: nat

record ksys = kfile +
  forkret_first :: bool
  ticks :: u32
  cr2 :: u32
  idt :: "gatedesc list"
  idt_loaded :: "nat \<Rightarrow> bool"
  gdts :: "nat \<Rightarrow> segdesc list"
  sym_vectors :: "nat \<Rightarrow> u32"
  exec_elf :: u32
  exec_ph :: u32

definition SEG_KCODE :: nat where "SEG_KCODE = 1"
definition SEG_KDATA :: nat where "SEG_KDATA = 2"
definition SEG_KCPU :: nat where "SEG_KCPU = 3"
definition SEG_UCODE :: nat where "SEG_UCODE = 4"
definition SEG_UDATA :: nat where "SEG_UDATA = 5"
definition DPL_USER :: nat where "DPL_USER = 3"
definition FL_IF :: u32 where "FL_IF = 0x200"

lemmas seg_defs = SEG_KCODE_def SEG_KDATA_def SEG_KCPU_def SEG_UCODE_def SEG_UDATA_def DPL_USER_def

section \<open>Segments\<close>

text \<open>
  \<^verbatim>\<open>seginit\<close> of \<^verbatim>\<open>vm.c\<close>, for the processor that runs it; \<open>pcpu\<close> is the address of its variable \<^verbatim>\<open>cpu\<close>.
  A descriptor keeps type, base, limit and privilege level; the other fields of \<^verbatim>\<open>SEG\<close> are constant.
\<close>

definition SEG :: "nat \<Rightarrow> u32 \<Rightarrow> u32 \<Rightarrow> nat \<Rightarrow> segdesc" where
  "SEG ty base lim dpl = \<lparr>sg_type = ty, sg_base = base, sg_lim = lim, sg_dpl = dpl\<rparr>"

definition seginit :: "u32 \<Rightarrow> u32 \<Rightarrow> (unit, 'z ksys_scheme) kop" where
  "seginit ra pcpu =
     bindK (cpunum ra) (\<lambda>c.
     thenK (modK (\<lambda>s. s\<lparr>gdts := (gdts s)(c := (gdts s c)
       [SEG_KCODE := SEG (0x8 + 0x2) 0 0xffffffff 0,
        SEG_KDATA := SEG 0x2 0 0xffffffff 0,
        SEG_UCODE := SEG (0x8 + 0x2) 0 0xffffffff DPL_USER,
        SEG_UDATA := SEG 0x2 0 0xffffffff DPL_USER,
        SEG_KCPU := SEG 0x2 pcpu 8 0])\<rparr>)) (
     thenK (modK (\<lambda>s. s\<lparr>this_cpu := c\<rparr>)) (
     set_proc None)))"

section \<open>Creating processes\<close>

text \<open>\<^verbatim>\<open>safestrcpy\<close> into the 16 bytes of a process name.\<close>

definition set_name :: "byte list \<Rightarrow> byte list \<Rightarrow> byte list" where
  "set_name old src = splice old 0 (take 15 (cstr src) @ [0])"

text \<open>\<open>initcode\<close> is the binary that the linker embeds in the kernel.\<close>

definition userinit :: "byte list \<Rightarrow> (unit, 'z ksys_scheme) kop" where
  "userinit initcode =
     bindK (allocproc DEFAULT_TICKETS) (\<lambda>r.
     thenK (modK (\<lambda>s. s\<lparr>initproc := r\<rparr>)) (
     case r of
       None \<Rightarrow> (\<lambda>_. Fault)
     | Some p \<Rightarrow>
         bindK setupkvm (\<lambda>d.
         thenK (upd_proc p (\<lambda>q. q\<lparr>pgdir := d\<rparr>)) (
         if d = 0 then panicK ''userinit: out of memory?''
         else
           thenK (inituvm d initcode) (
           thenK (upd_proc p (\<lambda>q. q\<lparr>sz := of_nat PGSIZE\<rparr>)) (
           bindK (getK (\<lambda>s. tf (ptable s ! p))) (\<lambda>t.
           thenK (fill t 0 sizeof_trapframe) (
           thenK (tf_put16 t TF_CS (of_nat (SEG_UCODE * 8) OR of_nat DPL_USER)) (
           thenK (tf_put16 t TF_DS (of_nat (SEG_UDATA * 8) OR of_nat DPL_USER)) (
           thenK (tf_put16 t TF_ES (of_nat (SEG_UDATA * 8) OR of_nat DPL_USER)) (
           thenK (tf_put16 t TF_SS (of_nat (SEG_UDATA * 8) OR of_nat DPL_USER)) (
           thenK (tf_put t TF_EFLAGS FL_IF) (
           thenK (tf_put t TF_ESP (of_nat PGSIZE)) (
           thenK (tf_put t TF_EIP 0) (
           thenK (upd_proc p (\<lambda>q. q\<lparr>pname := set_name (pname q) (bytes_of_string ''initcode'')\<rparr>)) (
           bindK (namei [SLASH]) (\<lambda>c.
           thenK (upd_proc p (\<lambda>q. q\<lparr>cwd := c\<rparr>)) (
           upd_proc p (\<lambda>q. q\<lparr>state := RUNNABLE\<rparr>)))))))))))))))))))"

text \<open>The number of tickets that \<^verbatim>\<open>fork\<close> gives to \<^verbatim>\<open>allocproc\<close>.\<close>

definition clamp_tickets :: "int \<Rightarrow> int" where
  "clamp_tickets stride =
     (if stride = 0 then DEFAULT_TICKETS
      else if stride < MIN_TICKETS then MIN_TICKETS
      else if stride > MAX_TICKETS then MAX_TICKETS
      else stride)"

text \<open>The child gets the open files of its parent.\<close>

fun dup_files :: "nat list \<Rightarrow> nat \<Rightarrow> nat \<Rightarrow> (unit, 'z kfile_scheme) kop" where
  "dup_files [] p np = retK ()"
| "dup_files (i # is) p np =
     bindK (getK (\<lambda>s. ofile (ptable s ! p) ! i)) (\<lambda>f.
     thenK (case f of
         None \<Rightarrow> retK ()
       | Some k \<Rightarrow> bindK (filedup k) (\<lambda>k'. upd_proc np (\<lambda>q. q\<lparr>ofile := (ofile q)[i := Some k']\<rparr>))) (
     dup_files is p np))"

definition fork :: "int \<Rightarrow> (int, 'z ksys_scheme) kop" where
  "fork stride =
     bindK (allocproc (clamp_tickets stride)) (\<lambda>r.
     case r of
       None \<Rightarrow> retK (- 1)
     | Some np \<Rightarrow>
         with_proc (\<lambda>p.
         bindK (getK (\<lambda>s. ptable s ! p)) (\<lambda>me.
         bindK (copyuvm (pgdir me) (sz me)) (\<lambda>d.
         thenK (upd_proc np (\<lambda>q. q\<lparr>pgdir := d\<rparr>)) (
         if d = 0 then
           bindK (getK (\<lambda>s. kstack (ptable s ! np))) (\<lambda>ks.
           thenK (kfree ks) (
           thenK (upd_proc np (\<lambda>q. q\<lparr>kstack := 0\<rparr>)) (
           thenK (upd_proc np (\<lambda>q. q\<lparr>state := UNUSED\<rparr>)) (
           retK (- 1)))))
         else
           thenK (upd_proc np (\<lambda>q. q\<lparr>sz := sz me, parent := Some p\<rparr>)) (
           bindK (getK (\<lambda>s. tf (ptable s ! np))) (\<lambda>t.
           thenK (move t (tf me) sizeof_trapframe) (
           thenK (tf_put t TF_EAX 0) (
           thenK (dup_files [0..<NOFILE] p np) (
           bindK (case cwd me of None \<Rightarrow> (\<lambda>_. Fault) | Some c \<Rightarrow> idup c) (\<lambda>c.
           thenK (upd_proc np (\<lambda>q. q\<lparr>cwd := Some c\<rparr>)) (
           thenK (upd_proc np (\<lambda>q. q\<lparr>pname := set_name (pname q) (pname me)\<rparr>)) (
           bindK (getK (\<lambda>s. pid (ptable s ! np))) (\<lambda>n.
           thenK (printaProcessos np True) (
           thenK (acquire PtableLock) (
           thenK (upd_proc np (\<lambda>q. q\<lparr>state := RUNNABLE\<rparr>)) (
           thenK (release PtableLock) (
           retK n)))))))))))))))))) "

section \<open>Exit and wait\<close>

fun close_files :: "nat list \<Rightarrow> nat \<Rightarrow> (unit, 'z kfile_scheme) kop" where
  "close_files [] p = retK ()"
| "close_files (fd # fds) p =
     bindK (getK (\<lambda>s. ofile (ptable s ! p) ! fd)) (\<lambda>f.
     thenK (case f of
         None \<Rightarrow> retK ()
       | Some k \<Rightarrow> thenK (fileclose k) (upd_proc p (\<lambda>q. q\<lparr>ofile := (ofile q)[fd := None]\<rparr>))) (
     close_files fds p))"

text \<open>\<^verbatim>\<open>wakeup1\<close> on a pointer to a process that may be null.\<close>

definition wakeup1_proc :: "nat option \<Rightarrow> (unit, 'z kproc_scheme) kop" where
  "wakeup1_proc q =
     (case q of
        Some i \<Rightarrow> wakeup1 (ChanProc i)
      | None \<Rightarrow> modK (\<lambda>s. s\<lparr>ptable :=
          map (\<lambda>p. if state p = SLEEPING \<and> chan p = None then p\<lparr>state := RUNNABLE\<rparr> else p) (ptable s)\<rparr>))"

fun reparent :: "nat list \<Rightarrow> nat \<Rightarrow> (unit, 'z kproc_scheme) kop" where
  "reparent [] me = retK ()"
| "reparent (i # is) me =
     bindK (getK (\<lambda>s. ptable s ! i)) (\<lambda>p.
     thenK (whenK (parent p = Some me) (
       bindK (getK initproc) (\<lambda>ini.
       thenK (upd_proc i (\<lambda>q. q\<lparr>parent := ini\<rparr>)) (
       whenK (state p = ZOMBIE) (wakeup1_proc ini))))) (
     reparent is me))"

definition exit_tail :: "nat \<Rightarrow> ('a, 'z kproc_scheme) kop" where
  "exit_tail p =
     thenK (acquire PtableLock) (
     bindK (getK (\<lambda>s. parent (ptable s ! p))) (\<lambda>par.
     thenK (wakeup1_proc par) (
     bindK (getK (\<lambda>s. length (ptable s))) (\<lambda>n.
     thenK (reparent [0..<n] p) (
     thenK (upd_proc p (\<lambda>q. q\<lparr>state := ZOMBIE\<rparr>)) (
     thenK sched (
     panicK ''zombie exit'')))))))"

definition exit :: "('a, 'z ksys_scheme) kop" where
  "exit =
     bindK (getK (\<lambda>s. (cproc (mycpu s), initproc s))) (\<lambda>(cur, ini).
     if cur = ini then panicK ''init exiting''
     else
       with_proc (\<lambda>p.
       thenK (close_files [0..<NOFILE] p) (
       thenK begin_op (
       bindK (getK (\<lambda>s. cwd (ptable s ! p))) (\<lambda>c.
       thenK (case c of None \<Rightarrow> (\<lambda>_. Fault) | Some i \<Rightarrow> iput i) (
       thenK end_op (
       thenK (upd_proc p (\<lambda>q. q\<lparr>cwd := None\<rparr>)) (
       exit_tail p))))))))"

text \<open>\<^verbatim>\<open>wait\<close> with the lock held; a parent that slept goes on here.\<close>

definition wait_loop :: "(int, 'z kproc_scheme) kop" where
  "wait_loop =
     with_proc (\<lambda>me.
     bindK (getK ptable) (\<lambda>ps.
     case find_index (\<lambda>p. parent p = Some me \<and> state p = ZOMBIE) ps of
       Some i \<Rightarrow>
         thenK (printaProcessos i False) (
         bindK (getK (\<lambda>s. ptable s ! i)) (\<lambda>p.
         thenK (kfree (kstack p)) (
         thenK (upd_proc i (\<lambda>q. q\<lparr>kstack := 0\<rparr>)) (
         thenK (freevm (pgdir p)) (
         thenK (upd_proc i (\<lambda>q. q\<lparr>state := UNUSED, pid := 0, parent := None,
           pname := (pname q)[0 := 0], killed := False\<rparr>)) (
         thenK (release PtableLock) (
         retK (pid p))))))))
     | None \<Rightarrow>
         if (\<forall>p \<in> set ps. parent p \<noteq> Some me) \<or> killed (ps ! me) then
           thenK (release PtableLock) (retK (- 1))
         else sleep (ChanProc me) PtableLock))"

definition wait :: "(int, 'z kproc_scheme) kop" where
  "wait = thenK (acquire PtableLock) wait_loop"

definition wait_resume :: "(int, 'z kproc_scheme) kop" where
  "wait_resume = thenK (sleep_resume PtableLock) wait_loop"

section \<open>The first run of a process\<close>

definition forkret :: "(unit, 'z ksys_scheme) kop" where
  "forkret =
     thenK (release PtableLock) (
     bindK (getK forkret_first) (\<lambda>first.
     whenK first (
       thenK (modK (\<lambda>s. s\<lparr>forkret_first := False\<rparr>)) (
       thenK (iinit ROOTDEV) (
       initlog ROOTDEV)))))"

end
