(* ===== verification/Sched.thy ===== *)
theory Sched
  imports Proc
begin

text \<open>
  The stride scheduler.  Part one characterises the scan of \<^verbatim>\<open>scheduler\<close>; part two runs the code
  of a whole quantum (the scheduler picks a process, the process resumes, is preempted and
  yields) and shows that it charges the chosen process and changes nothing else of the table;
  part three iterates quanta and shows what the stride algorithm promises and where the code
  does not keep the promise.
\<close>

section \<open>The scan\<close>

definition runnable :: "proc list \<Rightarrow> nat \<Rightarrow> bool" where
  "runnable ps i \<longleftrightarrow> i < length ps \<and> state (ps ! i) = RUNNABLE"

abbreviation pass :: "proc list \<Rightarrow> nat \<Rightarrow> int" where
  "pass ps i \<equiv> passada (ps ! i)"

text \<open>The specification: a process of least pass, the last one of them in the table.\<close>

definition least_pass :: "proc list \<Rightarrow> nat \<Rightarrow> bool" where
  "least_pass ps i \<longleftrightarrow> runnable ps i \<and> (\<forall>k. runnable ps k \<longrightarrow> pass ps i \<le> pass ps k) \<and>
     (\<forall>k > i. runnable ps k \<longrightarrow> pass ps i < pass ps k)"

definition positive_passes :: "proc list \<Rightarrow> bool" where
  "positive_passes ps \<longleftrightarrow> (\<forall>k. runnable ps k \<longrightarrow> 0 < pass ps k)"

lemma runnable_Nil [simp]: "\<not> runnable [] i"
  by (simp add: runnable_def)

lemma runnable_Cons_0 [simp]: "runnable (p # ps) 0 \<longleftrightarrow> state p = RUNNABLE"
  by (simp add: runnable_def)

lemma runnable_Cons_Suc [simp]: "runnable (p # ps) (Suc i) \<longleftrightarrow> runnable ps i"
  by (simp add: runnable_def)

lemma all_nat_split: "(\<forall>k. Q k) \<longleftrightarrow> Q 0 \<and> (\<forall>k. Q (Suc k))"
  by (metis not0_implies_Suc)

lemma positive_passes_Cons [simp]:
  "positive_passes (p # ps) \<longleftrightarrow> (state p = RUNNABLE \<longrightarrow> 0 < passada p) \<and> positive_passes ps"
  unfolding positive_passes_def by (subst all_nat_split) simp

lemma least_pass_Cons_0:
  "least_pass (p # ps) 0 \<longleftrightarrow> state p = RUNNABLE \<and> (\<forall>k. runnable ps k \<longrightarrow> passada p < pass ps k)"
  unfolding least_pass_def by (subst (1 2) all_nat_split) (auto intro: order_less_imp_le)

lemma least_pass_Cons_Suc:
  "least_pass (p # ps) (Suc i) \<longleftrightarrow> least_pass ps i \<and> (state p = RUNNABLE \<longrightarrow> pass ps i \<le> passada p)"
  unfolding least_pass_def by (subst (1 2) all_nat_split) auto

lemma least_pass_unique: "least_pass ps i \<Longrightarrow> least_pass ps j \<Longrightarrow> i = j"
  unfolding least_pass_def by (metis linorder_neqE_nat not_less)

lemma scan_min_idle: "(\<And>k. \<not> runnable ps k) \<Longrightarrow> scan_min i ps mn mp = (mn, mp)"
proof (induction ps arbitrary: i)
  case (Cons p ps)
  from Cons.prems [of 0] Cons.prems [of "Suc k" for k] Cons.IH show ?case by simp
qed simp

lemma scan_min_append:
  "scan_min i (xs @ ys) mn mp =
     (let (mn', mp') = scan_min i xs mn mp in scan_min (i + length xs) ys mn' mp')"
  by (induction xs arbitrary: i mn mp) auto

lemma scan_min_nonneg:
  "(\<And>k. runnable ps k \<Longrightarrow> 0 \<le> pass ps k) \<Longrightarrow> 0 \<le> mn \<Longrightarrow> 0 \<le> fst (scan_min i ps mn mp)"
proof (induction ps arbitrary: i mn mp)
  case (Cons p ps)
  have "0 \<le> pass ps k" if "runnable ps k" for k
    using Cons.prems(1) [of "Suc k"] that by simp
  moreover have "state p = RUNNABLE \<longrightarrow> 0 \<le> passada p"
    using Cons.prems(1) [of 0] by simp
  ultimately show ?case using Cons.IH Cons.prems(2) by simp
qed simp

text \<open>
  The scan keeps what it has when nothing in the rest of the table is as good, and otherwise
  ends with the process of least pass of the rest.
\<close>

lemma scan_min_least:
  assumes "positive_passes ps" and "0 \<le> mn"
  shows "(scan_min i ps mn mp = (mn, mp) \<and> 0 < mn \<and> (\<forall>k. runnable ps k \<longrightarrow> mn < pass ps k)) \<or>
    (scan_min i ps mn mp = (mn, mp) \<and> mn = 0 \<and> (\<forall>k. \<not> runnable ps k)) \<or>
    (\<exists>j. scan_min i ps mn mp = (pass ps j, Some (i + j)) \<and> least_pass ps j \<and> (mn = 0 \<or> pass ps j \<le> mn))"
  using assms
proof (induction ps arbitrary: i mn mp)
  case (Cons p ps)
  show ?case
  proof (cases "state p = RUNNABLE \<and> (passada p \<le> mn \<or> mn = 0)")
    case True
    with Cons.prems have p: "0 < passada p" "positive_passes ps" by auto
    from Cons.IH [of "passada p" "Suc i" "Some i"] p
    consider "scan_min (Suc i) ps (passada p) (Some i) = (passada p, Some i)"
        "\<forall>k. runnable ps k \<longrightarrow> passada p < pass ps k"
      | j where "scan_min (Suc i) ps (passada p) (Some i) = (pass ps j, Some (Suc i + j))"
        "least_pass ps j" "pass ps j \<le> passada p"
      by fastforce
    then show ?thesis
    proof cases
      case 1
      with True show ?thesis by (auto simp: least_pass_Cons_0 intro!: exI [of _ 0])
    next
      case 2
      with True show ?thesis by (auto simp: least_pass_Cons_Suc intro!: exI [of _ "Suc j"])
    qed
  next
    case False
    then have s: "scan_min i (p # ps) mn mp = scan_min (Suc i) ps mn mp" by auto
    have "positive_passes ps" using Cons.prems by simp
    from Cons.IH [OF this Cons.prems(2), of "Suc i" mp]
    consider "scan_min (Suc i) ps mn mp = (mn, mp)" "0 < mn" "\<forall>k. runnable ps k \<longrightarrow> mn < pass ps k"
      | "scan_min (Suc i) ps mn mp = (mn, mp)" "mn = 0" "\<forall>k. \<not> runnable ps k"
      | j where "scan_min (Suc i) ps mn mp = (pass ps j, Some (Suc i + j))"
        "least_pass ps j" "mn = 0 \<or> pass ps j \<le> mn"
      by fast
    then show ?thesis
    proof cases
      case 1
      with False have "\<forall>k. runnable (p # ps) k \<longrightarrow> mn < pass (p # ps) k"
        by (subst all_nat_split) auto
      with 1 show ?thesis unfolding s by blast
    next
      case 2
      with False show ?thesis unfolding s all_nat_split [of "\<lambda>k. \<not> runnable (p # ps) k"] by auto
    next
      case 3
      with False have "least_pass (p # ps) (Suc j)" by (auto simp: least_pass_Cons_Suc)
      with 3 show ?thesis unfolding s by (auto intro!: exI [of _ "Suc j"])
    qed
  qed
qed (auto simp: least_pass_def)

lemma pick_proc_least:
  assumes "positive_passes ps" "runnable ps k"
  obtains j where "pick_proc ps mp = Some j" "least_pass ps j"
  using scan_min_least [OF assms(1), of 0 0 mp] assms(2) by (auto simp: pick_proc_def)

lemma pick_proc_idle: "(\<And>k. \<not> runnable ps k) \<Longrightarrow> pick_proc ps mp = mp"
  by (simp add: pick_proc_def scan_min_idle)

text \<open>
  A pass of 0 is also the mark for "nothing found yet".  A runnable process of pass 0 therefore
  resets the scan: everything before it, and the process itself, loses to any runnable process
  after it.
\<close>

lemma scan_min_zero_resets:
  assumes "state p = RUNNABLE" "passada p = 0" "\<And>k. runnable xs k \<Longrightarrow> 0 \<le> pass xs k"
  shows "pick_proc (xs @ p # ys) mp = snd (scan_min (Suc (length xs)) ys 0 (Some (length xs)))"
proof -
  have "0 \<le> fst (scan_min 0 xs 0 mp)"
    using assms(3) by (intro scan_min_nonneg) auto
  with assms(1,2) show ?thesis
    by (auto simp: pick_proc_def scan_min_append split: prod.split)
qed

section \<open>A quantum of the processor\<close>

text \<open>Run code that ends in a call of \<^verbatim>\<open>swtch\<close>, then the code that the switch continues.\<close>

definition switchK :: "('a, 's) kop \<Rightarrow> ('b, 's) kop \<Rightarrow> ('b, 's) kop" where
  "switchK m k s = (case m s of Swtch t \<Rightarrow> k t | Ok a t \<Rightarrow> Fault | Spin t \<Rightarrow> Spin t
     | Panic e \<Rightarrow> Panic e | Fault \<Rightarrow> Fault | NoFuel \<Rightarrow> NoFuel)"

text \<open>
  One turn of the loop of \<^verbatim>\<open>scheduler\<close> around a process that was preempted in \<^verbatim>\<open>yield\<close> and is
  preempted there again.
\<close>

definition sched_quantum :: "nat option \<Rightarrow> (nat option, 'z kproc_scheme) kop" where
  "sched_quantum mp =
     bindK (scheduler_round mp) (\<lambda>r.
     case r of
       None \<Rightarrow> retK None
     | Some p \<Rightarrow> thenK yield_resume (switchK yield (thenK scheduler_resume (retK (Some p)))))"

definition charge :: "proc \<Rightarrow> proc" where
  "charge p = p\<lparr>passada := s32 (passada p + passo p)\<rparr>"

text \<open>A processor between two turns of the loop of \<^verbatim>\<open>scheduler\<close>.\<close>

definition at_scheduler :: "'z kproc_scheme \<Rightarrow> bool" where
  "at_scheduler s \<longleftrightarrow> ncli (mycpu s) = 0 \<and> lock_free (locks s PtableLock)"

definition dispatched :: "nat \<Rightarrow> proc \<Rightarrow> cpu \<Rightarrow> cpu" where
  "dispatched p q c = c\<lparr>ncli := 1, intena := True, flag_if := False, cproc := Some p, cr3 := v2p (pgdir q),
     ts_esp0 := kstack q + of_nat KSTACKSIZE, ts_ss0 := 2 * 8\<rparr>"

lemma scheduler_round_ok:
  assumes "at_scheduler s" "pick_proc (ptable s) mp = Some p" "p < length (ptable s)"
    "pgdir (ptable s ! p) \<noteq> 0"
  shows "scheduler_round mp s = Ok (Some p) (s\<lparr>
    cpus := (cpus s)(this_cpu s := dispatched p (ptable s ! p) (mycpu s)),
    locks := (locks s)(PtableLock := taken (this_cpu s) (locks s PtableLock)),
    ptable := (ptable s)[p := (charge (ptable s ! p))\<lparr>state := RUNNING\<rparr>]\<rparr>)"
  using assms
  by (cases "mycpu s") (simp add: kop scheduler_round_def at_scheduler_def lock_rules sti_def cpu_ok_def
    upd_proc_def set_proc_def upd_cpu_def switchuvm_def pushcli_ok popcli_ok with_proc_def lcr3_def
    dispatched_def pushed_def popped_def charge_def)

text \<open>A process holds \<^verbatim>\<open>ptable.lock\<close> alone: what \<^verbatim>\<open>sched\<close> demands of its caller.\<close>

definition holds_ptable :: "nat \<Rightarrow> 'z kproc_scheme \<Rightarrow> bool" where
  "holds_ptable p s \<longleftrightarrow> holding PtableLock s \<and> ncli (mycpu s) = 1 \<and> \<not> flag_if (mycpu s) \<and>
     cproc (mycpu s) = Some p \<and> p < length (ptable s)"

lemma sched_switches:
  assumes "holds_ptable p s" "state (ptable s ! p) \<noteq> RUNNING"
  shows "sched s = Swtch (s\<lparr>ptable := (ptable s)[p := (ptable s ! p)\<lparr>sv_intena := intena (mycpu s)\<rparr>]\<rparr>)"
  using assms by (simp add: kop sched_def holds_ptable_def with_proc_def upd_proc_def)

text \<open>A process that runs with no lock held.\<close>

definition runs :: "nat \<Rightarrow> 'z kproc_scheme \<Rightarrow> bool" where
  "runs p s \<longleftrightarrow> ncli (mycpu s) = 0 \<and> lock_free (locks s PtableLock) \<and> cproc (mycpu s) = Some p \<and>
     p < length (ptable s)"

lemma yield_switches:
  assumes "runs p s"
  shows "yield s = Swtch (s\<lparr>
    cpus := (cpus s)(this_cpu s := pushed (mycpu s)),
    locks := (locks s)(PtableLock := taken (this_cpu s) (locks s PtableLock)),
    ptable := (ptable s)[p := (ptable s ! p)\<lparr>state := RUNNABLE, sv_intena := flag_if (mycpu s)\<rparr>]\<rparr>)"
  using assms by (cases "mycpu s") (simp add: kop yield_def runs_def lock_rules cpu_ok_def with_proc_def upd_proc_def
    sched_switches [of p] holds_ptable_def holding_def pushed_def)

lemma yield_resume_ok:
  assumes "holds_ptable p s"
  shows "yield_resume s = Ok () (s\<lparr>
    cpus := (cpus s)(this_cpu s := (mycpu s)\<lparr>ncli := 0, intena := sv_intena (ptable s ! p),
      flag_if := sv_intena (ptable s ! p)\<rparr>),
    locks := (locks s)(PtableLock := dropped (locks s PtableLock))\<rparr>)"
  using assms by (cases "mycpu s") (simp add: kop yield_resume_def sched_resume_def holds_ptable_def holding_def with_proc_def
    lock_rules cpu_ok_def upd_cpu_def popped_def)

lemma scheduler_resume_ok:
  assumes "holding PtableLock s" "ncli (mycpu s) = 1" "\<not> flag_if (mycpu s)"
  shows "scheduler_resume s = Ok () (s\<lparr>
    cpus := (cpus s)(this_cpu s := (mycpu s)\<lparr>ncli := 0, flag_if := intena (mycpu s), cproc := None,
      cr3 := v2p (kpgdir s)\<rparr>),
    locks := (locks s)(PtableLock := dropped (locks s PtableLock))\<rparr>)"
  using assms by (cases "mycpu s") (simp add: kop scheduler_resume_def switchkvm_def set_proc_def upd_cpu_def
    lock_rules cpu_ok_def holding_def lcr3_def popped_def)

text \<open>
  The effect of a quantum on the table is \<open>charge\<close> on the chosen process; the locks are as they
  were, and the processor is back in the scheduler.
\<close>

lemma sched_quantum_ok:
  assumes "at_scheduler s" "pick_proc (ptable s) mp = Some p" "runnable (ptable s) p"
    "pgdir (ptable s ! p) \<noteq> 0"
  shows "\<exists>t. sched_quantum mp s = Ok (Some p) t \<and> at_scheduler t \<and> locks t = locks s \<and>
    mem t = mem s \<and> ptable t = (ptable s)[p := charge (ptable s ! p)] \<and> this_cpu t = this_cpu s"
  using assms
  by (cases "ptable s ! p")
    (auto simp: kop sched_quantum_def scheduler_round_ok switchK_def yield_resume_ok [of p] yield_switches [of p]
    scheduler_resume_ok holds_ptable_def runs_def at_scheduler_def holding_def dispatched_def runnable_def
    pushed_def charge_def)

section \<open>Runs of the scheduler\<close>

text \<open>
  Consecutive quanta of processes that never block, for any rule \<open>pick\<close> that chooses the process:
  the trace of the processes that ran, and the final table.
\<close>

fun stride_run :: "(proc list \<Rightarrow> nat option \<Rightarrow> nat option) \<Rightarrow> nat \<Rightarrow> nat option \<Rightarrow> proc list \<Rightarrow>
    nat list \<times> proc list" where
  "stride_run pick 0 mp ps = ([], ps)"
| "stride_run pick (Suc n) mp ps = (case pick ps mp of
      None \<Rightarrow> ([], ps)
    | Some i \<Rightarrow> (case stride_run pick n (Some i) (ps[i := charge (ps ! i)]) of (tr, qs) \<Rightarrow> (i # tr, qs)))"

text \<open>No pass overflows within \<open>n\<close> quanta; 400 is the largest step a process can have.\<close>

definition stride_ok :: "nat \<Rightarrow> proc list \<Rightarrow> bool" where
  "stride_ok n ps \<longleftrightarrow> (\<forall>k. runnable ps k \<longrightarrow> 0 < pass ps k \<and> 0 < passo (ps ! k) \<and> passo (ps ! k) \<le> 400 \<and>
     pass ps k + 400 * int n < 2 ^ 31)"

text \<open>No process is ahead of another by more than its own step.\<close>

definition balanced :: "proc list \<Rightarrow> bool" where
  "balanced ps \<longleftrightarrow> (\<forall>i j. runnable ps i \<longrightarrow> runnable ps j \<longrightarrow> pass ps i \<le> pass ps j + passo (ps ! i))"

lemma charge_fields [simp]:
  "state (charge p) = state p" "passo (charge p) = passo p" "pgdir (charge p) = pgdir p" "pid (charge p) = pid p"
  by (simp_all add: charge_def)

lemma nth_charge: "i < length ps \<Longrightarrow> ps[i := charge (ps ! i)] ! k = (if k = i then charge (ps ! k) else ps ! k)"
  by simp

lemma runnable_charge [simp]: "runnable (ps[i := charge (ps ! i)]) k \<longleftrightarrow> runnable ps k"
  by (cases "k = i"; cases "i < length ps") (auto simp: runnable_def)

lemma passo_charge [simp]: "passo (ps[i := charge (ps ! i)] ! k) = passo (ps ! k)"
  by (cases "k = i"; cases "i < length ps") (auto simp: list_update_beyond)

lemma stride_ok_positive: "stride_ok n ps \<Longrightarrow> positive_passes ps"
  by (simp add: stride_ok_def positive_passes_def)

lemma pass_charge:
  assumes "stride_ok (Suc n) ps" "runnable ps i"
  shows "pass (ps[i := charge (ps ! i)]) k = pass ps k + (if k = i then passo (ps ! k) else 0)"
proof -
  have "s32 (pass ps i + passo (ps ! i)) = pass ps i + passo (ps ! i)"
    using assms by (intro s32_id) (auto simp: stride_ok_def)
  with assms(2) show ?thesis by (auto simp: charge_def runnable_def)
qed

lemma stride_ok_charge:
  assumes "stride_ok (Suc n) ps" "runnable ps i"
  shows "stride_ok n (ps[i := charge (ps ! i)])"
  using assms unfolding stride_ok_def pass_charge [OF assms] runnable_charge passo_charge
  by (auto simp: algebra_simps)

lemma balanced_charge:
  assumes "stride_ok (Suc n) ps" "runnable ps i" "balanced ps" "\<forall>k. runnable ps k \<longrightarrow> pass ps i \<le> pass ps k"
  shows "balanced (ps[i := charge (ps ! i)])"
  unfolding balanced_def pass_charge [OF assms(1,2)] runnable_charge passo_charge
  using assms by (auto simp: balanced_def stride_ok_def) (smt (verit))+

text \<open>
  What the stride algorithm asks of the rule: it chooses a runnable process of least pass.  The
  fairness of a run follows from this alone.
\<close>

locale stride_pick =
  fixes pick :: "proc list \<Rightarrow> nat option \<Rightarrow> nat option"
  assumes pick_min: "positive_passes ps \<Longrightarrow> runnable ps k \<Longrightarrow>
    \<exists>j. pick ps mp = Some j \<and> runnable ps j \<and> (\<forall>k. runnable ps k \<longrightarrow> pass ps j \<le> pass ps k)"
begin

lemma run_step:
  assumes "stride_ok (Suc n) ps" "runnable ps k" "stride_run pick (Suc n) mp ps = (tr, qs)"
  obtains i tr' where "tr = i # tr'" "runnable ps i" "\<forall>k. runnable ps k \<longrightarrow> pass ps i \<le> pass ps k"
    "stride_run pick n (Some i) (ps[i := charge (ps ! i)]) = (tr', qs)"
  using pick_min [OF stride_ok_positive [OF assms(1)] assms(2), of mp] assms(3)
  by (auto split: prod.splits)

lemma run_pass:
  assumes "stride_ok n ps" "runnable ps k" "stride_run pick n mp ps = (tr, qs)"
  shows "length tr = n \<and> runnable qs k \<and> passo (qs ! k) = passo (ps ! k) \<and>
    pass qs k = pass ps k + passo (ps ! k) * int (count_list tr k)"
  using assms
proof (induction n arbitrary: ps mp tr)
  case (Suc n)
  obtain i tr' where s: "tr = i # tr'" "runnable ps i"
      "stride_run pick n (Some i) (ps[i := charge (ps ! i)]) = (tr', qs)"
    using run_step [OF Suc.prems] by blast
  from Suc.IH [OF stride_ok_charge [OF Suc.prems(1) s(2)] _ s(3)] Suc.prems(2)
  show ?case by (simp add: s(1) pass_charge [OF Suc.prems(1) s(2)] algebra_simps)
qed simp

lemma run_balanced:
  assumes "stride_ok n ps" "runnable ps k" "balanced ps" "stride_run pick n mp ps = (tr, qs)"
  shows "balanced qs"
  using assms
proof (induction n arbitrary: ps mp tr)
  case (Suc n)
  obtain i tr' where s: "runnable ps i" "\<forall>k. runnable ps k \<longrightarrow> pass ps i \<le> pass ps k"
      "stride_run pick n (Some i) (ps[i := charge (ps ! i)]) = (tr', qs)"
    using run_step [OF Suc.prems(1,2,4)] by metis
  from Suc.IH [OF stride_ok_charge [OF Suc.prems(1) s(1)] _ balanced_charge [OF Suc.prems(1) s(1) Suc.prems(3) s(2)] s(3)]
    Suc.prems(2) show ?case by simp
qed simp

lemma run_fair:
  assumes "stride_ok n ps" "balanced ps" "runnable ps i" "runnable ps j" "stride_run pick n mp ps = (tr, qs)"
  shows "pass ps i + passo (ps ! i) * int (count_list tr i) \<le>
    pass ps j + passo (ps ! j) * int (count_list tr j) + passo (ps ! i)"
  using run_balanced [OF assms(1,3,2,5)] run_pass [OF assms(1,3,5)] run_pass [OF assms(1,4,5)]
  unfolding balanced_def by metis

end

interpretation xv6: stride_pick pick_proc
proof
  fix ps k mp
  assume "positive_passes ps" "runnable ps k"
  then obtain j where "pick_proc ps mp = Some j" "least_pass ps j"
    by (rule pick_proc_least)
  then show "\<exists>j. pick_proc ps mp = Some j \<and> runnable ps j \<and> (\<forall>k. runnable ps k \<longrightarrow> pass ps j \<le> pass ps k)"
    by (auto simp: least_pass_def)
qed

text \<open>Whatever the passes are, the scan ends with a runnable process if there is one.\<close>

lemma shift_index: "(\<exists>j. x = Some (Suc i + j) \<and> runnable ps j) \<Longrightarrow> \<exists>j. x = Some (i + j) \<and> runnable (p # ps) j"
  by (metis add_Suc add_Suc_right runnable_Cons_Suc)

lemma scan_min_cases:
  "snd (scan_min i ps mn mp) = mp \<or> (\<exists>j. snd (scan_min i ps mn mp) = Some (i + j) \<and> runnable ps j)"
proof (induction ps arbitrary: i mn mp)
  case (Cons p ps)
  show ?case
  proof (cases "state p = RUNNABLE \<and> (passada p \<le> mn \<or> mn = 0)")
    case True
    with Cons.IH [of "Suc i" "passada p" "Some i"] shift_index [of _ i ps p] show ?thesis
      by (auto intro: exI [of _ 0])
  next
    case False
    then have s: "scan_min i (p # ps) mn mp = scan_min (Suc i) ps mn mp" by auto
    from Cons.IH [of "Suc i" mn mp] shift_index [of _ i ps p] show ?thesis unfolding s by blast
  qed
qed simp

lemma scan_min_runnable:
  "runnable ps k \<Longrightarrow> \<exists>j. snd (scan_min i ps 0 mp) = Some (i + j) \<and> runnable ps j"
proof (induction ps arbitrary: i k)
  case (Cons p ps)
  show ?case
  proof (cases "state p = RUNNABLE")
    case True
    with scan_min_cases [of "Suc i" ps "passada p" "Some i"] shift_index [of _ i ps p] show ?thesis
      by (auto intro: exI [of _ 0])
  next
    case False
    with Cons.prems obtain k' where "runnable ps k'" by (cases k) auto
    from Cons.IH [OF this, of "Suc i"] False shift_index [of _ i ps p] show ?thesis by simp
  qed
qed simp

lemma pick_proc_runnable: "runnable ps k \<Longrightarrow> \<exists>j. pick_proc ps mp = Some j \<and> runnable ps j"
  using scan_min_runnable [of ps k 0 mp] by (simp add: pick_proc_def)

text \<open>Turns of the loop of \<^verbatim>\<open>scheduler\<close>, on the code; they follow \<open>stride_run\<close> on the table.\<close>

fun quanta :: "nat \<Rightarrow> nat option \<Rightarrow> (nat list, 'z kproc_scheme) kop" where
  "quanta 0 mp = retK []"
| "quanta (Suc n) mp = bindK (sched_quantum mp) (\<lambda>r. case r of
      None \<Rightarrow> retK []
    | Some i \<Rightarrow> bindK (quanta n r) (\<lambda>tr. retK (i # tr)))"

definition spaces_mapped :: "proc list \<Rightarrow> bool" where
  "spaces_mapped ps \<longleftrightarrow> (\<forall>k. runnable ps k \<longrightarrow> pgdir (ps ! k) \<noteq> 0)"

lemma spaces_mapped_charge [simp]: "spaces_mapped (ps[i := charge (ps ! i)]) = spaces_mapped ps"
proof -
  have "pgdir (ps[i := charge (ps ! i)] ! k) = pgdir (ps ! k)" for k
    by (cases "k = i"; cases "i < length ps") (auto simp: list_update_beyond)
  then show ?thesis by (simp add: spaces_mapped_def)
qed

lemma quanta_stride_run:
  assumes "at_scheduler s" "spaces_mapped (ptable s)" "runnable (ptable s) k"
  shows "\<exists>t. quanta n mp s = Ok (fst (stride_run pick_proc n mp (ptable s))) t \<and>
    ptable t = snd (stride_run pick_proc n mp (ptable s)) \<and> at_scheduler t \<and> locks t = locks s"
  using assms
proof (induction n arbitrary: s mp)
  case (Suc n)
  obtain i where i: "pick_proc (ptable s) mp = Some i" "runnable (ptable s) i"
    using pick_proc_runnable [OF Suc.prems(3)] by blast
  with Suc.prems(2) have "pgdir (ptable s ! i) \<noteq> 0" by (simp add: spaces_mapped_def)
  with sched_quantum_ok [OF Suc.prems(1) i] obtain t where t: "sched_quantum mp s = Ok (Some i) t" "at_scheduler t"
      "locks t = locks s" "ptable t = (ptable s)[i := charge (ptable s ! i)]" by blast
  from Suc.IH [OF t(2), of "Some i"] Suc.prems t i show ?case
    by (auto simp: kop split: prod.split)
qed simp

section \<open>Where the promise is broken\<close>

text \<open>
  A process of pass 0 (every new process has it) in front of another runnable process, with no negative pass before it: the scan never
  chooses it, so its pass stays 0.
\<close>

definition overlooked :: "nat \<Rightarrow> proc list \<Rightarrow> bool" where
  "overlooked i ps \<longleftrightarrow> runnable ps i \<and> pass ps i = 0 \<and> (\<exists>j > i. runnable ps j) \<and> (\<forall>k < i. runnable ps k \<longrightarrow> 0 \<le> pass ps k)"

lemma overlooked_pick:
  assumes "overlooked i ps"
  shows "\<exists>j > i. pick_proc ps mp = Some j \<and> runnable ps j"
proof -
  let ?xs = "take i ps" and ?ys = "drop (Suc i) ps"
  have i: "i < length ps" "state (ps ! i) = RUNNABLE" "pass ps i = 0"
    using assms by (auto simp: overlooked_def runnable_def)
  then have split: "ps = ?xs @ ps ! i # ?ys" by (simp add: id_take_nth_drop)
  have "0 \<le> pass ?xs k" if "runnable ?xs k" for k
    using assms that by (auto simp: overlooked_def runnable_def)
  from scan_min_zero_resets [OF i(2,3) this, of ?ys mp] split i(1)
  have pick: "pick_proc ps mp = snd (scan_min (Suc i) ?ys 0 (Some i))" by simp
  obtain j where "j > i" "runnable ps j" using assms by (auto simp: overlooked_def)
  then have "runnable ?ys (j - Suc i)" by (auto simp: runnable_def)
  from scan_min_runnable [OF this, of "Suc i" "Some i"] pick i(1) show ?thesis
    by (auto simp: runnable_def add.commute)
qed

lemma overlooked_charge: "overlooked i ps \<Longrightarrow> i < j \<Longrightarrow> overlooked i (ps[j := charge (ps ! j)])"
  by (auto simp: overlooked_def)

lemma overlooked_run:
  "overlooked i ps \<Longrightarrow> length (fst (stride_run pick_proc n mp ps)) = n \<and>
    i \<notin> set (fst (stride_run pick_proc n mp ps))"
proof (induction n arbitrary: ps mp)
  case (Suc n)
  from overlooked_pick [OF Suc.prems, of mp] obtain j where j: "i < j" "pick_proc ps mp = Some j" "runnable ps j"
    by blast
  from Suc.IH [OF overlooked_charge [OF Suc.prems j(1)], of "Some j"] j show ?case
    by (auto split: prod.split)
qed simp

text \<open>A process whose pass is far behind all others gets the processor alone until it catches up.\<close>

lemma behind_run:
  assumes "stride_ok n ps" "runnable ps i"
    "\<And>k. runnable ps k \<Longrightarrow> k \<noteq> i \<Longrightarrow> 0 < n \<Longrightarrow> pass ps i + passo (ps ! i) * (int n - 1) < pass ps k"
  shows "fst (stride_run pick_proc n mp ps) = replicate n i"
  using assms
proof (induction n arbitrary: ps mp)
  case (Suc n)
  have le: "0 \<le> passo (ps ! i) * int n"
    using Suc.prems(1,2) by (intro mult_nonneg_nonneg) (auto simp: stride_ok_def intro: order_less_imp_le)
  have less: "pass ps i < pass ps k" if "runnable ps k" "k \<noteq> i" for k
    using Suc.prems(3) [OF that] le by simp
  obtain j where j: "pick_proc ps mp = Some j" "least_pass ps j"
    using pick_proc_least [OF stride_ok_positive [OF Suc.prems(1)] Suc.prems(2)] by blast
  with less Suc.prems(2) have "j = i" unfolding least_pass_def by (metis not_less)
  moreover have "fst (stride_run pick_proc n (Some i) (ps[i := charge (ps ! i)])) = replicate n i"
    using Suc.prems(3) by (intro Suc.IH stride_ok_charge Suc.prems(1,2))
      (auto simp: pass_charge [OF Suc.prems(1,2)] Suc.prems(2) algebra_simps)
  ultimately show ?case using j by (auto split: prod.split)
qed simp

section \<open>Properties\<close>

text \<open>Tables and states for the witnesses: a processor in \<^verbatim>\<open>scheduler\<close>.\<close>

definition kproc0 :: "proc list \<Rightarrow> kproc" where
  "kproc0 ps = \<lparr>this_cpu = 0, cpus = \<lambda>_. cpu0, locks = \<lambda>_. \<lparr>locked = False, lname = '''', lcpu = None\<rparr>,
     conslog = [], mem = \<lambda>_. 0, kend = 0x80200000, use_lock = True, freelist = 0, kpgdir = 0x80300000, kdata = 0x80108000,
     ptable = ps, initproc = Some 0, nextpid = 5, sym_forkret = 0x80103f00, sym_trapret = 0x80105c00\<rparr>"

definition ready_proc :: "int \<Rightarrow> int \<Rightarrow> proc" where
  "ready_proc st v = proc0\<lparr>state := RUNNABLE, pid := 3, pgdir := 0x80400000, passo := st, passada := v\<rparr>"

lemma ready_proc_simps [simp]:
  "state (ready_proc st v) = RUNNABLE" "passo (ready_proc st v) = st" "passada (ready_proc st v) = v"
  "pgdir (ready_proc st v) = 0x80400000"
  by (simp_all add: ready_proc_def)

lemma kproc0_simps [simp]: "at_scheduler (kproc0 ps)" "ptable (kproc0 ps) = ps"
  by (simp_all add: kproc0_def at_scheduler_def cpu0_def lock_free_def)

lemma runnable_pair: "runnable [a, b] k \<longleftrightarrow> k = 0 \<and> state a = RUNNABLE \<or> k = 1 \<and> state b = RUNNABLE"
  by (auto simp: runnable_def less_Suc_eq)

lemma ready_pair [simp]: "spaces_mapped [ready_proc a b, ready_proc c d]"
  by (simp add: spaces_mapped_def runnable_pair)

text \<open>
  C1.  Proportional share.  Take a table in which every runnable process has a positive pass and a step between 1 and 400, no pass reaches
  2^31 within \<open>n\<close> charges of 400, and no runnable process is ahead of another by more than its own step.  Then \<open>n\<close> turns of the scheduler
  loop, in which each process that is dispatched yields at the end of its quantum, complete and give the processor to one process each.
  The pass of a process \<open>i\<close> stays within one step of \<open>i\<close> of the pass of any other runnable process \<open>j\<close>, and what \<open>i\<close> was charged (its
  quanta times its step) is at most what \<open>j\<close> was charged plus one step of each.  Since the step is 10000 divided by the tickets, quanta
  are shared in proportion to tickets.
\<close>

theorem stride_fair:
  assumes "at_scheduler s" "spaces_mapped (ptable s)" "stride_ok n (ptable s)" "balanced (ptable s)"
    "runnable (ptable s) i" "runnable (ptable s) j"
  shows "\<exists>tr t. quanta n mp s = Ok tr t \<and> length tr = n \<and>
    pass (ptable s) i + passo (ptable s ! i) * int (count_list tr i) \<le>
      pass (ptable s) j + passo (ptable s ! j) * int (count_list tr j) + passo (ptable s ! i) \<and>
    passo (ptable s ! i) * int (count_list tr i) \<le>
      passo (ptable s ! j) * int (count_list tr j) + passo (ptable s ! i) + passo (ptable s ! j)"
proof -
  let ?r = "stride_run pick_proc n mp (ptable s)"
  have "?r = (fst ?r, snd ?r)" by simp
  with quanta_stride_run [OF assms(1,2,5), of n mp] xv6.run_fair [OF assms(3-6)] xv6.run_pass [OF assms(3,5)]
  obtain tr t where r: "quanta n mp s = Ok tr t" "length tr = n"
    "pass (ptable s) i + passo (ptable s ! i) * int (count_list tr i) \<le>
      pass (ptable s) j + passo (ptable s ! j) * int (count_list tr j) + passo (ptable s ! i)" by blast
  moreover have "pass (ptable s) j \<le> pass (ptable s) i + passo (ptable s ! j)"
    using assms(4-6) unfolding balanced_def by blast
  ultimately have "passo (ptable s ! i) * int (count_list tr i) \<le>
      passo (ptable s ! j) * int (count_list tr j) + passo (ptable s ! i) + passo (ptable s ! j)" by linarith
  with r show ?thesis by blast
qed

theorem stride_fair_witness:
  "\<exists>tr t. quanta 5 None (kproc0 [ready_proc 5 100, ready_proc 10 100]) = Ok tr t \<and> length tr = 5 \<and>
    5 * int (count_list tr 0) \<le> 15 + 10 * int (count_list tr 1)"
  using stride_fair [of "kproc0 [ready_proc 5 100, ready_proc 10 100]" 5 0 1 None]
  by (simp add: stride_ok_def balanced_def runnable_pair all_conj_distrib imp_conjL) blast

text \<open>
  C2.  A turn of the loop of \<^verbatim>\<open>scheduler\<close> with all passes positive dispatches a runnable process of
  least pass (of several, the last in the table): it is charged one step, marked \<^verbatim>\<open>RUNNING\<close> and
  made the current process of this processor with its page table loaded and \<^verbatim>\<open>ptable.lock\<close> held;
  no other process changes.
\<close>

theorem scheduler_picks_least:
  assumes "at_scheduler s" "spaces_mapped (ptable s)" "positive_passes (ptable s)" "runnable (ptable s) k"
  shows "\<exists>p. least_pass (ptable s) p \<and> scheduler_round mp s = Ok (Some p) (s\<lparr>
    cpus := (cpus s)(this_cpu s := dispatched p (ptable s ! p) (mycpu s)),
    locks := (locks s)(PtableLock := taken (this_cpu s) (locks s PtableLock)),
    ptable := (ptable s)[p := (charge (ptable s ! p))\<lparr>state := RUNNING\<rparr>]\<rparr>)"
proof -
  obtain p where p: "pick_proc (ptable s) mp = Some p" "least_pass (ptable s) p"
    using pick_proc_least [OF assms(3,4)] by blast
  then have "p < length (ptable s)" "pgdir (ptable s ! p) \<noteq> 0"
    using assms(2) by (auto simp: least_pass_def runnable_def spaces_mapped_def)
  with p scheduler_round_ok [OF assms(1) p(1)] show ?thesis by blast
qed

theorem scheduler_picks_least_witness:
  "\<exists>p. least_pass [ready_proc 5 200, ready_proc 10 100] p \<and>
    (\<exists>t. scheduler_round None (kproc0 [ready_proc 5 200, ready_proc 10 100]) = Ok (Some p) t)"
  using scheduler_picks_least [of "kproc0 [ready_proc 5 200, ready_proc 10 100]" 1 None]
  by (simp add: positive_passes_def runnable_pair) blast

text \<open>
  C19.  Starvation of a new process.  A runnable process of pass 0 (the pass every process starts with), with another runnable process in a
  later slot of the table and no runnable process of negative pass in an earlier slot, is not dispatched in any number of turns of the
  scheduler loop in which each process that is dispatched yields at the end of its quantum: the scan takes \<^verbatim>\<open>min == 0\<close> for "no process
  found yet", so the later process replaces it whatever its pass is.
\<close>

theorem zero_pass_starves:
  assumes "at_scheduler s" "spaces_mapped (ptable s)" "overlooked i (ptable s)"
  shows "\<exists>tr t. quanta n mp s = Ok tr t \<and> length tr = n \<and> i \<notin> set tr"
proof -
  have "runnable (ptable s) i" using assms(3) by (simp add: overlooked_def)
  from quanta_stride_run [OF assms(1,2) this, of n mp] overlooked_run [OF assms(3), of n mp]
  show ?thesis by blast
qed

theorem zero_pass_starves_witness:
  "\<exists>tr t. quanta 1000000 None (kproc0 [ready_proc 5 0, ready_proc 400 100000]) = Ok tr t \<and>
    length tr = 1000000 \<and> 0 \<notin> set tr"
  using zero_pass_starves [of "kproc0 [ready_proc 5 0, ready_proc 400 100000]" 0 1000000 None]
  by (auto simp: overlooked_def runnable_pair)

text \<open>
  C20.  Monopoly of a process that is behind.  With positive passes and steps between 1 and 400 and no overflow within \<open>n\<close> turns, a
  runnable process whose pass plus \<open>n - 1\<close> of its steps is below the pass of every other runnable process gets all of the next \<open>n\<close> quanta,
  if it yields at the end of each.  A process enters the competition with pass 0, so once it has been dispatched it runs alone until
  it has caught up with the passes that older processes have accumulated since boot.
\<close>

theorem newcomer_monopoly:
  assumes "at_scheduler s" "spaces_mapped (ptable s)" "stride_ok n (ptable s)" "runnable (ptable s) i"
    "\<forall>k. runnable (ptable s) k \<and> k \<noteq> i \<longrightarrow>
      pass (ptable s) i + passo (ptable s ! i) * (int n - 1) < pass (ptable s) k"
  shows "\<exists>t. quanta n mp s = Ok (replicate n i) t"
  using quanta_stride_run [OF assms(1,2,4), of n mp] behind_run [OF assms(3,4), of mp] assms(5) by auto

theorem newcomer_monopoly_witness:
  "\<exists>t. quanta 10000 None (kproc0 [ready_proc 400 100000, ready_proc 5 5]) = Ok (replicate 10000 1) t"
  using newcomer_monopoly [of "kproc0 [ready_proc 400 100000, ready_proc 5 5]" 10000 1 None]
  by (force simp: stride_ok_def runnable_pair)

text \<open>
  C21.  With no runnable process the scheduler dispatches the process it chose last once more, in
  whatever state that process is: \<^verbatim>\<open>min_proc\<close> is set by the scan only and never cleared.  A process
  that sleeps on an event or is a zombie is marked \<^verbatim>\<open>RUNNING\<close> and resumed.
\<close>

theorem idle_redispatch:
  assumes "at_scheduler s" "\<forall>k. \<not> runnable (ptable s) k" "p < length (ptable s)" "pgdir (ptable s ! p) \<noteq> 0"
  shows "\<exists>t. scheduler_round (Some p) s = Ok (Some p) t \<and> state (ptable t ! p) = RUNNING \<and>
    cproc (mycpu t) = Some p \<and> chan (ptable t ! p) = chan (ptable s ! p)"
  using scheduler_round_ok [OF assms(1) _ assms(3,4), of "Some p"] pick_proc_idle [of "ptable s" "Some p"] assms(2,3)
  by (simp add: dispatched_def charge_def)

theorem idle_redispatch_witness:
  "\<exists>t. scheduler_round (Some 0) (kproc0 [(ready_proc 5 100)\<lparr>state := ZOMBIE\<rparr>]) = Ok (Some 0) t \<and>
    state (ptable t ! 0) = RUNNING"
  using idle_redispatch [of "kproc0 [(ready_proc 5 100)\<lparr>state := ZOMBIE\<rparr>]" 0]
  by (fastforce simp: runnable_def less_Suc_eq)

section \<open>Sleeping, waking and killing\<close>

lemma wakeup_ok:
  assumes "cpu_shallow (mycpu s)" "lock_free (locks s PtableLock)"
  shows "wakeup ch s = Ok () (irqsave s\<lparr>ptable := map (wake ch) (ptable s)\<rparr>)"
  using assms by (simp add: kop wakeup_def wakeup1_def lock_rules)

text \<open>The process \<open>p\<close> calls \<^verbatim>\<open>sleep\<close> with the lock \<open>lk\<close> held and no other.\<close>

definition may_sleep :: "nat \<Rightarrow> lockid \<Rightarrow> 'z kproc_scheme \<Rightarrow> bool" where
  "may_sleep p lk s \<longleftrightarrow> lk \<noteq> PtableLock \<and> holding lk s \<and> ncli (mycpu s) = 1 \<and> \<not> flag_if (mycpu s) \<and>
     cproc (mycpu s) = Some p \<and> p < length (ptable s) \<and> lock_free (locks s PtableLock)"

lemma sleep_switches:
  assumes "may_sleep p lk s"
  shows "sleep ch lk s = Swtch (s\<lparr>
    locks := (locks s)(PtableLock := taken (this_cpu s) (locks s PtableLock), lk := dropped (locks s lk)),
    ptable := (ptable s)[p := (ptable s ! p)\<lparr>state := SLEEPING, chan := Some ch, sv_intena := intena (mycpu s)\<rparr>]\<rparr>)"
proof -
  have c: "cpu_ok (mycpu s)" "ncli (mycpu s) = 1" using assms by (auto simp: may_sleep_def cpu_ok_def)
  with assms show ?thesis by (cases "ptable s ! p")
    (auto simp: kop sleep_def sleep_steps_def may_sleep_def lock_rules holding_def upd_proc_def
      sched_switches [of p] holds_ptable_def saved_def)
qed

lemma wakeup_spins:
  assumes "cpu_ok (mycpu s)" "locked (locks s PtableLock)" "lcpu (locks s PtableLock) \<noteq> Some (this_cpu s)"
  shows "\<exists>t. wakeup ch s = Spin t"
  using assms by (simp add: kop wakeup_def acquire_def pushcli_ok holding_def)

lemma sleep_window:
  assumes "may_sleep p lk s" "k \<le> 4"
  shows "\<exists>u. seqK (take k (sleep_steps p ch lk)) s = Ok () u \<and> this_cpu u = this_cpu s \<and>
    (holding lk u \<or> lock_free (locks u lk) \<and> holding PtableLock u)"
proof -
  have c: "cpu_ok (mycpu s)" "ncli (mycpu s) = 1" using assms by (auto simp: may_sleep_def cpu_ok_def)
  have "PtableLock \<noteq> lk" using assms by (auto simp: may_sleep_def)
  moreover have "k = 0 \<or> k = 1 \<or> k = 2 \<or> k = 3 \<or> k = 4" using assms(2) by linarith
  ultimately show ?thesis using c assms(1)
    by (elim disjE) (simp_all add: kop sleep_steps_def may_sleep_def lock_rules holding_def upd_proc_def)
qed

lemma sleep_then_wakeup:
  assumes "may_sleep p lk s"
  shows "\<exists>t. switchK (sleep ch lk) (thenK scheduler_resume (wakeup ch)) s = Ok () t \<and>
    state (ptable t ! p) = RUNNABLE \<and> lock_free (locks t lk) \<and> lock_free (locks t PtableLock)"
proof -
  have c: "cpu_ok (mycpu s)" "ncli (mycpu s) = 1" using assms by (auto simp: may_sleep_def cpu_ok_def)
  moreover have "PtableLock \<noteq> lk" using assms by (auto simp: may_sleep_def)
  ultimately show ?thesis using assms
    by (simp add: kop switchK_def sleep_switches [OF assms] may_sleep_def scheduler_resume_ok holding_def
      wakeup_ok cpu_shallow_def cpu_ok_def wake_def)
qed

text \<open>
  C4.  No wakeup is lost.  (1) After each statement of \<^verbatim>\<open>sleep(ch, lk)\<close> up to the switch, the processor
  still holds \<open>lk\<close>, or \<open>lk\<close> is free and every other processor that calls \<^verbatim>\<open>wakeup\<close> spins; (2) once the
  scheduler has released \<^verbatim>\<open>ptable.lock\<close>, \<^verbatim>\<open>wakeup(ch)\<close> makes the sleeper runnable.  So a waker that
  needs \<open>lk\<close> to change the condition cannot run between the test of the condition and the sleep.
\<close>

theorem sleep_no_lost_wakeup:
  assumes "may_sleep p lk s"
  shows "(\<forall>k. k \<le> 4 \<longrightarrow> (\<exists>u. seqK (take k (sleep_steps p ch lk)) s = Ok () u \<and>
      (holding lk u \<or> lock_free (locks u lk) \<and>
        (\<forall>c. c \<noteq> this_cpu s \<and> cpu_ok (cpus u c) \<longrightarrow> (\<exists>v. wakeup ch (u\<lparr>this_cpu := c\<rparr>) = Spin v))))) \<and>
    (\<exists>t. switchK (sleep ch lk) (thenK scheduler_resume (wakeup ch)) s = Ok () t \<and>
      state (ptable t ! p) = RUNNABLE \<and> lock_free (locks t lk) \<and> lock_free (locks t PtableLock))"
proof (intro conjI allI impI)
  fix k :: nat assume "k \<le> 4"
  with sleep_window [OF assms this, of ch] obtain u where u: "seqK (take k (sleep_steps p ch lk)) s = Ok () u"
      "this_cpu u = this_cpu s" "holding lk u \<or> lock_free (locks u lk) \<and> holding PtableLock u" by blast
  have "\<exists>v. wakeup ch (u\<lparr>this_cpu := c\<rparr>) = Spin v"
    if "holding PtableLock u" "c \<noteq> this_cpu s" "cpu_ok (cpus u c)" for c
    using that u(2) by (intro wakeup_spins) (auto simp: holding_def)
  with u show "\<exists>u. seqK (take k (sleep_steps p ch lk)) s = Ok () u \<and> (holding lk u \<or> lock_free (locks u lk) \<and>
      (\<forall>c. c \<noteq> this_cpu s \<and> cpu_ok (cpus u c) \<longrightarrow> (\<exists>v. wakeup ch (u\<lparr>this_cpu := c\<rparr>) = Spin v)))" by blast
qed (rule sleep_then_wakeup [OF assms])

definition sleeper0 :: kproc where
  "sleeper0 = (kproc0 [(ready_proc 5 100)\<lparr>state := RUNNING\<rparr>])\<lparr>
     cpus := (\<lambda>_. cpu0)(0 := cpu0\<lparr>ncli := 1, cproc := Some 0\<rparr>),
     locks := (\<lambda>_. \<lparr>locked = False, lname = '''', lcpu = None\<rparr>)(TickLock := \<lparr>locked = True, lname = ''time'', lcpu = Some 0\<rparr>)\<rparr>"

lemma sleeper0_may_sleep: "may_sleep 0 TickLock sleeper0"
  by (simp add: may_sleep_def sleeper0_def kproc0_def cpu0_def holding_def lock_free_def)

theorem sleep_no_lost_wakeup_witness:
  "\<exists>t. switchK (sleep ChanTicks TickLock) (thenK scheduler_resume (wakeup ChanTicks)) sleeper0 = Ok () t \<and>
    state (ptable t ! 0) = RUNNABLE"
  using sleep_no_lost_wakeup [OF sleeper0_may_sleep, of ChanTicks] by blast

text \<open>
  \<^verbatim>\<open>kill(n)\<close> with a process of pid \<open>n\<close> in the table marks the first such process killed, makes it
  runnable if it sleeps, changes nothing else and returns 0; with no such process it changes
  nothing and returns -1.
\<close>

theorem kill_functional:
  assumes "cpu_shallow (mycpu s)" "lock_free (locks s PtableLock)"
  shows "kill n s = (case find_index (\<lambda>p. pid p = n) (ptable s) of
      None \<Rightarrow> Ok (- 1) (irqsave s)
    | Some i \<Rightarrow> Ok 0 (irqsave s\<lparr>ptable := (ptable s)[i := (ptable s ! i)\<lparr>killed := True,
        state := (if state (ptable s ! i) = SLEEPING then RUNNABLE else state (ptable s ! i))\<rparr>]\<rparr>))"
proof (cases "find_index (\<lambda>p. pid p = n) (ptable s)")
  case None
  with assms show ?thesis by (simp add: kop kill_def lock_rules)
next
  case (Some i)
  with find_index_le_length [OF Some] assms show ?thesis
    by (cases "ptable s ! i") (simp add: kop kill_def lock_rules upd_proc_def)
qed

theorem kill_functional_witness:
  "kill 3 (kproc0 [proc0, (ready_proc 5 100)\<lparr>state := SLEEPING\<rparr>]) =
    Ok 0 (kproc0 [proc0, (ready_proc 5 100)\<lparr>killed := True\<rparr>])"
  using kill_functional [of "kproc0 [proc0, (ready_proc 5 100)\<lparr>state := SLEEPING\<rparr>]" 3]
  by (simp add: kproc0_def cpu0_def cpu_shallow_def cpu_ok_def lock_free_def proc0_def ready_proc_def saved_def fun_upd_def)

end
