(* ===== verification/Machine.thy ===== *)
theory Machine
  imports ProcLife Blocks Sched
begin

text \<open>
  A running machine for the witnesses: one process, which runs on processor 0 with no lock held, an
  empty buffer cache on a zeroed disk, empty tables of inodes and files, and empty pipes.
\<close>

definition lock0 :: spinlock where
  "lock0 = \<lparr>locked = False, lname = '''', lcpu = None\<rparr>"

definition init0 :: proc where
  "init0 = proc0\<lparr>state := RUNNING, pid := 1, pgdir := 0x80400000, kstack := 0x80500000, tf := 0x80500F00, sz := 0x2000,
     passo := 200\<rparr>"

definition inode0 :: inode where
  "inode0 = \<lparr>idev = 0, inum = 0, iref = 0, i_busy = False, i_valid = False, itype = 0, imajor = 0, iminor = 0, inlink = 0,
     isize = 0, iaddrs = replicate (NDIRECT + 1) 0\<rparr>"

definition file0 :: kfile_entry where
  "file0 = \<lparr>ftype = FD_NONE, fref = 0, readable = False, writable = False, fpipe = 0, fip = 0, foff = 0\<rparr>"

definition pipe0 :: pipe where
  "pipe0 = \<lparr>pdata = replicate PIPESIZE 0, nread = 0xFFFFFFFF, nwrite = 0xFFFFFFFF, readopen = True, writeopen = True\<rparr>"

definition sys0 :: ksys where
  "sys0 = \<lparr>this_cpu = 0, cpus = (\<lambda>_. cpu0)(0 := cpu0\<lparr>cproc := Some 0, flag_if := True\<rparr>), locks = \<lambda>_. lock0,
     conslog = [], mem = \<lambda>_. 0, kend = 0x80200000, use_lock = True, freelist = 0, kpgdir = 0x80300000, kdata = 0x80108000,
     ptable = init0 # replicate (NPROC - 1) proc0, initproc = Some 0, nextpid = 2, sym_forkret = 0x80103f00, sym_trapret = 0x80105c00,
     bcache = cache0, disk = zero_disk, disksize = 1000, dwrites = [], log_start = 2, log_size = 30, log_outstanding = 1,
     log_committing = False, log_dev = 1, lh_n = 0, lh_block = replicate LOGSIZE 0,
     sb = \<lparr>sb_size = 1000, sb_nblocks = 941, sb_ninodes = 200, sb_nlog = 30, sb_logstart = 2, sb_inodestart = 32, sb_bmapstart = 58\<rparr>,
     icache = replicate NINODE inode0,
     ports_out = [], irqmask = 0xFFFB, ioapic_reg = \<lambda>_. 0, lapic = 0xFEE00000, lapic_reg = \<lambda>_ _. 0, cpunum_calls = 0,
     cmos = \<lambda>_ _. 0, cmos_reads = 0, imcr = 0, ismp = True, ncpu = 2, bcpu = 0, ioapicid = 0, cpu_id = \<lambda>c. of_nat c,
     cpu_started = \<lambda>_. True,
     cons_locking = True, panicked = False, crt = \<lambda>_. 0, crt_pos = 0, uart = True, uart_lsr = 0, uart_out = [], uart_in = [],
     kbd_in = [], kbd_shift = 0, input_buf = replicate INPUT_BUF 0, input_r = 0xFFFFFFFF, input_w = 0xFFFFFFFF, input_e = 0xFFFFFFFF,
     devsw = replicate NDEV \<lparr>dv_read = None, dv_write = None\<rparr>,
     pipes = \<lambda>_. pipe0, ftable = replicate NFILE file0,
     forkret_first = False, ticks = 0, cr2 = 0, idt = [], idt_loaded = \<lambda>_. True, gdts = \<lambda>_. [], sym_vectors = \<lambda>k. 0x80106000 + of_nat k,
     exec_elf = 0, exec_ph = 0\<rparr>"

lemma sys0_cpu [simp]: "this_cpu sys0 = 0" "cpus sys0 0 = cpu0\<lparr>cproc := Some 0, flag_if := True\<rparr>" "locks sys0 lk = lock0"
  by (simp_all add: sys0_def)

lemma cpu0_shallow [simp]: "cpu_shallow (cpu0\<lparr>cproc := p, flag_if := b\<rparr>)" "lock_free lock0" "ncli cpu0 = 0"
  by (simp_all add: cpu_shallow_def cpu_ok_def cpu0_def lock_free_def lock0_def)

lemma sys0_runs: "runs 0 sys0"
  by (simp add: runs_def sys0_def cpu0_def lock0_def lock_free_def)

lemma xlate_kernel [simp]: "KERNBASE \<le> a \<Longrightarrow> xlate m pd w a = Some a"
  by (simp add: xlate_def)

end
