(* ===== verification/Fifo.thy ===== *)
theory Fifo
  imports Machine
begin

text \<open>
  The two ring buffers of the kernel, of pipes (\<^verbatim>\<open>pipe.c\<close>) and of console input (\<^verbatim>\<open>console.c\<close>), are bounded
  queues of bytes.  Their indices are 32-bit counters that wrap around; the ring survives that because its
  size divides \<open>2 ^ 32\<close>.
\<close>

section \<open>Rings with wrapping counters\<close>

definition ring_bytes :: "byte list \<Rightarrow> u32 \<Rightarrow> u32 \<Rightarrow> byte list" where
  "ring_bytes d r w = map (\<lambda>k. d ! (unat (r + of_nat k) mod length d)) [0..<unat (w - r)]"

definition ring_fits :: "byte list \<Rightarrow> u32 \<Rightarrow> u32 \<Rightarrow> bool" where
  "ring_fits d r w \<longleftrightarrow> d \<noteq> [] \<and> length d dvd 2 ^ 32 \<and> unat (w - r) \<le> length d"

lemma length_ring_bytes [simp]: "length (ring_bytes d r w) = unat (w - r)"
  by (simp add: ring_bytes_def)

lemma ring_index: "m dvd 2 ^ 32 \<Longrightarrow> unat (r + of_nat k :: u32) mod m = (unat r + k) mod m"
  by (simp add: unat_word_ariths unat_of_nat mod_mod_cancel mod_add_right_eq)

lemma counter_split: "w = r + of_nat (unat (w - r))" for w :: u32
  by simp

lemma counter_suc: "unat (w - r) < n \<Longrightarrow> n \<le> 2 ^ 31 \<Longrightarrow> unat (w + 1 - r) = Suc (unat (w - r))" for w :: u32
proof -
  assume "unat (w - r) < n" "n \<le> 2 ^ 31"
  then have "unat (w - r + 1) = unat (w - r) + 1" by (simp add: unat_word_ariths(1) [of "w - r" 1])
  then show ?thesis by (simp add: algebra_simps)
qed

lemma ring_apart:
  assumes "k < n" "n < (m :: nat)"
  shows "(a + k) mod m \<noteq> (a + n) mod m"
proof
  assume "(a + k) mod m = (a + n) mod m"
  then have "m dvd (a + n) - (a + k)" using assms(1) by (metis mod_eq_dvd_iff_nat add_le_cancel_left less_imp_le)
  then show False using assms by (auto dest: dvd_imp_le)
qed

lemma ring_put:
  assumes "ring_fits d r w" "unat (w - r) < length d" "length d \<le> 2 ^ 31"
  shows "ring_bytes (d[unat w mod length d := b]) r (w + 1) = ring_bytes d r w @ [b]"
proof -
  let ?n = "unat (w - r)" and ?m = "length d"
  have m: "0 < ?m" "?m dvd 2 ^ 32" using assms(1) by (simp_all add: ring_fits_def)
  have w: "unat w mod ?m = (unat r + ?n) mod ?m" using ring_index [OF m(2), of r ?n] by simp
  have "d[unat w mod ?m := b] ! (unat (r + of_nat k) mod ?m) = d ! (unat (r + of_nat k) mod ?m)" if "k < ?n" for k
    using ring_apart [OF that assms(2), of "unat r"] by (simp add: w ring_index [OF m(2)])
  moreover have "d[unat w mod ?m := b] ! (unat (r + of_nat ?n) mod ?m) = b" using m(1) by simp
  ultimately show ?thesis using counter_suc [OF assms(2,3)] by (simp add: ring_bytes_def)
qed

lemma ring_take:
  assumes "w \<noteq> r"
  shows "ring_bytes d r w = d ! (unat r mod length d) # ring_bytes d (r + 1) w"
proof -
  obtain n where n: "unat (w - r) = Suc n" using assms by (metis eq_iff_diff_eq_0 not0_implies_Suc unat_eq_zero)
  then have "w - (r + 1) = of_nat n" using counter_split [of w r] by simp
  moreover have "unat (w - r) < 2 ^ LENGTH(32)" by (rule unsigned_less)
  then have "n < 2 ^ 32" using n by simp
  ultimately have "unat (w - (r + 1)) = n" by (simp add: unat_of_nat)
  then show ?thesis by (simp add: ring_bytes_def n upt_conv_Cons map_Suc_upt [symmetric] add.assoc del: upt_Suc)
qed

section \<open>Bounded queues\<close>

text \<open>What a user of a ring relies on.\<close>

locale fifo =
  fixes ok :: "'q \<Rightarrow> bool" and bytes :: "'q \<Rightarrow> byte list" and put :: "byte \<Rightarrow> 'q \<Rightarrow> 'q" and front :: "'q \<Rightarrow> byte"
    and pop :: "'q \<Rightarrow> 'q" and full :: "'q \<Rightarrow> bool" and nil :: "'q \<Rightarrow> bool" and cap :: nat
  assumes full_law: "ok q \<Longrightarrow> full q \<longleftrightarrow> length (bytes q) = cap"
    and nil_law: "ok q \<Longrightarrow> nil q \<longleftrightarrow> bytes q = []"
    and len_law: "ok q \<Longrightarrow> length (bytes q) \<le> cap"
    and put_law: "ok q \<Longrightarrow> length (bytes q) < cap \<Longrightarrow> ok (put b q) \<and> bytes (put b q) = bytes q @ [b]"
    and pop_law: "ok q \<Longrightarrow> bytes q \<noteq> [] \<Longrightarrow> ok (pop q) \<and> bytes q = front q # bytes (pop q)"
begin

lemma puts:
  "ok q \<Longrightarrow> length (bytes q) + length bs \<le> cap \<Longrightarrow> ok (fold put bs q) \<and> bytes (fold put bs q) = bytes q @ bs"
proof (induction bs arbitrary: q)
  case (Cons b bs)
  then have "ok (put b q)" "bytes (put b q) = bytes q @ [b]" using put_law [of q b] by simp_all
  with Cons show ?case by simp
qed simp

lemma pops: "ok q \<Longrightarrow> k \<le> length (bytes q) \<Longrightarrow> ok ((pop ^^ k) q) \<and> bytes ((pop ^^ k) q) = drop k (bytes q)"
proof (induction k)
  case (Suc k)
  then have *: "ok ((pop ^^ k) q)" "bytes ((pop ^^ k) q) = drop k (bytes q)" by simp_all
  then have "bytes ((pop ^^ k) q) \<noteq> []" using Suc.prems by simp
  from pop_law [OF *(1) this] have "bytes (pop ((pop ^^ k) q)) = tl (bytes ((pop ^^ k) q))" "ok (pop ((pop ^^ k) q))"
    by auto
  then show ?case using * by (simp add: tl_drop drop_Suc)
qed simp

lemma fronts: "ok q \<Longrightarrow> k < length (bytes q) \<Longrightarrow> front ((pop ^^ k) q) = bytes q ! k"
proof -
  assume a: "ok q" "k < length (bytes q)"
  with pops [of q k] have p: "ok ((pop ^^ k) q)" "bytes ((pop ^^ k) q) = drop k (bytes q)" by simp_all
  with a pop_law [OF p(1)] show ?thesis by (metis Cons_nth_drop_Suc drop_eq_Nil leD list.inject)
qed

end

section \<open>Pipes\<close>

definition pipe_ok :: "pipe \<Rightarrow> bool" where
  "pipe_ok q \<longleftrightarrow> length (pdata q) = PIPESIZE \<and> unat (nwrite q - nread q) \<le> PIPESIZE"

definition pipe_bytes :: "pipe \<Rightarrow> byte list" where
  "pipe_bytes q = ring_bytes (pdata q) (nread q) (nwrite q)"

lemma pipe_fits: "pipe_ok q \<Longrightarrow> ring_fits (pdata q) (nread q) (nwrite q)"
  by (auto simp: pipe_ok_def ring_fits_def PIPESIZE_def)

lemma pipe_full_law: "pipe_ok q \<Longrightarrow> pipe_full q \<longleftrightarrow> length (pipe_bytes q) = PIPESIZE"
proof -
  assume "pipe_ok q"
  have "pipe_full q \<longleftrightarrow> nwrite q - nread q = of_nat PIPESIZE" by (auto simp: pipe_full_def algebra_simps)
  also have "\<dots> \<longleftrightarrow> unat (nwrite q - nread q) = PIPESIZE" by (auto simp: PIPESIZE_def word_unat_eq_iff)
  finally show ?thesis by (simp add: pipe_bytes_def)
qed

lemma pipe_put_law:
  assumes "pipe_ok q" "length (pipe_bytes q) < PIPESIZE"
  shows "pipe_ok (put_byte b q) \<and> pipe_bytes (put_byte b q) = pipe_bytes q @ [b]"
proof -
  have q: "length (pdata q) = PIPESIZE" "unat (nwrite q - nread q) < PIPESIZE" using assms by (simp_all add: pipe_ok_def pipe_bytes_def)
  with ring_put [OF pipe_fits [OF assms(1)], of b] have "pipe_bytes (put_byte b q) = pipe_bytes q @ [b]"
    by (simp add: pipe_bytes_def put_byte_def PIPESIZE_def)
  moreover have "unat (nwrite q + 1 - nread q) = Suc (unat (nwrite q - nread q))"
    using q(2) by (rule counter_suc) (simp add: PIPESIZE_def)
  ultimately show ?thesis using q by (simp add: pipe_ok_def put_byte_def)
qed

lemma pipe_take_law:
  assumes "pipe_ok q" "pipe_bytes q \<noteq> []"
  shows "pipe_ok (take_byte q) \<and> pipe_bytes q = next_byte q # pipe_bytes (take_byte q)"
proof -
  have "nwrite q \<noteq> nread q" using assms(2) by (auto simp: pipe_bytes_def ring_bytes_def)
  then have *: "pipe_bytes q = next_byte q # pipe_bytes (take_byte q)"
    using ring_take [of "nwrite q" "nread q" "pdata q"] assms(1) by (simp add: pipe_bytes_def take_byte_def next_byte_def pipe_ok_def)
  have "unat (nwrite q - nread q) = Suc (unat (nwrite q - (nread q + 1)))"
    using arg_cong [OF *, of length] by (simp add: take_byte_def pipe_bytes_def)
  with * assms(1) show ?thesis by (simp add: pipe_ok_def take_byte_def)
qed

interpretation pq: fifo pipe_ok pipe_bytes put_byte next_byte take_byte pipe_full pipe_empty PIPESIZE
proof
  show "pipe_ok q \<Longrightarrow> pipe_empty q \<longleftrightarrow> pipe_bytes q = []" for q
    by (auto simp: pipe_empty_def pipe_bytes_def ring_bytes_def unat_eq_zero)
  show "pipe_ok q \<Longrightarrow> length (pipe_bytes q) \<le> PIPESIZE" for q by (simp add: pipe_ok_def pipe_bytes_def)
qed (fact pipe_full_law pipe_put_law pipe_take_law)+

text \<open>User memory that can be read: what the bytes are, and that reading changes nothing.\<close>

definition ureadable :: "'z kmem_scheme \<Rightarrow> addr \<Rightarrow> byte list \<Rightarrow> bool" where
  "ureadable s a bs \<longleftrightarrow> (\<forall>k < length bs. uload1 (a + of_nat k) s = Ok (bs ! k) s)"

lemma uload1_Ok: "uload1 a s = Ok b t \<longleftrightarrow> t = s \<and> (\<exists>pa. xlate (mem s) (cr3 (mycpu s)) False a = Some pa \<and> b = mem s pa)"
  by (auto simp: uload1_def kop split: option.splits)

lemma ureadable_iff: "ureadable s a bs \<longleftrightarrow> (\<forall>k < length bs. \<exists>pa. xlate (mem s) (cr3 (mycpu s)) False (a + of_nat k) = Some pa \<and> bs ! k = mem s pa)"
  by (auto simp: ureadable_def uload1_Ok)

lemma ureadable_cong: "mem t = mem s \<Longrightarrow> cr3 (mycpu t) = cr3 (mycpu s) \<Longrightarrow> ureadable t a bs = ureadable s a bs"
  by (simp add: ureadable_iff)

lemma ureadable_Cons: "ureadable s a (b # bs) \<longleftrightarrow> uload1 a s = Ok b s \<and> ureadable s (a + 1) bs"
  by (auto simp: ureadable_def less_Suc_eq_0_disj add.assoc)

text \<open>The loop of a writer for which there is room.\<close>

lemma pipewrite_loop_room:
  assumes "pipe_ok (pipes s p)" "length (pipe_bytes (pipes s p)) + length bs \<le> PIPESIZE" "ureadable s a bs"
  shows "pipewrite_loop p a n (length bs + k) s =
    pipewrite_loop p (a + of_nat (length bs)) n k (s\<lparr>pipes := (pipes s)(p := fold put_byte bs (pipes s p))\<rparr>)"
  using assms
proof (induction bs arbitrary: a s)
  case (Cons b bs)
  let ?s = "s\<lparr>pipes := (pipes s)(p := put_byte b (pipes s p))\<rparr>"
  have q: "\<not> pipe_full (pipes s p)" "pipe_ok (pipes ?s p)" "length (pipe_bytes (pipes ?s p)) + length bs \<le> PIPESIZE"
    using Cons.prems pq.full_law pq.put_law [of "pipes s p" b] by auto
  have r: "ureadable ?s (a + 1) bs" "uload1 a s = Ok b s"
    using Cons.prems(3) ureadable_cong [of ?s s] by (simp_all add: ureadable_Cons)
  have "pipewrite_loop p a n (length (b # bs) + k) s = pipewrite_loop p (a + 1) n (length bs + k) ?s"
    using q(1) r(2) by (simp add: kop get_pipe_def upd_pipe_def)
  also have "\<dots> = pipewrite_loop p (a + 1 + of_nat (length bs)) n k (?s\<lparr>pipes := (pipes ?s)(p := fold put_byte bs (pipes ?s p))\<rparr>)"
    by (rule Cons.IH [OF q(2,3) r(1)])
  also have "a + 1 + of_nat (length bs) = a + of_nat (length (b # bs))" by (simp add: add.assoc)
  also have "?s\<lparr>pipes := (pipes ?s)(p := fold put_byte bs (pipes ?s p))\<rparr> = s\<lparr>pipes := (pipes s)(p := fold put_byte (b # bs) (pipes s p))\<rparr>"
    by simp
  finally show ?case .
qed simp

text \<open>A processor that can take the locks of a pipe, and a wakeup under one of them.\<close>

definition pipe_ready :: "'z kpipe_scheme \<Rightarrow> addr \<Rightarrow> bool" where
  "pipe_ready s p \<longleftrightarrow> cpu_shallow (mycpu s) \<and> lock_free (locks s (PipeLock p)) \<and> lock_free (locks s PtableLock)"

lemma upd_back: "a \<noteq> b \<Longrightarrow> f(a := x, b := f b) = f(a := x)"
  by auto

lemma finish_pipe:
  assumes "pipe_ready s p"
  shows "thenK (wakeup ch) (thenK (release (PipeLock p)) (retK r)) (s\<lparr>cpus := (cpus s)(this_cpu s := pushed (mycpu s)),
      locks := (locks s)(PipeLock p := taken (this_cpu s) (locks s (PipeLock p))), mem := m, pipes := qs\<rparr>) =
    Ok r ((irqsave s)\<lparr>ptable := map (wake ch) (ptable s), mem := m, pipes := qs\<rparr>)"
  using assms by (simp add: kop pipe_ready_def lock_rules wakeup_def wakeup1_def)

abbreviation in_pipe :: "addr \<Rightarrow> 'z kpipe_scheme \<Rightarrow> 'z kpipe_scheme" where
  "in_pipe p s \<equiv> s\<lparr>cpus := (cpus s)(this_cpu s := pushed (mycpu s)),
     locks := (locks s)(PipeLock p := taken (this_cpu s) (locks s (PipeLock p)))\<rparr>"

lemma acquire_pipe: "pipe_ready s p \<Longrightarrow> thenK (acquire (PipeLock p)) k s = k (in_pipe p s)"
  by (simp add: kop pipe_ready_def lock_rules)

lemma pushed_cr3 [simp]: "cr3 (pushed c) = cr3 c"
  by (simp add: pushed_def)

lemma ustore_frame: "ustore a bs s = Ok () t \<Longrightarrow> t = s\<lparr>mem := mem t\<rparr>"
proof (induction bs arbitrary: a s)
  case (Cons b bs)
  then obtain u where u: "ustore1 a b s = Ok () u" "ustore (a + 1) bs u = Ok () t" by (auto simp: ok_iff)
  then have "u = s\<lparr>mem := mem u\<rparr>" by (auto simp: ustore1_def kop split: option.splits)
  moreover have "t = u\<lparr>mem := mem t\<rparr>" by (rule Cons.IH [OF u(2)])
  ultimately show ?case by (metis kmem.update_convs(1) kmem.surjective kmem.select_convs(1))
qed (simp add: kop)

lemma ustore_same:
  assumes "ustore a bs s = Ok () t" "mem s' = mem s" "cr3 (mycpu s') = cr3 (mycpu s)"
  shows "ustore a bs s' = Ok () (s'\<lparr>mem := mem t\<rparr>)"
  using assms
proof (induction bs arbitrary: a s s')
  case (Cons b bs)
  then obtain u where u: "ustore1 a b s = Ok () u" "ustore (a + 1) bs u = Ok () t" by (auto simp: ok_iff)
  let ?u = "s'\<lparr>mem := mem u\<rparr>"
  have "ustore1 a b s' = Ok () ?u" "cr3 (mycpu ?u) = cr3 (mycpu u)"
    using u(1) Cons.prems(2,3) by (auto simp: ustore1_def kop split: option.splits)
  moreover have "ustore (a + 1) bs ?u = Ok () (?u\<lparr>mem := mem t\<rparr>)"
    using \<open>cr3 (mycpu ?u) = _\<close> by (intro Cons.IH [OF u(2)]) simp_all
  ultimately show ?case by (simp add: kop)
qed (simp add: kop)

text \<open>The copying loop of a reader stores what the queue holds, in order.\<close>

lemma piperead_copy_ok:
  assumes "pipe_ok (pipes s p)" "ustore a (take k (pipe_bytes (pipes s p))) s = Ok () u"
  shows "piperead_copy p a i k s = Ok (i + int (min k (length (pipe_bytes (pipes s p)))))
    (s\<lparr>mem := mem u, pipes := (pipes s)(p := (take_byte ^^ min k (length (pipe_bytes (pipes s p)))) (pipes s p))\<rparr>)"
  using assms
proof (induction k arbitrary: a i s u)
  case 0
  then show ?case by (simp add: kop)
next
  case (Suc k)
  let ?q = "pipes s p"
  show ?case
  proof (cases "pipe_bytes ?q")
    case Nil
    then have "mem u = mem s" using Suc.prems(2) by (simp add: kop)
    with Nil pq.nil_law [OF Suc.prems(1)] show ?thesis by (simp add: kop get_pipe_def)
  next
    case (Cons c cs)
    with pq.pop_law [OF Suc.prems(1)] have q: "pipe_ok (take_byte ?q)" "next_byte ?q = c" "pipe_bytes (take_byte ?q) = cs"
      by auto
    obtain v where v: "ustore1 a c s = Ok () v" "ustore (a + 1) (take k cs) v = Ok () u"
      using Suc.prems(2) Cons by (auto simp: ok_iff)
    let ?v = "s\<lparr>mem := mem v, pipes := (pipes s)(p := take_byte ?q)\<rparr>"
    have "ustore1 a c (s\<lparr>pipes := (pipes s)(p := take_byte ?q)\<rparr>) = Ok () ?v"
      using v(1) by (auto simp: ustore1_def kop split: option.splits)
    then have "piperead_copy p a i (Suc k) s = piperead_copy p (a + 1) (i + 1) k ?v"
      using Cons q pq.nil_law [OF Suc.prems(1)] by (simp add: kop get_pipe_def upd_pipe_def)
    also have "\<dots> = Ok (i + 1 + int (min k (length cs))) (s\<lparr>mem := mem u,
        pipes := (pipes s)(p := (take_byte ^^ min k (length cs)) (take_byte ?q))\<rparr>)"
    proof -
      define v' where "v' = ?v"
      have m: "v = s\<lparr>mem := mem v\<rparr>" using v(1) by (auto simp: ustore1_def kop split: option.splits)
      have "cpus v = cpus s" "this_cpu v = this_cpu s" by (subst m, simp)+
      then have us: "ustore (a + 1) (take k cs) v' = Ok () (v'\<lparr>mem := mem u\<rparr>)" by (intro ustore_same [OF v(2)]) (simp_all add: v'_def)
      have v': "pipes v' p = take_byte ?q" "mem (v'\<lparr>mem := mem u\<rparr>) = mem u" by (simp_all add: v'_def)
      have "piperead_copy p (a + 1) (i + 1) k v' = Ok (i + 1 + int (min k (length cs)))
          (v'\<lparr>mem := mem u, pipes := (pipes v')(p := (take_byte ^^ min k (length cs)) (take_byte ?q))\<rparr>)"
        using Suc.IH [of v' "a + 1" "v'\<lparr>mem := mem u\<rparr>" "i + 1", unfolded v' q, OF q(1) us] .
      then show ?thesis by (simp add: v'_def)
    qed
    finally have "piperead_copy p a i (Suc k) s = Ok (i + (1 + int (min k (length cs)))) (s\<lparr>mem := mem u,
        pipes := (pipes s)(p := (take_byte ^^ min k (length cs)) (take_byte ?q))\<rparr>)" by (simp only: add.assoc)
    moreover have "min (Suc k) (length (pipe_bytes ?q)) = Suc (min k (length cs))" using Cons by simp
    ultimately show ?thesis by (simp only: funpow_Suc_right comp_apply of_nat_Suc)
  qed
qed

lemma sys0_pipes: "pipe_ready sys0 p" "pipe_ok (pipes sys0 p)" "pipe_bytes (pipes sys0 p) = []"
  by (simp_all add: pipe_ready_def) (simp_all add: sys0_def pipe0_def pipe_ok_def pipe_bytes_def ring_bytes_def)

text \<open>
  C11. A pipe is a bounded first-in first-out queue of bytes although \<^verbatim>\<open>nread\<close> and \<^verbatim>\<open>nwrite\<close> wrap around: putting a byte
  appends it, taking one removes the oldest, the tests for full and empty are exact, and both operations keep the
  invariant that at most \<open>PIPESIZE\<close> bytes are buffered.
\<close>

theorem pipe_refines_queue:
  assumes "pipe_ok q"
  shows "(pipe_full q \<longleftrightarrow> length (pipe_bytes q) = PIPESIZE) \<and> (pipe_empty q \<longleftrightarrow> pipe_bytes q = []) \<and>
    (\<not> pipe_full q \<longrightarrow> pipe_ok (put_byte b q) \<and> pipe_bytes (put_byte b q) = pipe_bytes q @ [b]) \<and>
    (\<not> pipe_empty q \<longrightarrow> pipe_ok (take_byte q) \<and> next_byte q = hd (pipe_bytes q) \<and> pipe_bytes (take_byte q) = tl (pipe_bytes q))"
  using pq.full_law [OF assms] pq.nil_law [OF assms] pq.len_law [OF assms] pq.put_law [OF assms, of b] pq.pop_law [OF assms]
  by (metis le_neq_implies_less list.sel(1,3))

text \<open>The witness has both counters about to wrap around.\<close>

theorem pipe_refines_queue_witness:
  "pipe_bytes (put_byte 9 \<lparr>pdata = replicate 512 7, nread = 0xFFFFFFFE, nwrite = 0xFFFFFFFF, readopen = True, writeopen = True\<rparr>) = [7, 9]"
proof -
  let ?q = "\<lparr>pdata = replicate 512 7, nread = 0xFFFFFFFE, nwrite = 0xFFFFFFFF, readopen = True, writeopen = True\<rparr>"
  have q: "pipe_ok ?q" by (simp add: pipe_ok_def PIPESIZE_def)
  have "\<not> pipe_full ?q" "pipe_bytes ?q = [7]" by (simp_all add: pipe_full_def PIPESIZE_def pipe_bytes_def ring_bytes_def)
  with pipe_refines_queue [OF q, of 9] show ?thesis by simp
qed

text \<open>
  C25. A write that fits goes into the pipe whole: \<^verbatim>\<open>pipewrite\<close> returns the count, the bytes of the user buffer follow what was
  buffered, user memory is unchanged and sleeping readers become runnable.
\<close>

theorem pipewrite_appends:
  assumes "pipe_ready s p" "pipe_ok (pipes s p)" "ureadable s a bs" "length (pipe_bytes (pipes s p)) + length bs \<le> PIPESIZE"
  shows "\<exists>t. pipewrite p a (int (length bs)) s = Ok (int (length bs)) t \<and> pipe_ok (pipes t p) \<and>
    pipe_bytes (pipes t p) = pipe_bytes (pipes s p) @ bs \<and> (\<forall>q. q \<noteq> p \<longrightarrow> pipes t q = pipes s q) \<and>
    mem t = mem s \<and> locks t = locks s \<and> ptable t = map (wake (ChanNread p)) (ptable s)"
proof -
  let ?s = "in_pipe p s"
  have "ureadable ?s a bs" using assms(3) ureadable_cong [of ?s s] by simp
  with pipewrite_loop_room [of ?s p bs a "int (length bs)" 0] assms(1,2,4)
  have "pipewrite p a (int (length bs)) s = pipewrite_loop p (a + of_nat (length bs)) (int (length bs)) 0
      (?s\<lparr>pipes := (pipes s)(p := fold put_byte bs (pipes s p))\<rparr>)"
    by (simp add: pipewrite_def acquire_pipe del: pipewrite_loop.simps)
  also have "\<dots> = Ok (int (length bs)) ((irqsave s)\<lparr>ptable := map (wake (ChanNread p)) (ptable s),
      pipes := (pipes s)(p := fold put_byte bs (pipes s p))\<rparr>)"
    using finish_pipe [OF assms(1), where m = "mem s" and qs = "(pipes s)(p := fold put_byte bs (pipes s p))"] by simp
  finally show ?thesis using pq.puts [OF assms(2,4)] by simp
qed

theorem pipewrite_appends_witness:
  "\<exists>t. pipewrite 0x80600000 0x80700001 3 (sys0\<lparr>mem := ucast\<rparr>) = Ok 3 t \<and> pipe_bytes (pipes t 0x80600000) = [1, 2, 3]"
proof -
  have "ureadable (sys0\<lparr>mem := ucast\<rparr>) 0x80700001 [1, 2, 3]"
    by (simp only: ureadable_Cons) (simp add: uload1_def kop KERNBASE_def ureadable_def)
  with pipewrite_appends [OF _ _ this, of "0x80600000"] sys0_pipes [of "0x80600000"] show ?thesis
    by (auto simp: pipe_ready_def PIPESIZE_def)
qed

text \<open>
  C27. A write to a full pipe: with the read end closed or the writer killed \<^verbatim>\<open>pipewrite\<close> returns -1 and changes nothing;
  otherwise the writer wakes the readers and sleeps on the write channel, with the lock of the pipe free and \<^verbatim>\<open>ptable.lock\<close>
  held for the scheduler, so it never waits for a reader that cannot come and no byte is overwritten.
\<close>

theorem pipewrite_full:
  assumes "pipe_ready s p" "pipe_full (pipes s p)" "runs c s" "0 < n"
  shows "if \<not> readopen (pipes s p) \<or> killed (ptable s ! c) then pipewrite p a n s = Ok (- 1) (irqsave s)
    else \<exists>t. pipewrite p a n s = Swtch t \<and> pipes t = pipes s \<and> mem t = mem s \<and> lock_free (locks t (PipeLock p)) \<and>
      holding PtableLock t \<and> state (ptable t ! c) = SLEEPING \<and> chan (ptable t ! c) = Some (ChanNwrite p) \<and>
      (\<forall>i. i < length (ptable s) \<and> i \<noteq> c \<longrightarrow> ptable t ! i = wake (ChanNread p) (ptable s ! i))"
proof -
  obtain k where k: "nat n = Suc k" using assms(4) by (metis gr0_implies_Suc zero_less_nat_eq)
  have c: "cproc (mycpu s) = Some c" "c < length (ptable s)" "ncli (mycpu s) = 0" using assms(3) by (simp_all add: runs_def)
  show ?thesis
  proof (cases "\<not> readopen (pipes s p) \<or> killed (ptable s ! c)")
    case True
    with assms(1,2) k c show ?thesis
      by (simp add: pipewrite_def acquire_pipe) (simp add: kop get_pipe_def cur_killed_def with_proc_def pipe_ready_def lock_rules)
  next
    case False
    let ?u = "s\<lparr>ptable := map (wake (ChanNread p)) (ptable s), cpus := (cpus s)(this_cpu s := pushed (mycpu s)),
      locks := (locks s)(PipeLock p := taken (this_cpu s) (locks s (PipeLock p)))\<rparr>"
    have "pipewrite p a n s = sleep (ChanNwrite p) (PipeLock p) ?u"
      using assms(1,2) k c False by (simp add: pipewrite_def acquire_pipe)
        (simp add: kop get_pipe_def cur_killed_def with_proc_def pipe_ready_def lock_rules wakeup_def wakeup1_def upd_back)
    moreover have "may_sleep c (PipeLock p) ?u" using assms(1) c by (simp add: may_sleep_def pipe_ready_def holding_def)
    ultimately show ?thesis using False c(2) assms(1) by (simp add: sleep_switches pipe_ready_def holding_def)
  qed
qed

theorem pipewrite_full_witness:
  "\<exists>t. pipewrite 0x80600000 0x80700001 3 (sys0\<lparr>pipes := \<lambda>_. pipe0\<lparr>nwrite := 511, readopen := False\<rparr>\<rparr>) = Ok (- 1) t"
  using pipewrite_full [of "sys0\<lparr>pipes := \<lambda>_. pipe0\<lparr>nwrite := 511, readopen := False\<rparr>\<rparr>" "0x80600000" 0 3 "0x80700001"] sys0_runs
  by (simp add: pipe_ready_def pipe_full_def pipe0_def PIPESIZE_def runs_def)

text \<open>
  C26. A read from a pipe with data, or with the write end closed: \<^verbatim>\<open>piperead\<close> returns the number of bytes it took, at most
  what was asked for; these are the oldest bytes of the pipe, stored in order at the user's address, the rest stays, and
  sleeping writers become runnable.
\<close>

theorem piperead_takes:
  assumes "pipe_ready s p" "pipe_ok (pipes s p)" "pipe_bytes (pipes s p) \<noteq> [] \<or> \<not> writeopen (pipes s p)" "0 \<le> n"
    and "ustore a (take (nat n) (pipe_bytes (pipes s p))) s = Ok () u"
  shows "\<exists>t. piperead p a n s = Ok (min n (int (length (pipe_bytes (pipes s p))))) t \<and> mem t = mem u \<and> pipe_ok (pipes t p) \<and>
    pipe_bytes (pipes t p) = drop (nat n) (pipe_bytes (pipes s p)) \<and> locks t = locks s \<and>
    ptable t = map (wake (ChanNwrite p)) (ptable s)"
proof -
  let ?q = "pipes s p" and ?m = "min (nat n) (length (pipe_bytes (pipes s p)))"
  have "ustore a (take (nat n) (pipe_bytes ?q)) (in_pipe p s) = Ok () ((in_pipe p s)\<lparr>mem := mem u\<rparr>)"
    by (rule ustore_same [OF assms(5)]) simp_all
  then have "piperead_copy p a 0 (nat n) (in_pipe p s) = Ok (int ?m) ((in_pipe p s)\<lparr>mem := mem u, pipes := (pipes s)(p := (take_byte ^^ ?m) ?q)\<rparr>)"
    using piperead_copy_ok [of "in_pipe p s" p a "nat n" _ 0] assms(2) by simp
  moreover have "(pipe_empty ?q \<and> writeopen ?q) = False" using pq.nil_law [OF assms(2)] assms(3) by simp
  ultimately have "piperead p a n s = Ok (int ?m) ((irqsave s)\<lparr>ptable := map (wake (ChanNwrite p)) (ptable s), mem := mem u,
      pipes := (pipes s)(p := (take_byte ^^ ?m) ?q)\<rparr>)"
    using finish_pipe [OF assms(1), where m = "mem u" and qs = "(pipes s)(p := (take_byte ^^ ?m) ?q)" and ch = "ChanNwrite p" and r = "int ?m"]
    by (auto simp: piperead_def acquire_pipe [OF assms(1)] piperead_loop_def bindK_def get_pipe_def getK_def)
  moreover have "int ?m = min n (int (length (pipe_bytes ?q)))" using assms(4) by simp
  moreover have "drop ?m (pipe_bytes ?q) = drop (nat n) (pipe_bytes ?q)" by (simp add: min_def)
  ultimately show ?thesis using pq.pops [OF assms(2), of ?m] by simp
qed

theorem piperead_takes_witness:
  "\<exists>t. piperead 0x80600000 0x80700000 1 (sys0\<lparr>pipes := \<lambda>_. pipe0\<lparr>pdata := replicate 512 5, nwrite := 1\<rparr>\<rparr>) = Ok 1 t \<and>
    mem t 0x80700000 = 5 \<and> pipe_bytes (pipes t 0x80600000) = [5]"
proof -
  let ?s = "sys0\<lparr>pipes := \<lambda>_. pipe0\<lparr>pdata := replicate 512 5, nwrite := 1\<rparr>\<rparr>"
  have b: "pipe_bytes (pipes ?s 0x80600000) = [5, 5]"
    by (simp add: pipe_bytes_def pipe0_def ring_bytes_def upt_conv_Cons)
  have "ustore 0x80700000 (take (nat 1) [5, 5]) ?s = Ok () (?s\<lparr>mem := (mem ?s)(0x80700000 := 5)\<rparr>)"
    by (simp add: kop ustore1_def KERNBASE_def)
  with piperead_takes [of ?s "0x80600000" 1 "0x80700000" "?s\<lparr>mem := (mem ?s)(0x80700000 := 5)\<rparr>"] b
  show ?thesis by (auto simp: pipe_ready_def pipe_ok_def pipe0_def PIPESIZE_def)
qed

end
