(* ===== verification/Lines.thy ===== *)
theory Lines
  imports Fifo
begin

text \<open>
  Console input and output (\<^verbatim>\<open>console.c\<close>).  The input ring holds the lines a reader may take, up to \<^verbatim>\<open>input.w\<close>, and
  behind them the line being edited, up to \<^verbatim>\<open>input.e\<close>.  Editing never touches a finished line, and output never
  leaves the screen.
\<close>

section \<open>The screen\<close>

definition on_screen :: "'z kcons_scheme \<Rightarrow> bool" where
  "on_screen s \<longleftrightarrow> \<not> panicked s \<and> uint (crt_pos s) < 24 * 80"

definition same_but_screen :: "'z kcons_scheme \<Rightarrow> 'z kcons_scheme \<Rightarrow> bool" where
  "same_but_screen s t \<longleftrightarrow> t = s\<lparr>crt := crt t, crt_pos := crt_pos t, uart_out := uart_out t\<rparr> \<and>
     (\<forall>i. i < 0 \<or> 25 * 80 \<le> i \<longrightarrow> crt t i = crt s i)"

lemma same_but_screen_refl [simp]: "same_but_screen s s"
  by (simp add: same_but_screen_def)

lemma same_but_screen_trans: "same_but_screen s t \<Longrightarrow> same_but_screen t u \<Longrightarrow> same_but_screen s u"
proof -
  assume a: "same_but_screen s t" "same_but_screen t u"
  have t: "t = s\<lparr>crt := crt t, crt_pos := crt_pos t, uart_out := uart_out t\<rparr>"
    and u: "u = t\<lparr>crt := crt u, crt_pos := crt_pos u, uart_out := uart_out u\<rparr>" using a by (simp_all add: same_but_screen_def)
  have "u = s\<lparr>crt := crt u, crt_pos := crt_pos u, uart_out := uart_out u\<rparr>" by (subst u, subst t) simp
  with a show ?thesis by (simp add: same_but_screen_def)
qed

lemma same_but_screen_fields:
  assumes "same_but_screen s t"
  shows "input_buf t = input_buf s" "input_r t = input_r s" "input_w t = input_w s" "input_e t = input_e s" "panicked t = panicked s"
    "cpus t = cpus s" "this_cpu t = this_cpu s" "locks t = locks s" "ptable t = ptable s"
proof -
  have t: "t = s\<lparr>crt := crt t, crt_pos := crt_pos t, uart_out := uart_out t\<rparr>" using assms by (simp add: same_but_screen_def)
  show "input_buf t = input_buf s" "input_r t = input_r s" "input_w t = input_w s" "input_e t = input_e s" "panicked t = panicked s"
    "cpus t = cpus s" "this_cpu t = this_cpu s" "locks t = locks s" "ptable t = ptable s" by (subst t, simp)+
qed

lemma uartputc_ok: "\<exists>t. uartputc c s = Ok () t \<and> same_but_screen s t \<and> crt_pos t = crt_pos s"
  by (cases "uart s") (auto simp: uartputc_def kop same_but_screen_def)

lemma cga_move_ok:
  assumes "0 \<le> p" "p \<le> 1920" "\<not> panicked s"
  shows "\<exists>t. cga_move p s = Ok () t \<and> same_but_screen s t \<and> on_screen t"
proof (cases "p < 1920")
  case True
  then have "uint (word_of_int p :: u16) = p" using assms(1) by (simp add: uint_word_of_int)
  moreover have "(p div 80 \<ge> 24) = False" using True by simp
  ultimately show ?thesis using True assms by (simp add: cga_move_def kop same_but_screen_def on_screen_def)
next
  case False
  then have "p = 1920" using assms(2) by simp
  with assms(3) show ?thesis by (simp add: cga_move_def kop same_but_screen_def on_screen_def)
qed

lemma cgaputc_ok:
  assumes "on_screen s"
  shows "\<exists>t. cgaputc c s = Ok () t \<and> same_but_screen s t \<and> on_screen t"
proof -
  let ?p = "uint (crt_pos s)" and ?s = "s\<lparr>crt := (crt s)(uint (crt_pos s) := (word_of_int c AND 0xff) OR 0x0700)\<rparr>"
  have p: "0 \<le> ?p" "?p < 1920" "\<not> panicked s" using assms by (simp_all add: on_screen_def)
  have n: "0 \<le> ?p + (80 - ?p mod 80)" "?p + (80 - ?p mod 80) \<le> 1920" using p by presburger+
  have s: "same_but_screen s ?s" "\<not> panicked ?s" using p by (auto simp: same_but_screen_def)
  have "cgaputc c s = (if c = 10 then cga_move (?p + (80 - ?p mod 80)) s
      else if c = BACKSPACE then cga_move (if ?p > 0 then ?p - 1 else ?p) s else cga_move (?p + 1) ?s)"
    by (simp add: cgaputc_def cga_move_def bindK_def getK_def retK_def thenK_unfold modK_def)
  moreover have "\<exists>t. cga_move (?p + 1) ?s = Ok () t \<and> same_but_screen s t \<and> on_screen t"
    using cga_move_ok [of "?p + 1" ?s] p s same_but_screen_trans [OF s(1)] by auto
  moreover have "\<exists>t. cga_move (?p + (80 - ?p mod 80)) s = Ok () t \<and> same_but_screen s t \<and> on_screen t"
    by (rule cga_move_ok [OF n p(3)])
  moreover have "\<exists>t. cga_move (if ?p > 0 then ?p - 1 else ?p) s = Ok () t \<and> same_but_screen s t \<and> on_screen t"
    using p by (intro cga_move_ok) auto
  ultimately show ?thesis by presburger
qed

lemma consputc_ok:
  assumes "on_screen s"
  shows "\<exists>t. consputc c s = Ok () t \<and> same_but_screen s t \<and> on_screen t"
proof -
  have u: "\<exists>t. uartputc c u = Ok () t \<and> same_but_screen u t \<and> on_screen t" if "on_screen u" for c and u :: "'a kcons_scheme"
    using uartputc_ok [of c u] that same_but_screen_fields(5) by (fastforce simp: on_screen_def)
  have "\<exists>t. (if c = BACKSPACE then thenK (uartputc 8) (thenK (uartputc 0x20) (uartputc 8)) else uartputc c) s = Ok () t \<and>
      same_but_screen s t \<and> on_screen t"
  proof (cases "c = BACKSPACE")
    case True
    obtain t1 where 1: "uartputc 8 s = Ok () t1" "same_but_screen s t1" "on_screen t1" using u [OF assms] by blast
    obtain t2 where 2: "uartputc 0x20 t1 = Ok () t2" "same_but_screen t1 t2" "on_screen t2" using u [OF 1(3)] by blast
    obtain t3 where 3: "uartputc 8 t2 = Ok () t3" "same_but_screen t2 t3" "on_screen t3" using u [OF 2(3)] by blast
    from 1 2 3 True same_but_screen_trans show ?thesis by (simp add: kop) blast
  qed (use u [OF assms] in auto)
  then obtain t where t: "(if c = BACKSPACE then thenK (uartputc 8) (thenK (uartputc 0x20) (uartputc 8)) else uartputc c) s = Ok () t"
    "same_but_screen s t" "on_screen t" by blast
  obtain v where v: "cgaputc c t = Ok () v" "same_but_screen t v" "on_screen v" using cgaputc_ok [OF t(3)] by blast
  have "consputc c s = cgaputc c t" using t(1) assms by (simp add: consputc_def on_screen_def thenK_unfold bindK_def getK_def)
  with v same_but_screen_trans [OF t(2) v(2)] show ?thesis by auto
qed

text \<open>
  C39. Output stays on the screen: whatever characters are printed, backspaces and newlines included, \<^verbatim>\<open>consputc\<close> never panics
  with the cursor out of range, the cursor stays within the first 24 rows and no cell outside the 80 by 25 screen is written.
\<close>

theorem consputc_on_screen:
  assumes "on_screen s"
  shows "\<exists>t. seqK (map consputc cs) s = Ok () t \<and> uint (crt_pos t) < 24 * 80 \<and> (\<forall>i. i < 0 \<or> 25 * 80 \<le> i \<longrightarrow> crt t i = crt s i)"
proof -
  have "\<exists>t. seqK (map consputc cs) s = Ok () t \<and> same_but_screen s t \<and> on_screen t"
    using assms
  proof (induction cs arbitrary: s)
    case (Cons c cs)
    obtain t where t: "consputc c s = Ok () t" "same_but_screen s t" "on_screen t" using consputc_ok [OF Cons.prems] by blast
    obtain u where u: "seqK (map consputc cs) t = Ok () u" "same_but_screen t u" "on_screen u" using Cons.IH [OF t(3)] by blast
    from t(1) u same_but_screen_trans [OF t(2) u(2)] show ?case by (simp add: kop)
  qed (simp add: kop)
  then show ?thesis by (auto simp: same_but_screen_def on_screen_def)
qed

lemma sys0_screen: "on_screen sys0"
  by (simp add: on_screen_def sys0_def)

theorem consputc_on_screen_witness: "\<exists>t. seqK (map consputc [10, BACKSPACE, 65]) sys0 = Ok () t \<and> uint (crt_pos t) < 24 * 80"
  using consputc_on_screen [OF sys0_screen] by blast

section \<open>The input ring\<close>

definition typed :: "'z kcons_scheme \<Rightarrow> byte list" where
  "typed s = ring_bytes (input_buf s) (input_r s) (input_e s)"

definition ready_lines :: "'z kcons_scheme \<Rightarrow> byte list" where
  "ready_lines s = ring_bytes (input_buf s) (input_r s) (input_w s)"

definition typed_ok :: "'z kcons_scheme \<Rightarrow> bool" where
  "typed_ok s \<longleftrightarrow> length (input_buf s) = INPUT_BUF \<and> unat (input_e s - input_r s) \<le> INPUT_BUF"

definition push_char :: "byte \<Rightarrow> 'z kcons_scheme \<Rightarrow> 'z kcons_scheme" where
  "push_char b s = s\<lparr>input_buf := (input_buf s)[unat (input_e s) mod INPUT_BUF := b], input_e := input_e s + 1\<rparr>"

definition pop_char :: "'z kcons_scheme \<Rightarrow> 'z kcons_scheme" where
  "pop_char s = s\<lparr>input_r := input_r s + 1\<rparr>"

text \<open>The characters typed and not yet read are a queue, too.\<close>

interpretation cq: fifo typed_ok typed push_char "\<lambda>s. input_at s (input_r s)" pop_char
  "\<lambda>s. \<not> input_e s - input_r s < of_nat INPUT_BUF" "\<lambda>s. input_r s = input_e s" INPUT_BUF
proof
  fix s :: "'a kcons_scheme" and b
  assume s: "typed_ok s"
  then have n: "unat (input_e s - input_r s) \<le> 128" "length (input_buf s) = 128" by (simp_all add: typed_ok_def INPUT_BUF_def)
  have fits: "ring_fits (input_buf s) (input_r s) (input_e s)" using n by (auto simp: ring_fits_def)
  show "(\<not> input_e s - input_r s < of_nat INPUT_BUF) = (length (typed s) = INPUT_BUF)"
    using n by (auto simp: typed_def INPUT_BUF_def word_less_nat_alt)
  show "(input_r s = input_e s) = (typed s = [])" by (auto simp: typed_def ring_bytes_def unat_eq_zero)
  show "length (typed s) \<le> INPUT_BUF" using n by (simp add: typed_def INPUT_BUF_def)
  show "typed_ok (push_char b s) \<and> typed (push_char b s) = typed s @ [b]" if "length (typed s) < INPUT_BUF"
  proof -
    have l: "unat (input_e s - input_r s) < 128" using that by (simp add: typed_def INPUT_BUF_def)
    then have "unat (input_e s + 1 - input_r s) = Suc (unat (input_e s - input_r s))" by (rule counter_suc) simp
    with ring_put [OF fits, of b] l n show ?thesis by (simp add: typed_def push_char_def typed_ok_def INPUT_BUF_def)
  qed
  show "typed_ok (pop_char s) \<and> typed s = input_at s (input_r s) # typed (pop_char s)" if "typed s \<noteq> []"
  proof -
    have "input_e s \<noteq> input_r s" using that by (auto simp: typed_def ring_bytes_def)
    from ring_take [OF this, of "input_buf s"] n(2)
    have *: "typed s = input_at s (input_r s) # typed (pop_char s)" by (simp add: typed_def pop_char_def input_at_def INPUT_BUF_def)
    have "unat (input_e s - input_r s) = Suc (unat (input_e s - (input_r s + 1)))"
      using arg_cong [OF *, of length] by (simp add: typed_def pop_char_def)
    with * n show ?thesis by (simp add: typed_ok_def pop_char_def INPUT_BUF_def)
  qed
qed

text \<open>The three indices are in order.\<close>

definition input_ok :: "'z kcons_scheme \<Rightarrow> bool" where
  "input_ok s \<longleftrightarrow> length (input_buf s) = INPUT_BUF \<and> unat (input_w s - input_r s) + unat (input_e s - input_w s) \<le> INPUT_BUF"

lemma input_order:
  assumes "input_ok s"
  shows "unat (input_e s - input_r s) = unat (input_w s - input_r s) + unat (input_e s - input_w s)"
proof -
  have "unat (input_w s - input_r s) + unat (input_e s - input_w s) < 2 ^ 32" using assms by (simp add: input_ok_def INPUT_BUF_def)
  then show ?thesis using unat_word_ariths(1) [of "input_w s - input_r s" "input_e s - input_w s"] by simp
qed

lemma input_typed: "input_ok s \<Longrightarrow> typed_ok s"
  using input_order [of s] by (simp add: input_ok_def typed_ok_def)

lemma ring_prefix: "unat (w - r) \<le> unat (e - r) \<Longrightarrow> ring_bytes d r w = take (unat (w - r)) (ring_bytes d r e)"
  by (simp add: ring_bytes_def take_map)

lemma ready_prefix: "input_ok s \<Longrightarrow> ready_lines s = take (unat (input_w s - input_r s)) (typed s)"
  by (simp add: ready_lines_def typed_def ring_prefix input_order)

lemma counter_pred: "e \<noteq> w \<Longrightarrow> unat (e - 1 - w) = unat (e - w) - 1" for e w :: u32
proof -
  assume "e \<noteq> w"
  then have "e - w \<noteq> 0" by simp
  then have "unat (e - w - 1) = unat (e - w) - 1" by (rule unat_minus_one)
  then show ?thesis by (simp add: algebra_simps)
qed

section \<open>Editing\<close>

definition input_ready :: "'z kcons_scheme \<Rightarrow> bool" where
  "input_ready s \<longleftrightarrow> input_ok s \<and> on_screen s \<and> cpu_shallow (mycpu s) \<and> lock_free (locks s PtableLock)"

lemma same_but_screen_input:
  assumes "same_but_screen s t"
  shows "input_ok t = input_ok s" "typed t = typed s" "ready_lines t = ready_lines s" "on_screen t \<Longrightarrow> input_ready t = (input_ok s \<and> cpu_shallow (mycpu s) \<and> lock_free (locks s PtableLock))"
  by (simp_all add: input_ok_def typed_def ready_lines_def input_ready_def same_but_screen_fields [OF assms])

text \<open>What erasing a character does: finished lines stay.\<close>

lemma erase_one:
  assumes "input_ready s" "input_e s \<noteq> input_w s"
  shows "\<exists>t. thenK (modK (\<lambda>s. s\<lparr>input_e := input_e s - 1\<rparr>)) (consputc BACKSPACE) s = Ok () t \<and> input_ready t \<and>
    input_w t = input_w s \<and> input_e t = input_e s - 1 \<and> ready_lines t = ready_lines s \<and> typed t = butlast (typed s)"
proof -
  let ?s = "s\<lparr>input_e := input_e s - 1\<rparr>"
  have s: "input_ok s" "on_screen s" using assms(1) by (simp_all add: input_ready_def)
  have n: "unat (input_e s - 1 - input_w s) = unat (input_e s - input_w s) - 1" by (rule counter_pred [OF assms(2)])
  then have "input_ok ?s" using s(1) by (auto simp: input_ok_def)
  moreover from this have "input_ready ?s" using assms(1) by (simp add: input_ready_def on_screen_def)
  moreover have "typed ?s = butlast (typed s)"
  proof -
    have "unat (input_e s - input_w s) \<noteq> 0" using assms(2) by (simp add: unat_eq_zero)
    then have "unat (input_e s - 1 - input_r s) = unat (input_e s - input_r s) - 1"
      using input_order [OF s(1)] input_order [OF \<open>input_ok ?s\<close>] n by simp
    then show ?thesis by (simp add: typed_def ring_bytes_def butlast_conv_take take_map)
  qed
  moreover have "on_screen ?s" using s(2) by (simp add: on_screen_def)
  from consputc_ok [OF this, of BACKSPACE] obtain t where t: "consputc BACKSPACE ?s = Ok () t" "same_but_screen ?s t" "on_screen t" by blast
  moreover have "ready_lines ?s = ready_lines s" by (simp add: ready_lines_def)
  ultimately show ?thesis using same_but_screen_input [OF t(2)] same_but_screen_fields [OF t(2)]
    by (simp add: kop input_ready_def)
qed

lemma killline_ok:
  assumes "input_ready s" "unat (input_e s - input_w s) \<le> n"
  shows "\<exists>t k. killline n s = Ok () t \<and> input_ready t \<and> ready_lines t = ready_lines s \<and> typed t = take k (typed s) \<and>
    length (ready_lines s) \<le> k"
  using assms
proof (induction n arbitrary: s)
  case 0
  then have "input_e s = input_w s" by (simp add: unat_eq_zero)
  then show ?case using 0 by (intro exI [of _ s] exI [of _ "length (typed s)"])
    (simp add: killline.simps kop input_ready_def ready_prefix)
next
  case (Suc n)
  show ?case
  proof (cases "input_e s \<noteq> input_w s \<and> input_at s (input_e s - 1) \<noteq> 10")
    case True
    obtain t where t: "thenK (modK (\<lambda>s. s\<lparr>input_e := input_e s - 1\<rparr>)) (consputc BACKSPACE) s = Ok () t" "input_ready t"
      "input_w t = input_w s" "input_e t = input_e s - 1" "ready_lines t = ready_lines s" "typed t = butlast (typed s)"
      using erase_one [OF Suc.prems(1)] True by blast
    have "unat (input_e t - input_w t) \<le> n" using Suc.prems(2) counter_pred [of "input_e s" "input_w s"] True t(3,4) by simp
    from Suc.IH [OF t(2) this] obtain u k where u: "killline n t = Ok () u" "input_ready u" "ready_lines u = ready_lines t"
      "typed u = take k (typed t)" "length (ready_lines t) \<le> k" by blast
    have "killline (Suc n) s = killline n t" using True t(1) by (subst killline.simps) (simp add: kop split: outcome.splits)
    moreover have "typed u = take (min k (length (typed s) - 1)) (typed s)" using u(4) t(6) by (simp add: butlast_conv_take take_take min.commute)
    moreover have "length (ready_lines s) \<le> length (typed s) - 1"
    proof -
      have "unat (input_e s - input_w s) \<noteq> 0" using True by (simp add: unat_eq_zero)
      then show ?thesis using input_order [of s] Suc.prems(1) by (simp add: ready_lines_def typed_def input_ready_def)
    qed
    ultimately show ?thesis using u t(5) by auto
  next
    case False
    have "length (ready_lines s) \<le> length (typed s)" using Suc.prems(1) by (simp add: ready_prefix input_ready_def)
    with False Suc.prems(1) show ?thesis by (intro exI [of _ s] exI [of _ "length (typed s)"]) (subst killline.simps, auto simp: kop)
  qed
qed

text \<open>What typing a character does.\<close>

lemma wakeup_fields:
  assumes "cpu_shallow (mycpu s)" "lock_free (locks s PtableLock)"
  shows "\<exists>t. wakeup ch s = Ok () t \<and> t = s\<lparr>cpus := cpus t, ptable := ptable t\<rparr> \<and> cpu_shallow (mycpu t)"
proof -
  have "wakeup ch s = Ok () ((irqsave s)\<lparr>ptable := map (wake ch) (ptable s)\<rparr>)"
    using assms by (simp add: kop wakeup_def wakeup1_def lock_rules)
  then show ?thesis using assms(1) by simp
qed

lemma wakeup_input:
  assumes "input_ready s"
  shows "\<exists>t. wakeup ch s = Ok () t \<and> input_ready t \<and> typed t = typed s \<and> ready_lines t = ready_lines s"
proof -
  obtain t where t: "wakeup ch s = Ok () t" "t = s\<lparr>cpus := cpus t, ptable := ptable t\<rparr>" "cpu_shallow (mycpu t)"
    using wakeup_fields [of s ch] assms by (auto simp: input_ready_def)
  have "input_buf t = input_buf s" "input_r t = input_r s" "input_w t = input_w s" "input_e t = input_e s" "panicked t = panicked s"
    "crt_pos t = crt_pos s" "locks t = locks s" by (subst t(2), simp)+
  with t(1,3) assms show ?thesis by (simp add: input_ready_def input_ok_def typed_def ready_lines_def on_screen_def)
qed

definition line_char :: "int \<Rightarrow> int" where
  "line_char c = (if c = 13 then 10 else c)"

definition ends_line :: "int \<Rightarrow> bool" where
  "ends_line c \<longleftrightarrow> line_char c = 10 \<or> c = ctrl (CHR ''D'')"

lemma put_input_ok:
  assumes "input_ready s" "c \<noteq> 0" "length (typed s) < INPUT_BUF"
  shows "\<exists>t. put_input c s = Ok () t \<and> input_ready t \<and> typed t = typed s @ [word_of_int (line_char c)] \<and>
    ready_lines t = (if ends_line c \<or> length (typed t) = INPUT_BUF then typed t else ready_lines s)"
proof -
  let ?b = "word_of_int (line_char c) :: byte" and ?s = "push_char (word_of_int (line_char c)) s"
  have s: "input_ok s" "on_screen s" "cpu_shallow (mycpu s)" "lock_free (locks s PtableLock)" using assms(1) by (simp_all add: input_ready_def)
  have p: "typed_ok ?s" "typed ?s = typed s @ [?b]" using cq.put_law [OF input_typed [OF s(1)] assms(3)] by simp_all
  have f: "input_r ?s = input_r s" "input_w ?s = input_w s" "input_e ?s = input_e s + 1" by (simp_all add: push_char_def)
  have "unat (input_e s - input_r s) < 128" using assms(3) by (simp add: typed_def INPUT_BUF_def)
  moreover from this have "unat (input_e s - input_w s) < 128" using input_order [OF s(1)] by simp
  ultimately have n: "unat (input_e s + 1 - input_w s) = Suc (unat (input_e s - input_w s))"
    "unat (input_e s + 1 - input_r s) = Suc (unat (input_e s - input_r s))" by (auto intro: counter_suc)
  have ok: "input_ok ?s" using n input_order [OF s(1)] p(1) f by (simp add: input_ok_def typed_ok_def)
  have r: "ready_lines ?s = ready_lines s"
    using ready_prefix [OF ok] ready_prefix [OF s(1)] input_order [OF s(1)] p(2) f by (simp add: typed_def)
  have "on_screen ?s" using s(2) by (simp add: on_screen_def push_char_def)
  from consputc_ok [OF this] obtain t where t: "consputc (line_char c) ?s = Ok () t" "same_but_screen ?s t" "on_screen t" by blast
  note tf = same_but_screen_fields [OF t(2)] and ti = same_but_screen_input [OF t(2)]
  have tr: "input_ready t" using ti t(3) ok s(3,4) by (simp add: push_char_def)
  let ?full = "input_e t = input_r t + of_nat INPUT_BUF"
  have full: "?full \<longleftrightarrow> length (typed t) = INPUT_BUF"
  proof -
    have "?full \<longleftrightarrow> input_e t - input_r t = of_nat INPUT_BUF" by (auto simp: algebra_simps)
    then show ?thesis by (auto simp: typed_def INPUT_BUF_def word_unat_eq_iff)
  qed
  have run: "put_input c s = whenK (ends_line c \<or> ?full) (thenK (modK (\<lambda>s. s\<lparr>input_w := input_e s\<rparr>)) (wakeup ChanInput)) t"
  proof -
    have "input_e s - input_r s < of_nat INPUT_BUF" using assms(3) by (simp add: typed_def INPUT_BUF_def word_less_nat_alt)
    moreover have "(ends_line c \<or> ?full) = (line_char c = 10 \<or> line_char c = ctrl (CHR ''D'') \<or> ?full)"
      by (auto simp: ends_line_def line_char_def ctrl_def)
    ultimately show ?thesis using t(1) assms(2)
      by (simp add: put_input_def kop push_char_def line_char_def Let_def)
  qed
  show ?thesis
  proof (cases "ends_line c \<or> ?full")
    case True
    let ?u = "t\<lparr>input_w := input_e t\<rparr>"
    have "input_ready ?u" using tr input_order [of t] by (simp add: input_ready_def input_ok_def on_screen_def)
    from wakeup_input [OF this, of ChanInput] obtain v where v: "wakeup ChanInput ?u = Ok () v" "input_ready v" "typed v = typed ?u"
      "ready_lines v = ready_lines ?u" by blast
    moreover have "typed ?u = typed t" "ready_lines ?u = typed t" by (simp_all add: typed_def ready_lines_def)
    ultimately show ?thesis using True run full p(2) ti(2) by (simp add: kop)
  next
    case False
    then show ?thesis using run tr full p(2) r ti by (simp add: kop)
  qed
qed

lemma backspace_ok:
  assumes "input_ready s" "c = ctrl (CHR ''H'') \<or> c = 0x7f"
  shows "\<exists>t k. consoleintr_char c s = Ok False t \<and> input_ready t \<and> ready_lines t = ready_lines s \<and> typed t = take k (typed s) \<and>
    length (ready_lines s) \<le> k"
proof (cases "input_e s = input_w s")
  case True
  have "length (ready_lines s) \<le> length (typed s)" using assms(1) by (simp add: ready_prefix input_ready_def)
  then show ?thesis using True assms by (auto simp: consoleintr_char_def kop ctrl_def intro!: exI [of _ "length (typed s)"])
next
  case False
  have "unat (input_e s - input_w s) \<noteq> 0" using False by (simp add: unat_eq_zero)
  then have "length (ready_lines s) \<le> length (typed s) - 1"
    using input_order [of s] assms(1) by (simp add: ready_lines_def typed_def input_ready_def)
  moreover obtain t where "thenK (modK (\<lambda>s. s\<lparr>input_e := input_e s - 1\<rparr>)) (consputc BACKSPACE) s = Ok () t" "input_ready t"
    "ready_lines t = ready_lines s" "typed t = butlast (typed s)" using erase_one [OF assms(1) False] by blast
  ultimately show ?thesis using assms(2) False
    by (auto simp: consoleintr_char_def ctrl_def bindK_def getK_def thenK_unfold whenK_def retK_def butlast_conv_take)
qed

text \<open>
  C28. The line discipline of the console: every character that arrives is handled without a fault and keeps the indices of the
  input ring in order (at most \<open>INPUT_BUF\<close> bytes buffered, although the indices wrap around).  Erasing keys remove characters
  of the line being edited only; a finished line never changes.  An ordinary character is appended, and the line becomes
  readable when it is finished by newline, control-D or a full buffer.
\<close>

theorem console_line_discipline:
  assumes "input_ready s"
  shows "\<exists>d t. consoleintr_char c s = Ok d t \<and> input_ready t \<and>
    (if c \<in> {ctrl (CHR ''U''), ctrl (CHR ''H''), 0x7f} then
       ready_lines t = ready_lines s \<and> (\<exists>k \<ge> length (ready_lines s). typed t = take k (typed s))
     else if c = ctrl (CHR ''P'') \<or> c = 0 \<or> length (typed s) = INPUT_BUF then typed t = typed s \<and> ready_lines t = ready_lines s
     else typed t = typed s @ [word_of_int (line_char c)] \<and>
       ready_lines t = (if ends_line c \<or> length (typed t) = INPUT_BUF then typed t else ready_lines s))"
proof -
  have ok: "input_ok s" using assms by (simp add: input_ready_def)
  consider (P) "c = ctrl (CHR ''P'')" | (U) "c = ctrl (CHR ''U'')" | (H) "c = ctrl (CHR ''H'') \<or> c = 0x7f"
    | (none) "c = 0 \<or> length (typed s) = INPUT_BUF" "c \<notin> {ctrl (CHR ''P''), ctrl (CHR ''U''), ctrl (CHR ''H''), 0x7f}"
    | (char) "c \<noteq> 0" "length (typed s) \<noteq> INPUT_BUF" "c \<notin> {ctrl (CHR ''P''), ctrl (CHR ''U''), ctrl (CHR ''H''), 0x7f}" by auto
  then show ?thesis
  proof cases
    case P
    then show ?thesis using assms by (auto simp: consoleintr_char_def kop ctrl_def)
  next
    case U
    from killline_ok [OF assms order_refl] obtain t k where "killline (unat (input_e s - input_w s)) s = Ok () t" "input_ready t"
      "ready_lines t = ready_lines s" "typed t = take k (typed s)" "length (ready_lines s) \<le> k" by blast
    then show ?thesis using U by (auto simp: consoleintr_char_def kop ctrl_def)
  next
    case H
    then show ?thesis using backspace_ok [OF assms H] by (auto simp: ctrl_def)
  next
    case none
    then have "put_input c s = Ok () s" using cq.full_law [OF input_typed [OF ok]] by (auto simp: put_input_def kop)
    then show ?thesis using none assms by (auto simp: consoleintr_char_def kop)
  next
    case char
    have "length (typed s) < INPUT_BUF" using cq.len_law [OF input_typed [OF ok]] char(2) by simp
    from put_input_ok [OF assms char(1) this] obtain t where t: "put_input c s = Ok () t" "input_ready t"
      "typed t = typed s @ [word_of_int (line_char c)]"
      "ready_lines t = (if ends_line c \<or> length (typed t) = INPUT_BUF then typed t else ready_lines s)" by blast
    have "consoleintr_char c s = Ok False t" using char t(1) by (simp add: consoleintr_char_def kop)
    with t(2-4) char show ?thesis by (intro exI [of _ False] exI [of _ t]) simp
  qed
qed

theorem console_line_discipline_witness:
  "\<exists>d t. consoleintr_char 13 sys0 = Ok d t \<and> ready_lines sys0 = [] \<and> ready_lines t = [10]"
proof -
  have s: "input_ready sys0" by (simp add: input_ready_def sys0_screen) (simp add: input_ok_def sys0_def)
  have "typed sys0 = []" "ready_lines sys0 = []" by (simp_all add: typed_def ready_lines_def ring_bytes_def sys0_def)
  then show ?thesis using console_line_discipline [OF s, of 13] by (auto simp: ctrl_def INPUT_BUF_def ends_line_def line_char_def)
qed

section \<open>Numbers\<close>

text \<open>Reading a number back, most significant digit first.\<close>

definition digit_val :: "int \<Rightarrow> nat" where
  "digit_val c = nat (if c < 58 then c - 48 else c - 87)"

definition read_num :: "nat \<Rightarrow> int list \<Rightarrow> nat" where
  "read_num base cs = foldl (\<lambda>v c. v * base + digit_val c) 0 cs"

lemma digit_val_digit: "d < 16 \<Longrightarrow> digit_val (digit d) = d"
  by (auto simp: digit_val_def digit_def)

lemma read_num_snoc: "read_num base (cs @ [c]) = read_num base cs * base + digit_val c"
  by (simp add: read_num_def)

lemma digits_rev_value:
  assumes "2 \<le> base" "base \<le> 16"
  shows "read_num base (rev (digits_rev base x)) = x"
  using assms
proof (induction base x rule: digits_rev.induct)
  case (1 base x)
  have m: "digit_val (digit (x mod base)) = x mod base" using 1(2,3) mod_less_divisor [of base x] by (intro digit_val_digit) linarith
  show ?case
  proof (cases "x div base = 0")
    case True
    then have "x mod base = x" using 1(2) by (auto simp: div_eq_0_iff)
    with True m show ?thesis by (simp add: digits_rev.simps [of base x] read_num_def)
  next
    case False
    with 1 have "read_num base (rev (digits_rev base (x div base))) = x div base" by simp
    with False m 1(2) show ?thesis by (simp add: digits_rev.simps [of base x] read_num_snoc)
  qed
qed

lemma digits_rev_length: "2 \<le> base \<Longrightarrow> x < base ^ Suc n \<Longrightarrow> length (digits_rev base x) \<le> Suc n"
proof (induction n arbitrary: x)
  case 0
  then show ?case by (simp add: digits_rev.simps [of base x])
next
  case (Suc n)
  then have "x div base < base ^ Suc n" by (simp add: less_mult_imp_div_less mult.commute)
  with Suc show ?case by (simp add: digits_rev.simps [of base x])
qed

text \<open>
  C38. \<^verbatim>\<open>printint\<close> prints every 32-bit number correctly: the characters after an optional minus sign, read back in the base, are
  the absolute value (also for the least number, whose negation does not fit in an \<^verbatim>\<open>int\<close>), and they fit in the 16 bytes of its
  buffer.
\<close>

theorem printint_correct:
  assumes "- (2 ^ 31) \<le> x" "x < 2 ^ 31"
  shows "printint_chars x 10 True = (if x < 0 then [45] else []) @ rev (digits_rev 10 (nat \<bar>x\<bar>)) \<and>
    read_num 10 (rev (digits_rev 10 (nat \<bar>x\<bar>))) = nat \<bar>x\<bar> \<and> length (printint_buf x 10 True) \<le> 16 \<and>
    read_num 16 (printint_chars x 16 False) = nat (x mod 2 ^ 32) \<and> length (printint_buf x 16 False) \<le> 16"
proof -
  have m: "unat (word_of_int y :: u32) = nat y" if "0 \<le> y" "y \<le> 2 ^ 31" for y
    using that by (simp add: unat_eq_nat_uint uint_word_of_int)
  have u: "unat (word_of_int x :: u32) = nat (x mod 2 ^ 32)" by (simp add: unat_eq_nat_uint uint_word_of_int)
  have a: "nat \<bar>x\<bar> < 10 ^ Suc 9" using assms by auto
  have "nat (x mod 2 ^ 32) < 16 ^ Suc 7" using pos_mod_bound [of "2 ^ 32" x] by simp
  with digits_rev_length [of 16 "nat (x mod 2 ^ 32)" 7] have "length (digits_rev 16 (nat (x mod 2 ^ 32))) \<le> 8" by simp
  moreover have "length (digits_rev 10 (nat \<bar>x\<bar>)) \<le> 10" using digits_rev_length [of 10 "nat \<bar>x\<bar>" 9] a by simp
  moreover have b: "printint_buf x 10 True = digits_rev 10 (nat \<bar>x\<bar>) @ (if x < 0 then [45] else [])"
    using assms m [of x] m [of "- x"] by (auto simp: printint_buf_def Let_def)
  ultimately show ?thesis
    using digits_rev_value [of 10 "nat \<bar>x\<bar>"] digits_rev_value [of 16 "nat (x mod 2 ^ 32)"]
    by (auto simp: printint_chars_def) (simp_all add: printint_buf_def Let_def u)
qed

theorem printint_correct_witness:
  "read_num 10 (tl (printint_chars (- 2147483648) 10 True)) = 2147483648 \<and> hd (printint_chars (- 2147483648) 10 True) = 45"
  using printint_correct [of "- 2147483648"] by simp

end
