(* ===== verification/Exec.thy ===== *)
theory Exec
  imports ProcLife
begin

unbundle bit_operations_syntax

text \<open>
  Loading a program: \<^verbatim>\<open>loaduvm\<close> of \<^verbatim>\<open>vm.c\<close> and \<^verbatim>\<open>exec\<close> of \<^verbatim>\<open>exec.c\<close>, with the formats of \<^verbatim>\<open>elf.h\<close>.
  The local variables \<^verbatim>\<open>elf\<close> and \<^verbatim>\<open>ph\<close> lie on the kernel stack of the process, at offsets the compiler
  chooses; what \<^verbatim>\<open>readi\<close> does not write there is what the stack held.  \<^verbatim>\<open>path\<close> and \<^verbatim>\<open>argv\<close> are strings in
  user memory that nothing changes during the call, so they are passed as their bytes.
\<close>

section \<open>ELF headers\<close>

definition ELF_MAGIC :: u32 where "ELF_MAGIC = 0x464C457F"
definition ELF_PROG_LOAD :: u32 where "ELF_PROG_LOAD = 1"
definition sizeof_elfhdr :: nat where "sizeof_elfhdr = 52"
definition sizeof_proghdr :: nat where "sizeof_proghdr = 32"

record elfhdr =
  e_magic :: u32
  e_entry :: u32
  e_phoff :: u32
  e_phnum :: nat

record proghdr =
  ph_type :: u32
  ph_off :: u32
  ph_vaddr :: u32
  ph_paddr :: u32
  ph_filesz :: u32
  ph_memsz :: u32

definition elfhdr_at :: "memory \<Rightarrow> addr \<Rightarrow> elfhdr" where
  "elfhdr_at m a = \<lparr>e_magic = ld32 m a, e_entry = ld32 m (a + 24), e_phoff = ld32 m (a + 28),
     e_phnum = unat (ld16 m (a + 44))\<rparr>"

definition proghdr_at :: "memory \<Rightarrow> addr \<Rightarrow> proghdr" where
  "proghdr_at m a = \<lparr>ph_type = ld32 m a, ph_off = ld32 m (a + 4), ph_vaddr = ld32 m (a + 8),
     ph_paddr = ld32 m (a + 12), ph_filesz = ld32 m (a + 16), ph_memsz = ld32 m (a + 20)\<rparr>"

section \<open>Loading a segment\<close>

text \<open>Every round advances by a page; the size in pages bounds the rounds.\<close>

fun loaduvm_loop :: "nat \<Rightarrow> addr \<Rightarrow> addr \<Rightarrow> nat \<Rightarrow> u32 \<Rightarrow> u32 \<Rightarrow> u32 \<Rightarrow> (int, 'z kcons_scheme) kop" where
  "loaduvm_loop fuel d a ip off len i =
     (if i < len then
        bindK (walkpgdir d (a + i) False) (\<lambda>pte.
        if pte = 0 then panicK ''loaduvm: address should exist''
        else
          bindK (getK (\<lambda>s. PTE_ADDR (ld32 (mem s) pte))) (\<lambda>pa.
          let n = (if len - i < of_nat PGSIZE then len - i else of_nat PGSIZE) in
          bindK (readi ip (p2v pa) (off + i) n) (\<lambda>r.
          if word_of_int r \<noteq> n then retK (- 1)
          else (case fuel of
              0 \<Rightarrow> (\<lambda>_. NoFuel)
            | Suc fuel' \<Rightarrow> loaduvm_loop fuel' d a ip off len (i + of_nat PGSIZE)))))
      else retK 0)"

declare loaduvm_loop.simps [simp del]

definition loaduvm :: "addr \<Rightarrow> addr \<Rightarrow> nat \<Rightarrow> u32 \<Rightarrow> u32 \<Rightarrow> (int, 'z kcons_scheme) kop" where
  "loaduvm d a ip off len =
     (if unat a mod PGSIZE \<noteq> 0 then panicK ''loaduvm: addr must be page aligned''
      else loaduvm_loop (unat len div PGSIZE + 1) d a ip off len 0)"

section \<open>Exec\<close>

text \<open>The loop over the program headers: the size of the new image, or \<open>None\<close> for \<^verbatim>\<open>goto bad\<close>.\<close>

fun exec_load :: "nat \<Rightarrow> addr \<Rightarrow> nat \<Rightarrow> addr \<Rightarrow> u32 \<Rightarrow> u32 \<Rightarrow> (u32 option, 'z kcons_scheme) kop" where
  "exec_load 0 d ip php off sz0 = retK (Some sz0)"
| "exec_load (Suc n) d ip php off sz0 =
     bindK (readi ip php off (of_nat sizeof_proghdr)) (\<lambda>r.
     if r \<noteq> int sizeof_proghdr then retK None
     else
       bindK (getK (\<lambda>s. proghdr_at (mem s) php)) (\<lambda>ph.
       if ph_type ph \<noteq> ELF_PROG_LOAD then exec_load n d ip php (off + of_nat sizeof_proghdr) sz0
       else if ph_memsz ph < ph_filesz ph then retK None
       else
         bindK (allocuvm d sz0 (ph_vaddr ph + ph_memsz ph)) (\<lambda>sz1.
         if sz1 = 0 then retK None
         else
           bindK (loaduvm d (ph_vaddr ph) ip (ph_off ph) (ph_filesz ph)) (\<lambda>l.
           if l < 0 then retK None
           else exec_load n d ip php (off + of_nat sizeof_proghdr) sz1))))"

text \<open>Pushing the argument strings: the stack pointer and the addresses of the strings.\<close>

fun push_args :: "nat \<Rightarrow> addr \<Rightarrow> u32 \<Rightarrow> byte list list \<Rightarrow> ((u32 \<times> u32 list) option, 'z kmem_scheme) kop" where
  "push_args argc d sp [] = retK (Some (sp, []))"
| "push_args argc d sp (a # as) =
     (if argc \<ge> MAXARG then retK None
      else
        (let sp1 = (sp - (of_nat (length a) + 1)) AND NOT 3 in
         bindK (copyout d sp1 (a @ [0])) (\<lambda>r.
         if r < 0 then retK None
         else
           bindK (push_args (argc + 1) d sp1 as) (\<lambda>q.
           retK (map_option (\<lambda>(sp2, us). (sp2, sp1 # us)) q)))))"

definition words_bytes :: "u32 list \<Rightarrow> byte list" where
  "words_bytes ws = concat (map (\<lambda>w. map (\<lambda>k. byte_of k w) [0..<4]) ws)"

text \<open>The part of a path after its last slash.\<close>

definition last_elem :: "byte list \<Rightarrow> byte list" where
  "last_elem path = rev (takeWhile (\<lambda>c. c \<noteq> SLASH) (rev path))"

text \<open>The new image: stack pages and arguments; \<open>None\<close> for \<^verbatim>\<open>goto bad\<close>, else size and stack pointer.\<close>

definition exec_stack :: "addr \<Rightarrow> u32 \<Rightarrow> byte list list \<Rightarrow> ((u32 \<times> u32) option, 'z kmem_scheme) kop" where
  "exec_stack d sz0 argv =
     (let sz1 = PGROUNDUP sz0 in
      bindK (allocuvm d sz1 (sz1 + of_nat (2 * PGSIZE))) (\<lambda>sz2.
      if sz2 = 0 then retK None
      else
        thenK (clearpteu d (sz2 - of_nat (2 * PGSIZE))) (
        bindK (push_args 0 d sz2 argv) (\<lambda>q.
        case q of
          None \<Rightarrow> retK None
        | Some (sp, us) \<Rightarrow>
            (let argc = of_nat (length us) :: u32;
                 ustack = [0xffffffff, argc, sp - (argc + 1) * 4] @ us @ [0];
                 sp' = sp - (3 + argc + 1) * 4 in
             bindK (copyout d sp' (words_bytes ustack)) (\<lambda>r.
             if r < 0 then retK None else retK (Some (sz2, sp'))))))))"

definition exec_commit :: "nat \<Rightarrow> byte list \<Rightarrow> addr \<Rightarrow> u32 \<Rightarrow> u32 \<Rightarrow> u32 \<Rightarrow> (int, 'z kproc_scheme) kop" where
  "exec_commit p path d sz1 sp entry =
     thenK (upd_proc p (\<lambda>q. q\<lparr>pname := set_name (pname q) (last_elem path)\<rparr>)) (
     bindK (getK (\<lambda>s. (pgdir (ptable s ! p), tf (ptable s ! p)))) (\<lambda>(old, t).
     thenK (upd_proc p (\<lambda>q. q\<lparr>pgdir := d, sz := sz1\<rparr>)) (
     thenK (tf_put t TF_EIP entry) (
     thenK (tf_put t TF_ESP sp) (
     thenK (switchuvm p) (
     thenK (freevm old) (
     retK 0)))))))"

text \<open>The label \<^verbatim>\<open>bad\<close> where \<^verbatim>\<open>ip\<close> is still locked and no page directory has been made.\<close>

definition put_end :: "nat \<Rightarrow> (int, 'z kfs_scheme) kop" where
  "put_end ip = thenK (iunlockput ip) (thenK end_op (retK (- 1)))"

text \<open>
  The result of reading the header is compared as an unsigned number: -1 passes the test.
\<close>

definition exec :: "byte list \<Rightarrow> byte list list \<Rightarrow> (int, 'z ksys_scheme) kop" where
  "exec path argv =
     with_proc (\<lambda>p.
     thenK begin_op (
     bindK (namei path) (\<lambda>r.
     case r of
       None \<Rightarrow> thenK end_op (retK (- 1))
     | Some ip \<Rightarrow>
         thenK (ilock ip) (
         bindK (getK (\<lambda>s. (kstack (ptable s ! p) + exec_elf s, kstack (ptable s ! p) + exec_ph s))) (\<lambda>(elfp, php).
         bindK (readi ip elfp 0 (of_nat sizeof_elfhdr)) (\<lambda>n.
         if (word_of_int n :: u32) < of_nat sizeof_elfhdr then put_end ip
         else
           bindK (getK (\<lambda>s. elfhdr_at (mem s) elfp)) (\<lambda>elf.
           if e_magic elf \<noteq> ELF_MAGIC then put_end ip
           else
             bindK setupkvm (\<lambda>d.
             if d = 0 then put_end ip
             else
               bindK (exec_load (e_phnum elf) d ip php (e_phoff elf) 0) (\<lambda>l.
               case l of
                 None \<Rightarrow> thenK (freevm d) (put_end ip)
               | Some sz0 \<Rightarrow>
                   thenK (iunlockput ip) (
                   thenK end_op (
                   bindK (exec_stack d sz0 argv) (\<lambda>q.
                   case q of
                     None \<Rightarrow> thenK (freevm d) (retK (- 1))
                   | Some (sz1, sp) \<Rightarrow> exec_commit p path d sz1 sp (e_entry elf)))))))))))))"

end
