(* ===== verification/Syscall.thy ===== *)
theory Syscall
  imports Exec
begin

unbundle bit_operations_syntax

text \<open>
  System calls: fetching of arguments (\<^verbatim>\<open>syscall.c\<close>) and the handlers of \<^verbatim>\<open>sysproc.c\<close> and \<^verbatim>\<open>sysfile.c\<close>.
  An argument that is refused (the result -1 of a fetch function) is \<open>None\<close>.  The system call
  arguments lie on the user stack, above the return address.
\<close>

section \<open>Arguments\<close>

definition cur_sz :: "(u32, 'z kproc_scheme) kop" where
  "cur_sz = with_proc (\<lambda>p. getK (\<lambda>s. sz (ptable s ! p)))"

definition fetchint :: "u32 \<Rightarrow> (int option, 'z kproc_scheme) kop" where
  "fetchint a =
     bindK cur_sz (\<lambda>n.
     if a \<ge> n \<or> a + 4 > n then retK None
     else bindK (uload32 a) (\<lambda>v. retK (Some (sint v))))"

text \<open>The bytes of the string before its terminator, which has to lie below \<open>ep\<close>.\<close>

fun fetchstr_loop :: "nat \<Rightarrow> addr \<Rightarrow> addr \<Rightarrow> (byte list option, 'z kmem_scheme) kop" where
  "fetchstr_loop fuel a ep =
     (if a < ep then
        bindK (uload1 a) (\<lambda>b.
        if b = 0 then retK (Some [])
        else (case fuel of
            0 \<Rightarrow> (\<lambda>_. NoFuel)
          | Suc fuel' \<Rightarrow> bindK (fetchstr_loop fuel' (a + 1) ep) (\<lambda>r. retK (map_option ((#) b) r))))
      else retK None)"

declare fetchstr_loop.simps [simp del]

definition fetchstr :: "u32 \<Rightarrow> (byte list option, 'z kproc_scheme) kop" where
  "fetchstr a =
     bindK cur_sz (\<lambda>n.
     if a \<ge> n then retK None
     else fetchstr_loop (unat (n - a)) a n)"

definition argint :: "nat \<Rightarrow> (int option, 'z kproc_scheme) kop" where
  "argint n =
     bindK cur_tf (\<lambda>t.
     bindK (tf_get t TF_ESP) (\<lambda>esp.
     fetchint (esp + 4 + of_nat (4 * n))))"

definition argptr :: "nat \<Rightarrow> int \<Rightarrow> (addr option, 'z kproc_scheme) kop" where
  "argptr n len =
     bindK (argint n) (\<lambda>r.
     case r of
       None \<Rightarrow> retK None
     | Some i \<Rightarrow>
         bindK cur_sz (\<lambda>lim.
         if (word_of_int i :: u32) \<ge> lim \<or> word_of_int i + word_of_int len > lim then retK None
         else retK (Some (word_of_int i))))"

definition argstr :: "nat \<Rightarrow> (byte list option, 'z kproc_scheme) kop" where
  "argstr n =
     bindK (argint n) (\<lambda>r.
     case r of None \<Rightarrow> retK None | Some a \<Rightarrow> fetchstr (word_of_int a))"

text \<open>Go on with an argument, or return -1.\<close>

definition needK :: "('a option, 's) kop \<Rightarrow> ('a \<Rightarrow> (int, 's) kop) \<Rightarrow> (int, 's) kop" where
  "needK m f = bindK m (\<lambda>r. case r of None \<Rightarrow> retK (- 1) | Some a \<Rightarrow> f a)"

section \<open>Process calls\<close>

text \<open>
  \<^verbatim>\<open>sys_fork\<close> does not look at the result of \<^verbatim>\<open>argint\<close>: when the argument cannot be fetched it passes on
  the uninitialised variable, here \<open>junk\<close>.
\<close>

definition sys_fork :: "int \<Rightarrow> (int, 'z ksys_scheme) kop" where
  "sys_fork junk =
     bindK (argint 0) (\<lambda>r. fork (case r of None \<Rightarrow> junk | Some n \<Rightarrow> n))"

definition sys_exit :: "(int, 'z ksys_scheme) kop" where
  "sys_exit = exit"

definition sys_wait :: "(int, 'z ksys_scheme) kop" where
  "sys_wait = wait"

definition sys_kill :: "(int, 'z ksys_scheme) kop" where
  "sys_kill = needK (argint 0) kill"

definition sys_getpid :: "(int, 'z ksys_scheme) kop" where
  "sys_getpid = with_proc (\<lambda>p. getK (\<lambda>s. pid (ptable s ! p)))"

definition sys_sbrk :: "(int, 'z ksys_scheme) kop" where
  "sys_sbrk =
     needK (argint 0) (\<lambda>n.
     bindK cur_sz (\<lambda>a.
     bindK (growproc n) (\<lambda>r.
     if r < 0 then retK (- 1) else retK (sint a))))"

text \<open>The loop of \<^verbatim>\<open>sys_sleep\<close>; \<open>n\<close> is compared as an unsigned number.\<close>

definition sys_sleep_loop :: "int \<Rightarrow> u32 \<Rightarrow> (int, 'z ksys_scheme) kop" where
  "sys_sleep_loop n ticks0 =
     bindK (getK ticks) (\<lambda>t.
     if t - ticks0 < word_of_int n then
       bindK cur_killed (\<lambda>k.
       if k then thenK (release TickLock) (retK (- 1))
       else sleep ChanTicks TickLock)
     else thenK (release TickLock) (retK 0))"

definition sys_sleep :: "(int, 'z ksys_scheme) kop" where
  "sys_sleep =
     needK (argint 0) (\<lambda>n.
     thenK (acquire TickLock) (
     bindK (getK ticks) (\<lambda>ticks0.
     sys_sleep_loop n ticks0)))"

definition sys_sleep_resume :: "int \<Rightarrow> u32 \<Rightarrow> (int, 'z ksys_scheme) kop" where
  "sys_sleep_resume n ticks0 = thenK (sleep_resume TickLock) (sys_sleep_loop n ticks0)"

definition sys_uptime :: "(int, 'z ksys_scheme) kop" where
  "sys_uptime =
     thenK (acquire TickLock) (
     bindK (getK ticks) (\<lambda>t.
     thenK (release TickLock) (
     retK (sint t))))"

section \<open>File descriptors\<close>

definition argfd :: "nat \<Rightarrow> ((nat \<times> nat) option, 'z kproc_scheme) kop" where
  "argfd n =
     bindK (argint n) (\<lambda>r.
     case r of
       None \<Rightarrow> retK None
     | Some fd \<Rightarrow>
         if fd < 0 \<or> fd \<ge> int NOFILE then retK None
         else
           with_proc (\<lambda>p.
           bindK (getK (\<lambda>s. ofile (ptable s ! p) ! nat fd)) (\<lambda>f.
           retK (map_option (Pair (nat fd)) f))))"

definition fdalloc :: "nat \<Rightarrow> (int, 'z kproc_scheme) kop" where
  "fdalloc f =
     with_proc (\<lambda>p.
     bindK (getK (\<lambda>s. ofile (ptable s ! p))) (\<lambda>os.
     case find_index (\<lambda>x. x = None) os of
       None \<Rightarrow> retK (- 1)
     | Some fd \<Rightarrow> thenK (upd_proc p (\<lambda>q. q\<lparr>ofile := os[fd := Some f]\<rparr>)) (retK (int fd))))"

definition set_ofile :: "nat \<Rightarrow> nat option \<Rightarrow> (unit, 'z kproc_scheme) kop" where
  "set_ofile fd f = with_proc (\<lambda>p. upd_proc p (\<lambda>q. q\<lparr>ofile := (ofile q)[fd := f]\<rparr>))"

definition sys_dup :: "(int, 'z ksys_scheme) kop" where
  "sys_dup =
     needK (argfd 0) (\<lambda>(_, f).
     bindK (fdalloc f) (\<lambda>fd.
     if fd < 0 then retK (- 1)
     else bindK (filedup f) (\<lambda>_. retK fd)))"

definition sys_read :: "(int, 'z ksys_scheme) kop" where
  "sys_read =
     needK (argfd 0) (\<lambda>(_, f).
     needK (argint 2) (\<lambda>n.
     needK (argptr 1 n) (\<lambda>p.
     fileread f p n)))"

definition sys_write :: "(int, 'z ksys_scheme) kop" where
  "sys_write =
     needK (argfd 0) (\<lambda>(_, f).
     needK (argint 2) (\<lambda>n.
     needK (argptr 1 n) (\<lambda>p.
     filewrite f p n)))"

definition sys_close :: "(int, 'z ksys_scheme) kop" where
  "sys_close =
     needK (argfd 0) (\<lambda>(fd, f).
     thenK (set_ofile fd None) (
     thenK (fileclose f) (
     retK 0)))"

definition sys_fstat :: "(int, 'z ksys_scheme) kop" where
  "sys_fstat =
     needK (argfd 0) (\<lambda>(_, f).
     needK (argptr 1 20) (\<lambda>st.
     filestat f st))"

section \<open>Links and directories\<close>

definition fail_op :: "(int, 'z klog_scheme) kop" where
  "fail_op = thenK end_op (retK (- 1))"

definition upd_nlink :: "nat \<Rightarrow> u16 \<Rightarrow> (unit, 'z kfs_scheme) kop" where
  "upd_nlink i d = upd_inode i (\<lambda>ip. ip\<lparr>inlink := inlink ip + d\<rparr>)"

definition name0 :: "byte list" where
  "name0 = replicate DIRSIZ 0"

definition sys_link_bad :: "nat \<Rightarrow> (int, 'z kfs_scheme) kop" where
  "sys_link_bad ip =
     thenK (ilock ip) (
     thenK (upd_nlink ip (- 1)) (
     thenK (iupdate ip) (
     thenK (iunlockput ip) (
     fail_op))))"

definition sys_link :: "(int, 'z ksys_scheme) kop" where
  "sys_link =
     needK (argstr 0) (\<lambda>old.
     needK (argstr 1) (\<lambda>new.
     thenK begin_op (
     bindK (namei old) (\<lambda>r.
     case r of
       None \<Rightarrow> fail_op
     | Some ip \<Rightarrow>
         thenK (ilock ip) (
         bindK (get_inode ip) (\<lambda>d.
         if itype d = T_DIR then thenK (iunlockput ip) fail_op
         else
           thenK (upd_nlink ip 1) (
           thenK (iupdate ip) (
           thenK (iunlock ip) (
           bindK (nameiparent new name0) (\<lambda>q.
           case q of
             None \<Rightarrow> sys_link_bad ip
           | Some (dp, name) \<Rightarrow>
               thenK (ilock dp) (
               bindK (getK (\<lambda>s. (idev (icache s ! dp), idev (icache s ! ip), inum (icache s ! ip)))) (\<lambda>(dd, di, n).
               bindK (if dd \<noteq> di then retK (- 1) else dirlink dp name n) (\<lambda>l.
               thenK (iunlockput dp) (
               if l < 0 then sys_link_bad ip
               else
                 thenK (iput ip) (
                 thenK end_op (
                 retK 0)))))))))))))))) "

fun isdirempty_loop :: "nat \<Rightarrow> nat \<Rightarrow> u32 \<Rightarrow> (bool, 'z kfs_scheme) kop" where
  "isdirempty_loop n dp off =
     bindK (get_inode dp) (\<lambda>d.
     if off < isize d then
       bindK (readi_file dp off (of_nat sizeof_dirent)) (\<lambda>r.
       case r of
         None \<Rightarrow> panicK ''isdirempty: readi''
       | Some bs \<Rightarrow>
           if length bs \<noteq> sizeof_dirent then panicK ''isdirempty: readi''
           else if de_inum (dirent_of bs) \<noteq> 0 then retK False
           else (case n of
               0 \<Rightarrow> (\<lambda>_. NoFuel)
             | Suc n' \<Rightarrow> isdirempty_loop n' dp (off + of_nat sizeof_dirent)))
     else retK True)"

declare isdirempty_loop.simps [simp del]

definition isdirempty :: "nat \<Rightarrow> (bool, 'z kfs_scheme) kop" where
  "isdirempty dp = bindK (get_inode dp) (\<lambda>d. isdirempty_loop (dir_entries d) dp (of_nat (2 * sizeof_dirent)))"

definition DOT :: byte where "DOT = 0x2E"

definition sys_unlink :: "(int, 'z ksys_scheme) kop" where
  "sys_unlink =
     needK (argstr 0) (\<lambda>path.
     thenK begin_op (
     bindK (nameiparent path name0) (\<lambda>q.
     case q of
       None \<Rightarrow> fail_op
     | Some (dp, name) \<Rightarrow>
         thenK (ilock dp) (
         if namecmp name [DOT] = 0 \<or> namecmp name [DOT, DOT] = 0 then thenK (iunlockput dp) fail_op
         else
           bindK (dirlookup dp name) (\<lambda>r.
           case r of
             None \<Rightarrow> thenK (iunlockput dp) fail_op
           | Some (ip, off) \<Rightarrow>
               thenK (ilock ip) (
               bindK (get_inode ip) (\<lambda>d.
               if sint (inlink d) < 1 then panicK ''unlink: nlink < 1''
               else
                 bindK (if itype d = T_DIR then isdirempty ip else retK True) (\<lambda>e.
                 if \<not> e then thenK (iunlockput ip) (thenK (iunlockput dp) fail_op)
                 else
                   bindK (writei_file dp (replicate sizeof_dirent 0) off) (\<lambda>w.
                   if w \<noteq> Some (of_nat sizeof_dirent) then panicK ''unlink: writei''
                   else
                     thenK (whenK (itype d = T_DIR) (thenK (upd_nlink dp (- 1)) (iupdate dp))) (
                     thenK (iunlockput dp) (
                     thenK (upd_nlink ip (- 1)) (
                     thenK (iupdate ip) (
                     thenK (iunlockput ip) (
                     thenK end_op (
                     retK 0)))))))))))))))"

definition create :: "byte list \<Rightarrow> u16 \<Rightarrow> u16 \<Rightarrow> u16 \<Rightarrow> (nat option, 'z kfs_scheme) kop" where
  "create path type major minor =
     bindK (nameiparent path name0) (\<lambda>q.
     case q of
       None \<Rightarrow> retK None
     | Some (dp, name) \<Rightarrow>
         thenK (ilock dp) (
         bindK (dirlookup dp name) (\<lambda>r.
         case r of
           Some (ip, _) \<Rightarrow>
             thenK (iunlockput dp) (
             thenK (ilock ip) (
             bindK (get_inode ip) (\<lambda>d.
             if type = T_FILE \<and> itype d = T_FILE then retK (Some ip)
             else thenK (iunlockput ip) (retK None))))
         | None \<Rightarrow>
             bindK (get_inode dp) (\<lambda>dd.
             bindK (ialloc (idev dd) type) (\<lambda>ip.
             thenK (ilock ip) (
             thenK (upd_inode ip (\<lambda>d. d\<lparr>imajor := major, iminor := minor, inlink := 1\<rparr>)) (
             thenK (iupdate ip) (
             bindK (getK (\<lambda>s. (inum (icache s ! ip), inum (icache s ! dp)))) (\<lambda>(n, nd).
             thenK (whenK (type = T_DIR) (
               thenK (upd_nlink dp 1) (
               thenK (iupdate dp) (
               bindK (dirlink ip [DOT] n) (\<lambda>l1.
               if l1 < 0 then panicK ''create dots''
               else
                 bindK (dirlink ip [DOT, DOT] nd) (\<lambda>l2.
                 whenK (l2 < 0) (panicK ''create dots''))))))) (
             bindK (dirlink dp name n) (\<lambda>l.
             if l < 0 then panicK ''create: dirlink''
             else
               thenK (iunlockput dp) (
               retK (Some ip)))))))))))))"

section \<open>Opening and naming files\<close>

definition O_RDONLY :: int where "O_RDONLY = 0"
definition O_WRONLY :: int where "O_WRONLY = 1"
definition O_RDWR :: int where "O_RDWR = 2"
definition O_CREATE :: int where "O_CREATE = 0x200"

text \<open>The inode to open, locked, or \<open>None\<close> after the failures that end the operation.\<close>

definition open_inode :: "byte list \<Rightarrow> int \<Rightarrow> (nat option, 'z kfs_scheme) kop" where
  "open_inode path omode =
     (if omode AND O_CREATE \<noteq> 0 then create path T_FILE 0 0
      else
        bindK (namei path) (\<lambda>r.
        case r of
          None \<Rightarrow> retK None
        | Some ip \<Rightarrow>
            thenK (ilock ip) (
            bindK (get_inode ip) (\<lambda>d.
            if itype d = T_DIR \<and> omode \<noteq> O_RDONLY then thenK (iunlockput ip) (retK None)
            else retK (Some ip)))))"

definition sys_open :: "(int, 'z ksys_scheme) kop" where
  "sys_open =
     needK (argstr 0) (\<lambda>path.
     needK (argint 1) (\<lambda>omode.
     thenK begin_op (
     bindK (open_inode path omode) (\<lambda>r.
     case r of
       None \<Rightarrow> fail_op
     | Some ip \<Rightarrow>
         bindK filealloc (\<lambda>fr.
         case fr of
           None \<Rightarrow> thenK (iunlockput ip) fail_op
         | Some f \<Rightarrow>
             bindK (fdalloc f) (\<lambda>fd.
             if fd < 0 then
               thenK (fileclose f) (
               thenK (iunlockput ip) fail_op)
             else
               thenK (iunlock ip) (
               thenK end_op (
               thenK (upd_file f (\<lambda>x. x\<lparr>ftype := FD_INODE, fip := ip, foff := 0,
                 readable := (omode AND O_WRONLY = 0),
                 writable := (omode AND O_WRONLY \<noteq> 0 \<or> omode AND O_RDWR \<noteq> 0)\<rparr>)) (
               retK fd)))))))))"

text \<open>\<^verbatim>\<open>begin_op\<close> comes before the arguments here.\<close>

definition sys_mkdir :: "(int, 'z ksys_scheme) kop" where
  "sys_mkdir =
     thenK begin_op (
     bindK (argstr 0) (\<lambda>a.
     bindK (case a of None \<Rightarrow> retK None | Some path \<Rightarrow> create path T_DIR 0 0) (\<lambda>r.
     case r of
       None \<Rightarrow> fail_op
     | Some ip \<Rightarrow> thenK (iunlockput ip) (thenK end_op (retK 0)))))"

definition sys_mknod :: "(int, 'z ksys_scheme) kop" where
  "sys_mknod =
     thenK begin_op (
     bindK (argstr 0) (\<lambda>a.
     bindK (case a of None \<Rightarrow> retK None | Some _ \<Rightarrow> argint 1) (\<lambda>b.
     bindK (case b of None \<Rightarrow> retK None | Some _ \<Rightarrow> argint 2) (\<lambda>c.
     bindK (case (a, b, c) of
         (Some path, Some major, Some minor) \<Rightarrow> create path T_DEV (word_of_int major) (word_of_int minor)
       | _ \<Rightarrow> retK None) (\<lambda>r.
     case r of
       None \<Rightarrow> fail_op
     | Some ip \<Rightarrow> thenK (iunlockput ip) (thenK end_op (retK 0)))))))"

definition sys_chdir :: "(int, 'z ksys_scheme) kop" where
  "sys_chdir =
     thenK begin_op (
     bindK (argstr 0) (\<lambda>a.
     bindK (case a of None \<Rightarrow> retK None | Some path \<Rightarrow> namei path) (\<lambda>r.
     case r of
       None \<Rightarrow> fail_op
     | Some ip \<Rightarrow>
         thenK (ilock ip) (
         bindK (get_inode ip) (\<lambda>d.
         if itype d \<noteq> T_DIR then thenK (iunlockput ip) fail_op
         else
           thenK (iunlock ip) (
           with_proc (\<lambda>p.
           bindK (getK (\<lambda>s. cwd (ptable s ! p))) (\<lambda>c.
           thenK (case c of None \<Rightarrow> (\<lambda>_. Fault) | Some i \<Rightarrow> iput i) (
           thenK end_op (
           thenK (upd_proc p (\<lambda>q. q\<lparr>cwd := Some ip\<rparr>)) (
           retK 0)))))))))))"

section \<open>Exec and pipe\<close>

text \<open>The loop of \<^verbatim>\<open>sys_exec\<close> over the argument vector; at most \<open>n\<close> entries are left in \<^verbatim>\<open>argv\<close>.\<close>

fun fetch_argv :: "nat \<Rightarrow> u32 \<Rightarrow> (byte list list option, 'z kproc_scheme) kop" where
  "fetch_argv 0 a = retK None"
| "fetch_argv (Suc n) a =
     bindK (fetchint a) (\<lambda>r.
     case r of
       None \<Rightarrow> retK None
     | Some u \<Rightarrow>
         if u = 0 then retK (Some [])
         else
           bindK (fetchstr (word_of_int u)) (\<lambda>q.
           case q of
             None \<Rightarrow> retK None
           | Some bs \<Rightarrow> bindK (fetch_argv n (a + 4)) (\<lambda>rest. retK (map_option ((#) bs) rest))))"

definition sys_exec :: "(int, 'z ksys_scheme) kop" where
  "sys_exec =
     needK (argstr 0) (\<lambda>path.
     needK (argint 1) (\<lambda>uargv.
     needK (fetch_argv MAXARG (word_of_int uargv)) (\<lambda>argv.
     exec path argv)))"

definition sys_pipe :: "(int, 'z ksys_scheme) kop" where
  "sys_pipe =
     needK (argptr 0 8) (\<lambda>a.
     needK pipealloc (\<lambda>(rf, wf).
     bindK (fdalloc rf) (\<lambda>fd0.
     bindK (if fd0 < 0 then retK (- 1) else fdalloc wf) (\<lambda>fd1.
     if fd1 < 0 then
       thenK (whenK (fd0 \<ge> 0) (set_ofile (nat fd0) None)) (
       thenK (fileclose rf) (
       thenK (fileclose wf) (
       retK (- 1))))
     else
       thenK (ustore32 a (word_of_int fd0)) (
       thenK (ustore32 (a + 4) (word_of_int fd1)) (
       retK 0))))))"

section \<open>Dispatch\<close>

text \<open>The table \<^verbatim>\<open>syscalls\<close>.\<close>

definition syscalls :: "int \<Rightarrow> int \<Rightarrow> (int, 'z ksys_scheme) kop option" where
  "syscalls junk num =
     (if num \<le> 0 \<or> num \<ge> 22 then None
      else Some ([sys_fork junk, sys_exit, sys_wait, sys_pipe, sys_read, sys_kill, sys_exec, sys_fstat, sys_chdir,
        sys_dup, sys_getpid, sys_sbrk, sys_sleep, sys_uptime, sys_open, sys_write, sys_mknod, sys_unlink,
        sys_link, sys_mkdir, sys_close] ! nat (num - 1)))"

text \<open>\<open>junk\<close> is the uninitialised variable of \<^verbatim>\<open>sys_fork\<close>.\<close>

definition syscall :: "int \<Rightarrow> (unit, 'z ksys_scheme) kop" where
  "syscall junk =
     with_proc (\<lambda>p.
     bindK cur_tf (\<lambda>t.
     bindK (tf_get t TF_EAX) (\<lambda>eax.
     case syscalls junk (sint eax) of
       Some call \<Rightarrow>
         bindK call (\<lambda>r.
         bindK cur_tf (\<lambda>t'.
         tf_put t' TF_EAX (word_of_int r)))
     | None \<Rightarrow>
         bindK (getK (\<lambda>s. ptable s ! p)) (\<lambda>q.
         thenK (cprintf (''%d %s: unknown sys call %d'' @ [CHR 0x0A]) [CInt (pid q), CStr (pname q), CInt (sint eax)]) (
         tf_put t TF_EAX (- 1))))))"

end
