(* ===== verification/Trap.thy ===== *)
theory Trap
  imports Syscall
begin

unbundle bit_operations_syntax

text \<open>
  Traps (\<^verbatim>\<open>trap.c\<close>) and starting the machine (\<^verbatim>\<open>main.c\<close>).  The trap frame is in memory at \<open>t\<close>.  When \<^verbatim>\<open>trap\<close>
  gives up the processor on a clock tick, \<open>trap_resume\<close> is what is left to do afterwards.
\<close>

section \<open>The trap table\<close>

definition SETGATE :: "bool \<Rightarrow> nat \<Rightarrow> u32 \<Rightarrow> nat \<Rightarrow> gatedesc" where
  "SETGATE istrap sel off d = \<lparr>g_off = off, g_cs = of_nat sel, g_trap = istrap, g_dpl = d\<rparr>"

definition tvinit :: "(unit, 'z ksys_scheme) kop" where
  "tvinit =
     thenK (modK (\<lambda>s. s\<lparr>idt := (map (\<lambda>i. SETGATE False (SEG_KCODE * 8) (sym_vectors s i) 0) [0..<256])
       [T_SYSCALL := SETGATE True (SEG_KCODE * 8) (sym_vectors s T_SYSCALL) DPL_USER]\<rparr>)) (
     initlock TickLock ''time'')"

definition idtinit :: "(unit, 'z ksys_scheme) kop" where
  "idtinit = modK (\<lambda>s. s\<lparr>idt_loaded := (idt_loaded s)(this_cpu s := True)\<rparr>)"

section \<open>Handling a trap\<close>

definition this_id :: "'z kintr_scheme \<Rightarrow> int" where
  "this_id s = uint (cpu_id s (this_cpu s))"

definition user_frame :: "addr \<Rightarrow> 'z kmem_scheme \<Rightarrow> bool" where
  "user_frame t s \<longleftrightarrow> (ld32 (mem s) (t + TF_CS) AND 0xFFFF) AND 3 = of_nat DPL_USER"

text \<open>Leave if the process has been killed and the trap came from user space.\<close>

definition exit_if_killed :: "addr \<Rightarrow> (unit, 'z ksys_scheme) kop" where
  "exit_if_killed t =
     bindK (getK (\<lambda>s. case cproc (mycpu s) of None \<Rightarrow> False | Some p \<Rightarrow> killed (ptable s ! p) \<and> user_frame t s)) (\<lambda>b.
     if b then exit else retK ())"

definition timer_tick :: "(unit, 'z ksys_scheme) kop" where
  "timer_tick =
     thenK (acquire TickLock) (
     thenK (modK (\<lambda>s. s\<lparr>ticks := ticks s + 1\<rparr>)) (
     thenK (wakeup ChanTicks) (
     release TickLock)))"

definition trap_unexpected :: "addr \<Rightarrow> u32 \<Rightarrow> (unit, 'z ksys_scheme) kop" where
  "trap_unexpected t no =
     bindK (tf_get t TF_EIP) (\<lambda>eip.
     bindK (tf_get t TF_ERR) (\<lambda>err.
     bindK (getK (\<lambda>s. (cproc (mycpu s), ld32 (mem s) (t + TF_CS) AND 3 = 0, this_id s, cr2 s))) (\<lambda>(cur, kern, c, fa).
     case (if kern then None else cur) of
       None \<Rightarrow>
         thenK (cprintf (''unexpected trap %d from cpu %d eip %x (cr2=0x%x)'' @ [CHR 0x0A])
           [CInt (sint no), CInt c, CInt (uint eip), CInt (uint fa)]) (
         panicK ''trap'')
     | Some p \<Rightarrow>
         bindK (getK (\<lambda>s. ptable s ! p)) (\<lambda>q.
         thenK (cprintf (''pid %d %s: trap %d err %d on cpu %d eip 0x%x addr 0x%x--kill proc'' @ [CHR 0x0A])
           [CInt (pid q), CStr (pname q), CInt (sint no), CInt (sint err), CInt c, CInt (uint eip), CInt (uint fa)]) (
         upd_proc p (\<lambda>q. q\<lparr>killed := True\<rparr>))))))"

definition trap_irq :: "addr \<Rightarrow> u32 \<Rightarrow> (unit, 'z ksys_scheme) kop" where
  "trap_irq t no =
     (if no = of_nat (T_IRQ0 + IRQ_TIMER) then
        bindK (getK this_id) (\<lambda>c. thenK (whenK (c = 0) timer_tick) lapiceoi)
      else if no = of_nat (T_IRQ0 + IRQ_IDE) then thenK ideintr_mem lapiceoi
      else if no = of_nat (T_IRQ0 + IRQ_IDE + 1) then retK ()
      else if no = of_nat (T_IRQ0 + IRQ_KBD) then thenK kbdintr lapiceoi
      else if no = of_nat (T_IRQ0 + IRQ_COM1) then thenK uartintr lapiceoi
      else if no = of_nat (T_IRQ0 + 7) \<or> no = of_nat (T_IRQ0 + IRQ_SPURIOUS) then
        bindK (tf_get16 t TF_CS) (\<lambda>cs.
        bindK (tf_get t TF_EIP) (\<lambda>eip.
        bindK (getK this_id) (\<lambda>c.
        thenK (cprintf (''cpu%d: spurious interrupt at %x:%x'' @ [CHR 0x0A]) [CInt c, CInt (uint cs), CInt (uint eip)])
          lapiceoi)))
      else trap_unexpected t no)"

definition trap_resume :: "addr \<Rightarrow> (unit, 'z ksys_scheme) kop" where
  "trap_resume t = thenK yield_resume (exit_if_killed t)"

text \<open>\<open>junk\<close> is the uninitialised variable of \<^verbatim>\<open>sys_fork\<close>.\<close>

definition trap :: "int \<Rightarrow> addr \<Rightarrow> (unit, 'z ksys_scheme) kop" where
  "trap junk t =
     bindK (tf_get t TF_TRAPNO) (\<lambda>no.
     if no = of_nat T_SYSCALL then
       with_proc (\<lambda>p.
       bindK (getK (\<lambda>s. killed (ptable s ! p))) (\<lambda>k.
       if k then exit
       else
         thenK (upd_proc p (\<lambda>q. q\<lparr>tf := t\<rparr>)) (
         thenK (syscall junk) (
         bindK (getK (\<lambda>s. killed (ptable s ! p))) (\<lambda>k'.
         if k' then exit else retK ())))))
     else
       thenK (trap_irq t no) (
       thenK (exit_if_killed t) (
       bindK (getK (\<lambda>s. case cproc (mycpu s) of None \<Rightarrow> False | Some p \<Rightarrow> state (ptable s ! p) = RUNNING)) (\<lambda>run.
       thenK (whenK (run \<and> no = of_nat (T_IRQ0 + IRQ_TIMER)) yield) (
       exit_if_killed t)))))"

section \<open>Start of the machine\<close>

text \<open>
  What the linker and the firmware provide: the embedded binaries, the addresses of \<^verbatim>\<open>mpenter\<close>,
  \<^verbatim>\<open>entrypgdir\<close> and of each processor's variable \<^verbatim>\<open>cpu\<close>, and the disk image.
\<close>

record boot =
  bt_initcode :: "byte list"
  bt_entryother :: "byte list"
  bt_mpenter :: addr
  bt_entrypgdir :: addr
  bt_pcpu :: addr
  bt_img :: "u32 \<Rightarrow> byte list"
  bt_img_size :: u32
  bt_mp_fuel :: nat
  bt_ra :: u32

text \<open>Start one more processor; the loop waits for it to set its flag.\<close>

definition startap :: "boot \<Rightarrow> nat \<Rightarrow> nat \<Rightarrow> (unit, 'z ksys_scheme) kop" where
  "startap bt me c =
     (if c = me then retK ()
      else
        (let code = p2v 0x7000 in
         bindK kalloc (\<lambda>stack.
         thenK (store32 (code - 4) (stack + of_nat KSTACKSIZE)) (
         thenK (store32 (code - 8) (bt_mpenter bt)) (
         thenK (store32 (code - 12) (v2p (bt_entrypgdir bt))) (
         bindK (getK (\<lambda>s. cpu_id s c)) (\<lambda>id.
         thenK (lapicstartap id (v2p code)) (
         bindK (getK (\<lambda>s. cpu_started s c)) (\<lambda>up.
         if up then retK () else Spin)))))))))"

definition startothers :: "boot \<Rightarrow> (unit, 'z ksys_scheme) kop" where
  "startothers bt =
     thenK (store_bytes (p2v 0x7000) (bt_entryother bt)) (
     bindK (getK ncpu) (\<lambda>n.
     bindK (cpunum (bt_ra bt)) (\<lambda>me.
     seqK (map (startap bt me) [0..<n]))))"

text \<open>\<^verbatim>\<open>mpmain\<close> up to its call of \<^verbatim>\<open>scheduler\<close>.\<close>

definition mpmain :: "(unit, 'z ksys_scheme) kop" where
  "mpmain =
     bindK (getK this_id) (\<lambda>c.
     thenK (cprintf (''cpu%d: starting'' @ [CHR 0x0A]) [CInt c]) (
     thenK idtinit (
     modK (\<lambda>s. s\<lparr>cpu_started := (cpu_started s)(this_cpu s := True)\<rparr>))))"

definition mpenter :: "boot \<Rightarrow> (unit, 'z ksys_scheme) kop" where
  "mpenter bt =
     thenK switchkvm (
     thenK (seginit (bt_ra bt) (bt_pcpu bt)) (
     thenK lapicinit mpmain))"

definition main :: "boot \<Rightarrow> (unit, 'z ksys_scheme) kop" where
  "main bt =
     bindK (getK kend) (\<lambda>kend0.
     thenK (kinit1 kend0 (p2v (4 * 1024 * 1024))) (
     thenK kvmalloc (
     thenK (mpinit (bt_mp_fuel bt)) (
     thenK lapicinit (
     thenK (seginit (bt_ra bt) (bt_pcpu bt)) (
     bindK (getK this_id) (\<lambda>c.
     thenK (cprintf ([CHR 0x0A] @ ''cpu%d: starting xv6'' @ [CHR 0x0A, CHR 0x0A]) [CInt c]) (
     thenK picinit (
     thenK ioapicinit (
     thenK consoleinit (
     thenK uartinit (
     thenK pinit (
     thenK tvinit (
     thenK binit (
     thenK fileinit (
     thenK (ideinit (bt_img bt) (bt_img_size bt)) (
     bindK (getK ismp) (\<lambda>mp.
     thenK (whenK (\<not> mp) timerinit) (
     thenK (startothers bt) (
     thenK (kinit2 (p2v (4 * 1024 * 1024)) (p2v PHYSTOP)) (
     thenK (userinit (bt_initcode bt)) (
     mpmain))))))))))))))))))))))"

end
