(* ===== verification/Limits.thy ===== *)
theory Limits
  imports Machine Trap Fifo
begin

unbundle bit_operations_syntax

text \<open>
  Checks at the boundaries of the kernel: the arguments of system calls (\<^verbatim>\<open>syscall.c\<close>), the gates of the
  interrupt table (\<^verbatim>\<open>trap.c\<close>), the tickets of a new process (\<^verbatim>\<open>proc.c\<close>), and the configuration table of a
  multiprocessor (\<^verbatim>\<open>mp.c\<close>).
\<close>

section \<open>Arguments of system calls\<close>

lemma wrap_mod:
  fixes x m :: int
  assumes "- m \<le> x" "x < m"
  shows "x mod m = (if 0 \<le> x then x else x + m)"
proof (cases "0 \<le> x")
  case False
  then have "(x + m) mod m = x + m" using assms by (intro mod_pos_pos_trivial) auto
  with False show ?thesis by simp
qed (use assms in simp)

lemma cur_sz_eq: "runs p s \<Longrightarrow> cur_sz s = Ok (sz (ptable s ! p)) s"
  by (simp add: kop cur_sz_def with_proc_def runs_def)

text \<open>
  For the witnesses: a process whose page at 0x1000, mapped to the physical page at 0x2000, holds the stack, with the system
  call number \<open>eax\<close> in its trap frame and the argument \<open>arg\<close>.
\<close>

definition mem0 :: "u32 \<Rightarrow> u32 \<Rightarrow> memory" where
  "mem0 eax arg = st32 (st32 (st32 (st32 (st32 (\<lambda>_. 0) 0x80000000 0x1007) 0x80001004 0x2007)
     (0x80500F00 + TF_EAX) eax) (0x80500F00 + TF_ESP) 0x1000) 0x80002004 arg"

definition call0 :: "u32 \<Rightarrow> u32 \<Rightarrow> u32 \<Rightarrow> ksys" where
  "call0 n eax arg = sys0\<lparr>mem := mem0 eax arg, ptable := (ptable sys0)[0 := init0\<lparr>sz := n\<rparr>]\<rparr>"

lemma call0_simps [simp]: "runs 0 (call0 n eax arg)" "ptable (call0 n eax arg) ! 0 = init0\<lparr>sz := n\<rparr>" "mem (call0 n eax arg) = mem0 eax arg"
  "this_cpu (call0 n eax arg) = 0" "cpus (call0 n eax arg) = cpus sys0"
  using sys0_runs by (simp_all add: call0_def runs_def)

lemma ld32_st32_other:
  assumes "4 \<le> unat (a - b)" "unat (a - b) \<le> 2 ^ 32 - 4"
  shows "ld32 (st32 m b v) a = ld32 m a"
proof -
  have "4 \<le> unat (a + of_nat k - b)" if "k < 4" for k
  proof -
    have "unat (a - b) + k < 2 ^ 32" using assms(2) that by simp
    then have "unat (a - b + of_nat k) = unat (a - b) + k" using that by (simp add: unat_word_ariths(1) unat_of_nat)
    then show ?thesis using assms(1) by (simp add: algebra_simps)
  qed
  from this [of 0] this [of 1] this [of 2] this [of 3] show ?thesis by (simp add: ld32_def st32_other)
qed

lemma uload_readable: "ureadable s a bs \<Longrightarrow> uload a (length bs) s = Ok bs s"
  by (induction bs arbitrary: a) (simp_all add: ureadable_Cons kop)

lemma uload32_readable:
  assumes "ureadable s a [byte_of 0 v, byte_of 1 v, byte_of 2 v, byte_of 3 v]"
  shows "uload32 a s = Ok v s"
proof -
  have "uload a 4 s = Ok [byte_of 0 v, byte_of 1 v, byte_of 2 v, byte_of 3 v] s"
    using uload_readable [OF assms] by (simp add: numeral_eq_Suc del: uload.simps)
  then show ?thesis by (simp add: uload32_def bindK_def retK_def del: uload.simps)
qed

lemma call0_page:
  assumes "v \<in> {0x1004, 0x1005, 0x1006, 0x1007}"
  shows "xlate (mem0 eax arg) 0 False v = Some (v + 0x80001000)"
proof -
  have "ld32 (mem0 eax arg) 0x80000000 = 0x1007" "ld32 (mem0 eax arg) 0x80001004 = 0x2007"
    by (simp_all add: mem0_def ld32_st32_other TF_EAX_def TF_ESP_def)
  with assms show ?thesis by (auto simp: xlate_def KERNBASE_def p2v_def PDX_def PTX_def PTE_ADDR_def PTE_P_def)
qed

lemma mem0_arg: "mem0 eax arg 0x80002004 = byte_of 0 arg" "mem0 eax arg 0x80002005 = byte_of 1 arg"
  "mem0 eax arg 0x80002006 = byte_of 2 arg" "mem0 eax arg 0x80002007 = byte_of 3 arg"
  unfolding mem0_def by (simp_all add: st32_def [of _ "0x80002004"])

lemma call0_readable: "ureadable (call0 n eax arg) 0x1004 [byte_of 0 arg, byte_of 1 arg, byte_of 2 arg, byte_of 3 arg]"
proof -
  have "cr3 (mycpu (call0 n eax arg)) = 0" by (simp add: cpu0_def)
  then show ?thesis by (simp only: ureadable_Cons uload1_Ok call0_simps) (simp add: call0_page mem0_arg ureadable_def)
qed

lemma call0_argint:
  assumes "0x1008 \<le> n"
  shows "argint 0 (call0 n eax arg) = Ok (Some (sint arg)) (call0 n eax arg)"
proof -
  have "ld32 (mem0 eax arg) (0x80500F00 + TF_ESP) = 0x1000" by (simp add: mem0_def ld32_st32_other TF_ESP_def)
  moreover have "0x1004 < n" using assms by (rule order.strict_trans2 [rotated]) simp
  ultimately show ?thesis using uload32_readable [OF call0_readable, of n eax arg] assms
    by (simp add: argint_def bindK_def retK_def getK_def cur_tf_def with_proc_def tf_get_def fetchint_def cur_sz_def init0_def cpu0_def
        linorder_not_le linorder_not_less)
qed

text \<open>
  C31. The check of \<^verbatim>\<open>argptr\<close>, done in 32-bit arithmetic, is the one meant, in unbounded integers: with the size of a process
  at most \<open>KERNBASE\<close>, a pointer argument is accepted exactly when it lies below the size of the process and its end lies
  neither below 0 nor above that size.  So a negative block size is accepted, too, unless it reaches below address 0.
\<close>

theorem argptr_checks:
  assumes "runs p s" "argint n s = Ok (Some i) s" "sz (ptable s ! p) \<le> KERNBASE" "- (2 ^ 31) < len" "len < 2 ^ 31"
  defines "a \<equiv> word_of_int i :: addr" and "lim \<equiv> uint (sz (ptable s ! p))"
  shows "argptr n len s = Ok (if uint a < lim \<and> 0 \<le> uint a + len \<and> uint a + len \<le> lim then Some a else None) s"
proof -
  have l: "lim \<le> 2147483648" "- 2147483648 < len" "len < 2147483648"
    using assms(3-5) by (simp_all add: lim_def word_le_def KERNBASE_def)
  have "(a < sz (ptable s ! p)) = (uint a < lim)" by (simp add: word_less_def lim_def)
  moreover have "(a + word_of_int len \<le> sz (ptable s ! p)) = (0 \<le> uint a + len \<and> uint a + len \<le> lim)" if "uint a < lim"
  proof -
    have b: "- 4294967296 \<le> uint a + len" "uint a + len < 4294967296" using that l uint_ge_0 [of a] by linarith+
    have "uint (a + word_of_int len) = (uint a + len) mod 4294967296"
      by (simp add: uint_word_ariths uint_word_of_int mod_simps)
    then have "uint (a + word_of_int len) = (if 0 \<le> uint a + len then uint a + len else uint a + len + 4294967296)"
      by (simp only: wrap_mod [OF b])
    moreover have "\<not> uint a + len + 4294967296 \<le> lim" using l uint_ge_0 [of a] by linarith
    ultimately show ?thesis by (simp add: word_le_def lim_def)
  qed
  ultimately show ?thesis
    using assms(2) cur_sz_eq [OF assms(1)] by (auto simp: argptr_def kop a_def linorder_not_le linorder_not_less)
qed

theorem argptr_checks_witness: "argptr 0 0x100 (call0 0x2000 5 0x1F00) = Ok (Some 0x1F00) (call0 0x2000 5 0x1F00)"
  using argptr_checks [of 0 "call0 0x2000 5 0x1F00" 0 "0x1F00" "0x100"] call0_argint [of "0x2000" 5 "0x1F00"] by (simp add: KERNBASE_def)

lemma fetchstr_loop_ok:
  assumes "ureadable s a bs" "length bs \<le> fuel" "unat a + length bs = unat ep"
  shows "fetchstr_loop fuel a ep s = Ok (if 0 \<in> set bs then Some (takeWhile (\<lambda>b. b \<noteq> 0) bs) else None) s"
  using assms
proof (induction fuel arbitrary: a bs)
  case 0
  then show ?case by (subst fetchstr_loop.simps) (simp add: kop word_less_nat_alt)
next
  case (Suc fuel)
  show ?case
  proof (cases bs)
    case Nil
    then show ?thesis using Suc.prems(3) by (subst fetchstr_loop.simps) (simp add: kop word_less_nat_alt)
  next
    case (Cons b cs)
    then have r: "uload1 a s = Ok b s" "ureadable s (a + 1) cs" using Suc.prems(1) by (simp_all add: ureadable_Cons)
    have lt: "a < ep" using Suc.prems(3) Cons by (simp add: word_less_nat_alt)
    have "unat ep < 2 ^ LENGTH(32)" by (rule unsigned_less)
    then have "unat (a + 1) = unat a + 1" using lt by (simp add: unat_word_ariths(1) word_less_nat_alt)
    then have "fetchstr_loop fuel (a + 1) ep s = Ok (if 0 \<in> set cs then Some (takeWhile (\<lambda>b. b \<noteq> 0) cs) else None) s"
      using Suc.prems(2,3) Cons by (intro Suc.IH [OF r(2)]) simp_all
    then show ?thesis using r(1) lt Cons by (subst fetchstr_loop.simps) (simp add: kop)
  qed
qed

text \<open>
  C32. \<^verbatim>\<open>fetchstr\<close> returns for every address: with the memory of the process mapped, the result is the string up to its
  terminator if there is one before the end of the process, and an error otherwise; it never reads past the end.
\<close>

theorem fetchstr_ok:
  assumes "runs p s" "ureadable s a bs" "length bs = unat (sz (ptable s ! p)) - unat a"
  shows "fetchstr a s = Ok (if 0 \<in> set bs then Some (takeWhile (\<lambda>b. b \<noteq> 0) bs) else None) s"
proof (cases "a < sz (ptable s ! p)")
  case True
  then have "unat a + length bs = unat (sz (ptable s ! p))" "unat (sz (ptable s ! p) - a) = length bs"
    using assms(3) by (simp_all add: word_less_nat_alt unat_sub word_le_nat_alt)
  with fetchstr_loop_ok [OF assms(2)] True cur_sz_eq [OF assms(1)] show ?thesis by (simp add: fetchstr_def kop linorder_not_le)
next
  case False
  then have "bs = []" using assms(3) by (simp add: word_less_nat_alt)
  with False cur_sz_eq [OF assms(1)] show ?thesis by (simp add: fetchstr_def kop linorder_not_less)
qed

theorem fetchstr_ok_witness: "fetchstr 0x1004 (call0 0x1008 5 0x00006968) = Ok (Some [0x68, 0x69]) (call0 0x1008 5 0x00006968)"
  using fetchstr_ok [OF _ call0_readable, of 0 "0x1008" 5 "0x00006968"] by (simp add: byte_of_def)

text \<open>
  A system call number that is not in the table: the process gets -1 in its \<^verbatim>\<open>%eax\<close>, a message is printed and nothing
  else changes.
\<close>

theorem unknown_syscall:
  assumes "runs p s" "sint (ld32 (mem s) (tf (ptable s ! p) + TF_EAX)) \<notin> {1..21}"
  shows "\<exists>msg. syscall junk s = Ok () (s\<lparr>conslog := conslog s @ [msg], mem := st32 (mem s) (tf (ptable s ! p) + TF_EAX) (- 1)\<rparr>)"
proof -
  have "syscalls junk (sint (ld32 (mem s) (tf (ptable s ! p) + TF_EAX))) = (None :: (int, 'a ksys_scheme) kop option)"
    using assms(2) by (auto simp: syscalls_def)
  then show ?thesis using assms(1)
    by (simp add: syscall_def kop with_proc_def runs_def cur_tf_def tf_get_def tf_put_def store32_def cprintf_def) blast
qed

theorem unknown_syscall_witness: "\<exists>t. syscall 0 (call0 0x2000 22 0) = Ok () t \<and> ld32 (mem t) (0x80500F00 + TF_EAX) = - 1"
proof -
  have "ld32 (mem0 22 0) (0x80500F00 + TF_EAX) = 22" by (simp add: mem0_def ld32_st32_other TF_ESP_def TF_EAX_def)
  with unknown_syscall [of 0 "call0 0x2000 22 0" 0] show ?thesis by (auto simp: init0_def)
qed

section \<open>Gates\<close>

text \<open>
  The interrupt table that \<^verbatim>\<open>tvinit\<close> builds has all 256 gates into the kernel's code segment at its vector, and only
  the gate of system calls may be called by user code; every other gate is an interrupt gate of privilege 0, which clears
  the interrupt flag.
\<close>

theorem tvinit_gates:
  "\<exists>t. tvinit s = Ok () t \<and> length (idt t) = 256 \<and> (\<forall>i < 256. g_cs (idt t ! i) = of_nat (SEG_KCODE * 8) \<and> g_off (idt t ! i) = sym_vectors s i \<and>
    (g_dpl (idt t ! i) = DPL_USER \<longleftrightarrow> i = T_SYSCALL) \<and> (i \<noteq> T_SYSCALL \<longrightarrow> g_dpl (idt t ! i) = 0 \<and> \<not> g_trap (idt t ! i)))"
  by (auto simp: tvinit_def kop initlock_def upd_lock_def SETGATE_def T_SYSCALL_def DPL_USER_def nth_list_update)

theorem tvinit_gates_witness: "\<exists>t. tvinit sys0 = Ok () t \<and> g_dpl (idt t ! 64) = 3 \<and> g_dpl (idt t ! 14) = 0"
  using tvinit_gates [of sys0] by (auto simp: T_SYSCALL_def DPL_USER_def)

section \<open>New processes\<close>

lemma clamp_bounds: "25 \<le> clamp_tickets n" "clamp_tickets n \<le> 2000"
  by (auto simp: clamp_tickets_def DEFAULT_TICKETS_def MIN_TICKETS_def MAX_TICKETS_def)

lemma step_bounds: "25 \<le> k \<Longrightarrow> k \<le> 2000 \<Longrightarrow> 5 \<le> 10000 sdiv k \<and> 10000 sdiv k \<le> (400 :: int)"
proof -
  assume k: "25 \<le> k" "k \<le> 2000"
  then have "10000 sdiv k = 10000 div k" by (simp add: signed_divide_int_def)
  moreover have "10000 div k \<le> 10000 div 25" using k by (intro zdiv_mono2) auto
  moreover have "10000 div 2000 \<le> 10000 div k" using k by (intro zdiv_mono2) auto
  ultimately show ?thesis by simp
qed

text \<open>Every process in use has a pid below \<open>n\<close>, the next one to be given out.\<close>

definition pids_below :: "int \<Rightarrow> proc list \<Rightarrow> bool" where
  "pids_below n ps \<longleftrightarrow> (\<forall>j < length ps. state (ps ! j) \<noteq> UNUSED \<longrightarrow> pid (ps ! j) < n)"

text \<open>
  C33. Whatever number of tickets a program passes to \<^verbatim>\<open>fork\<close>, \<^verbatim>\<open>allocproc\<close> gives the new process a step between 5 and 400,
  the bound under which the scheduler is fair.  It takes the first unused entry of the table, gives the process the pid \<^verbatim>\<open>nextpid\<close>,
  increments \<^verbatim>\<open>nextpid\<close>, starts the process with pass 0 and leaves every other process as it is.  As long as the pids have not
  reached 2^31 - 1, all pids in use stay below \<^verbatim>\<open>nextpid\<close>, so no other process in use has the pid of the new one.
\<close>

theorem allocproc_step:
  assumes "cpu_shallow (mycpu s)" "lock_free (locks s PtableLock)" "lock_free (locks s KmemLock)" "freelist s \<noteq> 0"
    and "find_index (\<lambda>p. state p = UNUSED) (ptable s) = Some i"
  shows "\<exists>t. allocproc (clamp_tickets n) s = Ok (Some i) t \<and> state (ptable t ! i) = EMBRYO \<and> pid (ptable t ! i) = nextpid s \<and>
    nextpid t = s32 (nextpid s + 1) \<and>
    (pids_below (nextpid s) (ptable s) \<and> 0 \<le> nextpid s \<and> nextpid s < 2 ^ 31 - 1 \<longrightarrow> pids_below (nextpid t) (ptable t) \<and>
      (\<forall>j < length (ptable t). j \<noteq> i \<and> state (ptable t ! j) \<noteq> UNUSED \<longrightarrow> pid (ptable t ! j) \<noteq> pid (ptable t ! i))) \<and>
    passo (ptable t ! i) = 10000 sdiv clamp_tickets n \<and> 5 \<le> passo (ptable t ! i) \<and> passo (ptable t ! i) \<le> 400 \<and>
    passada (ptable t ! i) = 0 \<and> kstack (ptable t ! i) = freelist s \<and> (\<forall>j. j \<noteq> i \<longrightarrow> ptable t ! j = ptable s ! j)"
proof -
  have i: "i < length (ptable s)" using find_index_le_length [OF assms(5)] .
  have k: "kmem_ready u" if "mycpu u = saved (mycpu s)" "locks u = locks s" for u :: "'a kproc_scheme"
    using assms(1,3) that by (simp add: kmem_ready_def)
  have "\<exists>t. allocproc (clamp_tickets n) s = Ok (Some i) t \<and> state (ptable t ! i) = EMBRYO \<and> pid (ptable t ! i) = nextpid s \<and>
    nextpid t = s32 (nextpid s + 1) \<and> passo (ptable t ! i) = 10000 sdiv clamp_tickets n \<and> passada (ptable t ! i) = 0 \<and>
    kstack (ptable t ! i) = freelist s \<and> (\<forall>j. j \<noteq> i \<longrightarrow> ptable t ! j = ptable s ! j) \<and> length (ptable t) = length (ptable s)"
    using assms i clamp_bounds [of n]
    by (auto simp: allocproc_def kop lock_rules upd_proc_def kalloc_eq k Let_def store32_def fill_def kmem_lock_fx_def nth_list_update)
  then obtain t where t: "allocproc (clamp_tickets n) s = Ok (Some i) t" "state (ptable t ! i) = EMBRYO" "pid (ptable t ! i) = nextpid s"
    "nextpid t = s32 (nextpid s + 1)" "passo (ptable t ! i) = 10000 sdiv clamp_tickets n" "passada (ptable t ! i) = 0"
    "kstack (ptable t ! i) = freelist s" "\<forall>j. j \<noteq> i \<longrightarrow> ptable t ! j = ptable s ! j" "length (ptable t) = length (ptable s)"
    by blast
  have "pids_below (nextpid t) (ptable t) \<and>
      (\<forall>j < length (ptable t). j \<noteq> i \<and> state (ptable t ! j) \<noteq> UNUSED \<longrightarrow> pid (ptable t ! j) \<noteq> pid (ptable t ! i))"
    if b: "pids_below (nextpid s) (ptable s)" "0 \<le> nextpid s" "nextpid s < 2 ^ 31 - 1"
  proof -
    have "pid (ptable t ! j) < nextpid s" if "j < length (ptable t)" "j \<noteq> i" "state (ptable t ! j) \<noteq> UNUSED" for j
      using that t(8,9) b(1) by (simp add: pids_below_def)
    moreover have "nextpid t = nextpid s + 1" using b t(4) s32_id [of "nextpid s + 1"] by simp
    ultimately show ?thesis using t(3) by (force simp: pids_below_def)
  qed
  with t step_bounds [OF clamp_bounds, of n] show ?thesis by auto
qed

theorem allocproc_step_witness:
  "\<exists>t. allocproc (clamp_tickets 1000000) (sys0\<lparr>freelist := 0x80700000\<rparr>) = Ok (Some 1) t \<and> passo (ptable t ! 1) = 5 \<and>
     pids_below (nextpid t) (ptable t)"
proof -
  have "find_index (\<lambda>p. state p = UNUSED) (ptable sys0) = Some 1" by (simp add: sys0_def init0_def NPROC_def proc0_def eval_nat_numeral)
  moreover have "pids_below (nextpid sys0) (ptable sys0)" "0 \<le> nextpid sys0" "nextpid sys0 < 2 ^ 31 - 1"
    by (auto simp: pids_below_def sys0_def init0_def NPROC_def proc0_def nth_Cons')
  ultimately show ?thesis using allocproc_step [of "sys0\<lparr>freelist := 0x80700000\<rparr>" 1 1000000]
    by (auto simp: clamp_tickets_def DEFAULT_TICKETS_def MIN_TICKETS_def MAX_TICKETS_def signed_divide_int_def)
qed

section \<open>The multiprocessor table\<close>

text \<open>
  C40. An entry of unknown type in the configuration table makes \<^verbatim>\<open>mpinit\<close> loop for ever: its \<^verbatim>\<open>default\<close> case does not advance
  the pointer, so the loop takes any number of rounds and never leaves.
\<close>

theorem mpinit_hangs:
  assumes "p < e" "mem s p \<notin> {0, 1, 2, 3, 4}"
  shows "mpinit_loop fuel p e s = NoFuel"
  using assms
proof (induction fuel arbitrary: s)
  case 0
  then show ?case by (subst mpinit_loop.simps) simp
next
  case (Suc n)
  let ?s = "s\<lparr>conslog := conslog s @ [(''mpinit: unknown config type %x'' @ [CHR 0x0A], [CInt (uint (mem s p))])], ismp := False\<rparr>"
  have "mpinit_loop n p e ?s = NoFuel" using Suc.prems by (intro Suc.IH) simp_all
  then show ?case using Suc.prems by (subst mpinit_loop.simps) (simp add: kop Let_def cprintf_def)
qed

theorem mpinit_hangs_witness: "mpinit_loop 1000000 0x800F0000 0x800F0008 (sys0\<lparr>mem := \<lambda>_. 0x86\<rparr>) = NoFuel"
  by (rule mpinit_hangs) simp_all

end
