(* ===== verification/Paging.thy ===== *)
theory Paging
  imports Uaccess
begin

unbundle bit_operations_syntax

text \<open>
  What the page tables of \<^verbatim>\<open>vm.c\<close> mean.  \<open>maps m pd va\<close> is the present entry for an address in the tables of directory \<open>pd\<close>;
  the processor's translation follows it.  The invariant \<open>pt_ok\<close> says that directory and tables are pages apart from each
  other and from the free pages.  The theorem describes \<^verbatim>\<open>mappages\<close> completely: it maps exactly the pages asked for, taking tables from
  the allocator as needed, or fails when no page is free.
\<close>

section \<open>Pages and words\<close>

lemma only_page_word:
  assumes "only_page v m m'" "aligned a" "aligned v" "a \<noteq> v" "i < 1024"
  shows "ld32 m' (a + 4 * of_nat i) = ld32 m (a + 4 * of_nat i)"
proof -
  have "\<not> in_page v (a + 4 * of_nat i + of_nat k)" if "k < 4" for k
    using other_page [OF assms(2-4), of "4 * i + k"] assms(5) that by (simp add: PGSIZE_def add.assoc)
  from this [of 0] this [of 1] this [of 2] this [of 3] assms(1) show ?thesis by (simp add: only_page_def ld32_def)
qed

lemma only_page_st32_word:
  assumes "i < 1024"
  shows "only_page a m (st32 m (a + 4 * of_nat i) w)"
proof -
  have "m x = st32 m (a + 4 * of_nat i) w x" if "\<not> in_page a x" for x
  proof -
    define d where "d = x - a"
    have d: "4096 \<le> unat d" using that by (simp add: in_page_def PGSIZE_def d_def)
    have u: "unat (of_nat (4 * i) :: addr) = 4 * i" using assms by (intro unat_of_nat32) simp
    have "unat (d - of_nat (4 * i)) = unat d - 4 * i" using d u assms unat_sub_if' [of d "of_nat (4 * i)"] by (simp del: of_nat_mult)
    then have "4 \<le> unat (x - (a + 4 * of_nat i))" using d assms by (simp add: d_def diff_diff_eq)
    then show ?thesis by (simp add: st32_other)
  qed
  then show ?thesis by (simp add: only_page_def)
qed

lemma ld32_st32_word:
  assumes "i < 1024" "j < 1024" "i \<noteq> j"
  shows "ld32 (st32 m (a + 4 * of_nat j) w) (a + 4 * of_nat i) = ld32 m (a + 4 * of_nat i)"
proof -
  have "st32 m (a + 4 * of_nat j) w (a + 4 * of_nat i + of_nat k) = m (a + 4 * of_nat i + of_nat k)" if "k < 4" for k
  proof (rule st32_other)
    have u: "unat (of_nat (4 * i + k) :: addr) = 4 * i + k" "unat (of_nat (4 * j) :: addr) = 4 * j"
      using assms that by (auto intro!: unat_of_nat32 simp del: of_nat_add of_nat_mult)
    have "4 \<le> unat ((of_nat (4 * i + k) :: addr) - of_nat (4 * j))"
      using u assms that unat_sub_if' [of "of_nat (4 * i + k) :: addr" "of_nat (4 * j)"] by (simp del: of_nat_add of_nat_mult) linarith
    moreover have "a + 4 * of_nat i + of_nat k - (a + 4 * of_nat j) = of_nat (4 * i + k) - of_nat (4 * j)" by simp
    ultimately show "4 \<le> unat (a + 4 * of_nat i + of_nat k - (a + 4 * of_nat j))" by (simp only:)
  qed
  from this [of 0] this [of 1] this [of 2] this [of 3] show ?thesis by (simp add: ld32_def)
qed

lemma ld32_zero_page:
  assumes "i < 1024"
  shows "ld32 (memset m a 0 PGSIZE) (a + 4 * of_nat i) = 0"
proof -
  have "memset m a 0 PGSIZE (a + 4 * of_nat i + of_nat k) = 0" if "k < 4" for k
  proof -
    have "unat (of_nat (4 * i + k) :: addr) < 4096" using assms that unat_of_nat32 [of "4 * i + k"] by simp
    moreover have "a + 4 * of_nat i + of_nat k - a = of_nat (4 * i + k)" by simp
    ultimately show ?thesis by (simp add: memset_apply PGSIZE_def del: of_nat_add of_nat_mult)
  qed
  from this [of 0] this [of 1] this [of 2] this [of 3] show ?thesis by (simp add: ld32_def word_of_bytes_def)
qed

section \<open>Indices and entries\<close>

lemma index_mask: "PDX va = drop_bit 22 va AND mask 10" "PTX va = drop_bit 12 va AND mask 10"
  by (simp_all add: PDX_def PTX_def mask_eq_exp_minus_1)

lemma bit_PDX: "bit (PDX va) k \<longleftrightarrow> k < 10 \<and> bit va (22 + k)"
  by (auto simp: index_mask bit_simps)

lemma bit_PTX: "bit (PTX va) k \<longleftrightarrow> k < 10 \<and> bit va (12 + k)"
  by (auto simp: index_mask bit_simps)

lemma bit_PGROUNDDOWN: "bit (PGROUNDDOWN va) k \<longleftrightarrow> 12 \<le> k \<and> bit va k"
  by (auto simp: PGROUNDDOWN_def page_mask bit_simps dest: bit_imp_le_length)

lemma index_bound: "unat (PDX va) < 1024" "unat (PTX va) < 1024"
  by (simp_all add: index_mask unsigned_take_bit_eq flip: take_bit_eq_mask)
     (simp_all add: take_bit_eq_mod)

lemma same_page: "PDX va = PDX vb \<and> PTX va = PTX vb \<longleftrightarrow> PGROUNDDOWN va = PGROUNDDOWN vb"
proof
  assume a: "PDX va = PDX vb \<and> PTX va = PTX vb"
  have "bit va k = bit vb k" if "12 \<le> k" "k < 32" for k
  proof (cases "k < 22")
    case True
    then have "k - 12 < 10" using that by simp
    then show ?thesis using a bit_PTX [of va "k - 12"] bit_PTX [of vb "k - 12"] that by simp
  next
    case False
    then have "k - 22 < 10" using that by simp
    then show ?thesis using a bit_PDX [of va "k - 22"] bit_PDX [of vb "k - 22"] that False by simp
  qed
  then show "PGROUNDDOWN va = PGROUNDDOWN vb" by (intro bit_word_eqI) (auto simp: bit_PGROUNDDOWN)
next
  assume "PGROUNDDOWN va = PGROUNDDOWN vb"
  then have "bit va k = bit vb k" if "12 \<le> k" for k using bit_PGROUNDDOWN [of va k] bit_PGROUNDDOWN [of vb k] that by simp
  then show "PDX va = PDX vb \<and> PTX va = PTX vb" by (auto intro!: bit_word_eqI simp: bit_PDX bit_PTX)
qed

lemma same_index:
  "PGROUNDDOWN va = PGROUNDDOWN vb \<longleftrightarrow> unat (PDX va) = unat (PDX vb) \<and> unat (PTX va) = unat (PTX vb)"
  using same_page [of va vb] by (simp only: word_unat_eq_iff)

lemma PTE_ADDR_eq: "PTE_ADDR e = PGROUNDDOWN e"
  by (simp add: PTE_ADDR_def PGROUNDDOWN_def PGSIZE_def)

lemma aligned_iff: "aligned a \<longleftrightarrow> PGROUNDDOWN a = a"
  using div_mult_mod_eq [of "unat a" PGSIZE]
  by (simp only: aligned_def word_unat_eq_iff unat_PGROUNDDOWN) linarith

lemma aligned_PGROUNDDOWN [simp]: "aligned (PGROUNDDOWN a)"
  by (simp add: aligned_def unat_PGROUNDDOWN)

lemma PTE_ADDR_flags:
  assumes "aligned a" "f AND NOT 0xFFF = 0"
  shows "PTE_ADDR (a OR f) = a"
proof -
  have "(a OR f) AND NOT 0xFFF = (a AND NOT 0xFFF) OR (f AND NOT 0xFFF)" by (rule bit.conj_disj_distrib2)
  moreover have "a AND NOT 0xFFF = a" using assms(1) by (simp add: aligned_iff PGROUNDDOWN_def PGSIZE_def)
  ultimately show ?thesis using assms(2) by (simp add: PTE_ADDR_def)
qed

lemma aligned_v2p: "aligned a \<Longrightarrow> aligned (v2p a)"
  by (auto simp: aligned_def v2p_def KERNBASE_def PGSIZE_def unat_sub_if' mod_eq_0_iff_dvd dvd_diff_nat)

lemma aligned_plus: "aligned a \<Longrightarrow> aligned (a + of_nat PGSIZE)"
  by (auto simp: aligned_def PGSIZE_def unat_word_ariths mod_eq_0_iff_dvd dvd_mod_iff)

lemma aligned_minus: "aligned a \<Longrightarrow> aligned b \<Longrightarrow> aligned (a - b)"
  by (auto simp: aligned_def PGSIZE_def unat_sub_if' mod_eq_0_iff_dvd dvd_diff_nat)

lemma present_flag: "(x OR PTE_P) AND PTE_P \<noteq> 0"
proof
  assume "(x OR PTE_P) AND PTE_P = 0"
  then have "bit ((x OR PTE_P) AND PTE_P) 0 = False" by simp
  then show False by (simp add: bit_simps PTE_P_def)
qed

section \<open>The tables and their invariant\<close>

text \<open>The present table entry for an address, following \<^verbatim>\<open>walkpgdir\<close> of \<^verbatim>\<open>vm.c\<close>.\<close>

definition maps :: "memory \<Rightarrow> addr \<Rightarrow> addr \<Rightarrow> u32 option" where
  "maps m pd va =
     (let pde = ld32 m (pde_at pd va) in
      if pde AND PTE_P = 0 then None
      else
        (let pte = ld32 m (p2v (PTE_ADDR pde) + 4 * PTX va) in
         if pte AND PTE_P = 0 then None else Some pte))"

definition pde_of :: "memory \<Rightarrow> addr \<Rightarrow> nat \<Rightarrow> u32" where
  "pde_of m pd i = ld32 m (pd + 4 * of_nat i)"

definition table_of :: "memory \<Rightarrow> addr \<Rightarrow> nat \<Rightarrow> addr" where
  "table_of m pd i = p2v (PTE_ADDR (pde_of m pd i))"

definition has_table :: "memory \<Rightarrow> addr \<Rightarrow> nat \<Rightarrow> bool" where
  "has_table m pd i \<longleftrightarrow> pde_of m pd i AND PTE_P \<noteq> 0"

definition pt_ok :: "'z kmem_scheme \<Rightarrow> addr \<Rightarrow> addr list \<Rightarrow> bool" where
  "pt_ok s pd xs \<longleftrightarrow> kmem_inv s xs \<and> page_ok s pd \<and> pd \<notin> set xs \<and>
     (\<forall>i < 1024. has_table (mem s) pd i \<longrightarrow>
        pde_of (mem s) pd i AND PTE_W \<noteq> 0 \<and> page_ok s (table_of (mem s) pd i) \<and>
        table_of (mem s) pd i \<notin> set xs \<and> table_of (mem s) pd i \<noteq> pd \<and>
        (\<forall>j < 1024. j \<noteq> i \<longrightarrow> has_table (mem s) pd j \<longrightarrow> table_of (mem s) pd j \<noteq> table_of (mem s) pd i))"

lemma pde_at_index: "pde_at pd va = pd + 4 * of_nat (unat (PDX va))"
  by (simp add: pde_at_def)

lemma maps_table:
  "maps m pd va =
     (let e = ld32 m (table_of m pd (unat (PDX va)) + 4 * of_nat (unat (PTX va))) in
      if has_table m pd (unat (PDX va)) \<and> e AND PTE_P \<noteq> 0 then Some e else None)"
  by (simp add: maps_def Let_def has_table_def table_of_def pde_of_def pde_at_index)

lemma table_cong:
  assumes "pde_of m' pd i = pde_of m pd i"
  shows "table_of m' pd i = table_of m pd i" "has_table m' pd i = has_table m pd i"
  by (simp_all add: table_of_def has_table_def assms)

lemma pt_okD:
  assumes "pt_ok s pd xs"
  shows "kmem_inv s xs" "aligned pd" "pd \<notin> set xs" "\<forall>a \<in> set xs. aligned a"
  using assms by (auto simp: pt_ok_def kmem_inv_def dest: page_ok_aligned)

lemma pt_ok_table:
  assumes "pt_ok s pd xs" "i < 1024" "has_table (mem s) pd i"
  shows "page_ok s (table_of (mem s) pd i)" "aligned (table_of (mem s) pd i)" "table_of (mem s) pd i \<notin> set xs"
    "table_of (mem s) pd i \<noteq> pd"
  using assms by (auto simp: pt_ok_def dest: page_ok_aligned)

lemma pt_ok_apart:
  assumes "pt_ok s pd xs" "i < 1024" "j < 1024" "i \<noteq> j" "has_table (mem s) pd i" "has_table (mem s) pd j"
  shows "table_of (mem s) pd i \<noteq> table_of (mem s) pd j"
  using assms unfolding pt_ok_def by blast

lemma pt_ok_cong:
  assumes "pt_ok s pd xs" "kmem_inv t xs" "kend t = kend s" "\<And>i. i < 1024 \<Longrightarrow> pde_of (mem t) pd i = pde_of (mem s) pd i"
  shows "pt_ok t pd xs"
proof -
  have "page_ok t a = page_ok s a" for a by (simp add: page_ok_def assms(3))
  with assms show ?thesis by (simp add: pt_ok_def has_table_def table_of_def)
qed

lemma pt_ok_fx: "pt_ok s pd xs \<Longrightarrow> pt_ok (kmem_lock_fx s) pd xs"
  by (frule pt_ok_cong [of s pd xs "kmem_lock_fx s"]) (auto simp: pt_ok_def kmem_inv_def)

text \<open>
  The pages the tables and the free list are made of.  An operation \<open>keeps\<close> the others if it neither writes into them nor takes them
  over.
\<close>

definition vm_page :: "'z kmem_scheme \<Rightarrow> addr \<Rightarrow> addr list \<Rightarrow> addr \<Rightarrow> bool" where
  "vm_page s pd xs p \<longleftrightarrow> p = pd \<or> p \<in> set xs \<or> (\<exists>i < 1024. has_table (mem s) pd i \<and> table_of (mem s) pd i = p)"

definition keeps :: "'z kmem_scheme \<Rightarrow> addr list \<Rightarrow> 'z kmem_scheme \<Rightarrow> addr list \<Rightarrow> addr \<Rightarrow> bool" where
  "keeps s xs t ys pd \<longleftrightarrow> (\<forall>p. aligned p \<and> \<not> vm_page s pd xs p \<longrightarrow>
     \<not> vm_page t pd ys p \<and> (\<forall>x. in_page p x \<longrightarrow> mem t x = mem s x))"

lemma keeps_refl [simp]: "keeps s xs s xs pd"
  by (simp add: keeps_def)

lemma keeps_trans: "keeps s xs t ys pd \<Longrightarrow> keeps t ys u zs pd \<Longrightarrow> keeps s xs u zs pd"
  unfolding keeps_def by metis

lemma keepsD:
  "keeps s xs t ys pd \<Longrightarrow> aligned p \<Longrightarrow> \<not> vm_page s pd xs p \<Longrightarrow> \<not> vm_page t pd ys p"
  "keeps s xs t ys pd \<Longrightarrow> aligned p \<Longrightarrow> \<not> vm_page s pd xs p \<Longrightarrow> in_page p x \<Longrightarrow> mem t x = mem s x"
  by (simp_all add: keeps_def)

lemma in_page_other:
  assumes "aligned a" "aligned v" "a \<noteq> v" "in_page a x"
  shows "\<not> in_page v x"
  using other_page [OF assms(1-3), of "unat (x - a)"] assms(4) by (simp add: in_page_def)

lemma only_page_other: "only_page v m m' \<Longrightarrow> aligned a \<Longrightarrow> aligned v \<Longrightarrow> a \<noteq> v \<Longrightarrow> in_page a x \<Longrightarrow> m' x = m x"
  using in_page_other by (auto simp: only_page_def)

lemma vm_page_cong:
  "(\<And>i. i < 1024 \<Longrightarrow> pde_of (mem t) pd i = pde_of (mem s) pd i) \<Longrightarrow> vm_page t pd xs p = vm_page s pd xs p"
  by (auto simp: vm_page_def has_table_def table_of_def)

text \<open>A store into a table changes that entry and no other.\<close>

lemma pde_of_store:
  assumes "pt_ok s pd xs" "i < 1024" "has_table (mem s) pd i" "j < 1024" "k < 1024"
  shows "pde_of (st32 (mem s) (table_of (mem s) pd i + 4 * of_nat j) w) pd k = pde_of (mem s) pd k"
  unfolding pde_of_def
  by (rule only_page_word [OF only_page_st32_word [OF assms(4)]])
     (use pt_okD [OF assms(1)] pt_ok_table [OF assms(1-3)] assms(5) in auto)

lemma pt_ok_store:
  assumes "pt_ok s pd xs" "i < 1024" "has_table (mem s) pd i" "j < 1024"
  shows "pt_ok (s\<lparr>mem := st32 (mem s) (table_of (mem s) pd i + 4 * of_nat j) w\<rparr>) pd xs"
proof (rule pt_ok_cong [OF assms(1)])
  show "kmem_inv (s\<lparr>mem := st32 (mem s) (table_of (mem s) pd i + 4 * of_nat j) w\<rparr>) xs"
    using pt_okD(1,4) [OF assms(1)] pt_ok_table(2,3) [OF assms(1-3)]
      free_path_only_page [OF only_page_st32_word [OF assms(4)], of "table_of (mem s) pd i" xs]
    by (simp add: kmem_inv_def)
qed (simp_all add: pde_of_store [OF assms])

lemma keeps_store:
  assumes "pt_ok s pd xs" "i < 1024" "has_table (mem s) pd i" "j < 1024"
  shows "keeps s xs (s\<lparr>mem := st32 (mem s) (table_of (mem s) pd i + 4 * of_nat j) w\<rparr>) xs pd" (is "keeps s xs ?t xs pd")
proof -
  have v: "vm_page ?t pd xs p = vm_page s pd xs p" for p by (rule vm_page_cong) (simp add: pde_of_store [OF assms])
  have "p \<noteq> table_of (mem s) pd i" if "\<not> vm_page s pd xs p" for p using that assms(2,3) by (auto simp: vm_page_def)
  then have "mem ?t x = mem s x" if "aligned p" "\<not> vm_page s pd xs p" "in_page p x" for p x
    using only_page_other [OF only_page_st32_word [OF assms(4)] _ pt_ok_table(2) [OF assms(1-3)]] that by simp
  then show ?thesis unfolding keeps_def v by blast
qed

lemma maps_store:
  assumes "pt_ok s pd xs" "has_table (mem s) pd (unat (PDX va))"
  shows "maps (st32 (mem s) (table_of (mem s) pd (unat (PDX va)) + 4 * of_nat (unat (PTX va))) w) pd vb =
    (if PGROUNDDOWN vb = PGROUNDDOWN va then if w AND PTE_P = 0 then None else Some w else maps (mem s) pd vb)"
proof -
  let ?i = "unat (PDX va)" and ?j = "unat (PTX va)" and ?k = "unat (PDX vb)" and ?l = "unat (PTX vb)"
  let ?m = "st32 (mem s) (table_of (mem s) pd ?i + 4 * of_nat ?j) w"
  have tb: "table_of ?m pd ?k = table_of (mem s) pd ?k" "has_table ?m pd ?k = has_table (mem s) pd ?k"
    using table_cong [OF pde_of_store [OF assms(1) index_bound(1) assms(2) index_bound(2) index_bound(1)]] by auto
  consider (same) "?k = ?i" "?l = ?j" | (entry) "?k = ?i" "?l \<noteq> ?j" | (none) "?k \<noteq> ?i" "\<not> has_table (mem s) pd ?k"
    | (table) "?k \<noteq> ?i" "has_table (mem s) pd ?k" by blast
  then show ?thesis
  proof cases
    case same
    then have "PGROUNDDOWN vb = PGROUNDDOWN va" by (simp add: same_index)
    moreover have "maps ?m pd vb = (if w AND PTE_P = 0 then None else Some w)"
      unfolding maps_table [of ?m] Let_def tb using same assms(2) by (simp add: ld32_st32_same)
    ultimately show ?thesis by simp
  next
    case entry
    then have "PGROUNDDOWN vb \<noteq> PGROUNDDOWN va" by (simp add: same_index)
    moreover have "ld32 ?m (table_of (mem s) pd ?k + 4 * of_nat ?l) = ld32 (mem s) (table_of (mem s) pd ?k + 4 * of_nat ?l)"
      unfolding entry(1) by (rule ld32_st32_word) (use entry index_bound in auto)
    then have "maps ?m pd vb = maps (mem s) pd vb" unfolding maps_table Let_def tb by (simp only:)
    ultimately show ?thesis by simp
  next
    case none
    then have "PGROUNDDOWN vb \<noteq> PGROUNDDOWN va" by (simp add: same_index)
    moreover have "maps ?m pd vb = maps (mem s) pd vb" using none unfolding maps_table Let_def tb by simp
    ultimately show ?thesis by simp
  next
    case table
    then have "PGROUNDDOWN vb \<noteq> PGROUNDDOWN va" by (simp add: same_index)
    moreover have "ld32 ?m (table_of (mem s) pd ?k + 4 * of_nat ?l) = ld32 (mem s) (table_of (mem s) pd ?k + 4 * of_nat ?l)"
      using pt_ok_table(2) [OF assms(1) index_bound(1)] table assms(2)
        pt_ok_apart [OF assms(1) index_bound(1) index_bound(1) table(1) table(2) assms(2)]
      by (intro only_page_word [OF only_page_st32_word [OF index_bound(2)]]) (auto simp: index_bound)
    then have "maps ?m pd vb = maps (mem s) pd vb" unfolding maps_table Let_def tb by (simp only:)
    ultimately show ?thesis by simp
  qed
qed

section \<open>Walking\<close>

text \<open>The state after \<^verbatim>\<open>walkpgdir\<close> of \<^verbatim>\<open>vm.c\<close> took the free page \<open>p\<close> as the table for \<open>va\<close>.\<close>

definition new_table :: "addr \<Rightarrow> addr \<Rightarrow> addr \<Rightarrow> 'z kmem_scheme \<Rightarrow> 'z kmem_scheme" where
  "new_table pd va p s = (kmem_lock_fx s)\<lparr>freelist := ld32 (mem s) p,
     mem := st32 (memset (mem s) p 0 PGSIZE) (pde_at pd va) (v2p p OR PTE_P OR PTE_W OR PTE_U)\<rparr>"

lemma new_pde:
  assumes "aligned p"
  shows "PTE_ADDR (v2p p OR PTE_P OR PTE_W OR PTE_U) = v2p p" "(v2p p OR PTE_P OR PTE_W OR PTE_U) AND PTE_P \<noteq> 0"
    "(v2p p OR PTE_P OR PTE_W OR PTE_U) AND PTE_W \<noteq> 0"
proof -
  show "PTE_ADDR (v2p p OR PTE_P OR PTE_W OR PTE_U) = v2p p"
    using PTE_ADDR_flags [OF aligned_v2p [OF assms], of "PTE_P OR PTE_W OR PTE_U"] by (simp add: PTE_P_def PTE_W_def PTE_U_def)
  have "bit ((v2p p OR PTE_P OR PTE_W OR PTE_U) AND PTE_P) 0" "bit ((v2p p OR PTE_P OR PTE_W OR PTE_U) AND PTE_W) 1"
    by (simp_all add: bit_simps PTE_P_def PTE_W_def PTE_U_def)
  then show "(v2p p OR PTE_P OR PTE_W OR PTE_U) AND PTE_P \<noteq> 0" "(v2p p OR PTE_P OR PTE_W OR PTE_U) AND PTE_W \<noteq> 0"
    by (metis bit_0_eq bot_apply bot_bool_def)+
qed

lemma walkpgdir_found:
  "has_table (mem s) pd (unat (PDX va)) \<Longrightarrow>
   walkpgdir pd va b s = Ok (table_of (mem s) pd (unat (PDX va)) + 4 * of_nat (unat (PTX va))) s"
  by (simp add: walkpgdir_def kop has_table_def table_of_def pde_of_def pde_at_index)

lemma walkpgdir_nil:
  assumes "pt_ok s pd []" "\<not> has_table (mem s) pd (unat (PDX va))"
  shows "walkpgdir pd va True s = Ok 0 (kmem_lock_fx s)"
  using assms kalloc_nil(1) [OF pt_okD(1) [OF assms(1)]]
  by (simp add: walkpgdir_def kop has_table_def pde_of_def pde_at_index)

lemma walkpgdir_cons:
  assumes "pt_ok s pd (p # ps)" "\<not> has_table (mem s) pd (unat (PDX va))"
  shows "walkpgdir pd va True s = Ok (p + 4 * of_nat (unat (PTX va))) (new_table pd va p s)"
proof -
  have "p \<noteq> 0" using pt_okD(1) [OF assms(1)] by (auto simp: kmem_inv_def dest: page_ok_nonzero)
  then show ?thesis using assms(2) kalloc_cons(1) [OF pt_okD(1) [OF assms(1)]]
    by (simp add: walkpgdir_def kop has_table_def pde_of_def pde_at_index fill_def store32_def new_table_def)
qed

lemma pde_of_new:
  assumes "pt_ok s pd (p # ps)" "i < 1024"
  shows "pde_of (mem (new_table pd va p s)) pd i =
    (if i = unat (PDX va) then v2p p OR PTE_P OR PTE_W OR PTE_U else pde_of (mem s) pd i)"
proof (cases "i = unat (PDX va)")
  case True
  then show ?thesis by (simp add: pde_of_def new_table_def pde_at_index ld32_st32_same)
next
  case False
  have "ld32 (memset (mem s) p 0 PGSIZE) (pd + 4 * of_nat i) = ld32 (mem s) (pd + 4 * of_nat i)"
    using pt_okD [OF assms(1)] assms(2) by (intro only_page_word [OF only_page_memset]) auto
  with False ld32_st32_word [OF assms(2) index_bound(1) False] show ?thesis
    by (simp only: pde_of_def new_table_def pde_at_index) simp
qed

lemma new_table_table:
  assumes "pt_ok s pd (p # ps)" "i < 1024"
  shows "table_of (mem (new_table pd va p s)) pd i = (if i = unat (PDX va) then p else table_of (mem s) pd i)"
    "has_table (mem (new_table pd va p s)) pd i = (i = unat (PDX va) \<or> has_table (mem s) pd i)"
  using pde_of_new [OF assms] new_pde [of p] pt_okD(4) [OF assms(1)] by (simp_all add: table_of_def has_table_def)

lemma new_table_word:
  assumes "pt_ok s pd (p # ps)" "aligned a" "a \<noteq> pd" "j < 1024"
  shows "ld32 (mem (new_table pd va p s)) (a + 4 * of_nat j) = (if a = p then 0 else ld32 (mem s) (a + 4 * of_nat j))"
proof -
  have "ld32 (st32 m (pd + 4 * of_nat (unat (PDX va))) w) (a + 4 * of_nat j) = ld32 m (a + 4 * of_nat j)" for m w
    by (rule only_page_word [OF only_page_st32_word [OF index_bound(1)]]) (use assms pt_okD [OF assms(1)] in auto)
  then have "ld32 (mem (new_table pd va p s)) (a + 4 * of_nat j) = ld32 (memset (mem s) p 0 PGSIZE) (a + 4 * of_nat j)"
    by (simp add: new_table_def pde_at_index)
  moreover have "ld32 (memset (mem s) p 0 PGSIZE) (a + 4 * of_nat j) = ld32 (mem s) (a + 4 * of_nat j)" if "a \<noteq> p"
    using that pt_okD [OF assms(1)] assms by (intro only_page_word [OF only_page_memset]) auto
  ultimately show ?thesis using ld32_zero_page [OF assms(4)] by simp
qed

lemma pt_ok_new:
  assumes "pt_ok s pd (p # ps)" "\<not> has_table (mem s) pd (unat (PDX va))"
  shows "pt_ok (new_table pd va p s) pd ps"
proof -
  let ?t = "new_table pd va p s"
  have al: "aligned p" "aligned pd" "p \<noteq> pd" "\<forall>a \<in> set ps. aligned a" "pd \<notin> set ps" "p \<notin> set ps"
    using pt_okD [OF assms(1)] by (auto simp: kmem_inv_def)
  have "only_page p (mem s) (memset (mem s) p 0 PGSIZE)" by (simp add: only_page_memset)
  moreover have "only_page pd m (st32 m (pde_at pd va) w)" for m w
    unfolding pde_at_index by (rule only_page_st32_word [OF index_bound(1)])
  ultimately have "free_path (mem ?t) x ps = free_path (mem s) x ps" for x
    using al free_path_only_page [of p _ _ ps] free_path_only_page [of pd _ _ ps] unfolding new_table_def by simp metis
  then have inv: "kmem_inv ?t ps" using pt_okD(1) [OF assms(1)] by (auto simp: kmem_inv_def new_table_def)
  have pg: "page_ok ?t a = page_ok s a" for a by (simp add: page_ok_def new_table_def)
  have pk: "page_ok s p" using pt_okD(1) [OF assms(1)] by (simp add: kmem_inv_def)
  have "pde_of (mem ?t) pd i AND PTE_W \<noteq> 0 \<and> page_ok s (table_of (mem ?t) pd i) \<and> table_of (mem ?t) pd i \<notin> set ps \<and>
      table_of (mem ?t) pd i \<noteq> pd \<and>
      (\<forall>j < 1024. j \<noteq> i \<longrightarrow> has_table (mem ?t) pd j \<longrightarrow> table_of (mem ?t) pd j \<noteq> table_of (mem ?t) pd i)"
    if i: "i < 1024" "has_table (mem ?t) pd i" for i
  proof (cases "i = unat (PDX va)")
    case True
    then show ?thesis using i al pk new_pde(3) pt_ok_table(3) [OF assms(1)]
      by (auto simp: pde_of_new [OF assms(1)] new_table_table [OF assms(1)])
  next
    case False
    then have "has_table (mem s) pd i" using i new_table_table(2) [OF assms(1)] by simp
    then show ?thesis using False i pt_ok_table [OF assms(1) i(1)] pt_ok_apart [OF assms(1)] assms(1)
      by (auto simp: pde_of_new [OF assms(1)] new_table_table [OF assms(1)] pt_ok_def)
  qed
  then show ?thesis using inv al assms(1) by (auto simp: pt_ok_def pg)
qed

lemma keeps_new:
  assumes "pt_ok s pd (p # ps)"
  shows "keeps s (p # ps) (new_table pd va p s) ps pd"
proof -
  have al: "aligned p" "aligned pd" using pt_okD [OF assms] by auto
  have "\<not> vm_page (new_table pd va p s) pd ps q" if "\<not> vm_page s pd (p # ps) q" for q
    using that new_table_table [OF assms] by (auto simp: vm_page_def split: if_splits)
  moreover have "mem (new_table pd va p s) x = mem s x" if q: "aligned q" "\<not> vm_page s pd (p # ps) q" "in_page q x" for q x
  proof -
    have "q \<noteq> p" "q \<noteq> pd" using q(2) by (auto simp: vm_page_def)
    then show ?thesis
      using only_page_other [OF only_page_st32_word [OF index_bound(1), of pd _ va] q(1) al(2) _ q(3)]
        only_page_other [OF only_page_memset q(1) al(1) _ q(3), of PGSIZE "mem s" 0]
      by (simp add: new_table_def pde_at_index)
  qed
  ultimately show ?thesis unfolding keeps_def by blast
qed

lemma maps_new:
  assumes "pt_ok s pd (p # ps)" "\<not> has_table (mem s) pd (unat (PDX va))"
  shows "maps (mem (new_table pd va p s)) pd vb = maps (mem s) pd vb"
proof (cases "unat (PDX vb) = unat (PDX va)")
  case True
  have "aligned p" "p \<noteq> pd" using pt_okD [OF assms(1)] by auto
  then show ?thesis using True assms(2) new_table_word [OF assms(1) _ _ index_bound(2), of p va vb]
    by (simp add: maps_table [of _ pd vb] Let_def new_table_table [OF assms(1) index_bound(1)])
next
  case False
  have "ld32 (mem (new_table pd va p s)) (table_of (mem s) pd (unat (PDX vb)) + 4 * of_nat (unat (PTX vb))) =
      ld32 (mem s) (table_of (mem s) pd (unat (PDX vb)) + 4 * of_nat (unat (PTX vb)))"
    if h: "has_table (mem s) pd (unat (PDX vb))"
    using new_table_word [OF assms(1) _ _ index_bound(2)] pt_ok_table [OF assms(1) index_bound(1) h] by auto
  with False show ?thesis
    unfolding maps_table [of _ pd vb] Let_def new_table_table [OF assms(1) index_bound(1)] by (simp only:) auto
qed

text \<open>
  \<^verbatim>\<open>walkpgdir\<close> with \<^verbatim>\<open>alloc\<close> set: the entry of the table, taking a page for the table if there is none, or the null pointer
  when no page is free.  No mapping changes.
\<close>

lemma walkpgdir_alloc:
  assumes "pt_ok s pd xs"
  obtains (entry) t xs' where "has_table (mem t) pd (unat (PDX va))" "pt_ok t pd xs'"
      "walkpgdir pd va True s = Ok (table_of (mem t) pd (unat (PDX va)) + 4 * of_nat (unat (PTX va))) t"
      "\<And>vb. maps (mem t) pd vb = maps (mem s) pd vb"
      "keeps s xs t xs' pd" "length xs \<le> Suc (length xs')" "set xs' \<subseteq> set xs"
  | (none) t where "walkpgdir pd va True s = Ok 0 t" "pt_ok t pd []" "\<And>vb. maps (mem t) pd vb = maps (mem s) pd vb"
      "keeps s xs t [] pd" "xs = []"
proof (cases "has_table (mem s) pd (unat (PDX va))")
  case True
  show thesis by (rule entry [OF True assms walkpgdir_found [OF True] refl]) simp_all
next
  case False
  show thesis
  proof (cases xs)
    case Nil
    have "keeps s [] (kmem_lock_fx s) [] pd" by (simp add: keeps_def vm_page_def)
    with Nil show thesis using none [OF walkpgdir_nil] False assms pt_ok_fx [of s pd "[]"] by simp
  next
    case (Cons p ps)
    have ok: "pt_ok s pd (p # ps)" using assms Cons by simp
    show thesis
      by (rule entry [OF _ pt_ok_new [OF ok False]])
         (use walkpgdir_cons [OF ok False] maps_new [OF ok False] new_table_table [OF ok index_bound(1)] keeps_new [OF ok] Cons
           in auto)
  qed
qed

section \<open>Mapping a range\<close>

text \<open>The page of \<open>va\<close> is one of the \<open>n + 1\<close> pages from \<open>a\<close> on.\<close>

definition in_pages :: "addr \<Rightarrow> nat \<Rightarrow> addr \<Rightarrow> bool" where
  "in_pages a n va \<longleftrightarrow> unat (PGROUNDDOWN va - a) \<le> PGSIZE * n"

lemma in_pages_0: "in_pages a 0 va \<longleftrightarrow> PGROUNDDOWN va = a"
  by (simp add: in_pages_def unat_eq_0)

lemma in_pages_Suc:
  assumes "aligned a" "Suc n < 2 ^ 20"
  shows "in_pages a (Suc n) va \<longleftrightarrow> PGROUNDDOWN va = a \<or> in_pages (a + of_nat PGSIZE) n va"
    and "PGROUNDDOWN va = a \<Longrightarrow> \<not> in_pages (a + of_nat PGSIZE) n va"
proof -
  define d where "d = PGROUNDDOWN va - a"
  have "aligned d" unfolding d_def by (intro aligned_minus aligned_PGROUNDDOWN assms(1))
  then obtain k where k: "unat d = 4096 * k" by (elim alignedE) (simp add: PGSIZE_def)
  have z: "PGROUNDDOWN va = a \<longleftrightarrow> k = 0" using k unat_eq_0 [of d] by (simp add: d_def)
  have e: "PGROUNDDOWN va - (a + of_nat PGSIZE) = d - 4096" by (simp add: d_def PGSIZE_def)
  have u: "unat (d - 4096) = (if k = 0 then 2 ^ 32 - 4096 else 4096 * (k - 1))"
    using k unat_sub_if' [of d 4096] by auto
  show "in_pages a (Suc n) va \<longleftrightarrow> PGROUNDDOWN va = a \<or> in_pages (a + of_nat PGSIZE) n va"
    unfolding in_pages_def e z unfolding d_def [symmetric] k u using assms(2) by (auto simp: PGSIZE_def)
  show "\<not> in_pages (a + of_nat PGSIZE) n va" if "PGROUNDDOWN va = a"
    unfolding in_pages_def e u using that z assms(2) by (simp add: PGSIZE_def)
qed

lemma entry_nonzero:
  assumes "page_ok s tb" "j < 1024"
  shows "tb + 4 * of_nat j \<noteq> 0"
proof -
  have "unat (tb + of_nat (4 * j)) = unat tb + 4 * j"
    using aligned_le [OF page_ok_aligned [OF assms(1)]] assms(2) by (intro unat_add_of_nat) (simp add: PGSIZE_def)
  moreover have "unat tb \<noteq> 0" using page_ok_nonzero [OF assms(1)] by (simp add: unat_eq_0)
  ultimately show ?thesis by auto
qed

text \<open>One round of \<^verbatim>\<open>mappages\<close>: the entry for \<open>a\<close> is written, or there was no page for a table.\<close>

lemma mappages_round:
  assumes "pt_ok s pd xs" "aligned a" "maps (mem s) pd a = None"
  obtains (written) t xs' where "pt_ok t pd xs'"
      "\<And>vb. maps (mem t) pd vb = (if PGROUNDDOWN vb = a then Some (pa OR perm OR PTE_P) else maps (mem s) pd vb)"
      "mappages_loop n pd a a1 pa perm s = (if a = a1 then Ok 0 t else case n of 0 \<Rightarrow> NoFuel
         | Suc n' \<Rightarrow> mappages_loop n' pd (a + of_nat PGSIZE) a1 (pa + of_nat PGSIZE) perm t)"
      "keeps s xs t xs' pd" "length xs \<le> Suc (length xs')" "set xs' \<subseteq> set xs"
  | (full) t where "mappages_loop n pd a a1 pa perm s = Ok (- 1) t" "pt_ok t pd []"
      "\<And>vb. maps (mem t) pd vb = maps (mem s) pd vb" "keeps s xs t [] pd" "xs = []"
  using assms(1)
proof (cases rule: walkpgdir_alloc [where va = a])
  case (none t)
  then show thesis using full by (simp add: mappages_loop.simps [of n] kop)
next
  case (entry u xs')
  let ?pte = "table_of (mem u) pd (unat (PDX a)) + 4 * of_nat (unat (PTX a))"
  let ?t = "u\<lparr>mem := st32 (mem u) ?pte (pa OR perm OR PTE_P)\<rparr>"
  have nz: "?pte \<noteq> 0" using entry_nonzero [OF pt_ok_table(1) [OF entry(2) index_bound(1) entry(1)] index_bound(2)] .
  have "maps (mem u) pd a = None" using entry(4) assms(3) by simp
  then have np: "ld32 (mem u) ?pte AND PTE_P = 0" using entry(1) by (simp add: maps_table Let_def split: if_splits)
  have "PGROUNDDOWN a = a" using assms(2) aligned_iff by simp
  moreover have "(pa OR perm OR PTE_P) AND PTE_P \<noteq> 0" using present_flag [of "pa OR perm"] by (simp add: or.assoc)
  ultimately have m: "maps (mem ?t) pd vb = (if PGROUNDDOWN vb = a then Some (pa OR perm OR PTE_P) else maps (mem s) pd vb)" for vb
    using maps_store [OF entry(2,1), of "pa OR perm OR PTE_P" vb] entry(4) [of vb] by (simp only: kmem.simps if_True if_False simp_thms) simp
  show thesis
  proof (rule written [OF pt_ok_store [OF entry(2) index_bound(1) entry(1) index_bound(2)] m])
    show "mappages_loop n pd a a1 pa perm s = (if a = a1 then Ok 0 ?t else case n of 0 \<Rightarrow> NoFuel
         | Suc n' \<Rightarrow> mappages_loop n' pd (a + of_nat PGSIZE) a1 (pa + of_nat PGSIZE) perm ?t)"
      using entry(3) nz np by (subst mappages_loop.simps) (simp add: kop store32_def split: nat.split)
    show "keeps s xs ?t xs' pd" using keeps_trans [OF entry(5) keeps_store [OF entry(2) index_bound(1) entry(1) index_bound(2)]] .
  qed (use entry(6,7) in auto)
qed

lemma mappages_loop_maps:
  assumes "pt_ok s pd xs" "aligned a" "n < 2 ^ 20" "\<And>vb. in_pages a n vb \<Longrightarrow> maps (mem s) pd vb = None"
  shows "\<exists>r t xs'. mappages_loop n pd a (a + of_nat (PGSIZE * n)) pa perm s = Ok r t \<and> pt_ok t pd xs' \<and>
    (\<forall>vb. \<not> in_pages a n vb \<longrightarrow> maps (mem t) pd vb = maps (mem s) pd vb) \<and>
    keeps s xs t xs' pd \<and> set xs' \<subseteq> set xs \<and>
    (r = 0 \<and> length xs \<le> length xs' + Suc n \<and>
       (\<forall>vb. in_pages a n vb \<longrightarrow> maps (mem t) pd vb = Some ((pa + (PGROUNDDOWN vb - a)) OR perm OR PTE_P)) \<or>
     r = - 1 \<and> length xs \<le> n)"
  using assms
proof (induction n arbitrary: s xs a pa)
  case 0
  have "maps (mem s) pd a = None" using 0(2,4) by (simp add: in_pages_0 aligned_iff)
  with 0(1,2) show ?case
  proof (cases rule: mappages_round [where n = 0 and ?a1.0 = "a + of_nat (PGSIZE * 0)" and pa = pa and perm = perm])
    case (written t xs')
    then show ?thesis by (auto simp: in_pages_0)
  qed auto
next
  case (Suc n)
  let ?b = "a + of_nat PGSIZE"
  have un: "maps (mem s) pd a = None" using Suc.prems(2,4) by (simp add: in_pages_def aligned_iff)
  have al: "aligned ?b" by (rule aligned_plus [OF Suc.prems(2)])
  have last: "a + of_nat (PGSIZE * Suc n) = ?b + of_nat (PGSIZE * n)" by (simp add: algebra_simps)
  have ne: "a \<noteq> a + of_nat (PGSIZE * Suc n)"
  proof -
    have "unat (of_nat (PGSIZE * Suc n) :: addr) = PGSIZE * Suc n" using Suc.prems(3) by (intro unat_of_nat32) (simp add: PGSIZE_def)
    then show ?thesis by (metis PGSIZE_def add_cancel_left_right mult_eq_0_iff nat.distinct(1) unat_0 zero_neq_numeral)
  qed
  note split = in_pages_Suc [OF Suc.prems(2,3)]
  from Suc.prems(1,2) un show ?case
  proof (cases rule: mappages_round [where n = "Suc n" and ?a1.0 = "a + of_nat (PGSIZE * Suc n)" and pa = pa and perm = perm])
    case (written u ys)
    have "maps (mem u) pd vb = None" if "in_pages ?b n vb" for vb
      using written(2) [of vb] Suc.prems(4) [of vb] split [of vb] that by auto
    from Suc.IH [OF written(1) al _ this, of "pa + of_nat PGSIZE"] Suc.prems(3)
    obtain r t xs' where IH: "mappages_loop n pd ?b (?b + of_nat (PGSIZE * n)) (pa + of_nat PGSIZE) perm u = Ok r t"
      "pt_ok t pd xs'" "\<And>vb. \<not> in_pages ?b n vb \<Longrightarrow> maps (mem t) pd vb = maps (mem u) pd vb"
      "r = 0 \<and> length ys \<le> length xs' + Suc n \<and> (\<forall>vb. in_pages ?b n vb \<longrightarrow>
         maps (mem t) pd vb = Some ((pa + of_nat PGSIZE + (PGROUNDDOWN vb - ?b)) OR perm OR PTE_P)) \<or> r = - 1 \<and> length ys \<le> n"
      "keeps u ys t xs' pd" "set xs' \<subseteq> set ys"
      by auto
    have "mappages_loop (Suc n) pd a (a + of_nat (PGSIZE * Suc n)) pa perm s = Ok r t"
      using written(3) ne IH(1) unfolding last by simp
    moreover have "maps (mem t) pd vb = maps (mem s) pd vb" if "\<not> in_pages a (Suc n) vb" for vb
      using that split [of vb] IH(3) [of vb] written(2) [of vb] by auto
    moreover have "maps (mem t) pd vb = Some ((pa + (PGROUNDDOWN vb - a)) OR perm OR PTE_P)"
      if "in_pages a (Suc n) vb" "r = 0" for vb
    proof (cases "PGROUNDDOWN vb = a")
      case True
      then show ?thesis using split(2) [of vb] IH(3) [of vb] written(2) [of vb] by simp
    next
      case False
      then show ?thesis using IH(4) that split(1) [of vb] by (auto simp: algebra_simps)
    qed
    moreover have "keeps s xs t xs' pd" "set xs' \<subseteq> set xs" using keeps_trans [OF written(4) IH(5)] IH(6) written(6) by auto
    moreover have "r = 0 \<and> length xs \<le> length xs' + Suc (Suc n) \<or> r = - 1 \<and> length xs \<le> Suc n" using IH(4) written(5) by auto
    ultimately show ?thesis using IH(2) by blast
  qed auto
qed

text \<open>
  C8. \<^verbatim>\<open>mappages\<close> of \<^verbatim>\<open>vm.c\<close> on a range with no page mapped returns.  With result 0 every page of the range is mapped, the k-th one to the
  k-th page from \<open>pa\<close> with the given permissions.  It returns -1 only when there are fewer free pages than pages to map.  In both cases
  every address outside the range is mapped as before, directory, tables and free pages remain pages apart from each other, and every
  page that is none of these keeps its contents.
\<close>

theorem mappages_maps:
  assumes "pt_ok s pd xs" "a = PGROUNDDOWN va" "n = unat (PGROUNDDOWN (va + len - 1) - a) div PGSIZE"
    and "\<forall>vb. in_pages a n vb \<longrightarrow> maps (mem s) pd vb = None"
  shows "\<exists>r t xs'. mappages pd va len pa perm s = Ok r t \<and> pt_ok t pd xs' \<and>
    (\<forall>vb. \<not> in_pages a n vb \<longrightarrow> maps (mem t) pd vb = maps (mem s) pd vb) \<and>
    keeps s xs t xs' pd \<and> set xs' \<subseteq> set xs \<and>
    (r = 0 \<and> length xs \<le> length xs' + Suc n \<and>
       (\<forall>vb. in_pages a n vb \<longrightarrow> maps (mem t) pd vb = Some ((pa + (PGROUNDDOWN vb - a)) OR perm OR PTE_P)) \<or>
     r = - 1 \<and> length xs \<le> n)"
proof -
  define d where "d = PGROUNDDOWN (va + len - 1) - a"
  have "aligned d" unfolding d_def assms(2) by (intro aligned_minus aligned_PGROUNDDOWN)
  then have u: "unat d = PGSIZE * n" unfolding assms(3) d_def [symmetric] by (auto simp: aligned_def)
  have "d = of_nat (unat d)" by simp
  also note u
  finally have "d = of_nat (PGSIZE * n)" .
  then have last: "PGROUNDDOWN (va + len - 1) = a + of_nat (PGSIZE * n)" by (simp add: d_def algebra_simps)
  have "n < 2 ^ 20" using unsigned_less [of d, where 'a = nat] u by (simp add: PGSIZE_def)
  moreover have "aligned a" by (simp add: assms(2))
  moreover have "mappages pd va len pa perm s = mappages_loop n pd a (a + of_nat (PGSIZE * n)) pa perm s"
    by (simp only: mappages_def Let_def assms(2) [symmetric] assms(3) [symmetric] last [symmetric])
  ultimately show ?thesis using mappages_loop_maps [OF assms(1), of a n pa perm] assms(4) by simp
qed

text \<open>An empty directory beside two free pages.\<close>

lemma kmem0_pt_ok:
  "pt_ok (kmem0 [0x80400000, 0x80500000]) 0x80300000 [0x80400000, 0x80500000]"
  "maps (mem (kmem0 [0x80400000, 0x80500000])) 0x80300000 vb = None"
proof -
  have al: "aligned 0x80300000" "aligned 0x80400000" "aligned 0x80500000" by (simp_all add: aligned_def PGSIZE_def)
  have "pde_of (mem (kmem0 [0x80400000, 0x80500000])) 0x80300000 i = 0" if "i < 1024" for i
    using only_page_word [OF only_page_st32 al(1,3) _ that, of "\<lambda>_. 0"]
      only_page_word [OF only_page_st32 al(1,2) _ that, of "st32 (\<lambda>_. 0) 0x80500000 0"]
    by (simp add: pde_of_def kmem0_def) (simp add: ld32_def word_of_bytes_def)
  then have no: "\<not> has_table (mem (kmem0 [0x80400000, 0x80500000])) 0x80300000 i" if "i < 1024" for i
    using that by (simp add: has_table_def)
  have "page_ok (kmem0 [0x80400000, 0x80500000]) 0x80300000"
    by (simp add: page_ok_def kmem0_def PGSIZE_def v2p_def KERNBASE_def PHYSTOP_def)
  then show "pt_ok (kmem0 [0x80400000, 0x80500000]) 0x80300000 [0x80400000, 0x80500000]"
    using kmem0_inv no by (simp add: pt_ok_def)
  show "maps (mem (kmem0 [0x80400000, 0x80500000])) 0x80300000 vb = None"
    using no [OF index_bound(1)] by (simp add: maps_table Let_def)
qed

theorem mappages_maps_witness:
  "pt_ok (kmem0 [0x80400000, 0x80500000]) 0x80300000 [0x80400000, 0x80500000] \<and>
   (\<exists>r t xs'. mappages 0x80300000 0x1234 0x1000 0x5000 (PTE_W OR PTE_U) (kmem0 [0x80400000, 0x80500000]) = Ok r t \<and>
      pt_ok t 0x80300000 xs' \<and>
      (\<forall>vb. \<not> in_pages 0x1000 1 vb \<longrightarrow>
         maps (mem t) 0x80300000 vb = maps (mem (kmem0 [0x80400000, 0x80500000])) 0x80300000 vb) \<and>
      r = 0 \<and> (\<forall>vb. in_pages 0x1000 1 vb \<longrightarrow>
         maps (mem t) 0x80300000 vb = Some ((0x5000 + (PGROUNDDOWN vb - 0x1000)) OR (PTE_W OR PTE_U) OR PTE_P)))"
  using mappages_maps [OF kmem0_pt_ok(1), of "0x1000" "0x1234" 1 "0x1000" "0x5000" "PTE_W OR PTE_U"] kmem0_pt_ok
  by (simp add: PGROUNDDOWN_def PGSIZE_def) blast

section \<open>Growing an address space\<close>

lemma last_page: "aligned a \<Longrightarrow> PGROUNDDOWN (a + of_nat PGSIZE - 1) = a"
proof -
  assume a: "aligned a"
  have "unat (a + of_nat (PGSIZE - 1)) = unat a + (PGSIZE - 1)"
    using aligned_le [OF a] by (intro unat_add_of_nat) (simp add: PGSIZE_def)
  then have "unat (PGROUNDDOWN (a + of_nat (PGSIZE - 1))) = unat a"
    using a by (elim alignedE) (simp add: unat_PGROUNDDOWN PGSIZE_def del: of_nat_diff)
  then have "PGROUNDDOWN (a + of_nat (PGSIZE - 1)) = a" by (simp only: word_unat_eq_iff)
  moreover have "a + of_nat PGSIZE - 1 = a + of_nat (PGSIZE - 1)" by (simp add: PGSIZE_def)
  ultimately show ?thesis by (simp only:)
qed

lemma mappages_page:
  assumes "aligned a"
  shows "mappages pd a (of_nat PGSIZE) pa perm s = mappages_loop 0 pd a a pa perm s"
  using assms by (simp add: mappages_def last_page aligned_iff)

text \<open>A page taken from the free list and cleared.\<close>

definition zero_page :: "addr \<Rightarrow> 'z kmem_scheme \<Rightarrow> 'z kmem_scheme" where
  "zero_page p s = (kmem_lock_fx s)\<lparr>freelist := ld32 (mem s) p, mem := memset (mem s) p 0 PGSIZE\<rparr>"

lemma zero_page_pde:
  assumes "pt_ok s pd (p # ps)" "i < 1024"
  shows "pde_of (mem (zero_page p s)) pd i = pde_of (mem s) pd i"
  unfolding pde_of_def zero_page_def using pt_okD [OF assms(1)] assms(2)
  by (auto intro!: only_page_word [OF only_page_memset])

lemma zero_page_ok:
  assumes "pt_ok s pd (p # ps)"
  shows "pt_ok (zero_page p s) pd ps" "\<not> vm_page (zero_page p s) pd ps p" "keeps s (p # ps) (zero_page p s) ps pd"
    "maps (mem (zero_page p s)) pd vb = maps (mem s) pd vb" "in_page p x \<Longrightarrow> mem (zero_page p s) x = 0"
proof -
  let ?t = "zero_page p s"
  have al: "aligned p" "aligned pd" "p \<noteq> pd" "\<forall>a \<in> set ps. aligned a" "p \<notin> set ps"
    using pt_okD [OF assms] by (auto simp: kmem_inv_def)
  have m: "mem ?t = memset (mem s) p 0 PGSIZE" by (simp add: zero_page_def)
  have op: "only_page p (mem s) (mem ?t)" unfolding m by (simp add: only_page_memset)
  note pde = zero_page_pde [OF assms]
  note tb = table_cong [OF pde]
  have ntb: "table_of (mem s) pd i \<noteq> p" if "i < 1024" "has_table (mem s) pd i" for i
    using pt_ok_table(3) [OF assms that] by auto
  have "kmem_inv ?t ps" using pt_okD(1) [OF assms] al free_path_only_page [OF op al(1,4,5)]
    by (auto simp: kmem_inv_def zero_page_def)
  moreover have "pt_ok s pd (p # ps) \<Longrightarrow> kmem_inv ((kmem_lock_fx s)\<lparr>freelist := ld32 (mem s) p\<rparr>) ps"
    using kalloc_cons(2) pt_okD(1) by blast
  ultimately show "pt_ok ?t pd ps"
    using assms pde tb by (simp add: pt_ok_def page_ok_def zero_page_def)
  show "\<not> vm_page ?t pd ps p" using al tb ntb by (auto simp: vm_page_def)
  show "keeps s (p # ps) ?t ps pd"
    unfolding keeps_def using al tb only_page_other [OF op _ al(1)] by (auto simp: vm_page_def)
  show "mem ?t x = 0" if "in_page p x" using that by (simp add: m memset_apply in_page_def PGSIZE_def)
  have "ld32 (mem ?t) (table_of (mem s) pd i + 4 * of_nat (unat (PTX vb))) = ld32 (mem s) (table_of (mem s) pd i + 4 * of_nat (unat (PTX vb)))"
    if "i < 1024" "has_table (mem s) pd i" for i
    using ntb [OF that] pt_ok_table(2) [OF assms that] al by (intro only_page_word [OF op _ _ _ index_bound(2)]) auto
  from this [OF index_bound(1) [of vb]] show "maps (mem ?t) pd vb = maps (mem s) pd vb"
    unfolding maps_table Let_def tb [OF index_bound(1)] by (cases "has_table (mem s) pd (unat (PDX vb))") simp_all
qed

text \<open>One round of \<^verbatim>\<open>allocuvm\<close>, with a page for the data and one for a table.\<close>

lemma allocuvm_round:
  assumes "pt_ok s pd (p # q # ps)" "aligned a" "a < newsz" "maps (mem s) pd a = None"
  obtains t xs' where "pt_ok t pd xs'" "set xs' \<subseteq> set (q # ps)" "length ps \<le> length xs'" "keeps s (p # q # ps) t xs' pd"
    "\<not> vm_page t pd xs' p" "\<And>x. in_page p x \<Longrightarrow> mem t x = 0"
    "\<And>vb. maps (mem t) pd vb = (if PGROUNDDOWN vb = a then Some (v2p p OR (PTE_W OR PTE_U) OR PTE_P) else maps (mem s) pd vb)"
    "allocuvm_loop (Suc n) pd a oldsz newsz s = allocuvm_loop n pd (a + of_nat PGSIZE) oldsz newsz t"
proof -
  note z = zero_page_ok [OF assms(1)]
  have al: "aligned p" "p \<noteq> 0" using pt_okD [OF assms(1)] by (auto simp: kmem_inv_def dest: page_ok_nonzero)
  have "maps (mem (zero_page p s)) pd a = None" using z(4) assms(4) by simp
  with z(1) assms(2) show thesis
  proof (cases rule: mappages_round [where n = 0 and ?a1.0 = a and pa = "v2p p" and perm = "PTE_W OR PTE_U"])
    case (written t xs')
    show thesis
    proof (rule that [OF written(1,6)])
      show "keeps s (p # q # ps) t xs' pd" using keeps_trans [OF z(3) written(4)] .
      show "\<not> vm_page t pd xs' p" using keepsD(1) [OF written(4) al(1) z(2)] .
      show "mem t x = 0" if "in_page p x" for x using keepsD(2) [OF written(4) al(1) z(2) that] z(5) [OF that] by simp
      show "maps (mem t) pd vb = (if PGROUNDDOWN vb = a then Some (v2p p OR (PTE_W OR PTE_U) OR PTE_P) else maps (mem s) pd vb)" for vb
        using written(2) z(4) by simp
      show "allocuvm_loop (Suc n) pd a oldsz newsz s = allocuvm_loop n pd (a + of_nat PGSIZE) oldsz newsz t"
        using written(3) al(2) assms(3) kalloc_cons(1) [OF pt_okD(1) [OF assms(1)]]
        by (subst allocuvm_loop.simps) (simp add: kop fill_def mappages_page [OF assms(2)] zero_page_def)
    qed (use written(5) in simp)
  qed simp
qed

lemma allocuvm_loop_grows:
  assumes "pt_ok s pd xs" "aligned a" "2 * k \<le> length xs" "k \<le> n"
    "unat newsz \<le> unat a + PGSIZE * k" "k = 0 \<or> unat a + PGSIZE * (k - 1) < unat newsz" "newsz < KERNBASE"
    "\<And>i. i < k \<Longrightarrow> maps (mem s) pd (a + of_nat (PGSIZE * i)) = None"
  shows "\<exists>t ps xs'. allocuvm_loop n pd a oldsz newsz s = Ok newsz t \<and> pt_ok t pd xs' \<and> keeps s xs t xs' pd \<and>
    length ps = k \<and> distinct ps \<and> set ps \<subseteq> set xs \<and> (\<forall>p \<in> set ps. \<not> vm_page t pd xs' p \<and> (\<forall>x. in_page p x \<longrightarrow> mem t x = 0)) \<and>
    (\<forall>i < k. maps (mem t) pd (a + of_nat (PGSIZE * i)) = Some (v2p (ps ! i) OR (PTE_W OR PTE_U) OR PTE_P)) \<and>
    (\<forall>vb. (\<forall>i < k. PGROUNDDOWN vb \<noteq> a + of_nat (PGSIZE * i)) \<longrightarrow> maps (mem t) pd vb = maps (mem s) pd vb)"
  using assms
proof (induction k arbitrary: n s xs a)
  case 0
  then have "\<not> a < newsz" by (simp add: word_less_nat_alt)
  then have "allocuvm_loop n pd a oldsz newsz s = Ok newsz s" by (subst allocuvm_loop.simps) (simp add: kop)
  with 0(1) show ?case by auto
next
  case (Suc k)
  let ?b = "a + of_nat PGSIZE"
  obtain p q zs where xs: "xs = p # q # zs" using Suc.prems(3) by (cases xs; cases "tl xs") auto
  obtain n' where n: "n = Suc n'" using Suc.prems(4) by (cases n) auto
  have lt: "unat newsz < 2 ^ 31" using Suc.prems(7) by (simp add: word_less_nat_alt KERNBASE_def)
  have at: "unat (a + of_nat (PGSIZE * i)) = unat a + PGSIZE * i" if "i \<le> Suc k" for i
    using Suc.prems(6) lt that by (intro unat_add_of_nat) (simp add: PGSIZE_def)
  have b: "?b + of_nat (PGSIZE * i) = a + of_nat (PGSIZE * Suc i)" for i by (simp add: algebra_simps)
  have apart: "a + of_nat (PGSIZE * Suc i) \<noteq> a" if "i < Suc k" for i using at [of "Suc i"] that by (auto simp: PGSIZE_def)
  have pg: "PGROUNDDOWN (a + of_nat (PGSIZE * i)) = a + of_nat (PGSIZE * i)" if "i \<le> Suc k" for i
    using at [OF that] Suc.prems(2) by (simp add: aligned_iff [symmetric] aligned_def del: of_nat_mult)
  have less: "a < newsz" using Suc.prems(6) by (simp add: word_less_nat_alt)
  have un: "maps (mem s) pd a = None" using Suc.prems(8) [of 0] by simp
  show ?case
  proof (rule allocuvm_round [OF Suc.prems(1) [unfolded xs] Suc.prems(2) less un, of n' oldsz])
    fix t ys
    assume r: "pt_ok t pd ys" "set ys \<subseteq> set (q # zs)" "length zs \<le> length ys"
      "keeps s (p # q # zs) t ys pd" "\<not> vm_page t pd ys p" "\<And>x. in_page p x \<Longrightarrow> mem t x = 0"
      "\<And>vb. maps (mem t) pd vb = (if PGROUNDDOWN vb = a then Some (v2p p OR (PTE_W OR PTE_U) OR PTE_P) else maps (mem s) pd vb)"
      "allocuvm_loop (Suc n') pd a oldsz newsz s = allocuvm_loop n' pd ?b oldsz newsz t"
    have al: "aligned p" "p \<notin> set (q # zs)" using pt_okD [OF Suc.prems(1)] xs by (auto simp: kmem_inv_def)
    have "maps (mem t) pd (?b + of_nat (PGSIZE * i)) = None" if "i < k" for i
      unfolding b using r(7) pg [of "Suc i"] apart [of i] Suc.prems(8) [of "Suc i"] that by (simp del: of_nat_mult)
    moreover have "unat ?b = unat a + PGSIZE" using at [of 1] by simp
    ultimately have "\<exists>u ps xs'. allocuvm_loop n' pd ?b oldsz newsz t = Ok newsz u \<and> pt_ok u pd xs' \<and> keeps t ys u xs' pd \<and>
      length ps = k \<and> distinct ps \<and> set ps \<subseteq> set ys \<and> (\<forall>p \<in> set ps. \<not> vm_page u pd xs' p \<and> (\<forall>x. in_page p x \<longrightarrow> mem u x = 0)) \<and>
      (\<forall>i < k. maps (mem u) pd (?b + of_nat (PGSIZE * i)) = Some (v2p (ps ! i) OR (PTE_W OR PTE_U) OR PTE_P)) \<and>
      (\<forall>vb. (\<forall>i < k. PGROUNDDOWN vb \<noteq> ?b + of_nat (PGSIZE * i)) \<longrightarrow> maps (mem u) pd vb = maps (mem t) pd vb)"
      using Suc.prems(3-7) xs n r(3) by (intro Suc.IH [OF r(1) aligned_plus [OF Suc.prems(2)]]) (auto simp: PGSIZE_def)
    then obtain u ps xs' where IH: "allocuvm_loop n' pd ?b oldsz newsz t = Ok newsz u" "pt_ok u pd xs'" "keeps t ys u xs' pd"
      "length ps = k" "distinct ps" "set ps \<subseteq> set ys" "\<And>p. p \<in> set ps \<Longrightarrow> \<not> vm_page u pd xs' p \<and> (\<forall>x. in_page p x \<longrightarrow> mem u x = 0)"
      "\<And>i. i < k \<Longrightarrow> maps (mem u) pd (a + of_nat (PGSIZE * Suc i)) = Some (v2p (ps ! i) OR (PTE_W OR PTE_U) OR PTE_P)"
      "\<And>vb. (\<And>i. i < k \<Longrightarrow> PGROUNDDOWN vb \<noteq> a + of_nat (PGSIZE * Suc i)) \<Longrightarrow> maps (mem u) pd vb = maps (mem t) pd vb"
      unfolding b by blast
    have first: "maps (mem u) pd a = Some (v2p p OR (PTE_W OR PTE_U) OR PTE_P)"
    proof -
      have "PGROUNDDOWN a = a" using pg [of 0] by simp
      then show ?thesis using IH(9) [of a] r(7) [of a] apart by (simp del: of_nat_mult)
    qed
    have "allocuvm_loop n pd a oldsz newsz s = Ok newsz u" using r(8) IH(1) n by simp
    moreover have "keeps s xs u xs' pd" unfolding xs by (rule keeps_trans [OF r(4) IH(3)])
    moreover have "length (p # ps) = Suc k" "distinct (p # ps)" "set (p # ps) \<subseteq> set xs" using IH(4-6) r(2) al xs by auto
    moreover have "\<forall>p \<in> set (p # ps). \<not> vm_page u pd xs' p \<and> (\<forall>x. in_page p x \<longrightarrow> mem u x = 0)"
      using IH(7) keepsD [OF IH(3) al(1) r(5)] r(6) by simp
    moreover have "\<forall>i < Suc k. maps (mem u) pd (a + of_nat (PGSIZE * i)) = Some (v2p ((p # ps) ! i) OR (PTE_W OR PTE_U) OR PTE_P)"
      using first IH(8) by (auto simp: less_Suc_eq_0_disj simp del: of_nat_mult mult_Suc_right)
    moreover have "maps (mem u) pd vb = maps (mem s) pd vb" if out: "\<forall>i < Suc k. PGROUNDDOWN vb \<noteq> a + of_nat (PGSIZE * i)" for vb
    proof -
      have "PGROUNDDOWN vb \<noteq> a" using out [rule_format, of 0] by simp
      moreover have "PGROUNDDOWN vb \<noteq> a + of_nat (PGSIZE * Suc i)" if "i < k" for i using out [rule_format, of "Suc i"] that by (simp del: of_nat_mult)
      ultimately show ?thesis using IH(9) [of vb] r(7) [of vb] by (simp del: of_nat_mult)
    qed
    ultimately show ?case using IH(2) by blast
  qed
qed

text \<open>The translation of the processor follows the entries.\<close>

lemma xlate_maps:
  assumes "pt_ok s pd xs" "va < KERNBASE"
  shows "xlate (mem s) (v2p pd) w va = (case maps (mem s) pd va of None \<Rightarrow> None
    | Some e \<Rightarrow> if w \<and> e AND PTE_W = 0 then None else Some (p2v (PTE_ADDR e) + (va AND 0xFFF)))"
proof -
  have "pde_of (mem s) pd (unat (PDX va)) AND PTE_W \<noteq> 0" if "has_table (mem s) pd (unat (PDX va))"
    using assms(1) that index_bound(1) [of va] unfolding pt_ok_def by blast
  then show ?thesis using assms(2)
    by (auto simp: xlate_def maps_def Let_def pde_at_def has_table_def pde_of_def)
qed

lemma user_pte:
  assumes "aligned p"
  shows "PTE_ADDR (v2p p OR (PTE_W OR PTE_U) OR PTE_P) = v2p p" "(v2p p OR (PTE_W OR PTE_U) OR PTE_P) AND PTE_W \<noteq> 0"
  using new_pde [OF assms] by (simp_all add: PTE_P_def PTE_W_def PTE_U_def)

lemma page_offset: "in_page p (p + (va AND 0xFFF))"
proof -
  have "va AND 0xFFF = take_bit 12 va" by (simp add: take_bit_eq_mask mask_eq_exp_minus_1)
  then have "unat (va AND 0xFFF) < 4096" by (simp add: unsigned_take_bit_eq) (simp add: take_bit_eq_mod)
  then show ?thesis by (simp add: in_page_def PGSIZE_def)
qed

lemma maps_page: "maps m pd (PGROUNDDOWN va) = maps m pd va"
proof -
  have "PGROUNDDOWN (PGROUNDDOWN va) = PGROUNDDOWN va" using aligned_iff aligned_PGROUNDDOWN by blast
  then have "PDX (PGROUNDDOWN va) = PDX va" "PTX (PGROUNDDOWN va) = PTX va" using same_page by blast+
  then show ?thesis by (simp add: maps_def pde_at_def Let_def)
qed

text \<open>The page an address between \<open>a\<close> and \<open>newsz\<close> lies in, counted from \<open>a\<close>.\<close>

definition page_no :: "addr \<Rightarrow> addr \<Rightarrow> nat" where
  "page_no a va = unat (va - a) div PGSIZE"

lemma page_no_page:
  assumes "aligned a" "a \<le> va"
  shows "PGROUNDDOWN va = a + of_nat (PGSIZE * page_no a va)"
proof -
  obtain k where k: "unat a = 4096 * k" using assms(1) by (elim alignedE) (simp add: PGSIZE_def)
  have d: "unat (va - a) = unat va - unat a" "unat a \<le> unat va" using assms(2) by (simp_all add: unat_sub word_le_nat_alt)
  have "unat (a + of_nat (PGSIZE * page_no a va)) = unat a + PGSIZE * page_no a va"
    using unsigned_less [of va, where 'a = nat] d unfolding page_no_def by (intro unat_add_of_nat) (simp add: PGSIZE_def)
  moreover have "unat va div 4096 * 4096 = 4096 * k + 4096 * ((unat va - 4096 * k) div 4096)"
    using d(2) k by (auto simp: le_iff_add)
  ultimately show ?thesis using k d by (simp only: word_unat_eq_iff unat_PGROUNDDOWN page_no_def PGSIZE_def)
qed

lemma growth_pages:
  assumes "oldsz \<le> newsz" "newsz < KERNBASE"
  obtains k where "unat newsz \<le> unat (PGROUNDUP oldsz) + PGSIZE * k"
    "k = 0 \<or> unat (PGROUNDUP oldsz) + PGSIZE * (k - 1) < unat newsz" "k \<le> unat newsz div PGSIZE + 1" "aligned (PGROUNDUP oldsz)"
    "\<And>va. PGROUNDUP oldsz \<le> va \<Longrightarrow> va < newsz \<Longrightarrow> page_no (PGROUNDUP oldsz) va < k"
    "k = (unat newsz - unat (PGROUNDUP oldsz) + (PGSIZE - 1)) div PGSIZE"
proof -
  let ?a = "PGROUNDUP oldsz"
  have lt: "unat oldsz \<le> unat newsz" "unat newsz < 2 ^ 31" using assms by (simp_all add: word_le_nat_alt word_less_nat_alt KERNBASE_def)
  then have al: "aligned ?a" using PGROUNDUP_bounds(3) [of oldsz] by (simp add: PGSIZE_def)
  define d where "d = unat newsz - unat ?a"
  define k where "k = (d + 4095) div 4096"
  have "4096 * k + (d + 4095) mod 4096 = d + 4095" unfolding k_def by (rule mult_div_mod_eq)
  moreover have "(d + 4095) mod 4096 < 4096" by simp
  ultimately have k: "d \<le> 4096 * k" "4096 * k \<le> d + 4095" by linarith+
  have no: "page_no ?a va < k" if "?a \<le> va" "va < newsz" for va
  proof -
    have "unat (va - ?a) < d" using that by (simp add: unat_sub word_le_nat_alt word_less_nat_alt d_def)
    then have "unat (va - ?a) < k * 4096" using k(1) by simp
    then show ?thesis unfolding page_no_def PGSIZE_def by (rule less_mult_imp_div_less)
  qed
  have lo: "unat newsz \<le> unat ?a + 4096 * k" using k(1) by (simp add: d_def)
  have hi: "k = 0 \<or> unat ?a + 4096 * (k - 1) < unat newsz" using k(2) by (cases k) (auto simp: d_def)
  then have "(k - 1) * 4096 \<le> unat newsz" by auto
  then have "k \<le> unat newsz div 4096 + 1" using div_le_mono [of "(k - 1) * 4096" "unat newsz" 4096] by simp
  then show thesis using that [of k] al no lo hi by (simp add: PGSIZE_def k_def d_def)
qed

text \<open>
  C7. \<^verbatim>\<open>allocuvm\<close> of \<^verbatim>\<open>vm.c\<close>, with two free pages for each page of growth, returns the new size.  Then the processor translates every address
  from the old size, rounded up, to the new size, for writing too, to a page taken from the free list, a different one for each
  page of the process, and the byte there is zero.  The other mappings of the process are as before, and so are the contents of all pages but
  the directory, the tables and the pages that were free.
\<close>

theorem allocuvm_grows:
  assumes "pt_ok s pd xs" "oldsz \<le> newsz" "newsz < KERNBASE" "a = PGROUNDUP oldsz"
    "k = (unat newsz - unat a + (PGSIZE - 1)) div PGSIZE" "2 * k \<le> length xs"
    "\<forall>i < k. maps (mem s) pd (a + of_nat (PGSIZE * i)) = None"
  shows "\<exists>t ps xs'. allocuvm pd oldsz newsz s = Ok newsz t \<and> pt_ok t pd xs' \<and> keeps s xs t xs' pd \<and>
    length ps = k \<and> distinct ps \<and> set ps \<subseteq> set xs - set xs' \<and>
    (\<forall>va. a \<le> va \<and> va < newsz \<longrightarrow>
       (let b = ps ! page_no a va + (va AND 0xFFF) in
        page_no a va < k \<and> xlate (mem t) (v2p pd) True va = Some b \<and> mem t b = 0)) \<and>
    (\<forall>vb. (\<forall>i < k. PGROUNDDOWN vb \<noteq> a + of_nat (PGSIZE * i)) \<longrightarrow> maps (mem t) pd vb = maps (mem s) pd vb)"
proof -
  obtain k' where g: "unat newsz \<le> unat a + PGSIZE * k'" "k' = 0 \<or> unat a + PGSIZE * (k' - 1) < unat newsz"
    "k' \<le> unat newsz div PGSIZE + 1" "aligned a" "\<And>va. a \<le> va \<Longrightarrow> va < newsz \<Longrightarrow> page_no a va < k'" "k' = k"
    using growth_pages [OF assms(2,3)] unfolding assms(4,5) by blast
  obtain t ps xs' where r: "allocuvm_loop (unat newsz div PGSIZE + 1) pd a oldsz newsz s = Ok newsz t" "pt_ok t pd xs'"
    "keeps s xs t xs' pd" "length ps = k" "distinct ps" "set ps \<subseteq> set xs"
    "\<forall>p \<in> set ps. \<not> vm_page t pd xs' p \<and> (\<forall>x. in_page p x \<longrightarrow> mem t x = 0)"
    "\<forall>i < k. maps (mem t) pd (a + of_nat (PGSIZE * i)) = Some (v2p (ps ! i) OR (PTE_W OR PTE_U) OR PTE_P)"
    "\<forall>vb. (\<forall>i < k. PGROUNDDOWN vb \<noteq> a + of_nat (PGSIZE * i)) \<longrightarrow> maps (mem t) pd vb = maps (mem s) pd vb"
    using allocuvm_loop_grows [OF assms(1) g(4) assms(6) _ _ _ assms(3)] g(1-3,6) assms(7) by blast
  have "page_no a va < k \<and> xlate (mem t) (v2p pd) True va = Some (ps ! page_no a va + (va AND 0xFFF)) \<and>
      mem t (ps ! page_no a va + (va AND 0xFFF)) = 0" if va: "a \<le> va" "va < newsz" for va
  proof -
    let ?p = "ps ! page_no a va"
    have n: "page_no a va < k" using g(5) [OF va] g(6) by simp
    then have p: "?p \<in> set ps" using r(4) by simp
    have al: "aligned ?p" using p r(6) pt_okD(4) [OF assms(1)] by blast
    have "maps (mem t) pd va = Some (v2p ?p OR (PTE_W OR PTE_U) OR PTE_P)"
      using r(8) n page_no_page [OF g(4) va(1)] maps_page [of "mem t" pd va] by simp
    moreover have "va < KERNBASE" using va(2) assms(3) by simp
    ultimately have "xlate (mem t) (v2p pd) True va = Some (?p + (va AND 0xFFF))"
      using xlate_maps [OF r(2), of va True] user_pte [OF al] by simp
    then show ?thesis using n p r(7) page_offset by blast
  qed
  moreover have "allocuvm pd oldsz newsz s = Ok newsz t" using r(1) assms(4) leD [OF assms(2)]
      leD [of KERNBASE newsz] assms(3) by (auto simp: allocuvm_def)
  moreover have "set ps \<subseteq> set xs - set xs'" using r(6,7) by (auto simp: vm_page_def)
  ultimately show ?thesis using r(2-5,9) unfolding Let_def by blast
qed

theorem allocuvm_grows_witness:
  "\<exists>t p xs'. allocuvm 0x80300000 0 10 (kmem0 [0x80400000, 0x80500000]) = Ok 10 t \<and> pt_ok t 0x80300000 xs' \<and>
     p \<in> {0x80400000, 0x80500000} \<and> xlate (mem t) (v2p 0x80300000) True 7 = Some (p + 7) \<and> mem t (p + 7) = 0"
proof -
  have "\<exists>t ps xs'. allocuvm 0x80300000 0 10 (kmem0 [0x80400000, 0x80500000]) = Ok 10 t \<and> pt_ok t 0x80300000 xs' \<and>
    keeps (kmem0 [0x80400000, 0x80500000]) [0x80400000, 0x80500000] t xs' 0x80300000 \<and>
    length ps = 1 \<and> distinct ps \<and> set ps \<subseteq> set [0x80400000, 0x80500000] - set xs' \<and>
    (\<forall>va. 0 \<le> va \<and> va < 10 \<longrightarrow>
       (let b = ps ! page_no 0 va + (va AND 0xFFF) in
        page_no 0 va < 1 \<and> xlate (mem t) (v2p 0x80300000) True va = Some b \<and> mem t b = 0)) \<and>
    (\<forall>vb. (\<forall>i < 1. PGROUNDDOWN vb \<noteq> 0 + of_nat (PGSIZE * i)) \<longrightarrow>
       maps (mem t) 0x80300000 vb = maps (mem (kmem0 [0x80400000, 0x80500000])) 0x80300000 vb)"
    by (rule allocuvm_grows [OF kmem0_pt_ok(1)])
       (simp_all add: kmem0_pt_ok(2) KERNBASE_def PGROUNDUP_def PGSIZE_def)
  then obtain t ps xs' where w: "allocuvm 0x80300000 0 10 (kmem0 [0x80400000, 0x80500000]) = Ok 10 t" "pt_ok t 0x80300000 xs'"
    "length ps = 1" "set ps \<subseteq> {0x80400000, 0x80500000}"
    "\<forall>va. 0 \<le> va \<and> va < 10 \<longrightarrow>
       (let b = ps ! page_no 0 va + (va AND 0xFFF) in
        page_no 0 va < 1 \<and> xlate (mem t) (v2p 0x80300000) True va = Some b \<and> mem t b = 0)" by auto
  have "page_no 0 7 = 0" by (simp add: page_no_def PGSIZE_def)
  with w(3-5) have "ps ! 0 \<in> {0x80400000, 0x80500000}" "xlate (mem t) (v2p 0x80300000) True 7 = Some (ps ! 0 + 7)"
    "mem t (ps ! 0 + 7) = 0" by (auto simp: Let_def length_Suc_conv dest: spec [of _ 7])
  with w(1,2) show ?thesis by blast
qed

text \<open>
  C22. \<^verbatim>\<open>allocuvm\<close> does not look at the result of \<^verbatim>\<open>mappages\<close>.  Let a process grow into one more page when exactly one page is free and the
  directory has no table for the new page.  The free page goes to the data and none is left for the table; \<^verbatim>\<open>allocuvm\<close> returns the new
  size, as for success, with no address mapped that was not mapped before.  The new page cannot be accessed, and the page taken for it is
  neither free nor part of the tables.
\<close>

theorem allocuvm_lost_page:
  assumes "pt_ok s pd [p]" "oldsz \<le> newsz" "newsz < KERNBASE" "a = PGROUNDUP oldsz" "a < newsz" "unat newsz \<le> unat a + PGSIZE"
    "\<not> has_table (mem s) pd (unat (PDX a))"
  shows "\<exists>t. allocuvm pd oldsz newsz s = Ok newsz t \<and> pt_ok t pd [] \<and> \<not> vm_page t pd [] p \<and>
    (\<forall>va. maps (mem t) pd va = maps (mem s) pd va) \<and> maps (mem t) pd a = None \<and> xlate (mem t) (v2p pd) False a = None"
proof -
  note z = zero_page_ok [OF assms(1)]
  have lt: "unat oldsz \<le> unat newsz" "unat newsz < 2 ^ 31" "unat a < unat newsz"
    using assms(2,3,5) by (simp_all add: word_le_nat_alt word_less_nat_alt KERNBASE_def)
  have al: "p \<noteq> 0" "aligned a"
    using pt_okD [OF assms(1)] PGROUNDUP_bounds(3) [of oldsz] lt assms(4) by (auto simp: kmem_inv_def PGSIZE_def dest: page_ok_nonzero)
  let ?t = "kmem_lock_fx (zero_page p s)"
  have "\<not> has_table (mem (zero_page p s)) pd (unat (PDX a))"
    using assms(7) table_cong(2) [OF zero_page_pde [OF assms(1) index_bound(1), of a]] by simp
  then have "walkpgdir pd a True (zero_page p s) = Ok 0 ?t" by (rule walkpgdir_nil [OF z(1)])
  then have "mappages_loop 0 pd a a (v2p p) (PTE_W OR PTE_U) (zero_page p s) = Ok (- 1) ?t"
    by (subst mappages_loop.simps) (simp add: kop)
  then have "mappages pd a (of_nat PGSIZE) (v2p p) (PTE_W OR PTE_U) (zero_page p s) = Ok (- 1) ?t"
    using mappages_page [OF al(2), of pd "v2p p" "PTE_W OR PTE_U" "zero_page p s"] by simp
  moreover have "\<not> a + of_nat PGSIZE < newsz"
    using assms(6) lt unat_add_of_nat [of a PGSIZE] by (simp add: word_less_nat_alt PGSIZE_def)
  then have "allocuvm_loop n pd (a + of_nat PGSIZE) oldsz newsz ?t = Ok newsz ?t" for n
    by (subst allocuvm_loop.simps) (simp add: kop)
  ultimately have "allocuvm_loop (Suc (unat newsz div PGSIZE)) pd a oldsz newsz s = Ok newsz ?t"
    using kalloc_cons(1) [OF pt_okD(1) [OF assms(1)]] al assms(5)
    by (subst allocuvm_loop.simps) (simp add: kop fill_def zero_page_def)
  then have "allocuvm pd oldsz newsz s = Ok newsz ?t"
    using leD [OF assms(2)] leD [of KERNBASE newsz] assms(3,4) by (auto simp: allocuvm_def)
  moreover have "pt_ok ?t pd []" by (rule pt_ok_fx [OF z(1)])
  moreover have "\<not> vm_page ?t pd [] p" using z(2) by (simp add: vm_page_def)
  moreover have m: "maps (mem ?t) pd va = maps (mem s) pd va" for va using z(4) [of va] by simp
  moreover have m0: "maps (mem ?t) pd a = None" unfolding m using assms(7) by (simp add: maps_table Let_def)
  moreover have "xlate (mem ?t) (v2p pd) False a = None"
    using xlate_maps [OF pt_ok_fx [OF z(1)], of a False] m0 assms(3,5) by simp
  ultimately show ?thesis by blast
qed

lemma kmem0_one_page:
  "pt_ok (kmem0 [0x80400000]) 0x80300000 [0x80400000]" "\<not> has_table (mem (kmem0 [0x80400000])) 0x80300000 0"
proof -
  have "ld32 (\<lambda>_. 0) x = 0" for x by (simp add: ld32_def word_of_bytes_def)
  then have no: "\<not> has_table (mem (kmem0 [0x80400000])) 0x80300000 i" and "ld32 (mem (kmem0 [0x80400000])) x = 0" for i x
    by (simp_all add: has_table_def pde_of_def kmem0_def)
  then show "pt_ok (kmem0 [0x80400000]) 0x80300000 [0x80400000]" "\<not> has_table (mem (kmem0 [0x80400000])) 0x80300000 0"
    by (simp_all add: pt_ok_def kmem_inv_def) (simp add: kmem0_def kmem_ready_def cpu_shallow_def cpu_ok_def lock_free_def page_ok_def PGSIZE_def
      v2p_def KERNBASE_def PHYSTOP_def)
qed

theorem allocuvm_lost_page_witness:
  "\<exists>t. allocuvm 0x80300000 0 0x1000 (kmem0 [0x80400000]) = Ok 0x1000 t \<and> maps (mem t) 0x80300000 0 = None \<and>
     xlate (mem t) (v2p 0x80300000) False 0 = None"
proof -
  have "PGROUNDUP 0 = 0" "unat (PDX 0) = 0" by (simp_all add: PGROUNDUP_def PGSIZE_def PDX_def)
  then show ?thesis
    using allocuvm_lost_page [OF kmem0_one_page(1), of 0 "0x1000" 0] kmem0_one_page(2) by (auto simp: PGSIZE_def KERNBASE_def)
qed

end
