(* ===== verification/Paths.thy ===== *)
theory Paths
  imports Dir
begin

text \<open>
  Path names of \<^verbatim>\<open>fs.c\<close> against their meaning: the elements that \<^verbatim>\<open>namex\<close> takes off a path with \<^verbatim>\<open>skipelem\<close>, one after the other
  through the same buffer, are the nonempty parts between the slashes, and \<^verbatim>\<open>namecmp\<close> compares what counts of a name.
\<close>

section \<open>Splitting at slashes\<close>

fun split_path :: "byte list \<Rightarrow> byte list list" where
  "split_path [] = [[]]"
| "split_path (c # cs) =
     (case split_path cs of
        [] \<Rightarrow> []
      | e # es \<Rightarrow> if c = SLASH then [] # e # es else (c # e) # es)"

text \<open>The elements of a path: the nonempty parts, cut to the length of a name.\<close>

definition elements :: "byte list \<Rightarrow> byte list list" where
  "elements path = map (take DIRSIZ) (filter (\<lambda>e. e \<noteq> []) (split_path path))"

text \<open>The name a directory entry's array of \<open>DIRSIZ\<close> bytes holds.\<close>

definition name_of :: "byte list \<Rightarrow> byte list" where
  "name_of nm = cstr (take DIRSIZ nm)"

text \<open>The names the loop of \<^verbatim>\<open>namex\<close> in \<^verbatim>\<open>fs.c\<close> looks up, with the buffer going from round to round.\<close>

function names :: "byte list \<Rightarrow> byte list \<Rightarrow> byte list list" where
  "names path name =
     (case skipelem path name of
        None \<Rightarrow> []
      | Some (path', name') \<Rightarrow> name_of name' # names path' name')"
  by pat_completeness auto
termination by (relation "measure (\<lambda>(path, _). length path)") (auto simp: skipelem_shorter)

declare names.simps [simp del]

lemma split_path_ne [simp]: "split_path p \<noteq> []"
  by (induction p) (auto split: list.splits)

lemma split_path_Cons:
  "split_path (c # cs) = (if c = SLASH then [] # split_path cs else (c # hd (split_path cs)) # tl (split_path cs))"
  using split_path_ne [of cs] by (auto split: list.splits simp del: split_path_ne)

lemma elements_Nil [simp]: "elements [] = []"
  by (simp add: elements_def)

lemma elements_slash [simp]: "elements (SLASH # p) = elements p"
  by (simp add: elements_def split_path_Cons del: split_path.simps)

lemma elements_skip: "elements (skip_slashes p) = elements p"
  by (induction p) (simp_all add: skip_slashes_def)

lemma split_path_first:
  "split_path p = takeWhile (\<lambda>c. c \<noteq> SLASH) p #
     (case dropWhile (\<lambda>c. c \<noteq> SLASH) p of [] \<Rightarrow> [] | _ # r \<Rightarrow> split_path r)"
  by (induction p) (simp_all add: split_path_Cons del: split_path.simps(2) split: list.split)

lemma elements_first:
  assumes "p \<noteq> []" "hd p \<noteq> SLASH"
  shows "elements p = take DIRSIZ (takeWhile (\<lambda>c. c \<noteq> SLASH) p) # elements (dropWhile (\<lambda>c. c \<noteq> SLASH) p)"
proof -
  have ne: "takeWhile (\<lambda>c. c \<noteq> SLASH) p \<noteq> []" using assms by (cases p) auto
  show ?thesis
  proof (cases "dropWhile (\<lambda>c. c \<noteq> SLASH) p")
    case Nil
    then have "split_path p = [takeWhile (\<lambda>c. c \<noteq> SLASH) p]" using split_path_first [of p] by (simp only: list.simps)
    then show ?thesis unfolding Nil using ne by (simp add: elements_def)
  next
    case (Cons c r)
    then have "c = SLASH" using hd_dropWhile [of "\<lambda>c. c \<noteq> SLASH" p] by simp
    then have "elements (c # r) = elements r" by simp
    then show ?thesis using ne Cons split_path_first [of p] by (simp add: elements_def)
  qed
qed

section \<open>The buffer\<close>

lemma cstr_no_zero: "0 \<notin> set e \<Longrightarrow> cstr e = e"
  by (auto simp: cstr_def takeWhile_eq_all_conv)

lemma cstr_terminated: "0 \<notin> set e \<Longrightarrow> cstr (e @ 0 # r) = e"
  by (induction e) (auto simp: cstr_def)

lemma skipelem_some:
  assumes "skip_slashes path \<noteq> []" "0 \<notin> set path" "length name = DIRSIZ"
  obtains name' where "skipelem path name = Some (skip_slashes (dropWhile (\<lambda>c. c \<noteq> SLASH) (skip_slashes path)), name')"
    "length name' = DIRSIZ" "name_of name' = take DIRSIZ (takeWhile (\<lambda>c. c \<noteq> SLASH) (skip_slashes path))"
proof -
  define e where "e = takeWhile (\<lambda>c. c \<noteq> SLASH) (skip_slashes path)"
  define name' where "name' = (if length e \<ge> DIRSIZ then take DIRSIZ e else splice name 0 (e @ [0]))"
  have "set e \<subseteq> set path" unfolding e_def skip_slashes_def using set_takeWhileD set_dropWhileD by fast
  then have z: "0 \<notin> set e" using assms(2) by auto
  then have zt: "0 \<notin> set (take DIRSIZ e)" using set_take_subset by fast
  have "length name' = DIRSIZ" using assms(3) by (auto simp: name'_def min_def)
  moreover have "name_of name' = take DIRSIZ e"
  proof (cases "length e \<ge> DIRSIZ")
    case True
    then show ?thesis using cstr_no_zero [OF zt] by (simp add: name_of_def name'_def)
  next
    case False
    then have "take DIRSIZ name' = e @ 0 # take (DIRSIZ - Suc (length e)) (drop (Suc (length e)) name)"
      by (cases "DIRSIZ - length e") (auto simp: name'_def splice_def dest: arg_cong [of _ _ "\<lambda>k. k - 1"])
    then show ?thesis using cstr_terminated [OF z] False by (simp add: name_of_def)
  qed
  ultimately show thesis using that [of name'] assms(1) by (simp add: skipelem_def Let_def name'_def e_def)
qed

lemma names_elements:
  assumes "0 \<notin> set path" "length name = DIRSIZ"
  shows "names path name = elements path"
  using assms
proof (induction "length path" arbitrary: path name rule: less_induct)
  case less
  show ?case
  proof (cases "skip_slashes path = []")
    case True
    then show ?thesis using elements_skip [of path] by (simp add: names.simps [of path] skipelem_def)
  next
    case False
    let ?s = "skip_slashes path"
    let ?r = "dropWhile (\<lambda>c. c \<noteq> SLASH) ?s"
    obtain name' where s: "skipelem path name = Some (skip_slashes ?r, name')" "length name' = DIRSIZ"
      "name_of name' = take DIRSIZ (takeWhile (\<lambda>c. c \<noteq> SLASH) ?s)"
      using skipelem_some [OF False less.prems] .
    have "set (skip_slashes ?r) \<subseteq> set path" unfolding skip_slashes_def by (auto dest!: set_dropWhileD)
    then have "names (skip_slashes ?r) name' = elements ?r"
      using less.hyps [OF skipelem_shorter [OF s(1)] _ s(2)] less.prems(1) elements_skip [of ?r] by auto
    moreover have "hd ?s \<noteq> SLASH" using False hd_dropWhile [of "\<lambda>c. c = SLASH" path] by (simp add: skip_slashes_def)
    ultimately show ?thesis
      using elements_first [OF False] elements_skip [of path] s by (simp add: names.simps [of path])
  qed
qed

lemma strncmp_list_eq:
  "strncmp_list ps qs n = 0 \<longleftrightarrow> cstr (take n ps) = cstr (take n qs)"
proof (induction ps qs n rule: strncmp_list.induct)
  case (2 ps qs n)
  then show ?case by (cases ps; cases qs) (auto simp: cstr_def Let_def word_uint_eq_iff)
qed simp

text \<open>
  C18. The names \<^verbatim>\<open>namex\<close> takes off a path with \<^verbatim>\<open>skipelem\<close> of \<^verbatim>\<open>fs.c\<close>, using one buffer of \<open>DIRSIZ\<close> bytes whatever it held, are the nonempty parts of
  the path between slashes, each cut to \<open>DIRSIZ\<close> bytes, in order; the walk ends.  \<^verbatim>\<open>namecmp\<close> finds two names equal exactly if they
  hold the same string in their \<open>DIRSIZ\<close> bytes, with or without terminator.
\<close>

theorem path_elements:
  assumes "0 \<notin> set path" "length name = DIRSIZ"
  shows "names path name = elements path \<and> (namecmp u v = 0 \<longleftrightarrow> name_of u = name_of v)"
  using names_elements [OF assms] strncmp_list_eq [of u v DIRSIZ] by (simp add: namecmp_def name_of_def)

theorem path_elements_witness:
  "names [47, 47, 97, 47, 47, 98, 99, 47] (replicate 14 120) = [[97], [98, 99]] \<and> namecmp [97, 0, 5] [97, 0, 6] = 0"
proof -
  have "elements [47, 47, 97, 47, 47, 98, 99, 47] = [[97], [98, 99]]" by (simp add: elements_def SLASH_def DIRSIZ_def)
  then show ?thesis
    using path_elements [of "[47, 47, 97, 47, 47, 98, 99, 47]" "replicate 14 120" "[97, 0, 5]" "[97, 0, 6]"]
    by (simp add: name_of_def cstr_def DIRSIZ_def)
qed

end
