(* ===== verification/Asm.thy ===== *)
theory Asm
  imports Trap
begin

unbundle bit_operations_syntax

text \<open>
  The assembly code: \<^verbatim>\<open>swtch.S\<close>, \<^verbatim>\<open>trapasm.S\<close> with \<^verbatim>\<open>vectors.S\<close>, \<^verbatim>\<open>usys.S\<close>, \<^verbatim>\<open>initcode.S\<close>, \<^verbatim>\<open>entry.S\<close>,
  \<^verbatim>\<open>entryother.S\<close> and \<^verbatim>\<open>bootasm.S\<close>.  A piece of code is the list of its instructions, in the order of the source,
  and an interpreter runs it on a machine with registers, segment selectors and memory.  Labels are places in the list;
  symbols defined elsewhere and the addresses that the assembler gives to instructions are parameters.
  The lemmas are about running straight code and about words on the stack.
\<close>

section \<open>The machine\<close>

datatype reg = EAX | ECX | EDX | EBX | ESP | EBP | ESI | EDI

datatype sreg = CS | DS | ES | FS | GS | SS

datatype creg = CR0 | CR3 | CR4

text \<open>
  Port reads find the bytes \<open>xin\<close>, of which \<open>xreads\<close> have been taken; port writes are a trace.  The zero flag is
  bit 6 of the flags, the interrupt flag bit 9.
\<close>

record xmach =
  gpr :: "reg \<Rightarrow> u32"
  seg :: "sreg \<Rightarrow> u16"
  ctl :: "creg \<Rightarrow> u32"
  eflags :: u32
  gdtr :: addr
  xmem :: memory
  xin :: "nat \<Rightarrow> byte"
  xreads :: nat
  xout :: "(u16 \<times> u32) list"

definition set_reg :: "reg \<Rightarrow> u32 \<Rightarrow> xmach \<Rightarrow> xmach" where
  "set_reg r v s = s\<lparr>gpr := (gpr s)(r := v)\<rparr>"

definition set_seg :: "sreg \<Rightarrow> u16 \<Rightarrow> xmach \<Rightarrow> xmach" where
  "set_seg r v s = s\<lparr>seg := (seg s)(r := v)\<rparr>"

definition push :: "u32 \<Rightarrow> xmach \<Rightarrow> xmach" where
  "push v s = (let e = gpr s ESP - 4 in s\<lparr>gpr := (gpr s)(ESP := e), xmem := st32 (xmem s) e v\<rparr>)"

definition top32 :: "xmach \<Rightarrow> u32" where
  "top32 s = ld32 (xmem s) (gpr s ESP)"

definition drop32 :: "nat \<Rightarrow> xmach \<Rightarrow> xmach" where
  "drop32 n s = s\<lparr>gpr := (gpr s)(ESP := gpr s ESP + 4 * of_nat n)\<rparr>"

section \<open>Instructions\<close>

text \<open>
  The operands are in the order of the source, from the left to the right.  \<open>Loadl d r q\<close> is \<^verbatim>\<open>movl d(%r), %q\<close>;
  \<open>Absl a r\<close> loads from a fixed address; \<open>Movw\<close> and \<open>Movwr\<close> set the lower half of a register.
\<close>

datatype instr =
    Pushl reg
  | Pushi u32
  | Pushs sreg
  | Popl reg
  | Pops sreg
  | Pushal
  | Popal
  | Movl reg reg
  | Movi u32 reg
  | Movw u16 reg
  | Movwr reg reg
  | Movs reg sreg
  | Loadl u32 reg reg
  | Storel reg reg
  | Absl addr reg
  | Orl u32 reg
  | Addl u32 reg
  | Xorw reg
  | Readc creg reg
  | Writec reg creg
  | Lgdt addr
  | Cli
  | Inb u16
  | Testb byte
  | Movb byte
  | Outb u16
  | Outw
  | Jnz nat
  | Jmp nat
  | Jmps addr
  | Jmpr reg
  | Ljmp u16 nat
  | Calls addr
  | Callabs addr
  | Intn nat
  | Ret
  | Iret

datatype xnext = Goto nat | Leave addr | Trapto nat addr

definition low16 :: "u32 \<Rightarrow> u16 \<Rightarrow> u32" where
  "low16 r v = (r AND 0xFFFF0000) OR ucast v"

definition low8 :: "u32 \<Rightarrow> byte \<Rightarrow> u32" where
  "low8 r v = (r AND 0xFFFFFF00) OR ucast v"

definition set_zf :: "bool \<Rightarrow> u32 \<Rightarrow> u32" where
  "set_zf b f = (if b then f OR 0x40 else f AND 0xFFFFFFBF)"

text \<open>The general registers, in the order \<^verbatim>\<open>popal\<close> takes them; the saved stack pointer is skipped.\<close>

definition popal_regs :: "xmach \<Rightarrow> xmach" where
  "popal_regs s =
     (let w = (\<lambda>k. ld32 (xmem s) (gpr s ESP + 4 * k)) in
      drop32 8 (s\<lparr>gpr := (gpr s)(EDI := w 0, ESI := w 1, EBP := w 2, EBX := w 4, EDX := w 5, ECX := w 6, EAX := w 7)\<rparr>))"

definition pushal_regs :: "xmach \<Rightarrow> xmach" where
  "pushal_regs s = fold push [gpr s EAX, gpr s ECX, gpr s EDX, gpr s EBX, gpr s ESP, gpr s EBP, gpr s ESI, gpr s EDI] s"

text \<open>
  \<^verbatim>\<open>iret\<close> takes the address, the code segment and the flags from the stack, and the stack pointer and its segment too when
  it goes back to user code.
\<close>

definition iret_regs :: "xmach \<Rightarrow> xmach" where
  "iret_regs s =
     (let w = (\<lambda>k. ld32 (xmem s) (gpr s ESP + 4 * k));
          t = drop32 3 (s\<lparr>seg := (seg s)(CS := ucast (w 1)), eflags := w 2\<rparr>) in
      if (ucast (w 1) :: u16) AND 3 \<noteq> seg s CS AND 3
      then t\<lparr>gpr := (gpr t)(ESP := w 3), seg := (seg t)(SS := ucast (w 4))\<rparr>
      else t)"

text \<open>One instruction at place \<open>i\<close>; \<open>loc\<close> gives the addresses of the places.\<close>

primrec exec1 :: "(nat \<Rightarrow> addr) \<Rightarrow> nat \<Rightarrow> instr \<Rightarrow> xmach \<Rightarrow> xnext \<times> xmach" where
  "exec1 loc i (Pushl r) s = (Goto (Suc i), push (gpr s r) s)"
| "exec1 loc i (Pushi v) s = (Goto (Suc i), push v s)"
| "exec1 loc i (Pushs r) s = (Goto (Suc i), push (ucast (seg s r)) s)"
| "exec1 loc i (Popl r) s = (Goto (Suc i), set_reg r (top32 s) (drop32 1 s))"
| "exec1 loc i (Pops r) s = (Goto (Suc i), set_seg r (ucast (top32 s)) (drop32 1 s))"
| "exec1 loc i Pushal s = (Goto (Suc i), pushal_regs s)"
| "exec1 loc i Popal s = (Goto (Suc i), popal_regs s)"
| "exec1 loc i (Movl r q) s = (Goto (Suc i), set_reg q (gpr s r) s)"
| "exec1 loc i (Movi v q) s = (Goto (Suc i), set_reg q v s)"
| "exec1 loc i (Movw v q) s = (Goto (Suc i), set_reg q (low16 (gpr s q) v) s)"
| "exec1 loc i (Movwr r q) s = (Goto (Suc i), set_reg q (low16 (gpr s q) (ucast (gpr s r))) s)"
| "exec1 loc i (Movs r q) s = (Goto (Suc i), set_seg q (ucast (gpr s r)) s)"
| "exec1 loc i (Loadl d r q) s = (Goto (Suc i), set_reg q (ld32 (xmem s) (gpr s r + d)) s)"
| "exec1 loc i (Storel r q) s = (Goto (Suc i), s\<lparr>xmem := st32 (xmem s) (gpr s q) (gpr s r)\<rparr>)"
| "exec1 loc i (Absl a q) s = (Goto (Suc i), set_reg q (ld32 (xmem s) a) s)"
| "exec1 loc i (Orl v q) s = (Goto (Suc i), (set_reg q (gpr s q OR v) s)\<lparr>eflags := set_zf (gpr s q OR v = 0) (eflags s)\<rparr>)"
| "exec1 loc i (Addl v q) s = (Goto (Suc i), (set_reg q (gpr s q + v) s)\<lparr>eflags := set_zf (gpr s q + v = 0) (eflags s)\<rparr>)"
| "exec1 loc i (Xorw q) s = (Goto (Suc i), (set_reg q (low16 (gpr s q) 0) s)\<lparr>eflags := set_zf True (eflags s)\<rparr>)"
| "exec1 loc i (Readc c q) s = (Goto (Suc i), set_reg q (ctl s c) s)"
| "exec1 loc i (Writec r c) s = (Goto (Suc i), s\<lparr>ctl := (ctl s)(c := gpr s r)\<rparr>)"
| "exec1 loc i (Lgdt a) s = (Goto (Suc i), s\<lparr>gdtr := a\<rparr>)"
| "exec1 loc i Cli s = (Goto (Suc i), s\<lparr>eflags := eflags s AND 0xFFFFFDFF\<rparr>)"
| "exec1 loc i (Inb p) s = (Goto (Suc i), (set_reg EAX (low8 (gpr s EAX) (xin s (xreads s))) s)\<lparr>xreads := Suc (xreads s)\<rparr>)"
| "exec1 loc i (Testb v) s = (Goto (Suc i), s\<lparr>eflags := set_zf ((ucast (gpr s EAX) :: byte) AND v = 0) (eflags s)\<rparr>)"
| "exec1 loc i (Movb v) s = (Goto (Suc i), set_reg EAX (low8 (gpr s EAX) v) s)"
| "exec1 loc i (Outb p) s = (Goto (Suc i), s\<lparr>xout := xout s @ [(p, ucast (ucast (gpr s EAX) :: byte))]\<rparr>)"
| "exec1 loc i Outw s = (Goto (Suc i), s\<lparr>xout := xout s @ [(ucast (gpr s EDX), ucast (ucast (gpr s EAX) :: u16))]\<rparr>)"
| "exec1 loc i (Jnz j) s = (Goto (if eflags s AND 0x40 = 0 then j else Suc i), s)"
| "exec1 loc i (Jmp j) s = (Goto j, s)"
| "exec1 loc i (Jmps a) s = (Leave a, s)"
| "exec1 loc i (Jmpr r) s = (Leave (gpr s r), s)"
| "exec1 loc i (Ljmp c j) s = (Goto j, set_seg CS c s)"
| "exec1 loc i (Calls a) s = (Leave a, push (loc (Suc i)) s)"
| "exec1 loc i (Callabs a) s = (Leave (ld32 (xmem s) a), push (loc (Suc i)) s)"
| "exec1 loc i (Intn n) s = (Trapto n (loc (Suc i)), s)"
| "exec1 loc i Ret s = (Leave (top32 s), drop32 1 s)"
| "exec1 loc i Iret s = (Leave (top32 s), iret_regs s)"

text \<open>Run code from place \<open>i\<close> until control leaves it.  Running off its end is a fault.\<close>

fun run :: "nat \<Rightarrow> (nat \<Rightarrow> addr) \<Rightarrow> instr list \<Rightarrow> nat \<Rightarrow> (xnext, xmach) kop" where
  "run fuel loc p i s =
     (if i < length p then
        (case exec1 loc i (p ! i) s of
           (Goto j, t) \<Rightarrow> (case fuel of 0 \<Rightarrow> NoFuel | Suc n \<Rightarrow> run n loc p j t)
         | (e, t) \<Rightarrow> Ok e t)
      else Fault)"

declare run.simps [simp del]

section \<open>The code\<close>

definition swtch :: "instr list" where
  "swtch =
    [Loadl 4 ESP EAX,
     Loadl 8 ESP EDX,
     Pushl EBP,
     Pushl EBX,
     Pushl ESI,
     Pushl EDI,
     Storel ESP EAX,
     Movl EDX ESP,
     Popl EDI,
     Popl ESI,
     Popl EBX,
     Popl EBP,
     Ret]"

text \<open>The traps for which the processor pushes an error code.\<close>

definition has_err :: "nat \<Rightarrow> bool" where
  "has_err n \<longleftrightarrow> n = 8 \<or> (n \<ge> 10 \<and> n \<le> 14) \<or> n = 17"

definition vector :: "addr \<Rightarrow> nat \<Rightarrow> instr list" where
  "vector sym_alltraps n = (if \<not> has_err n then [Pushi 0] else []) @ [Pushi (of_nat n), Jmps sym_alltraps]"

definition alltraps :: "addr \<Rightarrow> instr list" where
  "alltraps sym_trap =
    [Pushs DS,
     Pushs ES,
     Pushs FS,
     Pushs GS,
     Pushal,
     Movw (of_nat (SEG_KDATA * 8)) EAX,
     Movs EAX DS,
     Movs EAX ES,
     Movw (of_nat (SEG_KCPU * 8)) EAX,
     Movs EAX FS,
     Movs EAX GS,
     Pushl ESP,
     Calls sym_trap,
     Addl 4 ESP,
     Popal,
     Pops GS,
     Pops FS,
     Pops ES,
     Pops DS,
     Addl 8 ESP,
     Iret]"

text \<open>The place after the call, and that of the label \<^verbatim>\<open>trapret\<close>.\<close>

definition after_trap :: nat where "after_trap = 13"
definition trapret :: nat where "trapret = 14"

text \<open>The stub of the system call with number \<open>n\<close>.\<close>

definition usys :: "nat \<Rightarrow> instr list" where
  "usys n = [Movi (of_nat n) EAX, Intn T_SYSCALL, Ret]"

definition initcode :: "addr \<Rightarrow> addr \<Rightarrow> instr list" where
  "initcode init argv =
    [Pushi argv,
     Pushi init,
     Pushi 0,
     Movi 7 EAX,
     Intn T_SYSCALL,
     Movi 2 EAX,
     Intn T_SYSCALL,
     Jmp 5]"

definition CR0_PE :: u32 where "CR0_PE = 0x00000001"
definition CR0_WP :: u32 where "CR0_WP = 0x00010000"
definition CR0_PG :: u32 where "CR0_PG = 0x80000000"
definition CR4_PSE :: u32 where "CR4_PSE = 0x00000010"

definition entry :: "addr \<Rightarrow> addr \<Rightarrow> addr \<Rightarrow> instr list" where
  "entry entrypgdir stack sym_main =
    [Readc CR4 EAX,
     Orl CR4_PSE EAX,
     Writec EAX CR4,
     Movi (v2p entrypgdir) EAX,
     Writec EAX CR3,
     Readc CR0 EAX,
     Orl (CR0_PG OR CR0_WP) EAX,
     Writec EAX CR0,
     Movi (stack + of_nat KSTACKSIZE) ESP,
     Movi sym_main EAX,
     Jmpr EAX]"

text \<open>\<open>start\<close> is the address the code is copied to.\<close>

definition entryother :: "addr \<Rightarrow> addr \<Rightarrow> instr list" where
  "entryother start gdtdesc =
    [Cli,
     Xorw EAX,
     Movs EAX DS,
     Movs EAX ES,
     Movs EAX SS,
     Lgdt gdtdesc,
     Readc CR0 EAX,
     Orl CR0_PE EAX,
     Writec EAX CR0,
     Ljmp (of_nat (SEG_KCODE * 8)) 10,
     Movw (of_nat (SEG_KDATA * 8)) EAX,
     Movs EAX DS,
     Movs EAX ES,
     Movs EAX SS,
     Movw 0 EAX,
     Movs EAX FS,
     Movs EAX GS,
     Readc CR4 EAX,
     Orl CR4_PSE EAX,
     Writec EAX CR4,
     Absl (start - 12) EAX,
     Writec EAX CR3,
     Readc CR0 EAX,
     Orl (CR0_PE OR CR0_PG OR CR0_WP) EAX,
     Writec EAX CR0,
     Absl (start - 4) ESP,
     Callabs (start - 8),
     Movw 0x8a00 EAX,
     Movwr EAX EDX,
     Outw,
     Movw 0x8ae0 EAX,
     Outw,
     Jmp 32]"

definition bootasm :: "addr \<Rightarrow> addr \<Rightarrow> addr \<Rightarrow> instr list" where
  "bootasm start gdtdesc sym_bootmain =
    [Cli,
     Xorw EAX,
     Movs EAX DS,
     Movs EAX ES,
     Movs EAX SS,
     Inb 0x64,
     Testb 0x2,
     Jnz 5,
     Movb 0xd1,
     Outb 0x64,
     Inb 0x64,
     Testb 0x2,
     Jnz 10,
     Movb 0xdf,
     Outb 0x60,
     Lgdt gdtdesc,
     Readc CR0 EAX,
     Orl CR0_PE EAX,
     Writec EAX CR0,
     Ljmp (of_nat (SEG_KCODE * 8)) 20,
     Movw (of_nat (SEG_KDATA * 8)) EAX,
     Movs EAX DS,
     Movs EAX ES,
     Movs EAX SS,
     Movw 0 EAX,
     Movs EAX FS,
     Movs EAX GS,
     Movi start ESP,
     Calls sym_bootmain,
     Movw 0x8a00 EAX,
     Movwr EAX EDX,
     Outw,
     Movw 0x8ae0 EAX,
     Outw,
     Jmp 34]"

section \<open>Words on the stack\<close>

lemma machine_sel [simp]:
  "gpr (set_reg r v s) = (gpr s)(r := v)" "seg (set_reg r v s) = seg s" "ctl (set_reg r v s) = ctl s"
  "eflags (set_reg r v s) = eflags s" "xmem (set_reg r v s) = xmem s"
  "gpr (set_seg q w s) = gpr s" "seg (set_seg q w s) = (seg s)(q := w)" "ctl (set_seg q w s) = ctl s"
  "eflags (set_seg q w s) = eflags s" "xmem (set_seg q w s) = xmem s"
  "gpr (push v s) = (gpr s)(ESP := gpr s ESP - 4)" "seg (push v s) = seg s" "ctl (push v s) = ctl s"
  "eflags (push v s) = eflags s" "xmem (push v s) = st32 (xmem s) (gpr s ESP - 4) v"
  "gpr (drop32 n s) = (gpr s)(ESP := gpr s ESP + 4 * of_nat n)" "seg (drop32 n s) = seg s" "ctl (drop32 n s) = ctl s"
  "eflags (drop32 n s) = eflags s" "xmem (drop32 n s) = xmem s"
  by (simp_all add: set_reg_def set_seg_def push_def drop32_def Let_def)

lemma exec_step:
  "i < length p \<Longrightarrow> exec1 loc i (p ! i) s = (Goto j, t) \<Longrightarrow> run (Suc n) loc p i s = run n loc p j t"
  "i < length p \<Longrightarrow> exec1 loc i (p ! i) s = (Leave a, t) \<Longrightarrow> run n loc p i s = Ok (Leave a) t"
  "i < length p \<Longrightarrow> exec1 loc i (p ! i) s = (Trapto k a, t) \<Longrightarrow> run n loc p i s = Ok (Trapto k a) t"
  by (subst run.simps, simp)+

text \<open>Instructions that go on to the next place, and their effect.\<close>

definition eff :: "instr \<Rightarrow> xmach \<Rightarrow> xmach" where
  "eff c s = snd (exec1 (\<lambda>_. 0) 0 c s)"

definition straight :: "instr \<Rightarrow> bool" where
  "straight c \<longleftrightarrow> (\<forall>loc i s. exec1 loc i c s = (Goto (Suc i), eff c s))"

lemma run_straight:
  assumes "\<forall>c \<in> set q. straight c"
  shows "run (length q + n) loc (p @ q @ r) (length p) s = run n loc (p @ q @ r) (length p + length q) (fold eff q s)"
  using assms
proof (induction q arbitrary: p s)
  case (Cons c q)
  have "exec1 loc (length p) c s = (Goto (Suc (length p)), eff c s)" using Cons.prems by (simp add: straight_def)
  then have "run (length (c # q) + n) loc (p @ (c # q) @ r) (length p) s =
      run (length q + n) loc ((p @ [c]) @ q @ r) (length (p @ [c])) (eff c s)"
    by (simp add: exec_step nth_append)
  also have "\<dots> = run n loc ((p @ [c]) @ q @ r) (length (p @ [c]) + length q) (fold eff q (eff c s))"
    using Cons.prems by (intro Cons.IH) simp
  finally show ?case by simp
qed simp

lemma run_leave:
  assumes "\<forall>c \<in> set q. straight c" "exec1 loc (length p + length q) c (fold eff q s) = (Leave a, t)"
  shows "run (length q) loc (p @ q @ c # r) (length p) s = Ok (Leave a) t"
  using run_straight [OF assms(1), of 0 loc p "c # r" s] assms(2) exec_step(2) [of "length p + length q" "p @ q @ c # r"]
  by (simp add: nth_append)

lemmas run_leave0 = run_leave [where p = "[]", simplified]

lemma run_more: "run n loc p i s = Ok e t \<Longrightarrow> n \<le> m \<Longrightarrow> run m loc p i s = Ok e t"
proof (induction n arbitrary: m i s)
  case 0
  then have "run m loc p i s = run 0 loc p i s" by (subst (1 2) run.simps) (auto simp: run.simps [of 0] split: if_splits prod.splits xnext.splits)
  then show ?case using 0 by simp
next
  case (Suc n)
  then obtain k where "m = Suc k" "n \<le> k" by (cases m) auto
  then show ?case using Suc by (auto simp: run.simps [of "Suc n"] run.simps [of "Suc k"] split: if_splits prod.splits xnext.splits)
qed

text \<open>Two ranges of memory that do not meet.\<close>

definition mem_apart :: "addr \<Rightarrow> nat \<Rightarrow> addr \<Rightarrow> nat \<Rightarrow> bool" where
  "mem_apart a n b m \<longleftrightarrow> n \<le> unat (b - a) \<and> m \<le> unat (a - b)"

lemma apart_byte:
  assumes "mem_apart a l b n" "0 < l" "k < n"
  shows "l \<le> unat (b + of_nat k - a)"
proof -
  define d where "d = b - a"
  have e: "a - b = - d" by (simp add: d_def)
  have d: "l \<le> unat d" "n \<le> unat (- d)" using assms(1) unfolding e [symmetric] by (simp_all add: mem_apart_def d_def)
  then have "d \<noteq> 0" using assms(2) by auto
  then have "unat (- d) = 4294967296 - unat d" using unat_sub_if' [of 0 d] by (simp add: unat_gt_0)
  then have "unat d + k < 4294967296" using d assms(3) by simp
  then have "unat (d + of_nat k) = unat d + k" by (subst unat_plus_if') (simp add: unat_of_nat take_bit_eq_mod)
  moreover have "b + of_nat k - a = d + of_nat k" by (simp add: d_def)
  ultimately show ?thesis using d by (simp only:)
qed

lemma apart_sym: "mem_apart a n b m = mem_apart b m a n"
  by (auto simp: mem_apart_def)

lemma ld32_st32_apart: "mem_apart a 4 b 4 \<Longrightarrow> ld32 (st32 m a v) b = ld32 m b"
  using apart_byte [of a 4 b 4 0] apart_byte [of a 4 b 4 1] apart_byte [of a 4 b 4 2] apart_byte [of a 4 b 4 3]
  by (simp add: ld32_def st32_other)

text \<open>The words \<open>ws\<close> lie in memory from address \<open>a\<close> on.\<close>

definition frame :: "memory \<Rightarrow> addr \<Rightarrow> u32 list \<Rightarrow> bool" where
  "frame m a ws \<longleftrightarrow> (\<forall>k < length ws. ld32 m (a + 4 * of_nat k) = ws ! k)"

lemma frame_Nil [simp]: "frame m a []"
  by (simp add: frame_def)

lemma frame_Cons: "frame m a (w # ws) \<longleftrightarrow> ld32 m a = w \<and> frame m (a + 4) ws"
  by (auto simp: frame_def nth_Cons less_Suc_eq_0_disj algebra_simps)

lemma apart_word:
  assumes "mem_apart a 4 b (4 * n)" "k < n"
  shows "mem_apart a 4 (b + 4 * of_nat k) 4"
proof -
  define d where "d = a - b"
  have nd: "4 * n \<le> unat d" using assms(1) by (simp add: mem_apart_def d_def)
  have x: "4 \<le> unat (b + of_nat (4 * k) - a)" using apart_byte [OF assms(1), of "4 * k"] assms(2) by simp
  have "unat (d - of_nat (4 * k)) = unat d - 4 * k"
  proof -
    have u: "unat d < 4294967296" using unsigned_less [of d] by simp
    have "4 * k < 2 ^ 32" using nd assms(2) u by simp
    then have "unat (of_nat (4 * k) :: addr) = 4 * k" by (rule unat_of_nat32)
    then show ?thesis using nd assms(2) unat_sub_if' [of d "of_nat (4 * k)"] by (simp del: of_nat_mult)
  qed
  then have "4 \<le> unat (d - of_nat (4 * k))" using nd assms(2) by (simp del: of_nat_mult)
  moreover have "a - (b + 4 * of_nat k) = d - of_nat (4 * k)" by (simp add: d_def)
  ultimately show ?thesis using x by (simp only: mem_apart_def of_nat_mult of_nat_numeral)
qed

lemma frame_st32: "frame m b ws \<Longrightarrow> mem_apart a 4 b (4 * length ws) \<Longrightarrow> frame (st32 m a v) b ws"
  unfolding frame_def using apart_word ld32_st32_apart by simp

lemma frame_push:
  assumes "frame m a ws" "length ws \<le> 1000"
  shows "frame (st32 m (a - 4) v) (a - 4) (v # ws)"
proof -
  have "mem_apart (a - 4) 4 a (4 * length ws)" using assms(2) by (simp add: mem_apart_def)
  then show ?thesis using frame_st32 [OF assms(1)] by (simp add: frame_Cons)
qed

lemma ucast_low16 [simp]: "ucast (low16 r v) = v"
proof -
  have "ucast (0xFFFF0000 :: u32) = (0 :: u16)" by simp
  then have "ucast (r AND 0xFFFF0000) = (0 :: u16)" by (simp only: unsigned_and_eq and_zero_eq)
  moreover have "ucast (ucast v :: u32) = v" by (rule bit_eqI) (auto simp: bit_simps dest: bit_imp_le_length)
  ultimately show ?thesis by (simp add: low16_def unsigned_or_eq)
qed

lemma ucast_u16 [simp]: "ucast (ucast x :: u32) = (x :: u16)"
  by (rule bit_eqI) (auto simp: bit_simps dest: bit_imp_le_length)

end
