(* ===== verification/Switch.thy ===== *)
theory Switch
  imports Asm Machine
begin

unbundle bit_operations_syntax

text \<open>
  What the assembly code does.  A process that was switched away from goes on where it was, with the registers that
  the C calling convention preserves; the way into the kernel and back restores every register of the interrupted
  code; a new process starts in \<^verbatim>\<open>forkret\<close> and goes from there to user space.
\<close>

section \<open>Context switches\<close>

text \<open>The memory after \<^verbatim>\<open>swtch\<close> has saved the registers and stored the stack pointer at its first argument.\<close>

definition swtch_mem :: "xmach \<Rightarrow> memory" where
  "swtch_mem s =
     (let e = gpr s ESP;
          m = st32 (st32 (st32 (st32 (xmem s) (e - 4) (gpr s EBP)) (e - 4 - 4) (gpr s EBX)) (e - 4 - 4 - 4) (gpr s ESI)) (e - 4 - 4 - 4 - 4) (gpr s EDI) in
      st32 m (ld32 (xmem s) (e + 4)) (e - 16))"

lemma swtch_run:
  "\<exists>t. run 12 loc swtch 0 s = Ok (Leave (ld32 (swtch_mem s) (ld32 (xmem s) (gpr s ESP + 8) + 16))) t \<and> xmem t = swtch_mem s \<and>
    gpr t EDI = ld32 (swtch_mem s) (ld32 (xmem s) (gpr s ESP + 8)) \<and>
    gpr t ESI = ld32 (swtch_mem s) (ld32 (xmem s) (gpr s ESP + 8) + 4) \<and>
    gpr t EBX = ld32 (swtch_mem s) (ld32 (xmem s) (gpr s ESP + 8) + 8) \<and>
    gpr t EBP = ld32 (swtch_mem s) (ld32 (xmem s) (gpr s ESP + 8) + 12) \<and>
    gpr t ESP = ld32 (xmem s) (gpr s ESP + 8) + 20 \<and> seg t = seg s \<and> ctl t = ctl s \<and> eflags t = eflags s"
proof -
  let ?q = "butlast swtch"
  define t where "t = fold eff ?q s"
  have st: "\<forall>c \<in> set ?q. straight c" by (simp add: swtch_def straight_def eff_def)
  have r: "run (length ?q) loc (?q @ Ret # []) 0 s = Ok (Leave (top32 t)) (drop32 1 t)"
    by (rule run_leave0 [OF st]) (simp add: t_def)
  have q: "?q @ [Ret] = swtch" "length ?q = 12" by (simp_all add: swtch_def)
  have m: "xmem t = swtch_mem s" by (simp add: t_def swtch_def eff_def swtch_mem_def Let_def)
  have g: "gpr t ESP = ld32 (xmem s) (gpr s ESP + 8) + 16" by (simp add: t_def swtch_def eff_def add.assoc)
  have h: "gpr t EDI = ld32 (swtch_mem s) (ld32 (xmem s) (gpr s ESP + 8))"
    "gpr t ESI = ld32 (swtch_mem s) (ld32 (xmem s) (gpr s ESP + 8) + 4)"
    "gpr t EBX = ld32 (swtch_mem s) (ld32 (xmem s) (gpr s ESP + 8) + 8)"
    "gpr t EBP = ld32 (swtch_mem s) (ld32 (xmem s) (gpr s ESP + 8) + 12)"
    unfolding m [symmetric] by (simp_all add: t_def swtch_def eff_def top32_def add.assoc)
  have "seg t = seg s" "ctl t = ctl s" "eflags t = eflags s" by (simp_all add: t_def swtch_def eff_def)
  then show ?thesis using r m g h unfolding q by (simp add: top32_def add.assoc)
qed

lemma apart_sub:
  assumes "mem_apart a n b m" "k + 4 \<le> n"
  shows "mem_apart (a + of_nat k) 4 b m"
proof -
  define d where "d = b - a"
  have d: "n \<le> unat d" "m \<le> unat (- d)" using assms(1) by (simp_all add: mem_apart_def d_def)
  then have "d \<noteq> 0" using assms(2) by auto
  then have "unat (- d) = 4294967296 - unat d" using unat_sub_if' [of 0 d] by (simp add: unat_gt_0)
  moreover have u: "unat d < 4294967296" using unsigned_less [of d] by simp
  have k: "unat (of_nat k :: addr) = k" using d(1) assms(2) u by (intro unat_of_nat32) simp
  then have e: "unat (d - of_nat k) = unat d - k" using d(1) assms(2) by (simp add: unat_sub_if')
  then have "4 \<le> unat (d - of_nat k)" using d(1) assms(2) by simp
  moreover have "m \<le> unat (- (d - of_nat k))"
  proof -
    have "d - of_nat k \<noteq> 0" using e d(1) assms(2) by auto
    then have "unat (- (d - of_nat k)) = 4294967296 - (unat d - k)"
      using unat_sub_if' [of 0 "d - of_nat k"] e d(1) assms(2) by (simp add: unat_gt_0)
    then show ?thesis using d calculation(1) by simp
  qed
  moreover have "b - (a + of_nat k) = d - of_nat k" "a + of_nat k - b = - (d - of_nat k)" by (simp_all add: d_def)
  ultimately show ?thesis by (simp only: mem_apart_def)
qed

text \<open>What \<^verbatim>\<open>swtch\<close> leaves on the stack it switches away from, and that it keeps words elsewhere.\<close>

lemma swtch_saves:
  assumes "mem_apart (ld32 (xmem s) (gpr s ESP + 4)) 4 (gpr s ESP - 16) 20"
  shows "frame (swtch_mem s) (gpr s ESP - 16) [gpr s EDI, gpr s ESI, gpr s EBX, gpr s EBP, ld32 (xmem s) (gpr s ESP)]"
proof -
  let ?e = "gpr s ESP"
  have "frame (xmem s) ?e [ld32 (xmem s) ?e]" by (simp add: frame_Cons)
  then have "frame (st32 (st32 (st32 (st32 (xmem s) (?e - 4) (gpr s EBP)) (?e - 4 - 4) (gpr s EBX)) (?e - 4 - 4 - 4) (gpr s ESI)) (?e - 4 - 4 - 4 - 4) (gpr s EDI))
      (?e - 4 - 4 - 4 - 4) [gpr s EDI, gpr s ESI, gpr s EBX, gpr s EBP, ld32 (xmem s) ?e]"
    by (intro frame_push) simp_all
  moreover have "?e - 4 - 4 - 4 - 4 = ?e - 16" by simp
  ultimately show ?thesis using assms unfolding swtch_mem_def Let_def by (intro frame_st32 [where a = "ld32 (xmem s) (?e + 4)"]) simp_all
qed

lemma swtch_keeps:
  assumes "frame (xmem s) b ws" "mem_apart (gpr s ESP - 16) 16 b (4 * length ws)" "mem_apart (ld32 (xmem s) (gpr s ESP + 4)) 4 b (4 * length ws)"
  shows "frame (swtch_mem s) b ws"
proof -
  have "mem_apart (gpr s ESP - 4) 4 b (4 * length ws)" "mem_apart (gpr s ESP - 4 - 4) 4 b (4 * length ws)"
    "mem_apart (gpr s ESP - 4 - 4 - 4) 4 b (4 * length ws)" "mem_apart (gpr s ESP - 4 - 4 - 4 - 4) 4 b (4 * length ws)"
    using apart_sub [OF assms(2), of 12] apart_sub [OF assms(2), of 8] apart_sub [OF assms(2), of 4] apart_sub [OF assms(2), of 0] by simp_all
  then show ?thesis using assms(1,3) unfolding swtch_mem_def Let_def by (intro frame_st32) simp_all
qed

text \<open>\<^verbatim>\<open>swtch\<close> to a saved context, the five words of \<^verbatim>\<open>struct context\<close>.\<close>

lemma swtch_to:
  assumes "frame (xmem s) (ld32 (xmem s) (gpr s ESP + 8)) [di, si, bx, bp, ip]"
    and "mem_apart (gpr s ESP - 16) 16 (ld32 (xmem s) (gpr s ESP + 8)) 20"
    and "mem_apart (ld32 (xmem s) (gpr s ESP + 4)) 4 (ld32 (xmem s) (gpr s ESP + 8)) 20" and "12 \<le> fuel"
  shows "\<exists>t. run fuel loc swtch 0 s = Ok (Leave ip) t \<and> xmem t = swtch_mem s \<and> gpr t EDI = di \<and> gpr t ESI = si \<and> gpr t EBX = bx \<and>
    gpr t EBP = bp \<and> gpr t ESP = ld32 (xmem s) (gpr s ESP + 8) + 20"
proof -
  have f: "frame (swtch_mem s) (ld32 (xmem s) (gpr s ESP + 8)) [di, si, bx, bp, ip]" using swtch_keeps [OF assms(1)] assms(2,3) by simp
  obtain t where "run 12 loc swtch 0 s = Ok (Leave ip) t \<and> xmem t = swtch_mem s \<and> gpr t EDI = di \<and> gpr t ESI = si \<and> gpr t EBX = bx \<and>
    gpr t EBP = bp \<and> gpr t ESP = ld32 (xmem s) (gpr s ESP + 8) + 20"
    using swtch_run [of loc s] f by (auto simp: frame_Cons add.assoc)
  then show ?thesis using run_more assms(4) by blast
qed

text \<open>
  C10. A context switch is undone by switching back.  \<^verbatim>\<open>swtch(old, new)\<close> stores the address of the saved context at \<open>old\<close>; when
  code on any other stack later calls \<^verbatim>\<open>swtch\<close> with that context, and the five words of it have not been changed in the
  meantime, control returns behind the first call, with the stack pointer after the return and the registers \<^verbatim>\<open>ebx\<close>, \<^verbatim>\<open>esi\<close>,
  \<^verbatim>\<open>edi\<close> and \<^verbatim>\<open>ebp\<close> that the calling convention preserves.
\<close>

theorem swtch_resumes:
  assumes e: "gpr s ESP = e" and a: "mem_apart (ld32 (xmem s) (e + 4)) 4 (e - 16) 20" and f: "12 \<le> fuel"
  shows "\<exists>ip t. run fuel loc swtch 0 s = Ok (Leave ip) t \<and> ld32 (xmem t) (ld32 (xmem s) (e + 4)) = e - 16 \<and>
    (\<forall>u. ld32 (xmem u) (gpr u ESP + 8) = e - 16 \<and> (\<forall>k < 5. ld32 (xmem u) (e - 16 + 4 * of_nat k) = ld32 (xmem t) (e - 16 + 4 * of_nat k)) \<and>
       mem_apart (gpr u ESP - 16) 16 (e - 16) 20 \<and> mem_apart (ld32 (xmem u) (gpr u ESP + 4)) 4 (e - 16) 20 \<longrightarrow>
       (\<exists>v. run fuel loc swtch 0 u = Ok (Leave (ld32 (xmem s) e)) v \<and> gpr v ESP = e + 4 \<and> (\<forall>r \<in> {EBX, ESI, EDI, EBP}. gpr v r = gpr s r)))"
proof -
  obtain ip t where t: "run 12 loc swtch 0 s = Ok (Leave ip) t" "xmem t = swtch_mem s" using swtch_run [of loc s] by blast
  let ?ws = "[gpr s EDI, gpr s ESI, gpr s EBX, gpr s EBP, ld32 (xmem s) e]"
  have fr: "frame (xmem t) (e - 16) ?ws" using swtch_saves [of s] a e t(2) by simp
  have "\<exists>v. run fuel loc swtch 0 u = Ok (Leave (ld32 (xmem s) e)) v \<and> gpr v ESP = e + 4 \<and> (\<forall>r \<in> {EBX, ESI, EDI, EBP}. gpr v r = gpr s r)"
    if n: "ld32 (xmem u) (gpr u ESP + 8) = e - 16" and w: "\<forall>k < 5. ld32 (xmem u) (e - 16 + 4 * of_nat k) = ld32 (xmem t) (e - 16 + 4 * of_nat k)"
      and p: "mem_apart (gpr u ESP - 16) 16 (e - 16) 20" "mem_apart (ld32 (xmem u) (gpr u ESP + 4)) 4 (e - 16) 20" for u
  proof -
    have "frame (xmem u) (e - 16) ?ws" using fr w by (simp add: frame_def)
    then show ?thesis using swtch_to [of u "gpr s EDI" "gpr s ESI" "gpr s EBX" "gpr s EBP" "ld32 (xmem s) e" fuel loc] n p f by auto
  qed
  moreover have "ld32 (xmem t) (ld32 (xmem s) (e + 4)) = e - 16" unfolding t(2) swtch_mem_def Let_def using e by simp
  ultimately show ?thesis using run_more [OF t(1) f] by blast
qed

text \<open>A machine on a kernel stack, about to switch to another context.\<close>

definition mach0 :: xmach where
  "mach0 = \<lparr>gpr = (\<lambda>_. 0)(ESP := 0x80001000, EBX := 1, ESI := 2, EDI := 3, EBP := 4), seg = \<lambda>_. 0, ctl = \<lambda>_. 0, eflags = 0, gdtr = 0,
     xmem = st32 (st32 (st32 (\<lambda>_. 0) 0x80001000 0x80100000) 0x80001004 0x80110000) 0x80001008 0x80002000, xin = \<lambda>_. 0, xreads = 0, xout = []\<rparr>"

text \<open>The other side, with a stack of its own, switching back.\<close>

definition mach1 :: "memory \<Rightarrow> xmach" where
  "mach1 m = \<lparr>gpr = (\<lambda>_. 0)(ESP := 0x80003000), seg = \<lambda>_. 0, ctl = \<lambda>_. 0, eflags = 0, gdtr = 0,
     xmem = st32 (st32 m 0x80003004 0x80120000) 0x80003008 0x80000FF0, xin = \<lambda>_. 0, xreads = 0, xout = []\<rparr>"

theorem swtch_resumes_witness:
  "\<exists>ip t v. run 12 (\<lambda>_. 0) swtch 0 mach0 = Ok (Leave ip) t \<and> ld32 (xmem t) 0x80110000 = 0x80000FF0 \<and>
     run 12 (\<lambda>_. 0) swtch 0 (mach1 (xmem t)) = Ok (Leave 0x80100000) v \<and> gpr v ESP = 0x80001004 \<and> gpr v EBP = 4"
proof -
  have m: "ld32 (xmem mach0) 0x80001004 = 0x80110000" "ld32 (xmem mach0) 0x80001000 = 0x80100000"
    by (simp_all add: mach0_def ld32_st32_apart mem_apart_def)
  obtain ip t where t: "run 12 (\<lambda>_. 0) swtch 0 mach0 = Ok (Leave ip) t" "ld32 (xmem t) 0x80110000 = 0x80000FF0"
    and resume: "\<forall>u. ld32 (xmem u) (gpr u ESP + 8) = 0x80000FF0 \<and> (\<forall>k < 5. ld32 (xmem u) (0x80000FF0 + 4 * of_nat k) = ld32 (xmem t) (0x80000FF0 + 4 * of_nat k)) \<and>
       mem_apart (gpr u ESP - 16) 16 0x80000FF0 20 \<and> mem_apart (ld32 (xmem u) (gpr u ESP + 4)) 4 0x80000FF0 20 \<longrightarrow>
       (\<exists>v. run 12 (\<lambda>_. 0) swtch 0 u = Ok (Leave 0x80100000) v \<and> gpr v ESP = 0x80001004 \<and> (\<forall>r \<in> {EBX, ESI, EDI, EBP}. gpr v r = gpr mach0 r))"
    using swtch_resumes [of mach0 "0x80001000" 12 "\<lambda>_. 0"] m by (auto simp: mach0_def mem_apart_def)
  let ?u = "mach1 (xmem t)"
  have "frame (xmem ?u) 0x80000FF0 (map (\<lambda>k. ld32 (xmem t) (0x80000FF0 + 4 * of_nat k)) [0..<5])"
    unfolding mach1_def by simp (intro frame_st32; simp add: frame_def mem_apart_def)
  then have "\<forall>k < 5. ld32 (xmem ?u) (0x80000FF0 + 4 * of_nat k) = ld32 (xmem t) (0x80000FF0 + 4 * of_nat k)" by (simp add: frame_def)
  moreover have "ld32 (xmem ?u) 0x80003008 = 0x80000FF0" "ld32 (xmem ?u) 0x80003004 = 0x80120000" "gpr ?u ESP = 0x80003000"
    by (simp_all add: mach1_def ld32_st32_apart mem_apart_def)
  ultimately obtain v where "run 12 (\<lambda>_. 0) swtch 0 ?u = Ok (Leave 0x80100000) v" "gpr v ESP = 0x80001004" "gpr v EBP = gpr mach0 EBP"
    using resume [rule_format, of ?u] by (auto simp: mem_apart_def)
  then show ?thesis using t by (auto simp: mach0_def)
qed

section \<open>Traps\<close>

text \<open>
  What the processor does on trap or interrupt: from user code it switches to the stack \<open>esp0\<close> of the task state; it pushes the
  flags, the code segment and the address \<open>eip\<close> to return to, for some traps an error code too; an interrupt gate clears the
  interrupt flag, a trap gate does not.
\<close>

definition interrupt :: "bool \<Rightarrow> addr \<Rightarrow> u32 option \<Rightarrow> addr \<Rightarrow> xmach \<Rightarrow> xmach" where
  "interrupt gate esp0 err eip s =
     (let s1 = (if seg s CS AND 3 \<noteq> 0
                then push (gpr s ESP) (push (ucast (seg s SS)) (set_reg ESP esp0 (set_seg SS (of_nat (SEG_KDATA * 8)) s)))
                else s);
          s2 = push eip (push (ucast (seg s CS)) (push (eflags s) s1));
          s3 = (case err of None \<Rightarrow> s2 | Some c \<Rightarrow> push c s2) in
      (set_seg CS (of_nat (SEG_KCODE * 8)) s3)\<lparr>eflags := (if gate then eflags s else eflags s AND 0xFFFFFDFF)\<rparr>)"

text \<open>The fields of \<^verbatim>\<open>struct trapframe\<close> for the interrupted code; \<open>oesp\<close> is not used.\<close>

definition tf_words :: "nat \<Rightarrow> u32 option \<Rightarrow> addr \<Rightarrow> u32 \<Rightarrow> xmach \<Rightarrow> u32 list" where
  "tf_words n err eip oesp s =
     [gpr s EDI, gpr s ESI, gpr s EBP, oesp, gpr s EBX, gpr s EDX, gpr s ECX, gpr s EAX,
      ucast (seg s GS), ucast (seg s FS), ucast (seg s ES), ucast (seg s DS), of_nat n,
      (case err of None \<Rightarrow> 0 | Some c \<Rightarrow> c), eip, ucast (seg s CS), eflags s] @
     (if seg s CS AND 3 \<noteq> 0 then [gpr s ESP, ucast (seg s SS)] else [])"

definition stk :: "xmach \<Rightarrow> u32 list \<Rightarrow> bool" where
  "stk s ws \<longleftrightarrow> frame (xmem s) (gpr s ESP) ws \<and> length ws \<le> 50"

lemma stk_push: "stk s ws \<Longrightarrow> length ws < 50 \<Longrightarrow> stk (push v s) (v # ws)"
  using frame_push [of "xmem s" "gpr s ESP" ws v] by (simp add: stk_def)

lemma stk_same [simp]:
  "r \<noteq> ESP \<Longrightarrow> stk (set_reg r v s) ws = stk s ws" "stk (set_seg q w s) ws = stk s ws" "stk (s\<lparr>eflags := f\<rparr>) ws = stk s ws"
  by (simp_all add: stk_def)

text \<open>The state in which \<^verbatim>\<open>alltraps\<close> is entered.\<close>

lemma vector_run:
  assumes "(err = None) = (\<not> has_err n)"
  shows "\<exists>b. run 2 loc (vector al n) 0 (interrupt gate esp0 err eip s) = Ok (Leave al) b \<and>
    stk b (drop 12 (tf_words n err eip oesp s)) \<and> (\<forall>r. r \<noteq> ESP \<longrightarrow> gpr b r = gpr s r) \<and> (\<forall>r. r \<noteq> CS \<and> r \<noteq> SS \<longrightarrow> seg b r = seg s r) \<and>
    seg b CS = of_nat (SEG_KCODE * 8) \<and> (seg s CS AND 3 = 0 \<longrightarrow> seg b SS = seg s SS \<and> gpr b ESP = gpr s ESP - 20)"
proof -
  define i where "i = interrupt gate esp0 err eip s"
  define b where "b = push (of_nat n) (if has_err n then i else push 0 i)"
  have "run 2 loc (vector al n) 0 i = Ok (Leave al) b"
    by (simp add: vector_def b_def exec_step eval_nat_numeral)
  moreover have "stk b (drop 12 (tf_words n err eip oesp s))"
    unfolding b_def i_def interrupt_def Let_def using assms
    by (auto simp: tf_words_def intro!: stk_push split: option.splits) (simp_all add: stk_def)
  moreover have "\<forall>r. r \<noteq> ESP \<longrightarrow> gpr b r = gpr s r" "\<forall>r. r \<noteq> CS \<and> r \<noteq> SS \<longrightarrow> seg b r = seg s r" "seg b CS = of_nat (SEG_KCODE * 8)"
    "seg s CS AND 3 = 0 \<longrightarrow> seg b SS = seg s SS \<and> gpr b ESP = gpr s ESP - 20"
    using assms by (auto simp: b_def i_def interrupt_def Let_def split: option.splits)
  ultimately show ?thesis unfolding i_def by blast
qed

lemma pushal_sel [simp]: "gpr (pushal_regs s) = (gpr s)(ESP := gpr s ESP - 32)" "seg (pushal_regs s) = seg s"
  by (simp_all add: pushal_regs_def)

text \<open>\<^verbatim>\<open>alltraps\<close> up to the call of \<^verbatim>\<open>trap\<close>.\<close>

lemma alltraps_run:
  assumes "stk b ws" "length ws \<le> 30"
  shows "\<exists>t. run 12 loc (alltraps tr) 0 b = Ok (Leave tr) t \<and>
    stk t (loc after_trap # (gpr t ESP + 8) # gpr b EDI # gpr b ESI # gpr b EBP # (gpr t ESP + 40) # gpr b EBX # gpr b EDX # gpr b ECX # gpr b EAX #
      ucast (seg b GS) # ucast (seg b FS) # ucast (seg b ES) # ucast (seg b DS) # ws) \<and>
    gpr t ESP = gpr b ESP - 56 \<and> seg t CS = seg b CS \<and> seg t SS = seg b SS"
proof -
  let ?q = "take 12 (alltraps tr)" and ?r = "drop 13 (alltraps tr)"
  have st: "\<forall>c \<in> set ?q. straight c" by (simp add: alltraps_def straight_def eff_def)
  have sp: "alltraps tr = ?q @ Calls tr # ?r" "length ?q = 12" by (simp_all add: alltraps_def)
  define f where "f = fold eff ?q b"
  define t where "t = push (loc after_trap) f"
  have run: "run 12 loc (alltraps tr) 0 b = Ok (Leave tr) t"
    using run_leave0 [OF st, of loc "Calls tr" b tr t ?r] sp by (simp add: f_def [symmetric] t_def after_trap_def)
  define p where "p = push (ucast (seg b GS)) (push (ucast (seg b FS)) (push (ucast (seg b ES)) (push (ucast (seg b DS)) b)))"
  have p: "stk p (ucast (seg b GS) # ucast (seg b FS) # ucast (seg b ES) # ucast (seg b DS) # ws)"
    unfolding p_def using assms by (auto intro!: stk_push)
  have pg: "r \<noteq> ESP \<Longrightarrow> gpr p r = gpr b r" "gpr p ESP = gpr b ESP - 16" for r by (simp_all add: p_def)
  have a: "stk (pushal_regs p) (gpr b EDI # gpr b ESI # gpr b EBP # gpr p ESP # gpr b EBX # gpr b EDX # gpr b ECX # gpr b EAX #
      ucast (seg b GS) # ucast (seg b FS) # ucast (seg b ES) # ucast (seg b DS) # ws)"
    unfolding pushal_regs_def using p assms(2) by (auto simp: pg intro!: stk_push)
  have fp: "f = fold eff (drop 4 ?q) p" by (simp add: f_def alltraps_def eff_def p_def)
  have f: "f = push (gpr p ESP - 32) (fold eff [Movw (of_nat (SEG_KDATA * 8)) EAX, Movs EAX DS, Movs EAX ES, Movw (of_nat (SEG_KCPU * 8)) EAX, Movs EAX FS, Movs EAX GS] (pushal_regs p))"
    unfolding fp by (simp add: alltraps_def eff_def)
  have fg: "gpr f ESP = gpr p ESP - 36" "seg f CS = seg b CS" "seg f SS = seg b SS"
    unfolding f by (simp_all add: eff_def p_def)
  have fs: "stk f ((gpr p ESP - 32) # gpr b EDI # gpr b ESI # gpr b EBP # gpr p ESP # gpr b EBX # gpr b EDX # gpr b ECX # gpr b EAX #
      ucast (seg b GS) # ucast (seg b FS) # ucast (seg b ES) # ucast (seg b DS) # ws)"
    unfolding f using a assms(2) by (auto simp: eff_def intro!: stk_push)
  then have "stk t (loc after_trap # (gpr p ESP - 32) # gpr b EDI # gpr b ESI # gpr b EBP # gpr p ESP # gpr b EBX # gpr b EDX # gpr b ECX # gpr b EAX #
      ucast (seg b GS) # ucast (seg b FS) # ucast (seg b ES) # ucast (seg b DS) # ws)"
    unfolding t_def using assms(2) by (intro stk_push) simp_all
  moreover have "gpr t ESP + 8 = gpr p ESP - 32" "gpr t ESP + 40 = gpr p ESP" "gpr t ESP = gpr b ESP - 56" "seg t CS = seg b CS" "seg t SS = seg b SS"
    using fg pg by (simp_all add: t_def)
  ultimately show ?thesis using run by auto
qed

text \<open>The way back, from the return of \<^verbatim>\<open>trap\<close> or from the label \<^verbatim>\<open>trapret\<close>, over a frame in memory.\<close>

lemma trapret_run:
  assumes fr: "frame (xmem u) (gpr u ESP) ([di, si, bp, x, bx, dx, cx, ax, ucast gs, ucast fs, ucast es, ucast ds, y, z, ip, ucast cs, fl] @ (if cs AND 3 \<noteq> 0 then [sp, ucast ss] else []))"
    and k: "seg u CS AND 3 = 0" "cs AND 3 = 0 \<Longrightarrow> sp = gpr u ESP + 68 \<and> ss = seg u SS"
  shows "\<exists>w. run 6 loc (alltraps tr) trapret u = Ok (Leave ip) w \<and> xmem w = xmem u \<and> eflags w = fl \<and>
    gpr w EDI = di \<and> gpr w ESI = si \<and> gpr w EBP = bp \<and> gpr w EBX = bx \<and> gpr w EDX = dx \<and> gpr w ECX = cx \<and> gpr w EAX = ax \<and> gpr w ESP = sp \<and>
    seg w GS = gs \<and> seg w FS = fs \<and> seg w ES = es \<and> seg w DS = ds \<and> seg w CS = cs \<and> seg w SS = ss"
proof -
  let ?p = "take 14 (alltraps tr)" and ?q = "[Popal, Pops GS, Pops FS, Pops ES, Pops DS, Addl 8 ESP]"
  define f where "f = fold eff ?q u"
  have st: "\<forall>c \<in> set ?q. straight c" by (simp add: straight_def eff_def)
  have sp: "?p @ ?q @ Iret # [] = alltraps tr" "length ?p = trapret" by (simp_all add: alltraps_def trapret_def)
  have l: "length ?q = 6" by simp
  have run: "run 6 loc (alltraps tr) trapret u = Ok (Leave (top32 f)) (iret_regs f)"
    using run_leave [OF st, of loc ?p Iret u "top32 f" "iret_regs f" "[]"] unfolding sp l f_def by simp
  let ?w = "\<lambda>k. ld32 (xmem u) (gpr u ESP + 4 * k)"
  have ld: "?w 0 = di" "?w 1 = si" "?w 2 = bp" "?w 4 = bx" "?w 5 = dx" "?w 6 = cx" "?w 7 = ax" "?w 8 = ucast gs" "?w 9 = ucast fs" "?w 10 = ucast es"
    "?w 11 = ucast ds" "?w 14 = ip" "?w 15 = ucast cs" "?w 16 = fl"
    using fr by (simp_all add: frame_Cons add.assoc)
  have ld2: "cs AND 3 \<noteq> 0 \<Longrightarrow> ?w 17 = sp \<and> ?w 18 = ucast ss" using fr by (simp add: frame_Cons add.assoc)
  have f: "xmem f = xmem u" "gpr f ESP = gpr u ESP + 56" "gpr f EDI = di" "gpr f ESI = si" "gpr f EBP = bp" "gpr f EBX = bx" "gpr f EDX = dx" "gpr f ECX = cx" "gpr f EAX = ax"
    "seg f GS = gs" "seg f FS = fs" "seg f ES = es" "seg f DS = ds" "seg f CS = seg u CS" "seg f SS = seg u SS"
    using ld by (simp_all add: f_def eff_def popal_regs_def Let_def top32_def add.assoc)
  have top: "top32 f = ip" "ld32 (xmem f) (gpr f ESP + 4) = ucast cs" "ld32 (xmem f) (gpr f ESP + 8) = fl"
    using ld f(1,2) by (simp_all add: top32_def add.assoc)
  have top2: "cs AND 3 \<noteq> 0 \<Longrightarrow> ld32 (xmem f) (gpr f ESP + 12) = sp \<and> ld32 (xmem f) (gpr f ESP + 16) = ucast ss"
    using ld2 f(1,2) by (simp add: add.assoc)
  have "gpr (iret_regs f) ESP = sp" "seg (iret_regs f) SS = ss" "seg (iret_regs f) CS = cs" "eflags (iret_regs f) = fl" "xmem (iret_regs f) = xmem u"
    "\<And>r. r \<noteq> ESP \<Longrightarrow> gpr (iret_regs f) r = gpr f r" "\<And>r. r \<noteq> CS \<Longrightarrow> r \<noteq> SS \<Longrightarrow> seg (iret_regs f) r = seg f r"
    using top top2 f k by (cases "cs AND 3 = 0"; simp add: iret_regs_def Let_def add.assoc)+
  then show ?thesis using run f top(1) by simp
qed

text \<open>
  C9. A trap is transparent to the code it interrupts.  Whatever the trap and whether user or kernel code is interrupted, the entry
  code calls \<^verbatim>\<open>trap\<close> with a pointer to a trap frame that has every register of the interrupted code and the trap number in the
  fields of \<^verbatim>\<open>struct trapframe\<close>; and when \<^verbatim>\<open>trap\<close> returns, with the frame as it was except that the field \<^verbatim>\<open>eax\<close> may hold a result \<open>v\<close>,
  the interrupted code goes on at the address where it was, with every register, segment and flag as before, and \<open>v\<close> in \<^verbatim>\<open>eax\<close>.
\<close>

theorem trap_transparent:
  assumes err: "(err = None) = (\<not> has_err n)" and fuel: "12 \<le> fuel"
  shows "\<exists>b t. run fuel loc (vector al n) 0 (interrupt gate esp0 err eip s) = Ok (Leave al) b \<and> run fuel loc' (alltraps tr) 0 b = Ok (Leave tr) t \<and>
    frame (xmem t) (gpr t ESP) ([loc' after_trap, gpr t ESP + 8] @ tf_words n err eip (gpr t ESP + 40) s) \<and>
    (\<forall>u v. gpr u ESP = gpr t ESP + 4 \<and> seg u CS = seg t CS \<and> seg u SS = seg t SS \<and>
       frame (xmem u) (gpr t ESP + 8) ((tf_words n err eip (gpr t ESP + 40) s)[7 := v]) \<longrightarrow>
       (\<exists>w. run fuel loc' (alltraps tr) after_trap u = Ok (Leave eip) w \<and> gpr w = (gpr s)(EAX := v) \<and> seg w = seg s \<and> eflags w = eflags s \<and> xmem w = xmem u))"
proof -
  let ?F = "\<lambda>x. tf_words n err eip x s"
  obtain b where b: "run 2 loc (vector al n) 0 (interrupt gate esp0 err eip s) = Ok (Leave al) b" "stk b (drop 12 (?F 0))"
      "\<forall>r. r \<noteq> ESP \<longrightarrow> gpr b r = gpr s r" "\<forall>r. r \<noteq> CS \<and> r \<noteq> SS \<longrightarrow> seg b r = seg s r" "seg b CS = of_nat (SEG_KCODE * 8)"
      "seg s CS AND 3 = 0 \<longrightarrow> seg b SS = seg s SS \<and> gpr b ESP = gpr s ESP - 20"
    using vector_run [OF err, of loc al gate esp0 eip s 0] by blast
  have "length (drop 12 (?F 0)) \<le> 30" by (simp add: tf_words_def)
  then obtain t where t: "run 12 loc' (alltraps tr) 0 b = Ok (Leave tr) t"
      "stk t (loc' after_trap # (gpr t ESP + 8) # gpr b EDI # gpr b ESI # gpr b EBP # (gpr t ESP + 40) # gpr b EBX # gpr b EDX # gpr b ECX # gpr b EAX #
      ucast (seg b GS) # ucast (seg b FS) # ucast (seg b ES) # ucast (seg b DS) # drop 12 (?F 0))"
      "gpr t ESP = gpr b ESP - 56" "seg t CS = seg b CS" "seg t SS = seg b SS"
    using alltraps_run [OF b(2)] by blast
  have fr: "frame (xmem t) (gpr t ESP) ([loc' after_trap, gpr t ESP + 8] @ ?F (gpr t ESP + 40))"
    using t(2) b(3,4) by (simp add: stk_def tf_words_def)
  have "\<exists>w. run fuel loc' (alltraps tr) after_trap u = Ok (Leave eip) w \<and> gpr w = (gpr s)(EAX := v) \<and> seg w = seg s \<and> eflags w = eflags s \<and> xmem w = xmem u"
    if u: "gpr u ESP = gpr t ESP + 4" "seg u CS = seg t CS" "seg u SS = seg t SS" "frame (xmem u) (gpr t ESP + 8) ((?F (gpr t ESP + 40))[7 := v])" for u v
  proof -
    define u' where "u' = eff (Addl 4 ESP) u"
    have u': "gpr u' ESP = gpr t ESP + 8" "seg u' = seg u" "xmem u' = xmem u" using u(1) by (simp_all add: u'_def eff_def)
    have "frame (xmem u') (gpr u' ESP) ([gpr s EDI, gpr s ESI, gpr s EBP, gpr t ESP + 40, gpr s EBX, gpr s EDX, gpr s ECX, v, ucast (seg s GS), ucast (seg s FS),
        ucast (seg s ES), ucast (seg s DS), of_nat n, (case err of None \<Rightarrow> 0 | Some c \<Rightarrow> c), eip, ucast (seg s CS), eflags s] @
        (if seg s CS AND 3 \<noteq> 0 then [gpr s ESP, ucast (seg s SS)] else []))"
      using u(4) unfolding u'(1,3) by (simp add: tf_words_def)
    moreover have "seg u' CS AND 3 = 0" using u(2) t(4) b(5) u'(2) by (simp add: SEG_KCODE_def)
    moreover have "seg s CS AND 3 = 0 \<Longrightarrow> gpr s ESP = gpr u' ESP + 68 \<and> seg s SS = seg u' SS" using b(6) t(3,5) u(3) u' by simp
    ultimately obtain w where w: "run 6 loc' (alltraps tr) trapret u' = Ok (Leave eip) w" "xmem w = xmem u'" "eflags w = eflags s"
        "gpr w EDI = gpr s EDI" "gpr w ESI = gpr s ESI" "gpr w EBP = gpr s EBP" "gpr w EBX = gpr s EBX" "gpr w EDX = gpr s EDX" "gpr w ECX = gpr s ECX" "gpr w EAX = v" "gpr w ESP = gpr s ESP"
        "seg w GS = seg s GS" "seg w FS = seg s FS" "seg w ES = seg s ES" "seg w DS = seg s DS" "seg w CS = seg s CS" "seg w SS = seg s SS"
      using trapret_run [of u' "gpr s EDI" "gpr s ESI" "gpr s EBP" "gpr t ESP + 40" "gpr s EBX" "gpr s EDX" "gpr s ECX" v "seg s GS" "seg s FS" "seg s ES" "seg s DS"
        "of_nat n" "case err of None \<Rightarrow> 0 | Some c \<Rightarrow> c" eip "seg s CS" "eflags s" "gpr s ESP" "seg s SS" loc' tr] by blast
    have "gpr w r = ((gpr s)(EAX := v)) r" for r using w(4-11) by (cases r) simp_all
    moreover have "seg w r = seg s r" for r using w(12-17) by (cases r) simp_all
    moreover have "run 7 loc' (alltraps tr) after_trap u = run 6 loc' (alltraps tr) trapret u'"
      using exec_step(1) [of after_trap "alltraps tr" loc' u trapret u' 6] by (simp add: alltraps_def after_trap_def trapret_def u'_def eff_def)
    ultimately show ?thesis using w(1,2,3) u'(3) run_more [of 7 loc' "alltraps tr" after_trap u "Leave eip" w fuel] fuel by fastforce
  qed
  then show ?thesis using fr run_more [OF b(1)] run_more [OF t(1)] fuel by fastforce
qed

text \<open>User code with selectors of privilege 3.\<close>

definition user0 :: xmach where
  "user0 = mach0\<lparr>seg := (\<lambda>_. 0x2B)(CS := 0x23), gpr := (\<lambda>_. 0)(EAX := 7, EBX := 8, ESP := 0x3000), eflags := 0x200\<rparr>"

text \<open>The return of \<^verbatim>\<open>trap\<close> after it has stored \<open>v\<close> in the frame as the result of the system call.\<close>

definition trap_done :: "u32 \<Rightarrow> xmach \<Rightarrow> xmach" where
  "trap_done v t = drop32 1 (t\<lparr>xmem := st32 (xmem t) (gpr t ESP + 8 + TF_EAX) v\<rparr>)"

lemma frame_append: "frame m a (xs @ ys) \<longleftrightarrow> frame m a xs \<and> frame m (a + 4 * of_nat (length xs)) ys"
  by (induction xs arbitrary: a) (simp_all add: frame_Cons algebra_simps)

lemma frame_eax:
  assumes "frame m a ws" "8 \<le> length ws" "length ws \<le> 100"
  shows "frame (st32 m (a + 28) v) a (ws[7 := v])"
proof -
  have w: "ws = take 7 ws @ ws ! 7 # drop 8 ws" "length (take 7 ws) = 7" using assms(2) id_take_nth_drop [of 7 ws] by simp_all
  have n: "ws[7 := v] = take 7 ws @ v # drop 8 ws" using assms(2) by (simp add: upd_conv_take_nth_drop)
  have "frame m a (take 7 ws @ ws ! 7 # drop 8 ws)" using assms(1) w(1) by simp
  then have "frame m a (take 7 ws)" "frame m (a + 32) (drop 8 ws)" using w(2) by (auto simp: frame_append frame_Cons add.assoc)
  then have "frame (st32 m (a + 28) v) a (take 7 ws)" "frame (st32 m (a + 28) v) (a + 32) (drop 8 ws)"
    using assms(3) w(2) by (auto simp: mem_apart_def intro!: frame_st32)
  then show ?thesis unfolding n using w(2) by (simp add: frame_append frame_Cons add.assoc)
qed

theorem trap_transparent_witness:
  "\<exists>b t w. run 12 (\<lambda>_. 0) (vector 0x80105500 64) 0 (interrupt True 0x80400000 None 0x1234 user0) = Ok (Leave 0x80105500) b \<and>
     run 12 (\<lambda>_. 0) (alltraps 0x80105900) 0 b = Ok (Leave 0x80105900) t \<and>
     run 12 (\<lambda>_. 0) (alltraps 0x80105900) after_trap (trap_done 3 t) = Ok (Leave 0x1234) w \<and> gpr w EAX = 3 \<and> gpr w EBX = 8 \<and> gpr w ESP = 0x3000 \<and> seg w CS = 0x23"
proof -
  let ?ws = "\<lambda>t. tf_words 64 None 0x1234 (gpr t ESP + 40) user0"
  obtain b t where t: "run 12 (\<lambda>_. 0) (vector 0x80105500 64) 0 (interrupt True 0x80400000 None 0x1234 user0) = Ok (Leave 0x80105500) b"
      "run 12 (\<lambda>_. 0) (alltraps 0x80105900) 0 b = Ok (Leave 0x80105900) t" "frame (xmem t) (gpr t ESP) ([0, gpr t ESP + 8] @ ?ws t)"
    and ret: "\<forall>u v. gpr u ESP = gpr t ESP + 4 \<and> seg u CS = seg t CS \<and> seg u SS = seg t SS \<and> frame (xmem u) (gpr t ESP + 8) ((?ws t)[7 := v]) \<longrightarrow>
       (\<exists>w. run 12 (\<lambda>_. 0) (alltraps 0x80105900) after_trap u = Ok (Leave 0x1234) w \<and> gpr w = (gpr user0)(EAX := v) \<and> seg w = seg user0 \<and> eflags w = eflags user0 \<and> xmem w = xmem u)"
    using trap_transparent [of None 64 12 "\<lambda>_. 0" "0x80105500" True "0x80400000" "0x1234" user0 "\<lambda>_. 0" "0x80105900"] by (auto simp: has_err_def)
  have "frame (xmem t) (gpr t ESP + 8) (?ws t)" using t(3) by (simp add: frame_Cons add.assoc)
  then have "frame (st32 (xmem t) (gpr t ESP + 8 + 28) 3) (gpr t ESP + 8) ((?ws t)[7 := 3])" by (rule frame_eax) (simp_all add: tf_words_def)
  then have "frame (xmem (trap_done 3 t)) (gpr t ESP + 8) ((?ws t)[7 := 3])" by (simp add: trap_done_def TF_EAX_def)
  moreover have "gpr (trap_done 3 t) ESP = gpr t ESP + 4" "seg (trap_done 3 t) = seg t" by (simp_all add: trap_done_def)
  ultimately obtain w where "run 12 (\<lambda>_. 0) (alltraps 0x80105900) after_trap (trap_done 3 t) = Ok (Leave 0x1234) w" "gpr w = (gpr user0)(EAX := 3)" "seg w = seg user0"
    using ret [rule_format, of "trap_done 3 t" 3] by auto
  then show ?thesis using t(1,2) by (auto simp: user0_def)
qed

section \<open>New processes\<close>

text \<open>The context that \<^verbatim>\<open>allocproc\<close> builds below the trap frame.\<close>

lemma new_context:
  "frame (st32 (memset (st32 m (a + 20) r) a 0 20) (a + 16) f) a [0, 0, 0, 0, f, r]"
proof -
  let ?M = "memset (st32 m (a + 20) r) a 0 20"
  have z: "ld32 ?M a = 0" "ld32 ?M (a + 4) = 0" "ld32 ?M (a + 8) = 0" "ld32 ?M (a + 12) = 0"
    by (simp_all add: ld32_def memset_apply add.assoc word_of_bytes_def)
  have r: "ld32 ?M (a + 20) = ld32 (st32 m (a + 20) r) (a + 20)" by (simp add: ld32_def memset_apply add.assoc)
  show ?thesis using z r by (simp add: frame_Cons add.assoc ld32_st32_apart mem_apart_def)
qed

lemma new_context_else:
  assumes "mem_apart b 4 a 24"
  shows "ld32 (st32 (memset (st32 m (a + 20) r) a 0 20) (a + 16) f) b = ld32 m b"
proof -
  have p: "mem_apart a 24 b 4" using assms by (simp add: apart_sym)
  have "mem_apart (a + 16) 4 b 4" "mem_apart (a + 20) 4 b 4" using apart_sub [OF p, of 16] apart_sub [OF p, of 20] by simp_all
  moreover have "24 \<le> unat (b - a)" "24 \<le> unat (b + 1 - a)" "24 \<le> unat (b + 2 - a)" "24 \<le> unat (b + 3 - a)"
    using apart_byte [OF p, of 0] apart_byte [OF p, of 1] apart_byte [OF p, of 2] apart_byte [OF p, of 3] by simp_all
  then have "ld32 (memset (st32 m (a + 20) r) a 0 20) b = ld32 (st32 m (a + 20) r) b" by (simp add: ld32_def memset_apply)
  ultimately show ?thesis by (simp add: ld32_st32_apart)
qed

text \<open>
  C14. A new process starts in \<^verbatim>\<open>forkret\<close>.  After \<^verbatim>\<open>allocproc\<close>, a switch from any other stack to the context of the process goes to
  \<^verbatim>\<open>forkret\<close>, on the stack of the process, with the address of \<^verbatim>\<open>trapret\<close> as the return address: a return from there goes to
  \<^verbatim>\<open>trapret\<close> with the stack pointer at the trap frame of the process.  The context is at the upper end of the new stack, and \<^verbatim>\<open>allocproc\<close>
  writes nowhere else.
\<close>

theorem new_process_starts:
  assumes "cpu_shallow (mycpu s)" "lock_free (locks s PtableLock)" "lock_free (locks s KmemLock)" "freelist s \<noteq> 0"
    and "find_index (\<lambda>p. state p = UNUSED) (ptable s) = Some i" "stride \<noteq> 0" and fuel: "12 \<le> fuel"
  shows "\<exists>t. allocproc stride s = Ok (Some i) t \<and> ctx (ptable t ! i) = freelist s + of_nat KSTACKSIZE - 100 \<and>
    (\<forall>b. mem_apart b 4 (ctx (ptable t ! i)) 24 \<longrightarrow> ld32 (mem t) b = ld32 (mem s) b) \<and>
    (\<forall>u. xmem u = mem t \<and> ld32 (mem t) (gpr u ESP + 8) = ctx (ptable t ! i) \<and>
       mem_apart (gpr u ESP - 16) 16 (ctx (ptable t ! i)) 24 \<and> mem_apart (ld32 (mem t) (gpr u ESP + 4)) 4 (ctx (ptable t ! i)) 24 \<longrightarrow>
       (\<exists>v w. run fuel loc swtch 0 u = Ok (Leave (sym_forkret s)) v \<and> exec1 loc' j Ret v = (Leave (sym_trapret s), w) \<and> gpr w ESP = tf (ptable t ! i)))"
proof -
  have i: "i < length (ptable s)" using find_index_le_length [OF assms(5)] .
  have k: "kmem_ready u" if "mycpu u = saved (mycpu s)" "locks u = locks s" for u :: "'a kproc_scheme"
    using assms(1,3) that by (simp add: kmem_ready_def)
  let ?a = "3996 + freelist s"
  obtain t where t: "allocproc stride s = Ok (Some i) t" "ctx (ptable t ! i) = ?a" "tf (ptable t ! i) = ?a + 24"
      "mem t = st32 (memset (st32 (mem s) (?a + 20) (sym_trapret s)) ?a 0 20) (?a + 16) (sym_forkret s)"
    using assms i by (cases "use_lock s")
      (auto simp: allocproc_def kop lock_rules upd_proc_def kalloc_eq k Let_def store32_def fill_def kmem_lock_fx_def sizeof_context_def sizeof_trapframe_def KSTACKSIZE_def)
  have fr: "frame (mem t) ?a [0, 0, 0, 0, sym_forkret s, sym_trapret s]" unfolding t(4) by (rule new_context)
  have "\<exists>v w. run fuel loc swtch 0 u = Ok (Leave (sym_forkret s)) v \<and> exec1 loc' j Ret v = (Leave (sym_trapret s), w) \<and> gpr w ESP = tf (ptable t ! i)"
    if u: "xmem u = mem t" "ld32 (mem t) (gpr u ESP + 8) = ?a" "mem_apart (gpr u ESP - 16) 16 ?a 24" "mem_apart (ld32 (mem t) (gpr u ESP + 4)) 4 ?a 24" for u
  proof -
    have k6: "frame (swtch_mem u) ?a [0, 0, 0, 0, sym_forkret s, sym_trapret s]" using swtch_keeps [of u ?a] fr u by simp
    have p: "mem_apart (gpr u ESP - 16) 16 ?a 20" "mem_apart (ld32 (mem t) (gpr u ESP + 4)) 4 ?a 20" using u(3,4) by (simp_all add: mem_apart_def)
    have "frame (mem t) ?a [0, 0, 0, 0, sym_forkret s]" using fr by (simp add: frame_Cons)
    then obtain v where v: "run fuel loc swtch 0 u = Ok (Leave (sym_forkret s)) v" "xmem v = swtch_mem u" "gpr v ESP = ?a + 20"
      using swtch_to [of u 0 0 0 0 "sym_forkret s" fuel loc] u(1,2) p fuel by auto
    have "top32 v = sym_trapret s" using k6 v(2,3) by (simp add: top32_def frame_Cons add.assoc)
    moreover have "gpr (drop32 1 v) ESP = tf (ptable t ! i)" using v(3) t(3) by simp
    ultimately show ?thesis using v(1) by simp
  qed
  moreover have "ld32 (mem t) b = ld32 (mem s) b" if "mem_apart b 4 ?a 24" for b unfolding t(4) by (rule new_context_else [OF that])
  moreover have "?a = freelist s + of_nat KSTACKSIZE - 100" by (simp add: KSTACKSIZE_def)
  ultimately show ?thesis using t(1,2) by auto
qed

text \<open>The side of the scheduler: a stack that holds the arguments of the call.\<close>

definition sched_mach :: "memory \<Rightarrow> xmach" where
  "sched_mach m = mach0\<lparr>gpr := (\<lambda>_. 0)(ESP := 0x80001000), xmem := m\<rparr>"

definition sys1 :: ksys where
  "sys1 = sys0\<lparr>freelist := 0x80700000, mem := st32 (st32 (\<lambda>_. 0) 0x80001004 0x80110000) 0x80001008 0x80700F9C\<rparr>"

theorem new_process_starts_witness:
  "\<exists>t v w. allocproc 10 sys1 = Ok (Some 1) t \<and> run 12 (\<lambda>_. 0) swtch 0 (sched_mach (mem t)) = Ok (Leave 0x80103f00) v \<and>
     exec1 (\<lambda>_. 0) 0 Ret v = (Leave 0x80105c00, w)"
proof -
  have "find_index (\<lambda>p. state p = UNUSED) (ptable sys1) = Some 1" by (simp add: sys1_def sys0_def init0_def NPROC_def proc0_def eval_nat_numeral)
  moreover have "freelist sys1 + of_nat KSTACKSIZE - 100 = 0x80700F9C" "freelist sys1 \<noteq> 0" by (simp_all add: sys1_def KSTACKSIZE_def)
  moreover have "cpu_shallow (mycpu sys1)" "lock_free (locks sys1 PtableLock)" "lock_free (locks sys1 KmemLock)"
    by (simp_all add: sys1_def cpu_shallow_def cpu_ok_def cpu0_def lock0_def lock_free_def)
  ultimately obtain t where t: "allocproc 10 sys1 = Ok (Some 1) t" "ctx (ptable t ! 1) = 0x80700F9C"
      "\<forall>b. mem_apart b 4 0x80700F9C 24 \<longrightarrow> ld32 (mem t) b = ld32 (mem sys1) b"
    and go: "\<forall>u. xmem u = mem t \<and> ld32 (mem t) (gpr u ESP + 8) = 0x80700F9C \<and> mem_apart (gpr u ESP - 16) 16 0x80700F9C 24 \<and> mem_apart (ld32 (mem t) (gpr u ESP + 4)) 4 0x80700F9C 24 \<longrightarrow>
       (\<exists>v w. run 12 (\<lambda>_. 0) swtch 0 u = Ok (Leave (sym_forkret sys1)) v \<and> exec1 (\<lambda>_. 0) 0 Ret v = (Leave (sym_trapret sys1), w) \<and> gpr w ESP = tf (ptable t ! 1))"
    using new_process_starts [of sys1 1 10 12 "\<lambda>_. 0" "\<lambda>_. 0" 0] by auto
  have "ld32 (mem t) 0x80001004 = 0x80110000" "ld32 (mem t) 0x80001008 = 0x80700F9C"
    using t(3) by (simp_all add: mem_apart_def sys1_def ld32_st32_apart)
  then have "\<exists>v w. run 12 (\<lambda>_. 0) swtch 0 (sched_mach (mem t)) = Ok (Leave (sym_forkret sys1)) v \<and> exec1 (\<lambda>_. 0) 0 Ret v = (Leave (sym_trapret sys1), w)"
    using go [rule_format, of "sched_mach (mem t)"] by (auto simp: sched_mach_def mem_apart_def)
  moreover have "sym_forkret sys1 = 0x80103f00" "sym_trapret sys1 = 0x80105c00" by (simp_all add: sys1_def sys0_def)
  ultimately show ?thesis using t(1) by auto
qed

section \<open>Starting the processors\<close>

text \<open>\<^verbatim>\<open>entry\<close> turns paging on with the boot page table and goes to \<^verbatim>\<open>main\<close> on the boot stack.\<close>

lemma entry_run:
  "\<exists>t. run 10 loc (entry pgd stack sym_main) 0 s = Ok (Leave sym_main) t \<and> gpr t ESP = stack + of_nat KSTACKSIZE \<and>
    ctl t CR3 = v2p pgd \<and> ctl t CR0 = ctl s CR0 OR (CR0_PG OR CR0_WP) \<and> ctl t CR4 = ctl s CR4 OR CR4_PSE \<and> xmem t = xmem s"
proof -
  let ?q = "butlast (entry pgd stack sym_main)"
  have st: "\<forall>c \<in> set ?q. straight c" by (simp add: entry_def straight_def eff_def)
  have q: "?q @ Jmpr EAX # [] = entry pgd stack sym_main" "length ?q = 10" by (simp_all add: entry_def)
  define t where "t = fold eff ?q s"
  have t: "gpr t EAX = sym_main" "gpr t ESP = stack + of_nat KSTACKSIZE" "ctl t CR3 = v2p pgd" "ctl t CR0 = ctl s CR0 OR (CR0_PG OR CR0_WP)"
      "ctl t CR4 = ctl s CR4 OR CR4_PSE" "xmem t = xmem s"
    by (simp_all add: t_def entry_def eff_def)
  show ?thesis using run_leave0 [OF st, of loc "Jmpr EAX" s sym_main t "[]"] t unfolding q by (simp add: t_def [symmetric])
qed

text \<open>
  \<^verbatim>\<open>entryother\<close> takes page table, stack and start address from the words that \<^verbatim>\<open>startap\<close> has stored below the code; it runs with
  physical addresses.
\<close>

lemma entryother_run:
  "\<exists>t. run 26 loc (entryother start gdtdesc) 0 s = Ok (Leave (ld32 (xmem s) (start - 8))) t \<and> gpr t ESP = ld32 (xmem s) (start - 4) - 4 \<and>
    ctl t CR3 = ld32 (xmem s) (start - 12) \<and> ctl t CR0 = (ctl s CR0 OR CR0_PE) OR (CR0_PE OR CR0_PG OR CR0_WP) \<and>
    seg t CS = of_nat (SEG_KCODE * 8) \<and> seg t DS = of_nat (SEG_KDATA * 8) \<and> seg t SS = of_nat (SEG_KDATA * 8) \<and> gdtr t = gdtdesc"
proof -
  let ?E = "entryother start gdtdesc"
  let ?p = "take 9 ?E" and ?r = "take 16 (drop 10 ?E)"
  define a where "a = fold eff ?p s"
  define b where "b = set_seg CS (of_nat (SEG_KCODE * 8)) a"
  define f where "f = fold eff ?r b"
  have st: "\<forall>c \<in> set ?p. straight c" "\<forall>c \<in> set ?r. straight c" by (simp_all add: entryother_def straight_def eff_def)
  have l: "length ?p = 9" "length ?r = 16" "length (take 10 ?E) = 10" by (simp_all add: entryother_def)
  have e: "?p @ drop 9 ?E = ?E" "take 10 ?E @ ?r @ Callabs (start - 8) # drop 27 ?E = ?E" by (simp_all add: entryother_def)
  have "run (9 + 17) loc ?E 0 s = run 17 loc ?E 9 a"
    using run_straight [OF st(1), of 17 loc "[]" "drop 9 ?E" s] l(1) e(1) by (simp add: a_def)
  also have "\<dots> = run 16 loc ?E 10 b"
    using exec_step(1) [of 9 ?E loc a 10 b 16] by (simp add: entryother_def b_def)
  also have "\<dots> = Ok (Leave (ld32 (xmem f) (start - 8))) (push (loc 27) f)"
    using run_leave [OF st(2), of loc "take 10 ?E" "Callabs (start - 8)" b "ld32 (xmem f) (start - 8)" "push (loc 27) f" "drop 27 ?E"] l e(2) by (simp add: f_def)
  finally have run: "run 26 loc ?E 0 s = Ok (Leave (ld32 (xmem f) (start - 8))) (push (loc 27) f)" by simp
  have b: "xmem b = xmem s" "ctl b CR0 = ctl s CR0 OR CR0_PE" "seg b CS = of_nat (SEG_KCODE * 8)" "gdtr b = gdtdesc"
    by (simp_all add: b_def a_def entryother_def eff_def set_seg_def set_reg_def)
  have "xmem f = xmem b" "gpr f ESP = ld32 (xmem b) (start - 4)" "ctl f CR3 = ld32 (xmem b) (start - 12)" "ctl f CR0 = ctl b CR0 OR (CR0_PE OR CR0_PG OR CR0_WP)"
      "seg f CS = seg b CS" "gdtr f = gdtr b"
    by (simp_all add: f_def entryother_def eff_def set_seg_def set_reg_def)
  moreover have "seg f DS = of_nat (SEG_KDATA * 8)" "seg f SS = of_nat (SEG_KDATA * 8)"
    by (simp_all add: f_def entryother_def eff_def)
  ultimately show ?thesis using run b by (simp add: push_def Let_def)
qed

text \<open>With the words as \<^verbatim>\<open>startap\<close> stores them, the processor comes to \<^verbatim>\<open>mpenter\<close> on its own stack.\<close>

lemma ap_starts:
  assumes "xmem s = (\<lambda>a. st32 (st32 (st32 m (p2v 0x7000 - 4) stack) (p2v 0x7000 - 8) enter) (p2v 0x7000 - 12) pgd (p2v a))"
  shows "\<exists>t. run 26 loc (entryother 0x7000 gdtdesc) 0 s = Ok (Leave enter) t \<and> gpr t ESP = stack - 4 \<and> ctl t CR3 = pgd"
proof -
  let ?m = "st32 (st32 (st32 m (p2v 0x7000 - 4) stack) (p2v 0x7000 - 8) enter) (p2v 0x7000 - 12) pgd"
  have ld: "ld32 (xmem s) a = ld32 ?m (p2v a)" for a unfolding assms by (simp add: ld32_def p2v_def add.assoc add.commute add.left_commute)
  have "ld32 (xmem s) (0x7000 - 4) = stack" "ld32 (xmem s) (0x7000 - 8) = enter" "ld32 (xmem s) (0x7000 - 12) = pgd"
    unfolding ld by (simp_all add: p2v_def KERNBASE_def ld32_st32_apart mem_apart_def)
  then show ?thesis using entryother_run [of loc "0x7000" gdtdesc s] by auto
qed

end
