(* ===== verification/User.thy ===== *)
theory User
  imports Dir
begin

text \<open>
  User programs.  A program meets the kernel through its system calls only, so a running program is the list of
  the calls it has made with the replies it got, and a function \<open>kernel\<close> that says what the kernel replies to the
  next call after such a history.  The theorems hold for every such function that behaves as they ask.  A reply
  carries the result of the call and the bytes that the kernel stores through a pointer argument of it.
  \<^verbatim>\<open>exit\<close> does not return: the outcome is \<open>Swtch\<close>.

  Here are the library functions of \<^verbatim>\<open>ulib.c\<close> and \<^verbatim>\<open>printf.c\<close>.  A string is the list of its bytes without the
  terminator.
\<close>

section \<open>System calls\<close>

text \<open>
  \<open>Linkp\<close> is \<^verbatim>\<open>link\<close> with an arbitrary address as its second argument, \<open>Sleepat\<close> is \<^verbatim>\<open>sleep\<close> called with an arbitrary stack
  pointer; \<open>Load\<close> and \<open>Store\<close> are accesses to memory outside the program's own data: what is there is up to the kernel, and a
  negative reply is a page fault, for which the kernel kills the process.
\<close>

datatype ucall =
    Fork int
  | Exit
  | Wait
  | Pipe
  | Write int "byte list"
  | Read int int
  | Close int
  | Kill int
  | Exec "byte list" "byte list list"
  | Open "byte list" int
  | Mknod "byte list" int int
  | Unlink "byte list"
  | Fstat int
  | Link "byte list" "byte list"
  | Mkdir "byte list"
  | Chdir "byte list"
  | Dup int
  | Getpid
  | Sbrk int
  | Sleep int
  | Uptime
  | Linkp "byte list" addr
  | Sleepat addr
  | Load addr
  | Store addr byte

datatype reply = Reply (rval: int) (rdata: "byte list")

record uproc =
  ucalls :: "(ucall \<times> reply) list"
  kernel :: "(ucall \<times> reply) list \<Rightarrow> ucall \<Rightarrow> reply"

definition sys :: "ucall \<Rightarrow> (reply, 'z uproc_scheme) kop" where
  "sys c = bindK (getK (\<lambda>s. kernel s (ucalls s) c)) (\<lambda>r.
     thenK (modK (\<lambda>s. s\<lparr>ucalls := ucalls s @ [(c, r)]\<rparr>)) (retK r))"

definition sysi :: "ucall \<Rightarrow> (int, 'z uproc_scheme) kop" where
  "sysi c = bindK (sys c) (\<lambda>r. retK (rval r))"

text \<open>A call whose result is not looked at.\<close>

definition sysu :: "ucall \<Rightarrow> (unit, 'z uproc_scheme) kop" where
  "sysu c = bindK (sys c) (\<lambda>_. retK ())"

definition uexit :: "('a, 'z uproc_scheme) kop" where
  "uexit = thenK (sysu Exit) Swtch"

text \<open>\<^verbatim>\<open>exec\<close> returns only if it fails; otherwise another program goes on.\<close>

definition uexec :: "byte list \<Rightarrow> byte list list \<Rightarrow> (unit, 'z uproc_scheme) kop" where
  "uexec path argv = bindK (sysi (Exec path argv)) (\<lambda>r. if r < 0 then retK () else Swtch)"

section \<open>ulib.c\<close>

fun strcmp :: "byte list \<Rightarrow> byte list \<Rightarrow> int" where
  "strcmp [] [] = 0"
| "strcmp [] (d # ds) = - uint d"
| "strcmp (c # cs) [] = uint c"
| "strcmp (c # cs) (d # ds) = (if c = d then strcmp cs ds else uint c - uint d)"

text \<open>The part of the string that \<^verbatim>\<open>strchr\<close> returns a pointer to.  The terminator is not found.\<close>

fun strchr :: "byte list \<Rightarrow> byte \<Rightarrow> byte list option" where
  "strchr [] c = None"
| "strchr (d # s) c = (if d = c then Some (d # s) else strchr s c)"

lemma strchr_None: "strchr s c = None \<longleftrightarrow> c \<notin> set s"
  by (induction s) auto

text \<open>\<^verbatim>\<open>atoi\<close>: the sum is a C \<^verbatim>\<open>int\<close>.\<close>

fun atoi_loop :: "int \<Rightarrow> byte list \<Rightarrow> int" where
  "atoi_loop n [] = n"
| "atoi_loop n (c # s) = (if 48 \<le> c \<and> c \<le> 57 then atoi_loop (s32 (n * 10 + uint c - 48)) s else n)"

definition atoi :: "byte list \<Rightarrow> int" where
  "atoi s = atoi_loop 0 s"

text \<open>\<^verbatim>\<open>memmove\<close> of the user library copies upwards only.\<close>

fun umemmove :: "memory \<Rightarrow> addr \<Rightarrow> addr \<Rightarrow> nat \<Rightarrow> memory" where
  "umemmove m dst src 0 = m"
| "umemmove m dst src (Suc n) = umemmove (m(dst := m src)) (dst + 1) (src + 1) n"

text \<open>\<^verbatim>\<open>strcpy\<close> on memory: the bytes up to the terminator, of which \<open>n\<close> are allowed for.\<close>

fun strcpy_loop :: "nat \<Rightarrow> memory \<Rightarrow> addr \<Rightarrow> addr \<Rightarrow> memory option" where
  "strcpy_loop n m s t =
     (let m' = m(s := m t) in
      if m t = 0 then Some m'
      else (case n of 0 \<Rightarrow> None | Suc n' \<Rightarrow> strcpy_loop n' m' (s + 1) (t + 1)))"

declare strcpy_loop.simps [simp del]

text \<open>\<^verbatim>\<open>gets\<close>: \<open>k\<close> bytes may still be stored.\<close>

fun gets_loop :: "nat \<Rightarrow> byte list \<Rightarrow> (byte list, 'z uproc_scheme) kop" where
  "gets_loop 0 acc = retK acc"
| "gets_loop (Suc k) acc =
     bindK (sys (Read 0 1)) (\<lambda>r.
     if rval r < 1 then retK acc
     else
       (let c = hd (rdata r) in
        if c = 10 \<or> c = 13 then retK (acc @ [c]) else gets_loop k (acc @ [c])))"

definition gets :: "int \<Rightarrow> (byte list, 'z uproc_scheme) kop" where
  "gets mx = gets_loop (nat (mx - 1)) []"

text \<open>\<^verbatim>\<open>struct stat\<close> as \<^verbatim>\<open>fstat\<close> stores it.\<close>

definition stat_of :: "byte list \<Rightarrow> stat" where
  "stat_of bs = \<lparr>st_type = get16 bs 0, st_dev = sint (get32 bs 4), st_ino = get32 bs 8, st_nlink = get16 bs 12, st_size = get32 bs 16\<rparr>"

definition ustat :: "byte list \<Rightarrow> (int \<times> stat, 'z uproc_scheme) kop" where
  "ustat n =
     bindK (sysi (Open n 0)) (\<lambda>fd.
     if fd < 0 then retK (- 1, stat_of [])
     else
       bindK (sys (Fstat fd)) (\<lambda>r.
       thenK (sysu (Close fd)) (
       retK (rval r, stat_of (rdata r)))))"

section \<open>printf.c\<close>

definition putc :: "int \<Rightarrow> byte \<Rightarrow> (unit, 'z uproc_scheme) kop" where
  "putc fd c = sysu (Write fd [c])"

definition udigit :: "nat \<Rightarrow> byte" where
  "udigit d = of_nat (if d < 10 then 48 + d else 55 + d)"

function udigits_rev :: "nat \<Rightarrow> nat \<Rightarrow> byte list" where
  "udigits_rev base x = udigit (x mod base) # (if base \<le> 1 \<or> x div base = 0 then [] else udigits_rev base (x div base))"
  by pat_completeness auto
termination
  by (relation "measure snd") (auto simp: not_le div_greater_zero_iff intro!: div_less_dividend)

declare udigits_rev.simps [simp del]

definition uprintint :: "int \<Rightarrow> nat \<Rightarrow> bool \<Rightarrow> byte list" where
  "uprintint xx base sgnd =
     (let neg = sgnd \<and> xx < 0; x = (if neg then word_of_int (- xx) else word_of_int xx :: u32) in
      rev (udigits_rev base (unat x) @ (if neg then [45] else [])))"

text \<open>
  The characters that \<^verbatim>\<open>printf\<close> prints; the first argument says that the last character was a percent sign.  Too few
  arguments, or one of the wrong kind, have no meaning.
\<close>

fun uformat :: "bool \<Rightarrow> byte list \<Rightarrow> carg list \<Rightarrow> byte list option" where
  "uformat st [] args = Some []"
| "uformat False (c # f) args = (if c = 0x25 then uformat True f args else map_option ((#) c) (uformat False f args))"
| "uformat True (c # f) args =
     (if c = 0x64 then
        (case args of CInt x # as \<Rightarrow> map_option ((@) (uprintint x 10 True)) (uformat False f as) | _ \<Rightarrow> None)
      else if c = 0x78 \<or> c = 0x70 then
        (case args of CInt x # as \<Rightarrow> map_option ((@) (uprintint x 16 False)) (uformat False f as) | _ \<Rightarrow> None)
      else if c = 0x73 then
        (case args of
           CStr bs # as \<Rightarrow> map_option ((@) (cstr bs)) (uformat False f as)
         | CInt x # as \<Rightarrow> (if x = 0 then map_option ((@) (bytes_of_string ''(null)'')) (uformat False f as) else None)
         | [] \<Rightarrow> None)
      else if c = 0x63 then
        (case args of CInt x # as \<Rightarrow> map_option ((#) (word_of_int x)) (uformat False f as) | _ \<Rightarrow> None)
      else if c = 0x25 then map_option ((#) 0x25) (uformat False f args)
      else map_option ((@) [0x25, c]) (uformat False f args))"

definition printf :: "int \<Rightarrow> string \<Rightarrow> carg list \<Rightarrow> (unit, 'z uproc_scheme) kop" where
  "printf fd fmt args =
     (case uformat False (bytes_of_string fmt) args of
        None \<Rightarrow> (\<lambda>_. Fault)
      | Some cs \<Rightarrow> seqK (map (putc fd) cs))"

end
