(* ===== verification/Grep.thy ===== *)
theory Grep
  imports User
begin

text \<open>
  The program \<^verbatim>\<open>grep.c\<close>.  Its matcher is the one of Kernighan and Pike for the operators \<^verbatim>\<open>^ . * $\<close>; it is
  proved equivalent to the meaning of a pattern as a regular set.
\<close>

section \<open>The matcher\<close>

abbreviation (input) STAR :: byte where "STAR \<equiv> 0x2A"
abbreviation (input) DOT :: byte where "DOT \<equiv> 0x2E"
abbreviation (input) DOLLAR :: byte where "DOLLAR \<equiv> 0x24"
abbreviation (input) CARET :: byte where "CARET \<equiv> 0x5E"

function matchhere :: "byte list \<Rightarrow> byte list \<Rightarrow> bool"
  and matchstar :: "byte \<Rightarrow> byte list \<Rightarrow> byte list \<Rightarrow> bool" where
  "matchhere re tx =
     (case re of
        [] \<Rightarrow> True
      | c # re' \<Rightarrow>
          if re' \<noteq> [] \<and> hd re' = STAR then matchstar c (tl re') tx
          else if c = DOLLAR \<and> re' = [] then tx = []
          else if tx \<noteq> [] \<and> (c = DOT \<or> c = hd tx) then matchhere re' (tl tx)
          else False)"
| "matchstar c re tx =
     (if matchhere re tx then True
      else if tx \<noteq> [] \<and> (hd tx = c \<or> c = DOT) then matchstar c re (tl tx)
      else False)"
  by pat_completeness auto
termination
  by (relation "measure (case_sum (\<lambda>(re, t). 2 * length re + length t) (\<lambda>(c, re, t). 2 * length re + length t + 1))")
    (auto simp: length_greater_0_conv [symmetric] split: list.splits simp del: length_greater_0_conv)

declare matchhere.simps [simp del] matchstar.simps [simp del]

text \<open>The loop of \<^verbatim>\<open>match\<close> over the ends of the text, the empty one last.\<close>

fun match_loop :: "byte list \<Rightarrow> byte list \<Rightarrow> bool" where
  "match_loop re [] = matchhere re []"
| "match_loop re (c # tx) = (matchhere re (c # tx) \<or> match_loop re tx)"

definition match :: "byte list \<Rightarrow> byte list \<Rightarrow> bool" where
  "match re tx =
     (if re \<noteq> [] \<and> hd re = CARET then matchhere (tl re) tx
      else match_loop re tx)"

section \<open>The meaning of a pattern\<close>

text \<open>
  A pattern is a sequence of characters, each followed by a star or not, with an anchor at the end or not.  A
  character stands for itself, a dot for any character; a starred one for any number of such characters.
\<close>

datatype item = One byte | Many byte

fun items :: "byte list \<Rightarrow> item list \<times> bool" where
  "items [] = ([], False)"
| "items [c] = (if c = DOLLAR then ([], True) else ([One c], False))"
| "items (c # d # re) =
     (if d = STAR then (case items re of (is, e) \<Rightarrow> (Many c # is, e))
      else (case items (d # re) of (is, e) \<Rightarrow> (One c # is, e)))"

definition denotes :: "byte \<Rightarrow> byte \<Rightarrow> bool" where
  "denotes c x \<longleftrightarrow> c = DOT \<or> c = x"

fun item_lang :: "item \<Rightarrow> byte list set" where
  "item_lang (One c) = {[x] | x. denotes c x}"
| "item_lang (Many c) = {xs. \<forall>x \<in> set xs. denotes c x}"

definition conc :: "byte list set \<Rightarrow> byte list set \<Rightarrow> byte list set" where
  "conc A B = {xs @ ys | xs ys. xs \<in> A \<and> ys \<in> B}"

fun items_lang :: "item list \<Rightarrow> byte list set" where
  "items_lang [] = {[]}"
| "items_lang (i # is) = conc (item_lang i) (items_lang is)"

text \<open>The texts that begin with a match, to the end of the text if the pattern is anchored there.\<close>

definition prefix_lang :: "byte list \<Rightarrow> byte list set" where
  "prefix_lang re = (case items re of (is, e) \<Rightarrow> if e then items_lang is else conc (items_lang is) UNIV)"

definition pattern_lang :: "byte list \<Rightarrow> byte list set" where
  "pattern_lang re = (if re \<noteq> [] \<and> hd re = CARET then prefix_lang (tl re) else conc UNIV (prefix_lang re))"

section \<open>The matcher decides the meaning\<close>

lemma conc_assoc: "conc (conc A B) C = conc A (conc B C)"
  unfolding conc_def by (auto; metis append.assoc)

lemma conc_one: "conc {[x] | x. P x} A = {x # ys | x ys. P x \<and> ys \<in> A}"
  unfolding conc_def by (auto; metis append_Cons append_Nil)

lemma prefix_lang_simps:
  "prefix_lang [] = UNIV"
  "prefix_lang [DOLLAR] = {[]}"
  "prefix_lang (c # STAR # re) = conc (item_lang (Many c)) (prefix_lang re)"
  "re = [] \<and> c \<noteq> DOLLAR \<or> re \<noteq> [] \<and> hd re \<noteq> STAR \<Longrightarrow> prefix_lang (c # re) = {x # ys | x ys. denotes c x \<and> ys \<in> prefix_lang re}"
proof -
  show "prefix_lang [] = UNIV" "prefix_lang [DOLLAR] = {[]}" by (auto simp: prefix_lang_def conc_def)
  show "prefix_lang (c # STAR # re) = conc (item_lang (Many c)) (prefix_lang re)"
    by (auto simp: prefix_lang_def conc_assoc split: prod.splits)
  assume "re = [] \<and> c \<noteq> DOLLAR \<or> re \<noteq> [] \<and> hd re \<noteq> STAR"
  then have "items (c # re) = (case items re of (is, e) \<Rightarrow> (One c # is, e))" by (cases re) auto
  then show "prefix_lang (c # re) = {x # ys | x ys. denotes c x \<and> ys \<in> prefix_lang re}"
    by (cases "items re") (simp add: prefix_lang_def conc_assoc del: item_lang.simps, simp add: conc_one)
qed

lemma matchhere_matchstar:
  "matchhere re tx \<longleftrightarrow> tx \<in> prefix_lang re"
  "matchstar c re tx \<longleftrightarrow> tx \<in> conc (item_lang (Many c)) (prefix_lang re)"
proof (induction re tx and c re tx rule: matchhere_matchstar.induct)
  case (1 re tx)
  show ?case
  proof (cases re)
    case Nil
    then show ?thesis by (simp add: matchhere.simps prefix_lang_simps)
  next
    case (Cons c re')
    show ?thesis
    proof (cases "re' \<noteq> [] \<and> hd re' = STAR")
      case True
      then obtain re2 where re2: "re' = STAR # re2" by (cases re') auto
      then show ?thesis using 1(1) [OF Cons True] Cons by (simp add: matchhere.simps [of "_ # _"] prefix_lang_simps)
    next
      case False
      show ?thesis
      proof (cases "c = DOLLAR \<and> re' = []")
        case True
        then show ?thesis using Cons by (simp add: matchhere.simps [of "_ # _"] prefix_lang_simps)
      next
        case nd: False
        then have l: "prefix_lang (c # re') = {x # ys | x ys. denotes c x \<and> ys \<in> prefix_lang re'}"
          using False by (intro prefix_lang_simps(4)) auto
        show ?thesis using 1(2) [OF Cons False nd] False nd Cons
          by (cases tx) (auto simp: matchhere.simps [of "_ # _"] l denotes_def)
      qed
    qed
  qed
next
  case (2 c re tx)
  let ?L = "conc (item_lang (Many c)) (prefix_lang re)"
  have step: "tx \<in> ?L \<longleftrightarrow> tx \<in> prefix_lang re \<or> (\<exists>x ys. tx = x # ys \<and> denotes c x \<and> ys \<in> ?L)"
  proof
    assume "tx \<in> ?L"
    then obtain xs ys where t: "tx = xs @ ys" "\<forall>x \<in> set xs. denotes c x" "ys \<in> prefix_lang re" by (auto simp: conc_def)
    then show "tx \<in> prefix_lang re \<or> (\<exists>x ys. tx = x # ys \<and> denotes c x \<and> ys \<in> ?L)"
      by (cases xs) (auto simp: conc_def)
  next
    assume "tx \<in> prefix_lang re \<or> (\<exists>x ys. tx = x # ys \<and> denotes c x \<and> ys \<in> ?L)"
    then show "tx \<in> ?L"
    proof
      assume "tx \<in> prefix_lang re"
      then have "[] @ tx \<in> ?L" unfolding conc_def by (intro CollectI exI conjI) (auto intro: refl)
      then show ?thesis by simp
    next
      assume "\<exists>x ys. tx = x # ys \<and> denotes c x \<and> ys \<in> ?L"
      then obtain x xs zs where "tx = (x # xs) @ zs" "denotes c x" "\<forall>x \<in> set xs. denotes c x" "zs \<in> prefix_lang re"
        by (auto simp: conc_def)
      then show ?thesis unfolding conc_def by (intro CollectI exI [of _ "x # xs"] exI [of _ zs]) auto
    qed
  qed
  show ?case
  proof (cases "matchhere re tx")
    case True
    then show ?thesis using 2(1) step by (simp add: matchstar.simps [of c])
  next
    case False
    then show ?thesis using 2 step by (cases tx) (auto simp: matchstar.simps [of c] denotes_def)
  qed
qed

lemma match_loop_iff: "match_loop re tx \<longleftrightarrow> tx \<in> conc UNIV (prefix_lang re)"
proof (induction tx)
  case Nil
  then show ?case by (auto simp: matchhere_matchstar(1) conc_def)
next
  case (Cons c tx)
  have "c # tx \<in> conc UNIV (prefix_lang re) \<longleftrightarrow> c # tx \<in> prefix_lang re \<or> tx \<in> conc UNIV (prefix_lang re)"
    by (auto simp: conc_def Cons_eq_append_conv)
  then show ?case using Cons by (simp add: matchhere_matchstar(1))
qed

text \<open>
  C17. The matcher of \<^verbatim>\<open>grep\<close> decides its patterns: \<^verbatim>\<open>match\<close> returns true exactly for the texts in the regular set that the
  pattern denotes, for every pattern and every text.
\<close>

theorem match_correct: "match re tx \<longleftrightarrow> tx \<in> pattern_lang re"
  by (simp add: match_def pattern_lang_def matchhere_matchstar(1) match_loop_iff)

section \<open>The program\<close>

text \<open>
  The lines of the buffer from \<^verbatim>\<open>p\<close> on: those that match are printed with their newline; what follows the last newline
  remains.
\<close>

function grep_lines :: "byte list \<Rightarrow> byte list \<Rightarrow> (byte list, 'z uproc_scheme) kop" where
  "grep_lines pat p =
     (if 10 \<in> set (cstr p) then
        (let l = takeWhile (\<lambda>b. b \<noteq> 10) p; rest = drop (Suc (length l)) p in
         thenK (whenK (match pat l) (sysu (Write 1 (l @ [10])))) (
         grep_lines pat rest))
      else retK p)"
  by pat_completeness auto
termination
  by (relation "measure (length \<circ> snd)") (auto simp: cstr_def dest: set_takeWhileD intro: diff_less)

declare grep_lines.simps [simp del]

text \<open>
  The loop of \<^verbatim>\<open>grep\<close> with the \<open>m\<close> bytes \<open>held\<close> at the start of the buffer of 1024 bytes.  A buffer in which no newline
  was found is thrown away.
\<close>

fun grep_loop :: "nat \<Rightarrow> byte list \<Rightarrow> int \<Rightarrow> byte list \<Rightarrow> (unit, 'z uproc_scheme) kop" where
  "grep_loop fuel pat fd held =
     bindK (sys (Read fd (int (1024 - length held - 1)))) (\<lambda>r.
     if rval r > 0 then
       (let b = held @ take (nat (rval r)) (rdata r) in
        bindK (grep_lines pat b) (\<lambda>rest.
        case fuel of
          0 \<Rightarrow> (\<lambda>_. NoFuel)
        | Suc n \<Rightarrow> grep_loop n pat fd (if length rest = length b then [] else rest)))
     else retK ())"

declare grep_loop.simps [simp del]

definition grep :: "nat \<Rightarrow> byte list \<Rightarrow> int \<Rightarrow> (unit, 'z uproc_scheme) kop" where
  "grep fuel pat fd = grep_loop fuel pat fd []"

fun grep_files :: "nat \<Rightarrow> byte list \<Rightarrow> byte list list \<Rightarrow> (unit, 'z uproc_scheme) kop" where
  "grep_files fuel pat [] = uexit"
| "grep_files fuel pat (f # fs) =
     bindK (sysi (Open f 0)) (\<lambda>fd.
     if fd < 0 then thenK (printf 1 (''grep: cannot open %s'' @ [CHR 0x0A]) [CStr f]) uexit
     else thenK (grep fuel pat fd) (thenK (sysu (Close fd)) (grep_files fuel pat fs)))"

definition grep_main :: "nat \<Rightarrow> byte list list \<Rightarrow> (unit, 'z uproc_scheme) kop" where
  "grep_main fuel argv =
     (case argv of
        _ # pat # fs \<Rightarrow> if fs = [] then thenK (grep fuel pat 0) uexit else grep_files fuel pat fs
      | _ \<Rightarrow> thenK (printf 2 (''usage: grep pattern [file ...]'' @ [CHR 0x0A]) []) uexit)"

end
