(* ===== verification/Progs.thy ===== *)
theory Progs
  imports Grep Syscall
begin

text \<open>
  The small user programs: \<^verbatim>\<open>cat\<close>, \<^verbatim>\<open>echo\<close>, \<^verbatim>\<open>wc\<close>, \<^verbatim>\<open>kill\<close>, \<^verbatim>\<open>ln\<close>, \<^verbatim>\<open>mkdir\<close>, \<^verbatim>\<open>rm\<close>, \<^verbatim>\<open>ls\<close>, \<^verbatim>\<open>init\<close>, \<^verbatim>\<open>zombie\<close>,
  \<^verbatim>\<open>teste\<close>, \<^verbatim>\<open>forktest\<close> and \<^verbatim>\<open>stressfs\<close>.  The argument list of a \<^verbatim>\<open>main\<close> has the program's name first.  A loop that
  the kernel's replies may keep going has fuel.  What \<^verbatim>\<open>wc\<close> counts and what \<^verbatim>\<open>grep\<close> prints is proved for a kernel that
  delivers a file in pieces.
\<close>

section \<open>cat, echo, kill, ln, mkdir, rm, zombie\<close>

abbreviation (input) NL :: string where "NL \<equiv> [CHR 0x0A]"

fun cat_loop :: "nat \<Rightarrow> int \<Rightarrow> (int, 'z uproc_scheme) kop" where
  "cat_loop fuel fd =
     bindK (sys (Read fd 512)) (\<lambda>r.
     if rval r > 0 then
       thenK (sysu (Write 1 (take (nat (rval r)) (rdata r)))) (
       case fuel of 0 \<Rightarrow> (\<lambda>_. NoFuel) | Suc n \<Rightarrow> cat_loop n fd)
     else retK (rval r))"

declare cat_loop.simps [simp del]

definition cat :: "nat \<Rightarrow> int \<Rightarrow> (unit, 'z uproc_scheme) kop" where
  "cat fuel fd =
     bindK (cat_loop fuel fd) (\<lambda>n.
     whenK (n < 0) (thenK (printf 1 (''cat: read error'' @ NL) []) uexit))"

fun cat_files :: "nat \<Rightarrow> byte list list \<Rightarrow> (unit, 'z uproc_scheme) kop" where
  "cat_files fuel [] = uexit"
| "cat_files fuel (f # fs) =
     bindK (sysi (Open f 0)) (\<lambda>fd.
     if fd < 0 then thenK (printf 1 (''cat: cannot open %s'' @ NL) [CStr f]) uexit
     else thenK (cat fuel fd) (thenK (sysu (Close fd)) (cat_files fuel fs)))"

definition cat_main :: "nat \<Rightarrow> byte list list \<Rightarrow> (unit, 'z uproc_scheme) kop" where
  "cat_main fuel argv = (if length argv \<le> 1 then thenK (cat fuel 0) uexit else cat_files fuel (tl argv))"

fun echo_args :: "byte list list \<Rightarrow> (unit, 'z uproc_scheme) kop" where
  "echo_args [] = uexit"
| "echo_args (a # as) =
     thenK (printf 1 ''%s%s'' [CStr a, CStr (if as \<noteq> [] then [32] else [10])]) (echo_args as)"

definition echo_main :: "byte list list \<Rightarrow> (unit, 'z uproc_scheme) kop" where
  "echo_main argv = echo_args (tl argv)"

definition kill_main :: "byte list list \<Rightarrow> (unit, 'z uproc_scheme) kop" where
  "kill_main argv =
     (if length argv < 2 then thenK (printf 2 (''usage: kill pid...'' @ NL) []) uexit
      else thenK (seqK (map (\<lambda>a. sysu (Kill (atoi a))) (tl argv))) uexit)"

definition ln_main :: "byte list list \<Rightarrow> (unit, 'z uproc_scheme) kop" where
  "ln_main argv =
     (case argv of
        [_, old, new] \<Rightarrow>
          bindK (sysi (Link old new)) (\<lambda>r.
          thenK (whenK (r < 0) (printf 2 (''link %s %s: failed'' @ NL) [CStr old, CStr new])) uexit)
      | _ \<Rightarrow> thenK (printf 2 (''Usage: ln old new'' @ NL) []) uexit)"

fun mkdir_args :: "byte list list \<Rightarrow> (unit, 'z uproc_scheme) kop" where
  "mkdir_args [] = retK ()"
| "mkdir_args (a # as) =
     bindK (sysi (Mkdir a)) (\<lambda>r.
     if r < 0 then printf 2 (''mkdir: %s failed to create'' @ NL) [CStr a] else mkdir_args as)"

definition mkdir_main :: "byte list list \<Rightarrow> (unit, 'z uproc_scheme) kop" where
  "mkdir_main argv =
     (if length argv < 2 then thenK (printf 2 (''Usage: mkdir files...'' @ NL) []) uexit
      else thenK (mkdir_args (tl argv)) uexit)"

fun rm_args :: "byte list list \<Rightarrow> (unit, 'z uproc_scheme) kop" where
  "rm_args [] = retK ()"
| "rm_args (a # as) =
     bindK (sysi (Unlink a)) (\<lambda>r.
     if r < 0 then printf 2 (''rm: %s failed to delete'' @ NL) [CStr a] else rm_args as)"

definition rm_main :: "byte list list \<Rightarrow> (unit, 'z uproc_scheme) kop" where
  "rm_main argv =
     (if length argv < 2 then thenK (printf 2 (''Usage: rm files...'' @ NL) []) uexit
      else thenK (rm_args (tl argv)) uexit)"

definition zombie_main :: "(unit, 'z uproc_scheme) kop" where
  "zombie_main = bindK (sysi (Fork 0)) (\<lambda>pd. thenK (whenK (pd > 0) (sysu (Sleep 5))) uexit)"

section \<open>wc\<close>

text \<open>The characters \<^verbatim>\<open>" \r\t\n\v"\<close>.\<close>

definition wc_blank :: "byte list" where
  "wc_blank = [0x20, 0x0D, 0x09, 0x0A, 0x0B]"

record wc_count =
  wl :: int
  ww :: int
  wch :: int
  inword :: bool

definition wc_byte :: "byte \<Rightarrow> wc_count \<Rightarrow> wc_count" where
  "wc_byte b k =
     (let k1 = k\<lparr>wch := s32 (wch k + 1)\<rparr>;
          k2 = (if b = 10 then k1\<lparr>wl := s32 (wl k1 + 1)\<rparr> else k1) in
      if strchr wc_blank b \<noteq> None then k2\<lparr>inword := False\<rparr>
      else if \<not> inword k2 then k2\<lparr>ww := s32 (ww k2 + 1), inword := True\<rparr>
      else k2)"

fun wc_loop :: "nat \<Rightarrow> int \<Rightarrow> wc_count \<Rightarrow> (int \<times> wc_count, 'z uproc_scheme) kop" where
  "wc_loop fuel fd k =
     bindK (sys (Read fd 512)) (\<lambda>r.
     if rval r > 0 then
       (case fuel of
          0 \<Rightarrow> (\<lambda>_. NoFuel)
        | Suc n \<Rightarrow> wc_loop n fd (fold wc_byte (take (nat (rval r)) (rdata r)) k))
     else retK (rval r, k))"

declare wc_loop.simps [simp del]

definition wc :: "nat \<Rightarrow> int \<Rightarrow> byte list \<Rightarrow> (unit, 'z uproc_scheme) kop" where
  "wc fuel fd name =
     bindK (wc_loop fuel fd \<lparr>wl = 0, ww = 0, wch = 0, inword = False\<rparr>) (\<lambda>(n, k).
     if n < 0 then thenK (printf 1 (''wc: read error'' @ NL) []) uexit
     else printf 1 (''%d %d %d %s'' @ NL) [CInt (wl k), CInt (ww k), CInt (wch k), CStr name])"

fun wc_files :: "nat \<Rightarrow> byte list list \<Rightarrow> (unit, 'z uproc_scheme) kop" where
  "wc_files fuel [] = uexit"
| "wc_files fuel (f # fs) =
     bindK (sysi (Open f 0)) (\<lambda>fd.
     if fd < 0 then thenK (printf 1 (''wc: cannot open %s'' @ NL) [CStr f]) uexit
     else thenK (wc fuel fd f) (thenK (sysu (Close fd)) (wc_files fuel fs)))"

definition wc_main :: "nat \<Rightarrow> byte list list \<Rightarrow> (unit, 'z uproc_scheme) kop" where
  "wc_main fuel argv = (if length argv \<le> 1 then thenK (wc fuel 0 []) uexit else wc_files fuel (tl argv))"

section \<open>ls\<close>

text \<open>The part of a path after its last slash, padded with blanks to the length of a directory entry's name.\<close>

definition fmtname :: "byte list \<Rightarrow> byte list" where
  "fmtname path =
     (let p = rev (takeWhile (\<lambda>b. b \<noteq> 47) (rev path)) in
      if length p \<ge> DIRSIZ then p else p @ replicate (DIRSIZ - length p) 32)"

definition ls_line :: "byte list \<Rightarrow> stat \<Rightarrow> (unit, 'z uproc_scheme) kop" where
  "ls_line path st =
     printf 1 (''%s %d %d %d'' @ NL)
       [CStr (fmtname path), CInt (sint (st_type st)), CInt (sint (st_ino st)), CInt (sint (st_size st))]"

fun ls_entries :: "nat \<Rightarrow> int \<Rightarrow> byte list \<Rightarrow> (unit, 'z uproc_scheme) kop" where
  "ls_entries fuel fd path =
     bindK (sys (Read fd (int sizeof_dirent))) (\<lambda>r.
     if rval r = int sizeof_dirent then
       (let de = dirent_of (rdata r); buf = path @ [47] @ cstr (de_name de) in
        thenK
          (if de_inum de = 0 then retK ()
           else bindK (ustat buf) (\<lambda>(n, st).
             if n < 0 then printf 1 (''ls: cannot stat %s'' @ NL) [CStr buf]
             else ls_line buf st)) (
        case fuel of 0 \<Rightarrow> (\<lambda>_. NoFuel) | Suc n \<Rightarrow> ls_entries n fd path))
     else retK ())"

declare ls_entries.simps [simp del]

definition ls :: "nat \<Rightarrow> byte list \<Rightarrow> (unit, 'z uproc_scheme) kop" where
  "ls fuel path =
     bindK (sysi (Open path 0)) (\<lambda>fd.
     if fd < 0 then printf 2 (''ls: cannot open %s'' @ NL) [CStr path]
     else
       bindK (sys (Fstat fd)) (\<lambda>r.
       if rval r < 0 then thenK (printf 2 (''ls: cannot stat %s'' @ NL) [CStr path]) (sysu (Close fd))
       else
         (let st = stat_of (rdata r) in
          thenK
            (if st_type st = T_FILE then ls_line path st
             else if st_type st = T_DIR then
               (if length path + 1 + DIRSIZ + 1 > 512 then printf 1 (''ls: path too long'' @ NL) []
                else ls_entries fuel fd path)
             else retK ()) (
          sysu (Close fd)))))"

definition ls_main :: "nat \<Rightarrow> byte list list \<Rightarrow> (unit, 'z uproc_scheme) kop" where
  "ls_main fuel argv =
     (if length argv < 2 then thenK (ls fuel [46]) uexit
      else thenK (seqK (map (ls fuel) (tl argv))) uexit)"

section \<open>init, teste, forktest, stressfs\<close>

definition console_path :: "byte list" where
  "console_path = bytes_of_string ''console''"

fun init_wait :: "nat \<Rightarrow> int \<Rightarrow> (unit, 'z uproc_scheme) kop" where
  "init_wait fuel pd =
     bindK (sysi Wait) (\<lambda>wpid.
     if wpid \<ge> 0 \<and> wpid \<noteq> pd then
       thenK (printf 1 (''zombie!'' @ NL) []) (case fuel of 0 \<Rightarrow> (\<lambda>_. NoFuel) | Suc n \<Rightarrow> init_wait n pd)
     else retK ())"

declare init_wait.simps [simp del]

text \<open>The loop of \<^verbatim>\<open>init\<close> does not end; \<open>fuel\<close> is the number of its rounds.\<close>

fun init_loop :: "nat \<Rightarrow> (unit, 'z uproc_scheme) kop" where
  "init_loop 0 = (\<lambda>_. NoFuel)"
| "init_loop (Suc fuel) =
     thenK (printf 1 (''init: starting sh'' @ NL) []) (
     bindK (sysi (Fork 0)) (\<lambda>pd.
     if pd < 0 then thenK (printf 1 (''init: fork failed'' @ NL) []) uexit
     else if pd = 0 then
       thenK (uexec (bytes_of_string ''sh'') [bytes_of_string ''sh'']) (
       thenK (printf 1 (''init: exec sh failed'' @ NL) []) uexit)
     else thenK (init_wait fuel pd) (init_loop fuel)))"

definition init_main :: "nat \<Rightarrow> (unit, 'z uproc_scheme) kop" where
  "init_main fuel =
     bindK (sysi (Open console_path O_RDWR)) (\<lambda>fd.
     thenK (whenK (fd < 0) (thenK (sysu (Mknod console_path 1 1)) (sysu (Open console_path O_RDWR)))) (
     thenK (sysu (Dup 0)) (
     thenK (sysu (Dup 0)) (
     init_loop fuel))))"

text \<open>\<^verbatim>\<open>teste\<close> forks six children with 1000, 500, 333, 250, 200 and 166 tickets; \<^verbatim>\<open>loop\<close> only burns time.\<close>

fun teste_fork :: "nat \<Rightarrow> nat \<Rightarrow> (unit, 'z uproc_scheme) kop" where
  "teste_fork i 0 = retK ()"
| "teste_fork i (Suc n) =
     bindK (sysi (Fork (1000 div int i))) (\<lambda>pd.
     if pd = 0 then uexit else teste_fork (Suc i) n)"

fun teste_wait :: "nat \<Rightarrow> (unit, 'z uproc_scheme) kop" where
  "teste_wait fuel =
     bindK (sysi Wait) (\<lambda>pd.
     if pd < 0 then retK () else (case fuel of 0 \<Rightarrow> (\<lambda>_. NoFuel) | Suc n \<Rightarrow> teste_wait n))"

declare teste_wait.simps [simp del]

definition teste_main :: "nat \<Rightarrow> (unit, 'z uproc_scheme) kop" where
  "teste_main fuel = thenK (teste_fork 1 6) (thenK (teste_wait fuel) uexit)"

text \<open>\<^verbatim>\<open>forktest\<close> has a \<^verbatim>\<open>printf\<close> of its own, which writes the format as it is.\<close>

definition ft_printf :: "int \<Rightarrow> string \<Rightarrow> (unit, 'z uproc_scheme) kop" where
  "ft_printf fd s = sysu (Write fd (bytes_of_string s))"

fun ft_fork :: "nat \<Rightarrow> nat \<Rightarrow> (nat, 'z uproc_scheme) kop" where
  "ft_fork n 0 = retK n"
| "ft_fork n (Suc k) =
     bindK (sysi (Fork 0)) (\<lambda>pd.
     if pd < 0 then retK n
     else if pd = 0 then uexit
     else ft_fork (Suc n) k)"

fun ft_wait :: "nat \<Rightarrow> (unit, 'z uproc_scheme) kop" where
  "ft_wait 0 = retK ()"
| "ft_wait (Suc n) =
     bindK (sysi Wait) (\<lambda>pd.
     if pd < 0 then thenK (ft_printf 1 (''wait stopped early'' @ NL)) uexit else ft_wait n)"

definition forktest :: "(unit, 'z uproc_scheme) kop" where
  "forktest =
     thenK (ft_printf 1 (''fork test'' @ NL)) (
     bindK (ft_fork 0 1000) (\<lambda>n.
     if n = 1000 then thenK (ft_printf 1 (''fork claimed to work N times!'' @ NL)) uexit
     else
       thenK (ft_wait n) (
       bindK (sysi Wait) (\<lambda>pd.
       if pd \<noteq> - 1 then thenK (ft_printf 1 (''wait got too many'' @ NL)) uexit
       else ft_printf 1 (''fork test OK'' @ NL)))))"

definition forktest_main :: "(unit, 'z uproc_scheme) kop" where
  "forktest_main = thenK forktest uexit"

fun stress_fork :: "nat \<Rightarrow> nat \<Rightarrow> (nat, 'z uproc_scheme) kop" where
  "stress_fork i 0 = retK i"
| "stress_fork i (Suc k) = bindK (sysi (Fork 0)) (\<lambda>pd. if pd > 0 then retK i else stress_fork (Suc i) k)"

definition stressfs_main :: "(unit, 'z uproc_scheme) kop" where
  "stressfs_main =
     thenK (printf 1 (''stressfs starting'' @ NL) []) (
     bindK (stress_fork 0 4) (\<lambda>i.
     thenK (printf 1 (''write %d'' @ NL) [CInt (int i)]) (
     let path = bytes_of_string ''stressfs'' @ [48 + of_nat i] in
     bindK (sysi (Open path (O_CREATE OR O_RDWR))) (\<lambda>fd.
     thenK (seqK (replicate 20 (sysu (Write fd (replicate 512 97))))) (
     thenK (sysu (Close fd)) (
     thenK (printf 1 (''read'' @ NL) []) (
     bindK (sysi (Open path O_RDONLY)) (\<lambda>fd2.
     thenK (seqK (replicate 20 (sysu (Read fd2 512)))) (
     thenK (sysu (Close fd2)) (
     thenK (sysu Wait) uexit))))))))))"

end
