(* ===== verification/Filters.thy ===== *)
theory Filters
  imports Progs
begin

text \<open>
  What the filters \<^verbatim>\<open>cat\<close>, \<^verbatim>\<open>wc\<close> and \<^verbatim>\<open>grep\<close> do with a file that the kernel delivers in pieces, one for each
  \<^verbatim>\<open>read\<close>, and then reports the end of.
\<close>

section \<open>Histories\<close>

fun is_read :: "int \<Rightarrow> ucall \<Rightarrow> bool" where
  "is_read fd (Read f n) = (f = fd)"
| "is_read fd _ = False"

definition nreads :: "int \<Rightarrow> (ucall \<times> reply) list \<Rightarrow> nat" where
  "nreads fd h = length (filter (is_read fd \<circ> fst) h)"

fun data_to :: "int \<Rightarrow> ucall \<Rightarrow> byte list" where
  "data_to fd (Write f bs) = (if f = fd then bs else [])"
| "data_to fd _ = []"

definition written :: "int \<Rightarrow> (ucall \<times> reply) list \<Rightarrow> byte list" where
  "written fd h = concat (map (data_to fd \<circ> fst) h)"

text \<open>The kernel replies to the reads from \<open>fd\<close> with the pieces in turn, and with an empty reply after the last.\<close>

definition piece :: "byte list list \<Rightarrow> nat \<Rightarrow> reply" where
  "piece ps i = (if i < length ps then Reply (int (length (ps ! i))) (ps ! i) else Reply 0 [])"

definition delivers :: "((ucall \<times> reply) list \<Rightarrow> ucall \<Rightarrow> reply) \<Rightarrow> int \<Rightarrow> byte list list \<Rightarrow> bool" where
  "delivers k fd ps \<longleftrightarrow> (\<forall>h n. k h (Read fd n) = piece ps (nreads fd h)) \<and> (\<forall>p \<in> set ps. p \<noteq> [])"

lemma nreads_simps [simp]:
  "nreads fd [] = 0" "nreads fd (h @ [(c, r)]) = nreads fd h + (if is_read fd c then 1 else 0)"
  by (auto simp: nreads_def)

lemma written_simps [simp]:
  "written fd [] = []" "written fd (h @ [(c, r)]) = written fd h @ data_to fd c"
  by (auto simp: written_def)

text \<open>The effect of an operation that calls nothing but \<^verbatim>\<open>write\<close>.\<close>

definition writes :: "int \<Rightarrow> byte list \<Rightarrow> 'z uproc_scheme \<Rightarrow> 'z uproc_scheme \<Rightarrow> bool" where
  "writes fd bs s s' \<longleftrightarrow>
     written fd (ucalls s') = written fd (ucalls s) @ bs \<and> kernel s' = kernel s \<and> (\<forall>f. nreads f (ucalls s') = nreads f (ucalls s))"

lemma writes_refl: "writes fd [] s s"
  by (simp add: writes_def)

lemma writes_trans: "writes fd as s t \<Longrightarrow> writes fd bs t u \<Longrightarrow> writes fd (as @ bs) s u"
  by (simp add: writes_def)

lemma sysu_write: "\<exists>s'. sysu (Write fd bs) s = Ok () s' \<and> writes fd bs s s'"
  by (simp add: sysu_def sys_def kop writes_def)

lemma putc_seq: "\<exists>s'. seqK (map (putc fd) cs) s = Ok () s' \<and> writes fd cs s s'"
proof (induction cs arbitrary: s)
  case Nil
  then show ?case by (simp add: kop writes_refl)
next
  case (Cons c cs)
  obtain t where t: "putc fd c s = Ok () t" "writes fd [c] s t" unfolding putc_def using sysu_write by blast
  obtain u where u: "seqK (map (putc fd) cs) t = Ok () u" "writes fd cs t u" using Cons by blast
  show ?case using t u writes_trans [OF t(2) u(2)] by (simp add: kop)
qed

lemma printf_Ok:
  assumes "uformat False (bytes_of_string fmt) args = Some cs"
  shows "\<exists>s'. printf fd fmt args s = Ok () s' \<and> writes fd cs s s'"
  using putc_seq [of fd cs s] assms by (simp add: printf_def)

text \<open>One read from a file that is being delivered.\<close>

lemma delivered:
  assumes "delivers (kernel s) fd ps"
  shows "\<exists>s'. sys (Read fd n) s = Ok (piece ps (nreads fd (ucalls s))) s' \<and> nreads fd (ucalls s') = Suc (nreads fd (ucalls s))
     \<and> written f (ucalls s') = written f (ucalls s) \<and> kernel s' = kernel s"
  using assms by (simp add: sys_def kop delivers_def)

section \<open>wc\<close>

definition blank :: "byte \<Rightarrow> bool" where
  "blank b \<longleftrightarrow> b \<in> {0x20, 0x0D, 0x09, 0x0A, 0x0B}"

text \<open>A word begins at a byte that is not blank and that follows a blank or nothing.\<close>

definition word_starts :: "byte list \<Rightarrow> nat set" where
  "word_starts bs = {i. i < length bs \<and> \<not> blank (bs ! i) \<and> (i = 0 \<or> blank (bs ! (i - 1)))}"

definition counted :: "byte list \<Rightarrow> wc_count" where
  "counted bs =
     \<lparr>wl = int (count_list bs 10), ww = int (card (word_starts bs)), wch = int (length bs), inword = (bs \<noteq> [] \<and> \<not> blank (last bs))\<rparr>"

lemma word_starts_snoc:
  "word_starts (bs @ [b]) = word_starts bs \<union> (if \<not> blank b \<and> (bs = [] \<or> blank (last bs)) then {length bs} else {})"
  by (cases "bs = []") (auto simp: word_starts_def nth_append last_conv_nth less_Suc_eq)

lemma word_starts_finite [simp]: "finite (word_starts bs)" "length bs \<notin> word_starts bs"
  by (auto simp: word_starts_def)

lemma word_starts_card: "card (word_starts bs) \<le> length bs"
  using card_mono [of "{..<length bs}" "word_starts bs"] by (auto simp: word_starts_def)

lemma wc_byte_counted:
  assumes "length bs < 2147483647"
  shows "wc_byte b (counted bs) = counted (bs @ [b])"
proof -
  have lim: "count_list bs 10 < 2147483647" "card (word_starts bs) < 2147483647"
    using assms word_starts_card [of bs] count_le_length [of bs 10] by linarith+
  have b: "strchr wc_blank b = None \<longleftrightarrow> \<not> blank b" by (simp add: strchr_None wc_blank_def blank_def)
  show ?thesis using lim assms
    by (auto simp: wc_byte_def counted_def Let_def b word_starts_snoc s32_id)
qed

lemma wc_fold_counted:
  assumes "length (as @ bs) < 2147483648"
  shows "fold wc_byte bs (counted as) = counted (as @ bs)"
  using assms
proof (induction bs arbitrary: as)
  case (Cons b bs)
  then show ?case using Cons.IH [of "as @ [b]"] by (simp add: wc_byte_counted)
qed simp

lemma wc_loop_counted:
  assumes "delivers (kernel s) fd ps" "nreads fd (ucalls s) = i" "i \<le> length ps" "length ps - i \<le> fuel" "length (concat ps) < 2147483648"
  shows "\<exists>s'. wc_loop fuel fd (counted (concat (take i ps))) s = Ok (0, counted (concat ps)) s'
     \<and> written f (ucalls s') = written f (ucalls s)"
  using assms
proof (induction fuel arbitrary: s i)
  case 0
  obtain t where t: "sys (Read fd 512) s = Ok (piece ps i) t" "written f (ucalls t) = written f (ucalls s)"
    using delivered [OF 0(1), of 512 f] 0(2) by blast
  show ?case using 0 t by (simp add: wc_loop.simps [of 0] kop piece_def)
next
  case (Suc fuel)
  obtain t where t: "sys (Read fd 512) s = Ok (piece ps i) t" "written f (ucalls t) = written f (ucalls s)"
      "kernel t = kernel s" "nreads fd (ucalls t) = Suc i"
    using delivered [OF Suc(2), of 512 f] Suc(3) by blast
  show ?case
  proof (cases "i < length ps")
    case True
    then have ne: "ps ! i \<noteq> []" using Suc(2) nth_mem by (auto simp: delivers_def)
    have tk: "concat (take (Suc i) ps) = concat (take i ps) @ ps ! i" using True by (simp add: take_Suc_conv_app_nth)
    have "concat ps = concat (take (Suc i) ps) @ concat (drop (Suc i) ps)" by (metis append_take_drop_id concat_append)
    then have "length (concat (take (Suc i) ps)) \<le> length (concat ps)" by (metis le_add1 length_append)
    then have f: "fold wc_byte (ps ! i) (counted (concat (take i ps))) = counted (concat (take (Suc i) ps))"
      using wc_fold_counted [of "concat (take i ps)" "ps ! i"] Suc(6) tk by simp
    obtain u where u: "wc_loop fuel fd (counted (concat (take (Suc i) ps))) t = Ok (0, counted (concat ps)) u"
        "written f (ucalls u) = written f (ucalls t)"
      using Suc.IH [of t "Suc i"] Suc(2,5,6) t True by (metis Suc_leI diff_Suc_eq_diff_pred diff_le_mono diff_Suc_1 Suc_diff_Suc not_less_eq_eq)
    show ?thesis using t u f ne True by (simp add: wc_loop.simps [of "Suc fuel"] kop piece_def)
  next
    case False
    then show ?thesis using Suc t by (simp add: wc_loop.simps [of "Suc fuel"] kop piece_def)
  qed
qed

text \<open>
  C34. \<^verbatim>\<open>wc\<close> counts: of a file of less than 2 GB that the kernel delivers in pieces of any size, it prints the number of newlines,
  of words and of bytes, and the name, whatever the pieces; it ends after one read more than there are pieces.
\<close>

theorem wc_counts:
  assumes "delivers (kernel s) fd ps" "nreads fd (ucalls s) = 0" "length ps \<le> fuel" "length (concat ps) < 2147483648"
  shows "\<exists>s'. wc fuel fd name s = Ok () s' \<and>
    written 1 (ucalls s') = written 1 (ucalls s) @
      uprintint (int (count_list (concat ps) 10)) 10 True @ [32] @
      uprintint (int (card (word_starts (concat ps)))) 10 True @ [32] @
      uprintint (int (length (concat ps))) 10 True @ [32] @ cstr name @ [10]"
proof -
  have c0: "\<lparr>wl = 0, ww = 0, wch = 0, inword = False\<rparr> = counted (concat (take 0 ps))" by (simp add: counted_def word_starts_def)
  obtain t where t: "wc_loop fuel fd (counted (concat (take 0 ps))) s = Ok (0, counted (concat ps)) t"
      "written 1 (ucalls t) = written 1 (ucalls s)"
    using wc_loop_counted [OF assms(1,2), of fuel 1] assms(3,4) by auto
  let ?k = "counted (concat ps)"
  have "uformat False (bytes_of_string (''%d %d %d %s'' @ NL)) [CInt (wl ?k), CInt (ww ?k), CInt (wch ?k), CStr name] =
      Some (uprintint (wl ?k) 10 True @ [32] @ uprintint (ww ?k) 10 True @ [32] @ uprintint (wch ?k) 10 True @ [32] @ cstr name @ [10])"
    by (simp add: bytes_of_string_def)
  from printf_Ok [OF this, of 1 t] show ?thesis
    using t by (auto simp: wc_def c0 kop writes_def counted_def)
qed

section \<open>grep\<close>

lemma cstr_id: "0 \<notin> set bs \<Longrightarrow> cstr bs = bs"
  by (simp add: cstr_def takeWhile_eq_all_conv) metis

lemma grep_lines_none: "10 \<notin> set bs \<Longrightarrow> grep_lines pat bs = retK bs"
  by (subst grep_lines.simps) (auto simp: cstr_def dest: set_takeWhileD)

lemma grep_lines_one:
  assumes "0 \<notin> set b" "10 \<notin> set b"
  shows "\<exists>s'. grep_lines pat (b @ [10]) s = Ok [] s' \<and> writes 1 (if match pat b then b @ [10] else []) s s'"
proof -
  have c: "cstr (b @ [10]) = b @ [10]" using assms by (intro cstr_id) auto
  have l: "takeWhile (\<lambda>x. x \<noteq> 10) (b @ [10]) = b" using assms by (subst takeWhile_append2) auto
  have n: "grep_lines pat [] = retK []" by (rule grep_lines_none) simp
  obtain t where "whenK (match pat b) (sysu (Write 1 (b @ [10]))) s = Ok () t" "writes 1 (if match pat b then b @ [10] else []) s t"
    using sysu_write [of 1 "b @ [10]" s] writes_refl [of 1 s] by (cases "match pat b") (auto simp: kop)
  then show ?thesis by (subst grep_lines.simps) (simp add: c l n kop Let_def)
qed

text \<open>
  C35. \<^verbatim>\<open>grep\<close> loses the beginning of a line that reaches it in two reads when the first of them delivers no newline.  On a file that is the
  one line \<open>a @ b\<close>, delivered as \<open>a\<close> and then \<open>b\<close> with the newline, it throws \<open>a\<close> away, matches \<open>b\<close> alone, and prints \<open>b\<close> or nothing.
\<close>

theorem grep_split_line:
  assumes d: "delivers (kernel s) fd [a, b @ [10]]" and r: "nreads fd (ucalls s) = 0"
    and a: "10 \<notin> set a" and b: "0 \<notin> set b" "10 \<notin> set b" and fuel: "2 \<le> fuel"
  shows "\<exists>s'. grep fuel pat fd s = Ok () s' \<and>
    written 1 (ucalls s') = written 1 (ucalls s) @ (if match pat b then b @ [10] else [])"
proof -
  have a0: "a \<noteq> []" using d by (simp add: delivers_def)
  obtain f where f: "fuel = Suc (Suc f)" using fuel by (metis Suc_le_D numeral_2_eq_2 Suc_le_mono)
  obtain s1 where s1: "sys (Read fd 1023) s = Ok (piece [a, b @ [10]] 0) s1" "nreads fd (ucalls s1) = 1"
      "written 1 (ucalls s1) = written 1 (ucalls s)" "kernel s1 = kernel s"
    using delivered [OF d, of 1023 1] r by auto
  obtain s2 where s2: "sys (Read fd 1023) s1 = Ok (piece [a, b @ [10]] 1) s2" "nreads fd (ucalls s2) = 2"
      "written 1 (ucalls s2) = written 1 (ucalls s)" "kernel s2 = kernel s"
    using delivered [of s1 fd _ 1023 1] d s1 by fastforce
  obtain s3 where s3: "grep_lines pat (b @ [10]) s2 = Ok [] s3" "writes 1 (if match pat b then b @ [10] else []) s2 s3"
    using grep_lines_one [OF b] by blast
  have k3: "kernel s3 = kernel s" "nreads fd (ucalls s3) = 2" using s3 s2 by (simp_all add: writes_def)
  obtain s4 where s4: "sys (Read fd 1023) s3 = Ok (piece [a, b @ [10]] 2) s4" "written 1 (ucalls s4) = written 1 (ucalls s3)"
    using delivered [of s3 fd _ 1023 1] d k3 by fastforce
  have "grep fuel pat fd s = Ok () s4"
    using s1 s2 s3 s4 a0
    by (simp add: grep_def f grep_loop.simps kop piece_def Let_def grep_lines_none [OF a])
  then show ?thesis using s4 s3 s2 by (simp add: writes_def)
qed

section \<open>Witnesses\<close>

text \<open>A kernel that delivers the pieces \<open>ps\<close> from descriptor 0, and a program about to run.\<close>

definition kernel0 :: "byte list list \<Rightarrow> (ucall \<times> reply) list \<Rightarrow> ucall \<Rightarrow> reply" where
  "kernel0 ps h c = (if is_read 0 c then piece ps (nreads 0 h) else Reply 0 [])"

definition uproc0 :: "byte list list \<Rightarrow> uproc" where
  "uproc0 ps = \<lparr>ucalls = [], kernel = kernel0 ps\<rparr>"

theorem wc_counts_witness:
  "\<exists>s'. wc 2 0 [] (uproc0 [[0x61, 0x20], [0x62, 0x0A]]) = Ok () s'"
proof -
  let ?ps = "[[0x61, 0x20], [0x62, 0x0A]] :: byte list list"
  have "delivers (kernel (uproc0 ?ps)) 0 ?ps" "nreads 0 (ucalls (uproc0 ?ps)) = 0"
    by (simp_all add: delivers_def uproc0_def kernel0_def)
  from wc_counts [OF this, of 2 "[]"] show ?thesis by auto
qed

theorem grep_split_line_witness:
  "\<exists>s'. grep 2 [0x61, 0x62] 0 (uproc0 [[0x61], [0x62, 0x0A]]) = Ok () s' \<and> written 1 (ucalls s') = []
     \<and> match [0x61, 0x62] [0x61, 0x62]"
proof -
  let ?ps = "[[0x61], [0x62] @ [10]] :: byte list list"
  have d: "delivers (kernel (uproc0 ?ps)) 0 ?ps" "nreads 0 (ucalls (uproc0 ?ps)) = 0"
    by (simp_all add: delivers_def uproc0_def kernel0_def)
  have m: "\<not> match [0x61, 0x62] [0x62]" "match [0x61, 0x62] [0x61, 0x62]" by code_simp+
  from grep_split_line [OF d, of 2 "[0x61, 0x62]"] show ?thesis using m by (auto simp: uproc0_def)
qed

end
