(* ===== verification/Sh.thy ===== *)
theory Sh
  imports Filters
begin

text \<open>
  The shell, \<^verbatim>\<open>sh.c\<close>.  A command is parsed in the buffer that holds the line; its strings are ranges of the buffer,
  ended with NUL bytes when parsing is over.  The blocks that \<^verbatim>\<open>malloc\<close> gives for the nodes of the tree are
  not modelled.  Every loop of the parser has fuel; the theorem is that a line of \<open>n\<close> characters needs
  no more than \<open>4 * n + 4\<close>, and that the words of the command can be read back from the buffer as
  they were typed.
\<close>

section \<open>Commands\<close>

type_synonym range = "nat \<times> nat"

datatype cmd =
    Execcmd "range list"
  | Redircmd cmd range int int
  | Pipecmd cmd cmd
  | Listcmd cmd cmd
  | Backcmd cmd

definition MAXARGS :: nat where "MAXARGS = 10"

section \<open>Tokens\<close>

text \<open>The byte at a place of the buffer; after its end there is the NUL of the string.\<close>

definition byte_at :: "byte list \<Rightarrow> nat \<Rightarrow> byte" where
  "byte_at buf i = (if i < length buf then buf ! i else 0)"

definition whitespace :: "byte list" where
  "whitespace = [0x20, 0x09, 0x0D, 0x0A, 0x0B]"

definition symbols :: "byte list" where
  "symbols = bytes_of_string ''<|>&;()''"

function skip_while :: "(byte \<Rightarrow> bool) \<Rightarrow> byte list \<Rightarrow> nat \<Rightarrow> nat \<Rightarrow> nat" where
  "skip_while P buf es s = (if s < es \<and> P (byte_at buf s) then skip_while P buf es (Suc s) else s)"
  by pat_completeness auto
termination
  by (relation "measure (\<lambda>(P, buf, es, s). es - s)") auto

declare skip_while.simps [simp del]

definition skip_white :: "byte list \<Rightarrow> nat \<Rightarrow> nat \<Rightarrow> nat" where
  "skip_white = skip_while (\<lambda>b. strchr whitespace b \<noteq> None)"

definition skip_word :: "byte list \<Rightarrow> nat \<Rightarrow> nat \<Rightarrow> nat" where
  "skip_word = skip_while (\<lambda>b. strchr whitespace b = None \<and> strchr symbols b = None)"

record token =
  tok :: byte
  tq :: nat
  teq :: nat
  tend :: nat

definition gettoken :: "byte list \<Rightarrow> nat \<Rightarrow> nat \<Rightarrow> token" where
  "gettoken buf es s0 =
     (let s = skip_white buf es s0; b = byte_at buf s;
          (r, e) =
            (if b = 0 then (b, s)
             else if b \<in> set (bytes_of_string ''|();&<'') then (b, Suc s)
             else if b = 0x3E then (if byte_at buf (Suc s) = 0x3E then (0x2B, Suc (Suc s)) else (b, Suc s))
             else (0x61, skip_word buf es s)) in
      \<lparr>tok = r, tq = s, teq = e, tend = skip_white buf es e\<rparr>)"

definition peek :: "byte list \<Rightarrow> nat \<Rightarrow> nat \<Rightarrow> string \<Rightarrow> bool \<times> nat" where
  "peek buf es s0 toks =
     (let s = skip_white buf es s0; b = byte_at buf s in
      (b \<noteq> 0 \<and> strchr (bytes_of_string toks) b \<noteq> None, s))"

section \<open>Parsing\<close>

text \<open>\<^verbatim>\<open>panic\<close> of the shell ends the process with a message.\<close>

datatype 'a pres = POk 'a | PPanic string | PFuel

fun pbind :: "'a pres \<Rightarrow> ('a \<Rightarrow> 'b pres) \<Rightarrow> 'b pres" where
  "pbind (POk a) f = f a"
| "pbind (PPanic e) f = PPanic e"
| "pbind PFuel f = PFuel"

text \<open>
  \<^verbatim>\<open>parseredirs\<close> wraps the redirections around the command; here they are collected, the innermost first.  For
  \<^verbatim>\<open>>>\<close> the mode is the same as for \<^verbatim>\<open>>\<close>.
\<close>

type_synonym redir = "range \<times> int \<times> int"

definition redir_of :: "byte \<Rightarrow> range \<Rightarrow> redir" where
  "redir_of t f = (if t = 0x3C then (f, O_RDONLY, 0) else (f, O_WRONLY OR O_CREATE, 1))"

fun redircmds :: "cmd \<Rightarrow> redir list \<Rightarrow> cmd" where
  "redircmds c [] = c"
| "redircmds c ((f, m, fd) # rs) = redircmds (Redircmd c f m fd) rs"

fun parseredirs :: "nat \<Rightarrow> byte list \<Rightarrow> nat \<Rightarrow> nat \<Rightarrow> (redir list \<times> nat) pres" where
  "parseredirs fuel buf es s0 =
     (case peek buf es s0 ''<>'' of (b, s) \<Rightarrow>
      if b then
        (let t = gettoken buf es s; f = gettoken buf es (tend t) in
         if tok f \<noteq> 0x61 then PPanic ''missing file for redirection''
         else (case fuel of
             0 \<Rightarrow> PFuel
           | Suc n \<Rightarrow> pbind (parseredirs n buf es (tend f)) (\<lambda>(rs, s').
               POk (redir_of (tok t) (tq f, teq f) # rs, s'))))
      else POk ([], s))"

declare parseredirs.simps [simp del]

text \<open>The loop of \<^verbatim>\<open>parseexec\<close> over the arguments.\<close>

fun parseargs :: "nat \<Rightarrow> byte list \<Rightarrow> nat \<Rightarrow> range list \<Rightarrow> redir list \<Rightarrow> nat \<Rightarrow> (cmd \<times> nat) pres" where
  "parseargs fuel buf es args rs s0 =
     (case peek buf es s0 ''|)&;'' of (b, s) \<Rightarrow>
      if b then POk (redircmds (Execcmd args) rs, s)
      else
        (let t = gettoken buf es s in
         if tok t = 0 then POk (redircmds (Execcmd args) rs, tend t)
         else if tok t \<noteq> 0x61 then PPanic ''syntax''
         else if length args + 1 \<ge> MAXARGS then PPanic ''too many args''
         else (case fuel of
             0 \<Rightarrow> PFuel
           | Suc n \<Rightarrow> pbind (parseredirs n buf es (tend t)) (\<lambda>(rs', s').
               parseargs n buf es (args @ [(tq t, teq t)]) (rs @ rs') s'))))"

declare parseargs.simps [simp del]

fun parseamps :: "nat \<Rightarrow> byte list \<Rightarrow> nat \<Rightarrow> cmd \<Rightarrow> nat \<Rightarrow> (cmd \<times> nat) pres" where
  "parseamps fuel buf es c s0 =
     (case peek buf es s0 ''&'' of (b, s) \<Rightarrow>
      if b then (case fuel of 0 \<Rightarrow> PFuel | Suc n \<Rightarrow> parseamps n buf es (Backcmd c) (tend (gettoken buf es s)))
      else POk (c, s))"

declare parseamps.simps [simp del]

function parseline :: "nat \<Rightarrow> byte list \<Rightarrow> nat \<Rightarrow> nat \<Rightarrow> (cmd \<times> nat) pres"
  and parsepipe :: "nat \<Rightarrow> byte list \<Rightarrow> nat \<Rightarrow> nat \<Rightarrow> (cmd \<times> nat) pres"
  and parseexec :: "nat \<Rightarrow> byte list \<Rightarrow> nat \<Rightarrow> nat \<Rightarrow> (cmd \<times> nat) pres"
  and parseblock :: "nat \<Rightarrow> byte list \<Rightarrow> nat \<Rightarrow> nat \<Rightarrow> (cmd \<times> nat) pres" where
  "parseline 0 buf es s = PFuel"
| "parseline (Suc n) buf es s =
     pbind (parsepipe n buf es s) (\<lambda>(c, s1).
     pbind (parseamps n buf es c s1) (\<lambda>(c, s2).
     case peek buf es s2 '';'' of (b, s3) \<Rightarrow>
     if b then pbind (parseline n buf es (tend (gettoken buf es s3))) (\<lambda>(d, s4). POk (Listcmd c d, s4))
     else POk (c, s3)))"
| "parsepipe 0 buf es s = PFuel"
| "parsepipe (Suc n) buf es s =
     pbind (parseexec n buf es s) (\<lambda>(c, s1).
     case peek buf es s1 ''|'' of (b, s2) \<Rightarrow>
     if b then pbind (parsepipe n buf es (tend (gettoken buf es s2))) (\<lambda>(d, s3). POk (Pipecmd c d, s3))
     else POk (c, s2))"
| "parseexec 0 buf es s = PFuel"
| "parseexec (Suc n) buf es s =
     (case peek buf es s ''('' of (b, s1) \<Rightarrow>
      if b then parseblock n buf es s1
      else pbind (parseredirs n buf es s1) (\<lambda>(rs, s2). parseargs n buf es [] rs s2))"
| "parseblock 0 buf es s = PFuel"
| "parseblock (Suc n) buf es s =
     (case peek buf es s ''('' of (b, s1) \<Rightarrow>
      if \<not> b then PPanic ''parseblock''
      else
        pbind (parseline n buf es (tend (gettoken buf es s1))) (\<lambda>(c, s2).
        case peek buf es s2 '')'' of (b, s3) \<Rightarrow>
        if \<not> b then PPanic ''syntax - missing )''
        else pbind (parseredirs n buf es (tend (gettoken buf es s3))) (\<lambda>(rs, s4). POk (redircmds c rs, s4))))"
  by pat_completeness auto
termination
  by (relation "measure (\<lambda>x. case x of Inl (Inl (n, _)) \<Rightarrow> n | Inl (Inr (n, _)) \<Rightarrow> n | Inr (Inl (n, _)) \<Rightarrow> n | Inr (Inr (n, _)) \<Rightarrow> n)") auto

fun nulterminate :: "cmd \<Rightarrow> byte list \<Rightarrow> byte list" where
  "nulterminate (Execcmd args) buf = foldl (\<lambda>b (q, e). b[e := 0]) buf args"
| "nulterminate (Redircmd c (q, e) m fd) buf = (nulterminate c buf)[e := 0]"
| "nulterminate (Pipecmd c d) buf = nulterminate d (nulterminate c buf)"
| "nulterminate (Listcmd c d) buf = nulterminate d (nulterminate c buf)"
| "nulterminate (Backcmd c) buf = nulterminate c buf"

section \<open>Running commands\<close>

definition sh_panic :: "string \<Rightarrow> ('a, 'z uproc_scheme) kop" where
  "sh_panic msg = thenK (printf 2 (''%s'' @ NL) [CStr (bytes_of_string msg)]) uexit"

definition fork1 :: "(int, 'z uproc_scheme) kop" where
  "fork1 = bindK (sysi (Fork 0)) (\<lambda>pd. if pd = - 1 then sh_panic ''fork'' else retK pd)"

text \<open>The string that begins at a place of the buffer.\<close>

definition str_at :: "byte list \<Rightarrow> nat \<Rightarrow> byte list" where
  "str_at buf q = cstr (drop q buf)"

definition parsecmd :: "nat \<Rightarrow> byte list \<Rightarrow> (cmd \<times> byte list, 'z uproc_scheme) kop" where
  "parsecmd fuel buf =
     (let es = length (cstr buf) in
      case parseline fuel buf es 0 of
        PFuel \<Rightarrow> (\<lambda>_. NoFuel)
      | PPanic msg \<Rightarrow> sh_panic msg
      | POk (c, s0) \<Rightarrow>
          (case peek buf es s0 '''' of (b, s) \<Rightarrow>
           if s \<noteq> es then thenK (printf 2 (''leftovers: %s'' @ NL) [CStr (str_at buf s)]) (sh_panic ''syntax'')
           else retK (c, nulterminate c buf)))"

text \<open>\<^verbatim>\<open>runcmd\<close> does not return; the child of a fork goes on in its own way.\<close>

fun runcmd :: "byte list \<Rightarrow> cmd \<Rightarrow> (unit, 'z uproc_scheme) kop" where
  "runcmd buf (Execcmd args) =
     (case args of
        [] \<Rightarrow> uexit
      | (q, e) # _ \<Rightarrow>
          thenK (uexec (str_at buf q) (map (\<lambda>(q, e). str_at buf q) args)) (
          thenK (printf 2 (''exec %s failed'' @ NL) [CStr (str_at buf q)]) uexit))"
| "runcmd buf (Redircmd c (q, e) m fd) =
     thenK (sysu (Close fd)) (
     bindK (sysi (Open (str_at buf q) m)) (\<lambda>r.
     if r < 0 then thenK (printf 2 (''open %s failed'' @ NL) [CStr (str_at buf q)]) uexit
     else thenK (runcmd buf c) uexit))"
| "runcmd buf (Listcmd c d) =
     bindK fork1 (\<lambda>pd.
     thenK (whenK (pd = 0) (runcmd buf c)) (
     thenK (sysu Wait) (
     thenK (runcmd buf d) uexit)))"
| "runcmd buf (Pipecmd c d) =
     bindK (sys Pipe) (\<lambda>r.
     if rval r < 0 then sh_panic ''pipe''
     else
       (let p0 = sint (get32 (rdata r) 0); p1 = sint (get32 (rdata r) 4) in
        bindK fork1 (\<lambda>pd.
        thenK (whenK (pd = 0) (seqK [sysu (Close 1), sysu (Dup p1), sysu (Close p0), sysu (Close p1), runcmd buf c])) (
        bindK fork1 (\<lambda>pd.
        thenK (whenK (pd = 0) (seqK [sysu (Close 0), sysu (Dup p0), sysu (Close p0), sysu (Close p1), runcmd buf d])) (
        thenK (seqK [sysu (Close p0), sysu (Close p1), sysu Wait, sysu Wait]) uexit))))))"
| "runcmd buf (Backcmd c) =
     bindK fork1 (\<lambda>pd.
     thenK (whenK (pd = 0) (runcmd buf c)) uexit)"

text \<open>The line that \<^verbatim>\<open>gets\<close> reads, in a buffer of 100 bytes that was cleared before; \<open>None\<close> at the end of the input.\<close>

definition getcmd :: "(byte list option, 'z uproc_scheme) kop" where
  "getcmd =
     thenK (printf 2 ''$ '' []) (
     bindK (gets 100) (\<lambda>l.
     let buf = l @ replicate (100 - length l) 0 in
     retK (if byte_at buf 0 = 0 then None else Some buf)))"

fun sh_open :: "nat \<Rightarrow> (unit, 'z uproc_scheme) kop" where
  "sh_open fuel =
     bindK (sysi (Open console_path O_RDWR)) (\<lambda>fd.
     if fd \<ge> 3 then sysu (Close fd)
     else if fd \<ge> 0 then (case fuel of 0 \<Rightarrow> (\<lambda>_. NoFuel) | Suc n \<Rightarrow> sh_open n)
     else retK ())"

declare sh_open.simps [simp del]

definition sh_cd :: "byte list \<Rightarrow> (unit, 'z uproc_scheme) kop" where
  "sh_cd buf =
     (let b = buf[length (cstr buf) - 1 := 0] in
      bindK (sysi (Chdir (str_at b 3))) (\<lambda>r.
      whenK (r < 0) (printf 2 (''cannot cd %s'' @ NL) [CStr (str_at b 3)])))"

fun sh_loop :: "nat \<Rightarrow> (unit, 'z uproc_scheme) kop" where
  "sh_loop fuel =
     bindK getcmd (\<lambda>r.
     case r of
       None \<Rightarrow> uexit
     | Some buf \<Rightarrow>
         thenK
           (if take 3 buf = bytes_of_string ''cd '' then sh_cd buf
            else
              bindK fork1 (\<lambda>pd.
              thenK (whenK (pd = 0) (bindK (parsecmd 405 buf) (\<lambda>(c, b). runcmd b c))) (
              sysu Wait))) (
         case fuel of 0 \<Rightarrow> (\<lambda>_. NoFuel) | Suc n \<Rightarrow> sh_loop n))"

declare sh_loop.simps [simp del]

definition sh_main :: "nat \<Rightarrow> (unit, 'z uproc_scheme) kop" where
  "sh_main fuel = thenK (sh_open fuel) (sh_loop fuel)"

section \<open>Tokens advance\<close>

definition word_char :: "byte \<Rightarrow> bool" where
  "word_char b \<longleftrightarrow> b \<noteq> 0 \<and> strchr whitespace b = None \<and> strchr symbols b = None"

text \<open>The line in the buffer ends at \<open>es\<close>.\<close>

definition line_ok :: "byte list \<Rightarrow> nat \<Rightarrow> bool" where
  "line_ok buf es \<longleftrightarrow> es < length buf \<and> (\<forall>i < es. byte_at buf i \<noteq> 0) \<and> byte_at buf es = 0"

text \<open>A range of the buffer that is a whole word.\<close>

fun good :: "byte list \<Rightarrow> nat \<Rightarrow> range \<Rightarrow> bool" where
  "good buf es (q, e) \<longleftrightarrow> q < e \<and> e \<le> es \<and> (\<forall>i. q \<le> i \<and> i < e \<longrightarrow> word_char (byte_at buf i)) \<and> \<not> word_char (byte_at buf e)"

lemma line_ok_cstr: "length (cstr buf) < length buf \<Longrightarrow> line_ok buf (length (cstr buf))"
proof -
  assume l: "length (cstr buf) < length buf"
  have "buf ! i \<noteq> 0" if "i < length (cstr buf)" for i
  proof -
    have "cstr buf ! i \<in> set (cstr buf)" using that by simp
    then show ?thesis using that by (auto simp: cstr_def takeWhile_nth dest: set_takeWhileD)
  qed
  moreover have "buf ! length (cstr buf) = 0" using l nth_length_takeWhile [of "\<lambda>b. b \<noteq> 0" buf] by (auto simp: cstr_def)
  ultimately show ?thesis using l by (simp add: line_ok_def byte_at_def)
qed

lemma skip_while_spec:
  assumes "s \<le> es"
  shows "s \<le> skip_while P buf es s" "skip_while P buf es s \<le> es" "\<forall>i. s \<le> i \<and> i < skip_while P buf es s \<longrightarrow> P (byte_at buf i)"
    "skip_while P buf es s < es \<Longrightarrow> \<not> P (byte_at buf (skip_while P buf es s))"
proof -
  have "s \<le> skip_while P buf es s \<and> skip_while P buf es s \<le> es \<and> (\<forall>i. s \<le> i \<and> i < skip_while P buf es s \<longrightarrow> P (byte_at buf i)) \<and>
    (skip_while P buf es s < es \<longrightarrow> \<not> P (byte_at buf (skip_while P buf es s)))"
    using assms
  proof (induction P buf es s rule: skip_while.induct)
    case (1 P buf es s)
    show ?case
    proof (cases "s < es \<and> P (byte_at buf s)")
      case True
      then have e: "skip_while P buf es s = skip_while P buf es (Suc s)" by (subst skip_while.simps) simp
      let ?k = "skip_while P buf es (Suc s)"
      have ih: "Suc s \<le> ?k" "?k \<le> es" "\<forall>i. Suc s \<le> i \<and> i < ?k \<longrightarrow> P (byte_at buf i)" "?k < es \<longrightarrow> \<not> P (byte_at buf ?k)"
        using 1(1) [OF True] True by simp_all
      have "P (byte_at buf i)" if "s \<le> i \<and> i < ?k" for i
        using that True ih(3) by (cases "i = s") auto
      then show ?thesis using ih unfolding e by simp
    next
      case False
      then have "skip_while P buf es s = s" by (subst skip_while.simps) auto
      then show ?thesis using 1(2) False by auto
    qed
  qed
  then show "s \<le> skip_while P buf es s" "skip_while P buf es s \<le> es" "\<forall>i. s \<le> i \<and> i < skip_while P buf es s \<longrightarrow> P (byte_at buf i)"
    "skip_while P buf es s < es \<Longrightarrow> \<not> P (byte_at buf (skip_while P buf es s))" by blast+
qed

lemmas skip_white_spec = skip_while_spec [of _ _ "\<lambda>b. strchr whitespace b \<noteq> None", folded skip_white_def]
lemmas skip_word_spec = skip_while_spec [of _ _ "\<lambda>b. strchr whitespace b = None \<and> strchr symbols b = None", folded skip_word_def]

lemma skip_white_idem: "s \<le> es \<Longrightarrow> s = es \<or> strchr whitespace (byte_at buf s) = None \<Longrightarrow> skip_white buf es s = s"
  unfolding skip_white_def by (subst skip_while.simps) auto

lemma gettoken_spec:
  assumes l: "line_ok buf es" and s: "s \<le> es"
  defines "t \<equiv> gettoken buf es s"
  shows "s \<le> tq t" "tq t \<le> teq t" "teq t \<le> tend t" "tend t \<le> es" "tok t \<noteq> 0 \<Longrightarrow> tq t < teq t"
    "tok t = 0x61 \<Longrightarrow> good buf es (tq t, teq t)" "tok t = 0 \<Longrightarrow> byte_at buf (tq t) = 0"
proof -
  define u where "u = skip_white buf es s"
  have u: "s \<le> u" "u \<le> es" "u < es \<Longrightarrow> strchr whitespace (byte_at buf u) = None"
    using skip_white_spec [OF s, of buf] by (auto simp: u_def)
  have lt: "u < es" if "byte_at buf u \<noteq> 0" using that l u(2) by (metis le_neq_implies_less line_ok_def)
  have lt2: "Suc u < es" if "byte_at buf u \<noteq> 0" "byte_at buf (Suc u) \<noteq> 0"
    using that l lt [OF that(1)] by (metis Suc_leI le_neq_implies_less line_ok_def)
  define w where "w = skip_word buf es u"
  have w: "u \<le> w" "w \<le> es" "\<forall>i. u \<le> i \<and> i < w \<longrightarrow> strchr whitespace (byte_at buf i) = None \<and> strchr symbols (byte_at buf i) = None"
    "w < es \<Longrightarrow> \<not> (strchr whitespace (byte_at buf w) = None \<and> strchr symbols (byte_at buf w) = None)"
    using skip_word_spec [OF u(2), of buf] by (auto simp: w_def)
  have sym: "strchr symbols b = None \<longleftrightarrow> b \<notin> set (bytes_of_string ''|();&<'') \<and> b \<noteq> 0x3E" for b
    by (auto simp: symbols_def strchr_None bytes_of_string_def)
  consider (z) "byte_at buf u = 0" "t = \<lparr>tok = 0, tq = u, teq = u, tend = skip_white buf es u\<rparr>"
    | (y) k where "byte_at buf u \<noteq> 0" "tok t \<noteq> 0" "tok t \<noteq> 0x61" "tq t = u" "teq t = u + k" "0 < k" "u + k \<le> es" "tend t = skip_white buf es (u + k)"
    | (a) "u < w" "t = \<lparr>tok = 0x61, tq = u, teq = w, tend = skip_white buf es w\<rparr>"
  proof (cases "byte_at buf u = 0")
    case True
    then show ?thesis using that(1) by (simp add: t_def gettoken_def Let_def u_def [symmetric])
  next
    case nz: False
    note lt = lt [OF nz]
    show ?thesis
    proof (cases "byte_at buf u \<in> set (bytes_of_string ''|();&<'')")
      case True
      then have "tok t = byte_at buf u" "tq t = u" "teq t = u + 1" "tend t = skip_white buf es (u + 1)"
        using nz by (simp_all add: t_def gettoken_def Let_def u_def [symmetric])
      then show ?thesis using that(2) [of 1] nz lt True by (auto simp: bytes_of_string_def)
    next
      case ns: False
      show ?thesis
      proof (cases "byte_at buf u = 0x3E")
        case True
        show ?thesis
        proof (cases "byte_at buf (Suc u) = 0x3E")
          case True2: True
          have "tok t = 0x2B" "tq t = u" "teq t = u + 2" "tend t = skip_white buf es (u + 2)"
            using nz ns True True2 by (simp_all add: t_def gettoken_def Let_def u_def [symmetric])
          then show ?thesis using that(2) [of 2] nz lt2 True2 by simp
        next
          case False
          then have "tok t = 0x3E" "tq t = u" "teq t = u + 1" "tend t = skip_white buf es (u + 1)"
            using nz ns True by (simp_all add: t_def gettoken_def Let_def u_def [symmetric])
          then show ?thesis using that(2) [of 1] nz lt by simp
        qed
      next
        case False
        have tt: "t = \<lparr>tok = 0x61, tq = u, teq = w, tend = skip_white buf es w\<rparr>"
          using nz ns False by (simp add: t_def gettoken_def Let_def u_def [symmetric] w_def)
        have "strchr symbols (byte_at buf u) = None" using sym ns False by blast
        then have "u \<noteq> w" using w(4) lt u(3) by auto
        then show ?thesis using that(3) tt w(1) by simp
      qed
    qed
  qed
  then have "s \<le> tq t \<and> tq t \<le> teq t \<and> teq t \<le> tend t \<and> tend t \<le> es \<and> (tok t \<noteq> 0 \<longrightarrow> tq t < teq t) \<and>
    (tok t = 0x61 \<longrightarrow> good buf es (tq t, teq t)) \<and> (tok t = 0 \<longrightarrow> byte_at buf (tq t) = 0)"
  proof cases
    case z
    then show ?thesis using u skip_white_spec [OF u(2)] by simp
  next
    case y
    then show ?thesis using u skip_white_spec [of "u + k" es] by simp
  next
    case a
    have "word_char (byte_at buf i)" if "u \<le> i \<and> i < w" for i
      using that w(2,3) l by (auto simp: word_char_def line_ok_def)
    moreover have "\<not> word_char (byte_at buf w)" using w(2,4) l by (cases "w = es") (auto simp: word_char_def line_ok_def)
    ultimately show ?thesis using a u w(2) skip_white_spec [OF w(2)] by simp
  qed
  then show "s \<le> tq t" "tq t \<le> teq t" "teq t \<le> tend t" "tend t \<le> es" "tok t \<noteq> 0 \<Longrightarrow> tq t < teq t"
    "tok t = 0x61 \<Longrightarrow> good buf es (tq t, teq t)" "tok t = 0 \<Longrightarrow> byte_at buf (tq t) = 0" by blast+
qed

lemma peek_spec:
  assumes l: "line_ok buf es" and s: "s \<le> es" and p: "peek buf es s toks = (b, s')"
  shows "s \<le> s'" "s' \<le> es" "b \<Longrightarrow> s' < tend (gettoken buf es s')"
proof -
  have s': "s' = skip_white buf es s" "b \<Longrightarrow> byte_at buf s' \<noteq> 0" using p by (auto simp: peek_def Let_def)
  show le: "s \<le> s'" "s' \<le> es" using skip_white_spec [OF s] s'(1) by auto
  assume b
  then have nz: "byte_at buf s' \<noteq> 0" using s'(2) by simp
  then have "s' < es" using le(2) l by (metis le_neq_implies_less line_ok_def)
  then have "skip_white buf es s' = s'" using skip_white_spec(4) [OF s, of buf] s'(1) by (intro skip_white_idem) auto
  then have "tq (gettoken buf es s') = s'" by (simp add: gettoken_def Let_def split: prod.splits)
  then show "s' < tend (gettoken buf es s')" using gettoken_spec [OF l le(2)] nz by (metis order.strict_trans2)
qed

section \<open>The parser ends\<close>

fun ranges :: "cmd \<Rightarrow> range list" where
  "ranges (Execcmd args) = args"
| "ranges (Redircmd c f m fd) = ranges c @ [f]"
| "ranges (Pipecmd c d) = ranges c @ ranges d"
| "ranges (Listcmd c d) = ranges c @ ranges d"
| "ranges (Backcmd c) = ranges c"

definition cmd_ok :: "byte list \<Rightarrow> nat \<Rightarrow> cmd \<Rightarrow> bool" where
  "cmd_ok buf es c \<longleftrightarrow> (\<forall>r \<in> set (ranges c). good buf es r)"

definition redirs_ok :: "byte list \<Rightarrow> nat \<Rightarrow> redir list \<Rightarrow> bool" where
  "redirs_ok buf es rs \<longleftrightarrow> (\<forall>(f, m, fd) \<in> set rs. good buf es f)"

text \<open>A parser comes to an end at \<open>s\<close> or later, with a result that is as it should be.\<close>

definition fine :: "('a \<Rightarrow> bool) \<Rightarrow> nat \<Rightarrow> nat \<Rightarrow> ('a \<times> nat) pres \<Rightarrow> bool" where
  "fine Q s es r \<longleftrightarrow> (case r of PFuel \<Rightarrow> False | PPanic e \<Rightarrow> True | POk (a, s') \<Rightarrow> Q a \<and> s \<le> s' \<and> s' \<le> es)"

lemma fine_simps [simp]:
  "fine Q s es (POk (a, s')) \<longleftrightarrow> Q a \<and> s \<le> s' \<and> s' \<le> es" "fine Q s es (PPanic e)" "\<not> fine Q s es PFuel"
  by (simp_all add: fine_def)

lemma fine_bind:
  assumes "fine Q t es r" "s \<le> t" "\<And>a s'. Q a \<Longrightarrow> t \<le> s' \<Longrightarrow> s' \<le> es \<Longrightarrow> fine R s es (f (a, s'))"
  shows "fine R s es (pbind r f)"
  using assms by (cases r) auto

lemma fine_mono: "fine Q s' es r \<Longrightarrow> s \<le> s' \<Longrightarrow> fine Q s es r"
  by (cases r) (auto simp: fine_def)

lemma ranges_redircmds: "set (ranges (redircmds c rs)) = set (ranges c) \<union> fst ` set rs"
  by (induction c rs rule: redircmds.induct) auto

lemma cmd_ok_redircmds: "cmd_ok buf es c \<Longrightarrow> redirs_ok buf es rs \<Longrightarrow> cmd_ok buf es (redircmds c rs)"
  by (auto simp: cmd_ok_def redirs_ok_def ranges_redircmds)

lemma parseredirs_fine:
  assumes "line_ok buf es" "s \<le> es" "es - s \<le> fuel"
  shows "fine (redirs_ok buf es) s es (parseredirs fuel buf es s)"
  using assms(2,3)
proof (induction fuel arbitrary: s)
  case 0
  obtain b s1 where p: "peek buf es s ''<>'' = (b, s1)" by fastforce
  note ps = peek_spec [OF assms(1) 0(1) p]
  have "\<not> b" using ps gettoken_spec(4) [OF assms(1) ps(2)] 0(2) by (metis diff_is_0_eq leD le_trans zero_order(2))
  then show ?case using p ps by (simp add: parseredirs.simps [of 0] redirs_ok_def)
next
  case (Suc n)
  obtain b s1 where p: "peek buf es s ''<>'' = (b, s1)" by fastforce
  note ps = peek_spec [OF assms(1) Suc(2) p]
  let ?t = "gettoken buf es s1"
  let ?f = "gettoken buf es (tend ?t)"
  note t = gettoken_spec [OF assms(1) ps(2)]
  note f = gettoken_spec [OF assms(1) t(4)]
  show ?case
  proof (cases "b \<and> tok ?f = 0x61")
    case True
    have lt: "s < tend ?f" using ps t(4) f True by linarith
    have "fine (redirs_ok buf es) (tend ?f) es (parseredirs n buf es (tend ?f))"
      using lt f(4) Suc.prems(2) by (intro Suc.IH) auto
    then have "fine (redirs_ok buf es) s es (pbind (parseredirs n buf es (tend ?f)) (\<lambda>(rs, s'). POk (redir_of (tok ?t) (tq ?f, teq ?f) # rs, s')))"
      by (rule fine_bind) (use f(6) True lt in \<open>auto simp: redirs_ok_def redir_of_def\<close>)
    then show ?thesis using True p by (simp add: parseredirs.simps [of "Suc n"] Let_def)
  next
    case False
    then show ?thesis using p ps by (auto simp: parseredirs.simps [of "Suc n"] redirs_ok_def Let_def)
  qed
qed

lemma parseargs_fine:
  assumes "line_ok buf es" "s \<le> es" "es - s \<le> fuel" "\<forall>r \<in> set args. good buf es r" "redirs_ok buf es rs"
  shows "fine (cmd_ok buf es) s es (parseargs fuel buf es args rs s)"
  using assms(2-5)
proof (induction fuel arbitrary: s args rs)
  case 0
  obtain b s1 where p: "peek buf es s ''|)&;'' = (b, s1)" by fastforce
  note ps = peek_spec [OF assms(1) 0(1) p]
  note t = gettoken_spec [OF assms(1) ps(2)]
  have "tok (gettoken buf es s1) = 0"
  proof (rule ccontr)
    assume "tok (gettoken buf es s1) \<noteq> 0"
    then have "tq (gettoken buf es s1) < teq (gettoken buf es s1)" by (rule t(5))
    then show False using t(1,3,4) ps(1) 0(2) by linarith
  qed
  moreover have "cmd_ok buf es (redircmds (Execcmd args) rs)" using 0(3,4) by (intro cmd_ok_redircmds) (auto simp: cmd_ok_def)
  ultimately show ?case using p ps t by (auto simp: parseargs.simps [of 0] Let_def)
next
  case (Suc n)
  obtain b s1 where p: "peek buf es s ''|)&;'' = (b, s1)" by fastforce
  note ps = peek_spec [OF assms(1) Suc(2) p]
  let ?t = "gettoken buf es s1"
  note t = gettoken_spec [OF assms(1) ps(2)]
  have ok: "cmd_ok buf es (redircmds (Execcmd args) rs)" using Suc.prems(3,4) by (intro cmd_ok_redircmds) (auto simp: cmd_ok_def)
  show ?case
  proof (cases "\<not> b \<and> tok ?t = 0x61 \<and> \<not> length args + 1 \<ge> MAXARGS")
    case True
    have "tq ?t < teq ?t" using True by (intro t(5)) simp
    then have lt: "s < tend ?t" using ps(1) t(1,3) by linarith
    have fu: "es - tend ?t \<le> n" using lt t(4) Suc.prems(2) by linarith
    have "fine (cmd_ok buf es) s es (pbind (parseredirs n buf es (tend ?t)) (\<lambda>(rs', s'). parseargs n buf es (args @ [(tq ?t, teq ?t)]) (rs @ rs') s'))"
    proof (rule fine_bind [OF parseredirs_fine [OF assms(1) t(4) fu] less_imp_le [OF lt]], simp only: case_prod_conv)
      fix rs' s' assume r: "redirs_ok buf es rs'" "tend ?t \<le> s'" "s' \<le> es"
      have "fine (cmd_ok buf es) s' es (parseargs n buf es (args @ [(tq ?t, teq ?t)]) (rs @ rs') s')"
        using r fu Suc.prems(3,4) t(6) True by (intro Suc.IH) (auto simp: redirs_ok_def)
      then show "fine (cmd_ok buf es) s es (parseargs n buf es (args @ [(tq ?t, teq ?t)]) (rs @ rs') s')"
        by (rule fine_mono) (use r lt in simp)
    qed
    then show ?thesis using True p by (simp add: parseargs.simps [of "Suc n"] Let_def)
  next
    case False
    then show ?thesis using p ps t ok by (auto simp: parseargs.simps [of "Suc n"] Let_def)
  qed
qed

lemma parseamps_fine:
  assumes "line_ok buf es" "s \<le> es" "es - s \<le> fuel" "cmd_ok buf es c"
  shows "fine (cmd_ok buf es) s es (parseamps fuel buf es c s)"
  using assms(2-4)
proof (induction fuel arbitrary: s c)
  case 0
  obtain b s1 where p: "peek buf es s ''&'' = (b, s1)" by fastforce
  note ps = peek_spec [OF assms(1) 0(1) p]
  have "\<not> b" using ps gettoken_spec(4) [OF assms(1) ps(2)] 0(2) by (metis diff_is_0_eq leD le_trans zero_order(2))
  then show ?case using p ps 0(3) by (simp add: parseamps.simps [of 0])
next
  case (Suc n)
  obtain b s1 where p: "peek buf es s ''&'' = (b, s1)" by fastforce
  note ps = peek_spec [OF assms(1) Suc(2) p]
  let ?t = "gettoken buf es s1"
  note t = gettoken_spec [OF assms(1) ps(2)]
  show ?case
  proof (cases b)
    case True
    have lt: "s < tend ?t" using ps True by linarith
    have "fine (cmd_ok buf es) (tend ?t) es (parseamps n buf es (Backcmd c) (tend ?t))"
      using lt t(4) Suc.prems(2,3) by (intro Suc.IH) (auto simp: cmd_ok_def)
    then show ?thesis using True p fine_mono [OF _ less_imp_le [OF lt]] by (simp add: parseamps.simps [of "Suc n"])
  next
    case False
    then show ?thesis using p ps Suc.prems(3) by (simp add: parseamps.simps [of "Suc n"])
  qed
qed

text \<open>The end of a production: a symbol that may or may not follow.\<close>

lemma fine_peek:
  assumes l: "line_ok buf es" and s: "s \<le> s1" "s1 \<le> es"
    and no: "\<And>s2. s1 \<le> s2 \<Longrightarrow> s2 \<le> es \<Longrightarrow> fine Q s es (g s2)"
    and yes: "\<And>s2. s1 \<le> s2 \<Longrightarrow> s2 \<le> es \<Longrightarrow> s1 < tend (gettoken buf es s2) \<Longrightarrow> tend (gettoken buf es s2) \<le> es \<Longrightarrow> fine Q s es (f s2)"
  shows "fine Q s es (case peek buf es s1 toks of (b, s2) \<Rightarrow> if b then f s2 else g s2)"
proof -
  obtain b s2 where p: "peek buf es s1 toks = (b, s2)" by fastforce
  note ps = peek_spec [OF l s(2) p]
  show ?thesis using p ps no yes gettoken_spec(4) [OF l ps(2)] by (cases b) auto
qed

definition fine_at :: "nat \<Rightarrow> byte list \<Rightarrow> nat \<Rightarrow> nat \<Rightarrow> bool" where
  "fine_at n buf es s \<longleftrightarrow>
    (4 * (es - s) + 4 \<le> n \<longrightarrow> fine (cmd_ok buf es) s es (parseline n buf es s)) \<and>
    (4 * (es - s) + 3 \<le> n \<longrightarrow> fine (cmd_ok buf es) s es (parsepipe n buf es s)) \<and>
    (4 * (es - s) + 2 \<le> n \<longrightarrow> fine (cmd_ok buf es) s es (parseexec n buf es s)) \<and>
    (4 * (es - s) + 1 \<le> n \<longrightarrow> fine (cmd_ok buf es) s es (parseblock n buf es s))"

lemma cmd_ok_simps [simp]:
  "cmd_ok buf es (Pipecmd c d) \<longleftrightarrow> cmd_ok buf es c \<and> cmd_ok buf es d"
  "cmd_ok buf es (Listcmd c d) \<longleftrightarrow> cmd_ok buf es c \<and> cmd_ok buf es d"
  by (auto simp: cmd_ok_def)

lemma parseline_fine:
  assumes l: "line_ok buf es" and ih: "\<And>s. s \<le> es \<Longrightarrow> fine_at n buf es s" and s: "s \<le> es" and f: "4 * (es - s) + 4 \<le> Suc n"
  shows "fine (cmd_ok buf es) s es (parseline (Suc n) buf es s)"
proof -
  have k: "fine (cmd_ok buf es) s es (case peek buf es s2 '';'' of (b, s3) \<Rightarrow>
      if b then pbind (parseline n buf es (tend (gettoken buf es s3))) (\<lambda>(d, s4). POk (Listcmd c d, s4)) else POk (c, s3))"
    if c: "cmd_ok buf es c" "s \<le> s2" "s2 \<le> es" for c s2
  proof (rule fine_peek [OF l c(2,3)])
    fix s3 assume t: "s2 < tend (gettoken buf es s3)" "tend (gettoken buf es s3) \<le> es"
    have "fine (cmd_ok buf es) (tend (gettoken buf es s3)) es (parseline n buf es (tend (gettoken buf es s3)))"
      using ih [OF t(2)] f t c by (simp add: fine_at_def)
    then show "fine (cmd_ok buf es) s es (pbind (parseline n buf es (tend (gettoken buf es s3))) (\<lambda>(d, s4). POk (Listcmd c d, s4)))"
      by (rule fine_bind) (use t c in auto)
  qed (use c in simp)
  have k1: "fine (cmd_ok buf es) s es (pbind (parseamps n buf es c s1) (\<lambda>(c, s2). case peek buf es s2 '';'' of (b, s3) \<Rightarrow>
      if b then pbind (parseline n buf es (tend (gettoken buf es s3))) (\<lambda>(d, s4). POk (Listcmd c d, s4)) else POk (c, s3)))"
    if c: "cmd_ok buf es c" "s \<le> s1" "s1 \<le> es" for c s1
    by (rule fine_bind [OF parseamps_fine [OF l c(3) _ c(1)] c(2)]) (use f c k in auto)
  have "fine (cmd_ok buf es) s es (parsepipe n buf es s)" using ih [OF s] f by (simp add: fine_at_def)
  then show ?thesis unfolding parseline.simps by (rule fine_bind) (use k1 in auto)
qed

lemma parsepipe_fine:
  assumes l: "line_ok buf es" and ih: "\<And>s. s \<le> es \<Longrightarrow> fine_at n buf es s" and s: "s \<le> es" and f: "4 * (es - s) + 3 \<le> Suc n"
  shows "fine (cmd_ok buf es) s es (parsepipe (Suc n) buf es s)"
proof -
  have k: "fine (cmd_ok buf es) s es (case peek buf es s1 ''|'' of (b, s2) \<Rightarrow>
      if b then pbind (parsepipe n buf es (tend (gettoken buf es s2))) (\<lambda>(d, s3). POk (Pipecmd c d, s3)) else POk (c, s2))"
    if c: "cmd_ok buf es c" "s \<le> s1" "s1 \<le> es" for c s1
  proof (rule fine_peek [OF l c(2,3)])
    fix s2 assume t: "s1 < tend (gettoken buf es s2)" "tend (gettoken buf es s2) \<le> es"
    have "fine (cmd_ok buf es) (tend (gettoken buf es s2)) es (parsepipe n buf es (tend (gettoken buf es s2)))"
      using ih [OF t(2)] f t c by (simp add: fine_at_def)
    then show "fine (cmd_ok buf es) s es (pbind (parsepipe n buf es (tend (gettoken buf es s2))) (\<lambda>(d, s3). POk (Pipecmd c d, s3)))"
      by (rule fine_bind) (use t c in auto)
  qed (use c in simp)
  have "fine (cmd_ok buf es) s es (parseexec n buf es s)" using ih [OF s] f by (simp add: fine_at_def)
  then show ?thesis unfolding parsepipe.simps by (rule fine_bind) (use k in auto)
qed

lemma parseexec_fine:
  assumes l: "line_ok buf es" and ih: "\<And>s. s \<le> es \<Longrightarrow> fine_at n buf es s" and s: "s \<le> es" and f: "4 * (es - s) + 2 \<le> Suc n"
  shows "fine (cmd_ok buf es) s es (parseexec (Suc n) buf es s)"
  unfolding parseexec.simps
proof (rule fine_peek [OF l order.refl s])
  fix s1 assume t: "s \<le> s1" and s1: "s1 \<le> es"
  then have "fine (cmd_ok buf es) s1 es (parseblock n buf es s1)" using ih [OF s1] f by (simp add: fine_at_def)
  then show "fine (cmd_ok buf es) s es (parseblock n buf es s1)" by (rule fine_mono) (rule t)
next
  fix s1 assume t: "s \<le> s1" "s1 \<le> es"
  have k: "fine (cmd_ok buf es) s es (parseargs n buf es [] rs s2)" if r: "redirs_ok buf es rs" "s1 \<le> s2" "s2 \<le> es" for rs s2
  proof -
    have "es - s2 \<le> n" using r t f by linarith
    then have "fine (cmd_ok buf es) s2 es (parseargs n buf es [] rs s2)" using parseargs_fine [OF l r(3), of n "[]" rs] r(1) by simp
    then show ?thesis by (rule fine_mono) (use r t in simp)
  qed
  show "fine (cmd_ok buf es) s es (pbind (parseredirs n buf es s1) (\<lambda>(rs, s2). parseargs n buf es [] rs s2))"
    by (rule fine_bind [OF parseredirs_fine [OF l t(2)] t(1)]) (use k f t in auto)
qed

lemma parseblock_fine:
  assumes l: "line_ok buf es" and ih: "\<And>s. s \<le> es \<Longrightarrow> fine_at n buf es s" and s: "s \<le> es" and f: "4 * (es - s) + 1 \<le> Suc n"
  shows "fine (cmd_ok buf es) s es (parseblock (Suc n) buf es s)"
proof -
  have flip: "(case x of (b, s1) \<Rightarrow> if \<not> b then PPanic e else g s1) = (case x of (b, s1) \<Rightarrow> if b then g s1 else PPanic e)"
    for x :: "bool \<times> nat" and e and g :: "nat \<Rightarrow> (cmd \<times> nat) pres" by (cases x) auto
  have k: "fine (cmd_ok buf es) s es (case peek buf es s2 '')'' of (b, s3) \<Rightarrow>
      if b then pbind (parseredirs n buf es (tend (gettoken buf es s3))) (\<lambda>(rs, s4). POk (redircmds c rs, s4)) else PPanic ''syntax - missing )'')"
    if c: "cmd_ok buf es c" "s \<le> s2" "s2 \<le> es" for c s2
  proof (rule fine_peek [OF l c(2,3)])
    fix s3 assume t: "s2 < tend (gettoken buf es s3)" "tend (gettoken buf es s3) \<le> es"
    have "es - tend (gettoken buf es s3) \<le> n" using t c f by linarith
    then show "fine (cmd_ok buf es) s es (pbind (parseredirs n buf es (tend (gettoken buf es s3))) (\<lambda>(rs, s4). POk (redircmds c rs, s4)))"
      by (intro fine_bind [OF parseredirs_fine [OF l t(2)]]) (use t c in \<open>auto intro: cmd_ok_redircmds\<close>)
  qed simp
  show ?thesis unfolding parseblock.simps flip
  proof (rule fine_peek [OF l order.refl s])
    fix s1 assume t: "s \<le> s1" "s < tend (gettoken buf es s1)" "tend (gettoken buf es s1) \<le> es"
    have "fine (cmd_ok buf es) (tend (gettoken buf es s1)) es (parseline n buf es (tend (gettoken buf es s1)))"
      using ih [OF t(3)] t f by (simp add: fine_at_def)
    then show "fine (cmd_ok buf es) s es (pbind (parseline n buf es (tend (gettoken buf es s1))) (\<lambda>(c, s2). case peek buf es s2 '')'' of (b, s3) \<Rightarrow>
        if b then pbind (parseredirs n buf es (tend (gettoken buf es s3))) (\<lambda>(rs, s4). POk (redircmds c rs, s4)) else PPanic ''syntax - missing )''))"
      by (rule fine_bind) (use t k in auto)
  qed simp
qed

lemma parse_fine:
  assumes "line_ok buf es"
  shows "s \<le> es \<Longrightarrow> fine_at n buf es s"
proof (induction n arbitrary: s)
  case 0
  then show ?case by (simp add: fine_at_def)
next
  case (Suc n)
  show ?case unfolding fine_at_def
    using parseline_fine [OF assms Suc.IH Suc.prems] parsepipe_fine [OF assms Suc.IH Suc.prems]
      parseexec_fine [OF assms Suc.IH Suc.prems] parseblock_fine [OF assms Suc.IH Suc.prems] by simp
qed

section \<open>The words of a command\<close>

lemma byte_at_update: "e < length buf \<Longrightarrow> byte_at (buf[e := 0]) i = (if i = e then 0 else byte_at buf i)"
  by (auto simp: byte_at_def)

lemma nulterminate_at:
  assumes "\<forall>(q, e) \<in> set (ranges c). e < length buf"
  shows "length (nulterminate c buf) = length buf \<and>
    byte_at (nulterminate c buf) i = (if \<exists>q. (q, i) \<in> set (ranges c) then 0 else byte_at buf i)"
  using assms
proof (induction c arbitrary: buf)
  case (Execcmd args)
  have "length (foldl (\<lambda>b (q, e). b[e := 0]) buf args) = length buf \<and>
    byte_at (foldl (\<lambda>b (q, e). b[e := 0]) buf args) i = (if \<exists>q. (q, i) \<in> set args then 0 else byte_at buf i)"
    if "\<forall>(q, e) \<in> set args. e < length buf" for buf
    using that by (induction args arbitrary: buf) (auto simp: byte_at_update split: if_splits)
  then show ?case using Execcmd by simp
next
  case (Redircmd c f m fd)
  then show ?case using Redircmd.IH [of buf] by (cases f) (auto simp: byte_at_update)
next
  case (Pipecmd c d)
  then show ?case using Pipecmd.IH(1) [of buf] Pipecmd.IH(2) [of "nulterminate c buf"] by auto
next
  case (Listcmd c d)
  then show ?case using Listcmd.IH(1) [of buf] Listcmd.IH(2) [of "nulterminate c buf"] by auto
next
  case (Backcmd c)
  then show ?case by simp
qed

lemma str_at_word:
  assumes l: "line_ok buf es" and c: "cmd_ok buf es c" and r: "(q, e) \<in> set (ranges c)"
  shows "str_at (nulterminate c buf) q = take (e - q) (drop q buf)"
proof -
  let ?b = "nulterminate c buf"
  have g: "good buf es x" if "x \<in> set (ranges c)" for x using c that by (auto simp: cmd_ok_def)
  have qe: "q < e" "e \<le> es" "es < length buf" using g [OF r] l by (auto simp: line_ok_def)
  have lt: "\<forall>(q, e) \<in> set (ranges c). e < length buf"
  proof clarify
    fix q' e' assume "(q', e') \<in> set (ranges c)"
    then show "e' < length buf" using g [of "(q', e')"] qe(3) by simp
  qed
  have len: "length ?b = length buf" and bt: "byte_at ?b i = (if \<exists>q. (q, i) \<in> set (ranges c) then 0 else byte_at buf i)" for i
    using nulterminate_at [OF lt] by auto
  have ends: "\<not> word_char (byte_at buf i)" if "(q', i) \<in> set (ranges c)" for q' i using g [OF that] by simp
  have inside: "byte_at ?b i = buf ! i" "buf ! i \<noteq> 0" if "q \<le> i" "i < e" for i
  proof -
    have "word_char (byte_at buf i)" using g [OF r] that by simp
    moreover have "byte_at buf i = buf ! i" using that qe by (simp add: byte_at_def)
    moreover have "byte_at ?b i = byte_at buf i" using bt [of i] ends calculation(1) by auto
    ultimately show "byte_at ?b i = buf ! i" "buf ! i \<noteq> 0" by (simp_all add: word_char_def)
  qed
  have at_e: "byte_at ?b e = 0" using bt [of e] r by auto
  have nth: "?b ! i = byte_at ?b i" if "i < length buf" for i using that len by (simp add: byte_at_def)
  have "takeWhile (\<lambda>b. b \<noteq> 0) (drop q ?b) = take (e - q) (drop q ?b)"
    using inside at_e nth qe len by (intro takeWhile_eq_take_P_nth) auto
  also have "\<dots> = take (e - q) (drop q buf)"
    using inside nth qe len by (intro nth_equalityI) auto
  finally show ?thesis by (simp add: str_at_def cstr_def)
qed

lemma sh_panic_exits: "\<exists>t. sh_panic msg s = Swtch t"
proof -
  have "uformat False (bytes_of_string (''%s'' @ NL)) [CStr (bytes_of_string msg)] = Some (cstr (bytes_of_string msg) @ [10])"
    by (simp add: bytes_of_string_def)
  from printf_Ok [OF this, of 2 s] obtain u where "printf 2 (''%s'' @ NL) [CStr (bytes_of_string msg)] s = Ok () u" by blast
  then show ?thesis by (simp add: sh_panic_def uexit_def sysu_def sys_def kop)
qed

text \<open>
  C15. The shell's parser always ends, in a command or in a message and \<^verbatim>\<open>exit\<close>: for a line of \<open>n\<close> characters in a buffer with room
  for the terminator, \<open>4 * n + 4\<close> nested calls are enough.  And every word of the command, read back as a C string from the buffer
  that \<^verbatim>\<open>nulterminate\<close> leaves, is the range of the line that the parser found, a maximal run of characters that are neither blanks
  nor symbols: no terminator falls into another word.
\<close>

theorem parsecmd_words:
  fixes s :: "'a uproc_scheme"
  assumes "length (cstr buf) < length buf" "4 * length (cstr buf) + 4 \<le> fuel"
  shows "(\<exists>t. parsecmd fuel buf s = Swtch t) \<or>
    (\<exists>c b. parsecmd fuel buf s = Ok (c, b) s \<and>
      (\<forall>(q, e) \<in> set (ranges c). good buf (length (cstr buf)) (q, e) \<and> str_at b q = take (e - q) (drop q buf)))"
proof -
  let ?es = "length (cstr buf)"
  have l: "line_ok buf ?es" by (rule line_ok_cstr [OF assms(1)])
  have f: "fine (cmd_ok buf ?es) 0 ?es (parseline fuel buf ?es 0)"
    using parse_fine [OF l, of 0 fuel] assms(2) by (simp add: fine_at_def)
  show ?thesis
  proof (cases "parseline fuel buf ?es 0")
    case PFuel
    then show ?thesis using f by simp
  next
    case (PPanic msg)
    obtain t :: "'a uproc_scheme" where "(sh_panic msg :: (cmd \<times> byte list, 'a uproc_scheme) kop) s = Swtch t" using sh_panic_exits by blast
    then show ?thesis using PPanic by (simp add: parsecmd_def Let_def)
  next
    case (POk r)
    then obtain c s1 where r: "parseline fuel buf ?es 0 = POk (c, s1)" by (cases r) auto
    then have c: "cmd_ok buf ?es c" using f by simp
    obtain b s2 where p: "peek buf ?es s1 '''' = (b, s2)" by fastforce
    show ?thesis
    proof (cases "s2 = ?es")
      case True
      then have "parsecmd fuel buf s = Ok (c, nulterminate c buf) s" using r p by (simp add: parsecmd_def Let_def kop)
      moreover have "\<forall>(q, e) \<in> set (ranges c). good buf ?es (q, e) \<and> str_at (nulterminate c buf) q = take (e - q) (drop q buf)"
        using str_at_word [OF l c] c unfolding cmd_ok_def by blast
      ultimately show ?thesis by blast
    next
      case False
      have "uformat False (bytes_of_string (''leftovers: %s'' @ NL)) [CStr (str_at buf s2)] =
          Some (bytes_of_string ''leftovers: '' @ cstr (str_at buf s2) @ [10])" by (simp add: bytes_of_string_def)
      from printf_Ok [OF this, of 2 s] obtain u where "printf 2 (''leftovers: %s'' @ NL) [CStr (str_at buf s2)] s = Ok () u" by blast
      moreover obtain t :: "'a uproc_scheme" where "(sh_panic ''syntax'' :: (cmd \<times> byte list, 'a uproc_scheme) kop) u = Swtch t" using sh_panic_exits by blast
      ultimately show ?thesis using r p False by (simp add: parsecmd_def Let_def kop)
    qed
  qed
qed

theorem parsecmd_words_witness:
  "\<exists>c b. parsecmd 16 [0x61, 0x3E, 0x62, 0] (uproc0 []) = Ok (c, b) (uproc0 []) \<and> map (\<lambda>(q, e). str_at b q) (ranges c) = [[0x61], [0x62]]"
proof -
  let ?l = "[0x61, 0x3E, 0x62, 0] :: byte list"
  let ?c = "Redircmd (Execcmd [(0, 1)]) (2, 3) 0x201 1"
  have n: "length (cstr ?l) = 3" by (simp add: cstr_def)
  have p: "parseline 16 ?l 3 0 = POk (?c, 3)" by code_simp
  have "peek ?l 3 3 '''' = (False, 3)" by code_simp
  then have e: "parsecmd 16 ?l (uproc0 []) = Ok (?c, nulterminate ?c ?l) (uproc0 [])"
    using p n by (simp add: parsecmd_def Let_def kop)
  have "\<forall>(q, e) \<in> set (ranges ?c). good ?l (length (cstr ?l)) (q, e) \<and> str_at (nulterminate ?c ?l) q = take (e - q) (drop q ?l)"
    using parsecmd_words [of ?l 16 "uproc0 []"] e n by auto
  then have "str_at (nulterminate ?c ?l) 0 = [0x61]" "str_at (nulterminate ?c ?l) 2 = [0x62]" by simp_all
  then show ?thesis using e by simp
qed

end
