(* ===== verification/Umalloc.thy ===== *)
theory Umalloc
  imports User
begin

text \<open>
  The memory allocator of user programs, \<^verbatim>\<open>umalloc.c\<close>.  A block begins with a header of eight bytes, the unit of
  its size; the functions \<open>hptr\<close> and \<open>hsize\<close> give the fields of the header at an address.  They stand for the eight bytes at
  that address: the theorem shows that no block in the program's hands overlaps a header, so a program that stays within its blocks
  leaves them alone.  The static variables are \<open>freep\<close> and the header \<^verbatim>\<open>base\<close>, at the address \<open>base\<close> that the linker chooses.
  The free blocks form a ring in the order of their addresses, which begins at \<^verbatim>\<open>base\<close>.  The theorem is that a
  program that allocates blocks of less than 2 GB and frees blocks it holds, in any order, always gets blocks of the size it asked
  for that overlap neither each other nor any header or free block.
\<close>

section \<open>The code\<close>

record uheap = uproc +
  hptr :: "addr \<Rightarrow> addr"
  hsize :: "addr \<Rightarrow> u32"
  freep :: addr
  base :: addr

text \<open>The place of the block \<open>bp\<close> in the ring, from \<open>p\<close> on.\<close>

fun free_find :: "nat \<Rightarrow> (addr \<Rightarrow> addr) \<Rightarrow> addr \<Rightarrow> addr \<Rightarrow> addr option" where
  "free_find fuel nx bp p =
     (if bp > p \<and> bp < nx p then Some p
      else if p \<ge> nx p \<and> (bp > p \<or> bp < nx p) then Some p
      else (case fuel of 0 \<Rightarrow> None | Suc n \<Rightarrow> free_find n nx bp (nx p)))"

declare free_find.simps [simp del]

definition header_end :: "('z uheap_scheme) \<Rightarrow> addr \<Rightarrow> addr" where
  "header_end s a = a + 8 * hsize s a"

definition free_right :: "addr \<Rightarrow> addr \<Rightarrow> 'z uheap_scheme \<Rightarrow> 'z uheap_scheme" where
  "free_right bp p s =
     (let q = hptr s p in
      if header_end s bp = q
      then s\<lparr>hsize := (hsize s)(bp := hsize s bp + hsize s q), hptr := (hptr s)(bp := hptr s q)\<rparr>
      else s\<lparr>hptr := (hptr s)(bp := q)\<rparr>)"

definition free_left :: "addr \<Rightarrow> addr \<Rightarrow> 'z uheap_scheme \<Rightarrow> 'z uheap_scheme" where
  "free_left bp p s =
     (if header_end s p = bp
      then s\<lparr>hsize := (hsize s)(p := hsize s p + hsize s bp), hptr := (hptr s)(p := hptr s bp)\<rparr>
      else s\<lparr>hptr := (hptr s)(p := bp)\<rparr>)"

definition free :: "nat \<Rightarrow> addr \<Rightarrow> (unit, 'z uheap_scheme) kop" where
  "free fuel ap =
     (let bp = ap - 8 in
      bindK (getK (\<lambda>s. free_find fuel (hptr s) bp (freep s))) (\<lambda>r.
      case r of
        None \<Rightarrow> (\<lambda>_. NoFuel)
      | Some p \<Rightarrow>
          thenK (modK (free_right bp p)) (
          thenK (modK (free_left bp p)) (
          modK (\<lambda>s. s\<lparr>freep := p\<rparr>)))))"

definition morecore :: "nat \<Rightarrow> u32 \<Rightarrow> (addr, 'z uheap_scheme) kop" where
  "morecore fuel nu0 =
     (let nu = (if nu0 < 4096 then 4096 else nu0) in
      bindK (sysi (Sbrk (sint (nu * 8)))) (\<lambda>r.
      if (word_of_int r :: addr) = - 1 then retK 0
      else
        (let hp = word_of_int r in
         thenK (modK (\<lambda>s. s\<lparr>hsize := (hsize s)(hp := nu)\<rparr>)) (
         thenK (free fuel (hp + 8)) (
         getK freep)))))"

text \<open>The block \<open>p\<close> is large enough: it is unlinked, or its tail is cut off.\<close>

definition malloc_take :: "u32 \<Rightarrow> addr \<Rightarrow> addr \<Rightarrow> (addr, 'z uheap_scheme) kop" where
  "malloc_take nunits prevp p =
     bindK (getK (\<lambda>s. hsize s p)) (\<lambda>zs.
     bindK
       (if zs = nunits then thenK (modK (\<lambda>s. s\<lparr>hptr := (hptr s)(prevp := hptr s p)\<rparr>)) (retK p)
        else
          (let q = p + 8 * (zs - nunits) in
           thenK (modK (\<lambda>s. s\<lparr>hsize := (hsize s)(p := zs - nunits, q := nunits)\<rparr>)) (retK q))) (\<lambda>q.
     thenK (modK (\<lambda>s. s\<lparr>freep := prevp\<rparr>)) (
     retK (q + 8))))"

fun malloc_loop :: "nat \<Rightarrow> u32 \<Rightarrow> addr \<Rightarrow> addr \<Rightarrow> (addr, 'z uheap_scheme) kop" where
  "malloc_loop fuel nunits prevp p =
     bindK (getK (\<lambda>s. (hsize s p, freep s))) (\<lambda>(zs, f).
     if zs \<ge> nunits then malloc_take nunits prevp p
     else
       bindK (if p = f then morecore fuel nunits else retK p) (\<lambda>p'.
       if p = f \<and> p' = 0 then retK 0
       else
         bindK (getK (\<lambda>s. hptr s p')) (\<lambda>q.
         case fuel of 0 \<Rightarrow> (\<lambda>_. NoFuel) | Suc n \<Rightarrow> malloc_loop n nunits p' q)))"

declare malloc_loop.simps [simp del]

definition malloc_units :: "u32 \<Rightarrow> u32" where
  "malloc_units nbytes = (nbytes + 8 - 1) div 8 + 1"

definition malloc :: "nat \<Rightarrow> u32 \<Rightarrow> (addr, 'z uheap_scheme) kop" where
  "malloc fuel nbytes =
     (let nunits = malloc_units nbytes in
      bindK (getK freep) (\<lambda>f.
      thenK (whenK (f = 0) (modK (\<lambda>s. s\<lparr>hptr := (hptr s)(base s := base s), freep := base s, hsize := (hsize s)(base s := 0)\<rparr>))) (
      bindK (getK freep) (\<lambda>prevp.
      bindK (getK (\<lambda>s. hptr s prevp)) (\<lambda>p.
      malloc_loop fuel nunits prevp p)))))"

section \<open>Chains\<close>

text \<open>From \<open>a\<close> the links lead through the addresses of the list, in order, to \<open>z\<close>.\<close>

fun chain :: "(addr \<Rightarrow> addr) \<Rightarrow> addr \<Rightarrow> addr list \<Rightarrow> addr \<Rightarrow> bool" where
  "chain nx a [] z = (nx a = z)"
| "chain nx a (b # bs) z = (nx a = b \<and> chain nx b bs z)"

lemma chain_append: "chain nx a (xs @ b # ys) z \<longleftrightarrow> chain nx a xs b \<and> chain nx b ys z"
  by (induction xs arbitrary: a) auto

lemma chain_frame: "(\<And>x. x \<in> set (a # xs) \<Longrightarrow> nx' x = nx x) \<Longrightarrow> chain nx' a xs z = chain nx a xs z"
  by (induction xs arbitrary: a) auto

lemma chain_upd: "p \<notin> set (a # xs) \<Longrightarrow> chain (nx(p := q)) a xs z = chain nx a xs z"
  by (intro chain_frame) auto

lemma chain_next: "chain nx a xs z \<Longrightarrow> nx (last (a # xs)) = z"
  by (induction xs arbitrary: a) auto

lemma chain_last_upd:
  assumes "chain nx a xs z" "distinct (a # xs)"
  shows "chain (nx(last (a # xs) := w)) a xs w"
  using assms by (induction xs arbitrary: a) (auto simp: chain_upd)

text \<open>A ring read from another of its members.\<close>

lemma chain_rotate:
  assumes "chain nx b xs b" "f \<in> set (b # xs)"
  shows "\<exists>ys. chain nx f ys f \<and> set (f # ys) = set (b # xs) \<and> length ys = length xs"
proof (cases "f = b")
  case True
  then show ?thesis using assms by blast
next
  case False
  then obtain us vs where x: "xs = us @ f # vs" using assms(2) by (meson set_ConsD split_list)
  then have "chain nx f (vs @ b # us) f" using assms(1) by (simp add: chain_append)
  then show ?thesis using x by (intro exI [of _ "vs @ b # us"]) auto
qed

lemma free_find_chain:
  assumes "chain nx f ys z" "\<exists>p \<in> set (f # ys). bp > p \<and> bp < nx p \<or> p \<ge> nx p \<and> (bp > p \<or> bp < nx p)" "length ys \<le> fuel"
  shows "\<exists>p \<in> set (f # ys). free_find fuel nx bp f = Some p \<and> (bp > p \<and> bp < nx p \<or> p \<ge> nx p \<and> (bp > p \<or> bp < nx p))"
  using assms
proof (induction ys arbitrary: f fuel)
  case Nil
  then show ?case by (auto simp: free_find.simps [of fuel])
next
  case (Cons y ys)
  show ?case
  proof (cases "bp > f \<and> bp < nx f \<or> f \<ge> nx f \<and> (bp > f \<or> bp < nx f)")
    case True
    then show ?thesis by (simp add: free_find.simps [of fuel]) blast
  next
    case False
    obtain n where n: "fuel = Suc n" "length ys \<le> n" using Cons.prems(3) by (cases fuel) auto
    have "\<exists>p \<in> set (y # ys). free_find n nx bp y = Some p \<and> (bp > p \<and> bp < nx p \<or> p \<ge> nx p \<and> (bp > p \<or> bp < nx p))"
      using Cons.prems False n by (intro Cons.IH) auto
    moreover have "free_find fuel nx bp f = free_find n nx bp y"
      using False Cons.prems(1) n by (auto simp: free_find.simps [of "Suc n"])
    ultimately show ?thesis by auto
  qed
qed

section \<open>Freeing a block\<close>

lemma chain_split:
  "chain nx a (ls @ rs) z \<longleftrightarrow> chain nx a ls (hd (rs @ [z])) \<and> (rs \<noteq> [] \<longrightarrow> chain nx (hd rs) (tl rs) z)"
  by (cases rs) (auto simp: chain_append)

definition bend :: "(addr \<Rightarrow> u32) \<Rightarrow> addr \<Rightarrow> nat" where
  "bend zs a = unat a + 8 * unat (zs a)"

text \<open>
  A ring of free blocks that begins at \<open>b\<close>, in the order of addresses; no block touches the next.
\<close>

definition ring :: "(addr \<Rightarrow> addr) \<Rightarrow> (addr \<Rightarrow> u32) \<Rightarrow> addr \<Rightarrow> addr list \<Rightarrow> bool" where
  "ring nx zs b xs \<longleftrightarrow> chain nx b xs b \<and> sorted_wrt (\<lambda>x y. bend zs x < unat y) (b # xs) \<and> zs b = 0"

lemma bend_less: "bend zs x < unat y \<Longrightarrow> x < y"
  by (simp add: bend_def word_less_nat_alt)

lemma bend_sorted: "sorted_wrt (\<lambda>x y. bend zs x < unat y) xs \<Longrightarrow> sorted_wrt (<) xs"
  by (rule sorted_wrt_mono_rel) (auto intro: bend_less)

lemma bend_distinct: "sorted_wrt (\<lambda>x y. bend zs x < unat y) xs \<Longrightarrow> distinct xs"
  using bend_sorted strict_sorted_iff by blast

lemma word_end: "bend zs a < 4294967296 \<Longrightarrow> unat (a + 8 * zs a) = bend zs a"
proof -
  assume l: "bend zs a < 4294967296"
  have "a + 8 * zs a = of_nat (bend zs a)" by (simp add: bend_def)
  then show ?thesis using l by (simp add: unat_of_nat take_bit_eq_mod)
qed

text \<open>
  The state between the two halves of \<^verbatim>\<open>free\<close>: the blocks before \<open>bp\<close>, and \<open>bp\<close> with those after it.
\<close>

definition mid :: "(addr \<Rightarrow> addr) \<Rightarrow> (addr \<Rightarrow> u32) \<Rightarrow> addr \<Rightarrow> addr list \<Rightarrow> addr \<Rightarrow> addr list \<Rightarrow> bool" where
  "mid nx zs b ls bp rs \<longleftrightarrow> (\<exists>w. chain nx b ls w) \<and> chain nx bp rs b \<and> sorted_wrt (\<lambda>x y. bend zs x < unat y) (b # ls) \<and>
     sorted_wrt (\<lambda>x y. bend zs x < unat y) (bp # rs) \<and> (\<forall>a \<in> set (b # ls). a < bp \<and> bend zs a \<le> unat bp) \<and> zs b = 0"

lemma mid_apart:
  assumes "mid nx zs b ls bp rs"
  shows "\<forall>a \<in> set (b # ls). \<forall>c \<in> set rs. bend zs a < unat c" "bp \<notin> set (b # ls)" "set (b # ls) \<inter> set rs = {}"
proof -
  have "bend zs a < unat c" if "a \<in> set (b # ls)" "c \<in> set rs" for a c
  proof -
    have "bend zs a \<le> unat bp" "bend zs bp < unat c" using assms that by (auto simp: mid_def)
    then show ?thesis by (simp add: bend_def)
  qed
  then show "\<forall>a \<in> set (b # ls). \<forall>c \<in> set rs. bend zs a < unat c" by blast
  then show "set (b # ls) \<inter> set rs = {}" using bend_less less_irrefl by blast
  show "bp \<notin> set (b # ls)" using assms by (auto simp: mid_def)
qed

text \<open>The blocks of a ring before and after the block \<open>bp\<close>, which overlaps none of them.\<close>

definition between :: "(addr \<Rightarrow> u32) \<Rightarrow> addr \<Rightarrow> addr list \<Rightarrow> addr \<Rightarrow> addr list \<Rightarrow> bool" where
  "between zs b ls bp rs \<longleftrightarrow> bend zs bp < 4294967296 \<and> (\<forall>a \<in> set (b # ls). a < bp \<and> bend zs a \<le> unat bp) \<and>
     (\<forall>c \<in> set rs. bp < c \<and> bend zs bp \<le> unat c \<and> bend zs c < 4294967296)"

definition right_ptr :: "(addr \<Rightarrow> addr) \<Rightarrow> (addr \<Rightarrow> u32) \<Rightarrow> addr \<Rightarrow> addr \<Rightarrow> addr \<Rightarrow> addr" where
  "right_ptr nx zs bp q = nx(bp := if bp + 8 * zs bp = q then nx q else q)"

definition right_size :: "(addr \<Rightarrow> u32) \<Rightarrow> addr \<Rightarrow> addr \<Rightarrow> addr \<Rightarrow> u32" where
  "right_size zs bp q = zs(bp := if bp + 8 * zs bp = q then zs bp + zs q else zs bp)"

lemma bend_upd_other: "a \<noteq> p \<Longrightarrow> bend (zs(p := v)) a = bend zs a"
  by (simp add: bend_def)

lemma sorted_bend_upd: "p \<notin> set xs \<Longrightarrow> sorted_wrt (\<lambda>x y. bend (zs(p := v)) x < unat y) xs = sorted_wrt (\<lambda>x y. bend zs x < unat y) xs"
  by (induction xs) (auto simp: bend_upd_other)

lemma unat_bend_add:
  assumes "bend zs a = unat c" "bend zs c < 4294967296"
  shows "bend (zs(a := zs a + zs c)) a = bend zs c"
proof -
  have "unat (zs a + zs c) = unat (zs a) + unat (zs c)"
    using assms by (subst unat_add_lem [THEN iffD1]) (auto simp: bend_def)
  then show ?thesis using assms by (simp add: bend_def)
qed

lemma ring_mid:
  assumes r: "ring nx zs b (ls @ rs)" and bt: "between zs b ls bp rs" and q: "q = hd (rs @ [b])"
  shows "mid (right_ptr nx zs bp q) (right_size zs bp q) b ls bp (if bp + 8 * zs bp = q then tl rs else rs)"
proof -
  have srt: "sorted_wrt (\<lambda>x y. bend zs x < unat y) (b # ls)" "sorted_wrt (\<lambda>x y. bend zs x < unat y) rs" "zs b = 0"
    and ch: "chain nx b ls q" "rs \<noteq> [] \<Longrightarrow> chain nx (hd rs) (tl rs) b"
    using r q by (auto simp: ring_def sorted_wrt_append chain_split)
  have nin: "bp \<notin> set (b # ls)" "bp \<notin> set rs" using bt by (auto simp: between_def)
  have ends: "(bp + 8 * zs bp = q) = (bend zs bp = unat q)" using bt word_end [of zs bp] by (metis between_def word_unat_eq_iff)
  have front: "\<exists>w. chain (right_ptr nx zs bp q) b ls w" "sorted_wrt (\<lambda>x y. bend (right_size zs bp q) x < unat y) (b # ls)"
      "\<forall>a \<in> set (b # ls). a < bp \<and> bend (right_size zs bp q) a \<le> unat bp" "right_size zs bp q b = 0"
    using ch(1) srt nin bt by (auto simp: right_ptr_def right_size_def chain_upd sorted_bend_upd bend_upd_other between_def)
  show ?thesis
  proof (cases "bp + 8 * zs bp = q")
    case True
    have "rs \<noteq> []"
    proof
      assume "rs = []"
      then have "bend zs bp = unat b" "b < bp" using True ends q bt by (auto simp: between_def)
      then show False by (simp add: bend_def word_less_nat_alt)
    qed
    then obtain rs' where rs: "rs = q # rs'" using q by (cases rs) auto
    have "bend (zs(bp := zs bp + zs q)) bp = bend zs q"
      using True ends bt rs by (intro unat_bend_add) (auto simp: between_def)
    then have "sorted_wrt (\<lambda>x y. bend (right_size zs bp q) x < unat y) (bp # rs')"
      using True srt(2) nin rs by (simp add: right_size_def sorted_bend_upd)
    moreover have "chain (right_ptr nx zs bp q) bp rs' b"
      using True ch(2) rs nin by (cases rs') (auto simp: right_ptr_def chain_upd)
    ultimately show ?thesis using front True rs by (simp add: mid_def)
  next
    case False
    have lt: "bend zs bp < unat c" if c: "c \<in> set rs" for c
    proof -
      obtain rs' where rs: "rs = q # rs'" using c q by (cases rs) auto
      have "bend zs bp \<le> unat q" "bend zs bp \<noteq> unat q" using bt rs False ends by (auto simp: between_def)
      moreover have "unat q \<le> unat c" using c rs srt(2) bend_less [of zs q c] by (auto simp: word_less_nat_alt)
      ultimately show ?thesis by linarith
    qed
    have "sorted_wrt (\<lambda>x y. bend (right_size zs bp q) x < unat y) (bp # rs)"
      using False srt(2) lt nin by (simp add: right_size_def)
    moreover have "chain (right_ptr nx zs bp q) bp rs b"
      using False ch(2) q nin by (cases rs) (auto simp: right_ptr_def chain_upd)
    ultimately show ?thesis using front False by (simp add: mid_def)
  qed
qed

definition left_ptr :: "(addr \<Rightarrow> addr) \<Rightarrow> (addr \<Rightarrow> u32) \<Rightarrow> addr \<Rightarrow> addr \<Rightarrow> addr \<Rightarrow> addr" where
  "left_ptr nx zs p bp = nx(p := if p + 8 * zs p = bp then nx bp else bp)"

definition left_size :: "(addr \<Rightarrow> u32) \<Rightarrow> addr \<Rightarrow> addr \<Rightarrow> addr \<Rightarrow> u32" where
  "left_size zs p bp = zs(p := if p + 8 * zs p = bp then zs p + zs bp else zs p)"

lemma chain_head: "chain nx a xs z \<Longrightarrow> nx a = hd (xs @ [z])"
  by (cases xs) auto

lemma mid_ring:
  assumes m: "mid nx zs b ls bp rs" and p: "p = last (b # ls)" and lim: "bend zs bp < 4294967296"
  shows "ring (left_ptr nx zs p bp) (left_size zs p bp) b (if p + 8 * zs p = bp then ls @ rs else ls @ bp # rs)"
proof -
  note ap = mid_apart [OF m]
  obtain w where ch: "chain nx b ls w" "chain nx bp rs b" using m by (auto simp: mid_def)
  have srt: "sorted_wrt (\<lambda>x y. bend zs x < unat y) (b # ls)" "sorted_wrt (\<lambda>x y. bend zs x < unat y) (bp # rs)" "zs b = 0"
    and le: "\<forall>a \<in> set (b # ls). a < bp \<and> bend zs a \<le> unat bp" using m by (auto simp: mid_def)
  have pin: "p \<in> set (b # ls)" "p \<notin> set rs" "p \<noteq> bp" using p ap(2,3) last_in_set [of "b # ls"] by auto
  have dist: "distinct (b # ls)" by (rule bend_distinct [OF srt(1)])
  obtain ps where ps: "b # ls = ps @ [p]" using p by (metis append_butlast_last_id list.distinct(1))
  have before: "bend zs a < unat p" if "a \<in> set ps" for a using srt(1) that unfolding ps by (auto simp: sorted_wrt_append)
  have ends: "(p + 8 * zs p = bp) = (bend zs p = unat bp)"
  proof -
    have "bend zs p < 4294967296" using le pin(1) unsigned_less [of bp] by (metis (no_types) bend_def le_less_trans lim not_less le_add1 order.trans)
    then show ?thesis using word_end [of zs p] by (metis word_unat_eq_iff)
  qed
  show ?thesis
  proof (cases "p + 8 * zs p = bp")
    case True
    have pb: "p \<noteq> b" using True ends le srt(3) by (auto simp: bend_def word_less_nat_alt)
    have e: "bend (zs(p := zs p + zs bp)) p = bend zs bp" using True ends lim by (intro unat_bend_add) auto
    have pn: "p \<notin> set ps" using dist unfolding ps by simp
    then have o: "bend (zs(p := zs p + zs bp)) x = bend zs x" if "x \<in> set ps" for x using that by (intro bend_upd_other) auto
    have "chain (nx(p := nx bp)) b (ls @ rs) b"
      unfolding chain_split
    proof
      show "chain (nx(p := nx bp)) b ls (hd (rs @ [b]))"
        using chain_last_upd [OF ch(1) dist, of "nx bp"] p chain_head [OF ch(2)] by simp
      show "rs \<noteq> [] \<longrightarrow> chain (nx(p := nx bp)) (hd rs) (tl rs) b"
        using ch(2) pin(2) by (cases rs) (auto simp: chain_upd)
    qed
    moreover have "sorted_wrt (\<lambda>x y. bend (zs(p := zs p + zs bp)) x < unat y) ((ps @ [p]) @ rs)"
      using srt ap(1) before pn pin(2) e unfolding ps by (auto simp: sorted_wrt_append sorted_bend_upd o)
    ultimately show ?thesis using True pb srt(3) by (simp add: ring_def left_ptr_def left_size_def flip: ps)
  next
    case False
    have lt: "bend zs a < unat bp" if "a \<in> set (b # ls)" for a
    proof (cases "a = p")
      case True
      then show ?thesis using le pin(1) False ends by (metis le_neq_implies_less)
    next
      case False
      then have "bend zs a < unat p" using that before unfolding ps by auto
      then show ?thesis using le pin(1) by (meson order.strict_trans word_less_nat_alt)
    qed
    have "chain (nx(p := bp)) b (ls @ bp # rs) b"
      using chain_last_upd [OF ch(1) dist, of bp] p ch(2) pin by (simp add: chain_append chain_upd)
    moreover have "sorted_wrt (\<lambda>x y. bend zs x < unat y) (b # ls @ bp # rs)"
      using srt ap(1) lt by (auto simp: sorted_wrt_append)
    ultimately show ?thesis using False srt(3) by (simp add: ring_def left_ptr_def left_size_def)
  qed
qed

text \<open>The part of memory from \<open>l\<close> to \<open>h\<close> does not meet the blocks at the addresses \<open>B\<close>.\<close>

definition clear :: "(addr \<Rightarrow> u32) \<Rightarrow> nat \<Rightarrow> nat \<Rightarrow> addr set \<Rightarrow> bool" where
  "clear zs l h B \<longleftrightarrow> (\<forall>y \<in> B. h \<le> unat y \<or> bend zs y \<le> l)"

lemma clear_merge:
  assumes "clear zs l h (insert x (insert y B))" "l < h" "bend zs x = unat y" "bend zs y < 4294967296" "x \<notin> B"
  shows "clear (zs(x := zs x + zs y)) l h (insert x B)"
proof -
  have "h \<le> unat x \<or> bend (zs(x := zs x + zs y)) x \<le> l"
    unfolding unat_bend_add [OF assms(3,4)] using assms(1-3) by (auto simp: clear_def)
  moreover have "clear (zs(x := zs x + zs y)) l h B"
    using assms(1,5) by (auto simp: clear_def bend_def)
  ultimately show ?thesis by (simp add: clear_def)
qed

lemma clear_mono: "clear zs l h B \<Longrightarrow> C \<subseteq> B \<Longrightarrow> clear zs l h C"
  by (auto simp: clear_def)

text \<open>What \<^verbatim>\<open>free\<close> makes of a ring.\<close>

lemma ring_free:
  assumes r: "ring nx zs b (ls @ rs)" and bt: "between zs b ls bp rs"
    and p: "p = last (b # ls)" and q: "q = hd (rs @ [b])"
    and z1: "zs1 = right_size zs bp q" and z2: "zs2 = left_size zs1 p bp" and n2: "nx2 = left_ptr (right_ptr nx zs bp q) zs1 p bp"
  shows "\<exists>xs. ring nx2 zs2 b xs \<and> set xs \<subseteq> insert bp (set (ls @ rs)) \<and> p \<in> set (b # xs) \<and> length xs \<le> Suc (length (ls @ rs)) \<and>
    (\<forall>a. a \<noteq> bp \<and> a \<noteq> p \<longrightarrow> zs2 a = zs a) \<and> (\<exists>x \<in> set xs. zs bp \<le> zs2 x) \<and> (\<forall>x \<in> set xs. zs x \<le> zs2 x) \<and>
    (\<forall>l h. l < h \<and> clear zs l h (insert bp (set (ls @ rs))) \<longrightarrow> clear zs2 l h (set xs))"
proof -
  let ?mr = "bp + 8 * zs bp = q" and ?ml = "p + 8 * zs1 p = bp"
  define rs1 where "rs1 = (if ?mr then tl rs else rs)"
  define xs where "xs = (if ?ml then ls @ rs1 else ls @ bp # rs1)"
  have m: "mid (right_ptr nx zs bp q) zs1 b ls bp rs1" unfolding z1 rs1_def by (rule ring_mid [OF r bt q])
  note ap = mid_apart [OF m]
  have pin: "p \<in> set (b # ls)" "p \<noteq> bp" using p ap(2) last_in_set [of "b # ls"] by auto
  have rs1: "set rs1 \<subseteq> set rs" unfolding rs1_def by (cases rs) auto
  have nin: "bp \<notin> set (b # ls)" "bp \<notin> set rs" using bt by (auto simp: between_def)
  have ends: "?mr = (bend zs bp = unat q)" using bt word_end [of zs bp] by (metis between_def word_unat_eq_iff)
  have qin: "?mr \<Longrightarrow> q \<in> set rs"
  proof -
    assume ?mr
    then have "bend zs bp = unat q" using ends by simp
    moreover have "unat b < unat bp" using bt by (auto simp: between_def word_less_nat_alt)
    ultimately have "q \<noteq> b" by (auto simp: bend_def)
    then show "q \<in> set rs" using q by (cases rs) auto
  qed
  have b1: "bend zs1 bp < 4294967296" "zs bp \<le> zs1 bp"
  proof -
    have "bend zs1 bp = (if ?mr then bend zs q else bend zs bp)"
      using unat_bend_add [of zs bp q] ends qin bt by (auto simp: z1 right_size_def between_def)
    then show "bend zs1 bp < 4294967296" using bt qin by (auto simp: between_def)
    show "zs bp \<le> zs1 bp"
    proof (cases ?mr)
      case True
      then have "bend zs1 bp = bend zs q" "bend zs bp = unat q" using ends \<open>bend zs1 bp = _\<close> by auto
      then show ?thesis by (simp add: bend_def word_le_nat_alt)
    qed (simp add: z1 right_size_def)
  qed
  have ring2: "ring nx2 zs2 b xs" unfolding n2 z2 xs_def by (rule mid_ring [OF m p b1(1)])
  have z1o: "zs1 a = zs a" if "a \<noteq> bp" for a using that by (simp add: z1 right_size_def)
  have z2o: "zs2 a = zs1 a" if "a \<noteq> p" for a using that by (simp add: z2 left_size_def)
  have endl: "?ml = (bend zs1 p = unat bp)"
  proof -
    have "bend zs1 p \<le> unat bp" using m pin(1) by (auto simp: mid_def)
    then have "bend zs1 p < 4294967296" using unsigned_less [of bp] by (auto intro: le_less_trans)
    then show ?thesis using word_end [of zs1 p] by (metis word_unat_eq_iff)
  qed
  have z2p: "bend zs2 p = (if ?ml then bend zs1 bp else bend zs1 p)"
    using unat_bend_add [of zs1 p bp] endl b1(1) by (auto simp: z2 left_size_def)
  have pb: "?ml \<Longrightarrow> p \<noteq> b"
    using endl m pin(1) by (auto simp: mid_def bend_def word_less_nat_alt)
  have clr: "clear zs2 l h (set xs)" if lh: "l < h" and c: "clear zs l h (insert bp (set (ls @ rs)))" for l h
  proof -
    have c1: "clear zs1 l h (insert bp (set ls \<union> set rs1))"
    proof (cases ?mr)
      case True
      have "clear zs l h (insert bp (insert q (set ls \<union> set rs1)))" using c qin [OF True] rs1 by (auto intro: clear_mono)
      then show ?thesis using True lh ends qin bt rs1 nin
        by (auto simp: z1 right_size_def between_def intro!: clear_merge)
    next
      case False
      then show ?thesis using c by (simp add: z1 right_size_def rs1_def)
    qed
    show ?thesis
    proof (cases ?ml)
      case True
      have pl: "p \<in> set ls" using pin(1) pb [OF True] by auto
      have "clear zs1 l h (insert p (insert bp (set ls \<union> set rs1 - {p})))" using c1 pl by (auto intro: clear_mono)
      then have "clear (zs1(p := zs1 p + zs1 bp)) l h (insert p (set ls \<union> set rs1 - {p}))"
        using lh True endl b1(1) by (intro clear_merge) auto
      then show ?thesis using True pl by (auto simp: z2 left_size_def xs_def intro: clear_mono)
    next
      case False
      then show ?thesis using c1 by (auto simp: z2 left_size_def xs_def intro: clear_mono)
    qed
  qed
  have grow: "zs1 p \<le> zs2 p" "?ml \<Longrightarrow> zs1 bp \<le> zs2 p"
    using z2p endl by (auto simp: z2 left_size_def bend_def word_le_nat_alt)
  have big: "\<exists>x \<in> set xs. zs bp \<le> zs2 x"
  proof (cases ?ml)
    case True
    then have "p \<in> set xs" using pin(1) pb by (auto simp: xs_def)
    then show ?thesis using grow(2) [OF True] b1(2) by (meson order.trans)
  next
    case False
    then show ?thesis using b1(2) z2o [of bp] pin(2) by (auto simp: xs_def intro!: bexI [of _ bp])
  qed
  have mono: "zs x \<le> zs2 x" for x
  proof (rule order.trans)
    show "zs x \<le> zs1 x" using b1(2) z1o by (cases "x = bp") auto
    show "zs1 x \<le> zs2 x" using grow(1) z2o by (cases "x = p") auto
  qed
  have "set xs \<subseteq> insert bp (set (ls @ rs))" "p \<in> set (b # xs)" "length xs \<le> Suc (length (ls @ rs))"
    using rs1 pin(1) by (auto simp: xs_def rs1_def)
  then show ?thesis using ring2 z1o z2o big mono clr by (intro exI [of _ xs]) auto
qed

lemma ring_place:
  assumes r: "ring nx zs b xs" and bp: "b < bp" "bp \<notin> set xs" and f: "f \<in> set (b # xs)" and fuel: "length xs \<le> fuel"
  shows "\<exists>ls rs. xs = ls @ rs \<and> free_find fuel nx bp f = Some (last (b # ls)) \<and> (\<forall>a \<in> set (b # ls). a < bp) \<and>
    (\<forall>c \<in> set rs. bp < c) \<and> nx (last (b # ls)) = hd (rs @ [b])"
proof -
  let ?stop = "\<lambda>p. bp > p \<and> bp < nx p \<or> p \<ge> nx p \<and> (bp > p \<or> bp < nx p)"
  have srt: "sorted_wrt (<) (b # xs)" and ch: "chain nx b xs b" using r bend_sorted unfolding ring_def by blast+
  have at: "nx (last (b # us)) = hd (vs @ [b])" if "xs = us @ vs" for us vs
    using ch that chain_next [of nx b us] by (simp add: chain_split)
  define ls0 where "ls0 = takeWhile (\<lambda>a. a < bp) xs"
  define rs0 where "rs0 = dropWhile (\<lambda>a. a < bp) xs"
  have s0: "xs = ls0 @ rs0" by (simp add: ls0_def rs0_def)
  have l0: "\<forall>a \<in> set (b # ls0). a < bp" using bp by (auto simp: ls0_def dest: set_takeWhileD)
  have h0: "rs0 \<noteq> [] \<Longrightarrow> bp < hd rs0"
    using hd_dropWhile [of "\<lambda>a. a < bp" xs] bp(2) s0 unfolding rs0_def
    by (metis hd_in_set linorder_neqE set_dropWhileD)
  have "last (b # ls0) < bp" using l0 last_in_set [of "b # ls0"] by blast
  moreover have "b \<le> last (b # ls0)" using srt s0 by (cases ls0) (auto simp: sorted_wrt_append intro: order.strict_implies_order)
  ultimately have "?stop (last (b # ls0))" using at [OF s0] h0 by (cases rs0) auto
  moreover have "last (b # ls0) \<in> set (b # xs)" using s0 last_in_set [of "b # ls0"] by auto
  moreover obtain ys where ys: "chain nx f ys f" "set (f # ys) = set (b # xs)" "length ys = length xs"
    using chain_rotate [OF ch f] by blast
  ultimately obtain p where p: "p \<in> set (b # xs)" "free_find fuel nx bp f = Some p" "?stop p"
    using free_find_chain [OF ys(1), of bp fuel] fuel by metis
  obtain ls rs where s: "xs = ls @ rs" "p = last (b # ls)"
  proof (cases "p = b")
    case True
    then show ?thesis using that [of "[]" xs] by simp
  next
    case False
    then obtain us vs where "xs = (us @ [p]) @ vs" using p(1) by (metis append_Cons append_Nil append_assoc set_ConsD split_list)
    then show ?thesis using that [of "us @ [p]" vs] by simp
  qed
  have nxp: "nx p = hd (rs @ [b])" using at [OF s(1)] s(2) by simp
  obtain ps where ps: "b # ls = ps @ [p]" using s(2) by (metis append_butlast_last_id list.distinct(1))
  have all: "sorted_wrt (<) ((b # ls) @ rs)" using srt s(1) by simp
  then have lp: "a \<le> p" if "a \<in> set (b # ls)" for a
    using that unfolding ps by (auto simp: sorted_wrt_append intro: order.strict_implies_order)
  have pr: "p < c" if "c \<in> set rs" for c
    using all that unfolding ps by (auto simp: sorted_wrt_append)
  have pb: "p < bp \<and> (rs \<noteq> [] \<longrightarrow> bp < hd rs)"
  proof (cases rs)
    case Nil
    then show ?thesis using p(3) nxp bp(1) by auto
  next
    case (Cons c cs)
    then show ?thesis using p(3) nxp pr [of c] by auto
  qed
  have "a < bp" if "a \<in> set (b # ls)" for a using lp [OF that] pb le_less_trans by blast
  moreover have "bp < c" if "c \<in> set rs" for c
    using all that pb by (cases rs) (auto simp: sorted_wrt_append intro: order.strict_trans)
  ultimately have "\<forall>a \<in> set (b # ls). a < bp" "\<forall>c \<in> set rs. bp < c" by blast+
  then show ?thesis using s p(2) nxp by blast
qed

section \<open>The heap\<close>

text \<open>
  The end of the memory that \<^verbatim>\<open>sbrk\<close> has given out, when the program itself ends at \<open>tp\<close>; and what the allocator
  relies on of \<^verbatim>\<open>sbrk\<close>: it fails, or the memory it gives is new and below 2 GB.
\<close>

definition brk_step :: "nat \<Rightarrow> ucall \<times> reply \<Rightarrow> nat" where
  "brk_step b e = (case fst e of Sbrk n \<Rightarrow> if rval (snd e) = - 1 then b else nat (rval (snd e) + n) | _ \<Rightarrow> b)"

definition brk_of :: "nat \<Rightarrow> (ucall \<times> reply) list \<Rightarrow> nat" where
  "brk_of tp h = foldl brk_step tp h"

definition sbrk_grows :: "nat \<Rightarrow> ((ucall \<times> reply) list \<Rightarrow> ucall \<Rightarrow> reply) \<Rightarrow> bool" where
  "sbrk_grows tp k \<longleftrightarrow> (\<forall>h n. n > 0 \<longrightarrow>
     rval (k h (Sbrk n)) = - 1 \<or> int (brk_of tp h) \<le> rval (k h (Sbrk n)) \<and> rval (k h (Sbrk n)) + n \<le> 2147483648)"

text \<open>
  The free blocks are the ring \<open>xs\<close>, the blocks in the hands of the program are \<open>A\<close>; no two overlap, and all lie
  between \<open>tp\<close> and the break.
\<close>

definition heap_inv :: "nat \<Rightarrow> addr list \<Rightarrow> addr set \<Rightarrow> 'z uheap_scheme \<Rightarrow> bool" where
  "heap_inv tp xs A s \<longleftrightarrow>
     ring (hptr s) (hsize s) (base s) xs \<and> freep s \<in> set (base s # xs) \<and> finite A \<and> A \<inter> set xs = {} \<and>
     (\<forall>a \<in> set xs \<union> A. 0 < hsize s a \<and> tp \<le> unat a \<and> bend (hsize s) a \<le> brk_of tp (ucalls s)) \<and>
     (\<forall>a \<in> A. clear (hsize s) (unat a) (bend (hsize s) a) (set xs \<union> A - {a})) \<and>
     0 < base s \<and> unat (base s) + 8 \<le> tp \<and> tp \<le> brk_of tp (ucalls s) \<and> brk_of tp (ucalls s) \<le> 2147483648 \<and> sbrk_grows tp (kernel s)"

lemma bend_grows: "0 < zs a \<Longrightarrow> unat a < bend zs a"
  by (simp add: bend_def unat_gt_0 word_gt_0)

lemma heap_member:
  assumes "heap_inv tp xs A s" "a \<in> set xs \<union> A"
  shows "0 < hsize s a" "tp \<le> unat a" "bend (hsize s) a \<le> brk_of tp (ucalls s)" "base s < a" "bend (hsize s) a \<le> 2147483648"
proof -
  show m: "0 < hsize s a" "tp \<le> unat a" "bend (hsize s) a \<le> brk_of tp (ucalls s)" using assms unfolding heap_inv_def by blast+
  have "unat (base s) + 8 \<le> tp" "brk_of tp (ucalls s) \<le> 2147483648" using assms(1) unfolding heap_inv_def by blast+
  with m show "base s < a" "bend (hsize s) a \<le> 2147483648" unfolding word_less_nat_alt by linarith+
qed

lemma heap_freep: "heap_inv tp xs A s \<Longrightarrow> freep s \<noteq> 0"
  using heap_member(4) [of tp xs A s 0] by (auto simp: heap_inv_def)

lemma free_block:
  assumes inv: "heap_inv tp xs A s" and bp: "bp \<in> A" and fuel: "length xs \<le> fuel"
  shows "\<exists>s' xs'. free fuel (bp + 8) s = Ok () s' \<and> heap_inv tp xs' (A - {bp}) s' \<and> length xs' \<le> Suc (length xs) \<and>
    (\<forall>a \<in> A - {bp}. hsize s' a = hsize s a) \<and> (\<exists>x \<in> set xs'. hsize s bp \<le> hsize s' x) \<and> base s' = base s"
proof -
  let ?b = "base s" and ?z = "hsize s" and ?n = "hptr s"
  have r: "ring ?n ?z ?b xs" and f: "freep s \<in> set (?b # xs)" and A: "A \<inter> set xs = {}" "finite A"
    and pos: "\<And>a. a \<in> set xs \<union> A \<Longrightarrow> 0 < ?z a" and clr: "\<And>a. a \<in> A \<Longrightarrow> clear ?z (unat a) (bend ?z a) (set xs \<union> A - {a})"
    using inv by (auto simp: heap_inv_def)
  have bb: "?b < bp" "bp \<notin> set xs" using heap_member(4) [OF inv] bp A by auto
  obtain ls rs where s: "xs = ls @ rs" "free_find fuel ?n bp (freep s) = Some (last (?b # ls))"
      "\<forall>a \<in> set (?b # ls). a < bp" "\<forall>c \<in> set rs. bp < c" "?n (last (?b # ls)) = hd (rs @ [?b])"
    using ring_place [OF r bb f fuel] by blast
  define p where "p = last (?b # ls)"
  define q where "q = hd (rs @ [?b])"
  define z1 where "z1 = right_size ?z bp q"
  define z2 where "z2 = left_size z1 p bp"
  define n2 where "n2 = left_ptr (right_ptr ?n ?z bp q) z1 p bp"
  have sep: "bend ?z a \<le> unat bp" if "a \<in> set ls" for a
  proof -
    have "unat a < unat bp" "a \<in> set xs \<union> A - {bp}" using that s bb(2) by (auto simp: word_less_nat_alt)
    then have "bend ?z bp \<le> unat a \<or> bend ?z a \<le> unat bp" using clr [OF bp] unfolding clear_def by blast
    then show ?thesis using bend_grows [of ?z bp] pos [of bp] bp \<open>unat a < unat bp\<close> by auto
  qed
  have sep2: "bend ?z bp \<le> unat c" if "c \<in> set rs" for c
  proof -
    have "unat bp < unat c" "c \<in> set xs \<union> A - {bp}" using that s bb(2) by (auto simp: word_less_nat_alt)
    then have "bend ?z bp \<le> unat c \<or> bend ?z c \<le> unat bp" using clr [OF bp] unfolding clear_def by blast
    then show ?thesis using bend_grows [of ?z c] pos [of c] that s(1) \<open>unat bp < unat c\<close> by auto
  qed
  have zb: "?z ?b = 0" using r by (simp add: ring_def)
  have bt: "between ?z ?b ls bp rs"
    unfolding between_def
  proof (intro conjI ballI)
    have lim: "bend ?z a < 4294967296" if "a \<in> set xs \<union> A" for a using heap_member(5) [OF inv that] by simp
    show "bend ?z bp < 4294967296" using lim bp by blast
    show "a < bp" "bend ?z a \<le> unat bp" if "a \<in> set (?b # ls)" for a
      using that s(3) sep zb bb(1) by (auto simp: bend_def word_less_nat_alt)
    show "bp < c" "bend ?z bp \<le> unat c" "bend ?z c < 4294967296" if "c \<in> set rs" for c
      using that s(1,4) sep2 lim by auto
  qed
  have r': "ring ?n ?z ?b (ls @ rs)" using r s(1) by simp
  obtain xs' where y: "ring n2 z2 ?b xs' \<and> set xs' \<subseteq> insert bp (set xs) \<and> p \<in> set (?b # xs') \<and> length xs' \<le> Suc (length xs) \<and>
    (\<forall>a. a \<noteq> bp \<and> a \<noteq> p \<longrightarrow> z2 a = ?z a) \<and> (\<exists>x \<in> set xs'. ?z bp \<le> z2 x) \<and> (\<forall>x \<in> set xs'. ?z x \<le> z2 x) \<and>
    (\<forall>l h. l < h \<and> clear ?z l h (insert bp (set xs)) \<longrightarrow> clear z2 l h (set xs'))"
    using ring_free [OF r' bt p_def q_def z1_def z2_def n2_def, folded s(1)] ..
  have x: "ring n2 z2 ?b xs'" "set xs' \<subseteq> insert bp (set xs)" "p \<in> set (?b # xs')" "length xs' \<le> Suc (length xs)"
      "\<And>a. a \<noteq> bp \<and> a \<noteq> p \<Longrightarrow> z2 a = ?z a" "\<exists>x \<in> set xs'. ?z bp \<le> z2 x" "\<And>x. x \<in> set xs' \<Longrightarrow> ?z x \<le> z2 x"
      "\<And>l h. l < h \<Longrightarrow> clear ?z l h (insert bp (set xs)) \<Longrightarrow> clear z2 l h (set xs')"
    using y by blast+
  define s' where "s' = s\<lparr>hptr := n2, hsize := z2, freep := p\<rparr>"
  have "free fuel (bp + 8) s = Ok () s'"
  proof -
    define s1 where "s1 = s\<lparr>hsize := z1, hptr := right_ptr ?n ?z bp q\<rparr>"
    have "hptr s p = q" using s(5) unfolding p_def q_def .
    then have "free_right bp p s = s1"
      by (simp add: free_right_def s1_def z1_def right_size_def right_ptr_def header_end_def Let_def)
    moreover have "free_left bp p s1 = s\<lparr>hptr := n2, hsize := z2\<rparr>"
      by (simp add: free_left_def s1_def n2_def z2_def left_size_def left_ptr_def header_end_def)
    moreover have "free_find fuel ?n bp (freep s) = Some p" using s(2) unfolding p_def .
    ultimately show ?thesis by (simp add: free_def kop s'_def)
  qed
  moreover have "heap_inv tp xs' (A - {bp}) s'"
  proof -
    have keep: "z2 a = ?z a" if "a \<in> A - {bp}" for a
    proof (rule x(5))
      have "a \<noteq> p" using that A(1) s(1) p_def last_in_set [of "?b # ls"] heap_member(4) [OF inv, of a] by auto
      then show "a \<noteq> bp \<and> a \<noteq> p" using that by simp
    qed
    have old: "x \<in> set xs \<union> A" if "x \<in> set xs'" for x using that x(2) bp by auto
    define B where "B = brk_of tp (ucalls s)"
    have B: "bend ?z a \<le> B" if "a \<in> set xs \<union> A" for a using inv that by (auto simp: heap_inv_def B_def)
    have "clear ?z B (Suc B) (insert bp (set xs))" using B bp by (auto simp: clear_def)
    then have "clear z2 B (Suc B) (set xs')" by (intro x(8)) auto
    then have up: "bend z2 x \<le> B" if "x \<in> set xs'" for x
      using that B [OF old [OF that]] by (auto simp: clear_def bend_def)
    have in2: "0 < z2 a \<and> tp \<le> unat a \<and> bend z2 a \<le> brk_of tp (ucalls s)" if "a \<in> set xs' \<union> (A - {bp})" for a
    proof (cases "a \<in> set xs'")
      case True
      then show ?thesis using up [OF True] old [OF True] pos [OF old [OF True]] x(7) [OF True] inv by (auto simp: heap_inv_def B_def intro: order.strict_trans2)
    next
      case False
      then show ?thesis using that keep inv by (auto simp: heap_inv_def bend_def)
    qed
    have clr2: "clear z2 (unat a) (bend z2 a) (set xs' \<union> (A - {bp}) - {a})" if a: "a \<in> A - {bp}" for a
    proof -
      have ba: "bend z2 a = bend ?z a" using keep [OF a] by (simp add: bend_def)
      have c: "clear ?z (unat a) (bend ?z a) (set xs \<union> A - {a})" using clr a by blast
      have "clear z2 (unat a) (bend ?z a) (set xs')"
        by (rule x(8)) (use a pos bend_grows [of ?z a] A(1) bp in \<open>auto intro: clear_mono [OF c]\<close>)
      moreover have "clear z2 (unat a) (bend ?z a) (A - {bp} - {a})"
        using c keep by (auto simp: clear_def bend_def)
      ultimately show ?thesis unfolding ba by (auto simp: clear_def)
    qed
    show ?thesis using x(1-3) in2 clr2 A bb inv unfolding heap_inv_def s'_def by auto
  qed
  moreover have "\<forall>a \<in> A - {bp}. hsize s' a = hsize s a"
  proof
    fix a assume "a \<in> A - {bp}"
    moreover have "a \<noteq> p" using calculation A(1) s(1) p_def last_in_set [of "?b # ls"] heap_member(4) [OF inv, of a] by auto
    ultimately show "hsize s' a = hsize s a" using x(5) by (simp add: s'_def)
  qed
  ultimately show ?thesis using x(4,6) by (intro exI [of _ s'] exI [of _ xs']) (simp add: s'_def)
qed

section \<open>Allocating a block\<close>

lemma ring_frame: "(\<And>x. x \<in> set (b # xs) \<Longrightarrow> zs' x = zs x) \<Longrightarrow> ring nx zs' b xs = ring nx zs b xs"
proof -
  assume z: "\<And>x. x \<in> set (b # xs) \<Longrightarrow> zs' x = zs x"
  then have e: "bend zs' x = bend zs x" if "x \<in> set (b # xs)" for x using that by (simp add: bend_def)
  have "sorted_wrt (\<lambda>x y. bend zs' x < unat y) (b # xs) = sorted_wrt (\<lambda>x y. bend zs x < unat y) (b # xs)"
    by (rule iffI; erule sorted_wrt_mono_rel [rotated]) (simp_all only: e)
  then show ?thesis using z by (simp add: ring_def)
qed

lemma brk_of_snoc [simp]: "brk_of tp (h @ [e]) = brk_step (brk_of tp h) e"
  by (simp add: brk_of_def)

lemma clear_cong: "(\<And>y. y \<in> B \<Longrightarrow> zs' y = zs y) \<Longrightarrow> clear zs' l h B = clear zs l h B"
  by (simp add: clear_def bend_def)

text \<open>The program gets a new block from the system and holds it for a moment.\<close>

lemma heap_new:
  assumes inv: "heap_inv tp xs A s" and r: "rval r \<noteq> - 1" "r = kernel s (ucalls s) (Sbrk (8 * uint nu))" "0 < nu"
  defines "hp \<equiv> word_of_int (rval r)"
  defines "s' \<equiv> s\<lparr>ucalls := ucalls s @ [(Sbrk (8 * uint nu), r)], hsize := (hsize s)(hp := nu)\<rparr>"
  shows "hp \<notin> A" "hp \<noteq> - 1" "heap_inv tp xs (insert hp A) s'" "\<forall>a \<in> A. hsize s' a = hsize s a"
proof -
  have nu: "0 < unat nu" using r(3) by (simp add: word_less_nat_alt)
  have g: "int (brk_of tp (ucalls s)) \<le> rval r" "rval r + 8 * uint nu \<le> 2147483648"
  proof -
    have "sbrk_grows tp (kernel s)" "0 < 8 * uint nu" using inv r(3) by (simp_all add: heap_inv_def word_less_def)
    then show "int (brk_of tp (ucalls s)) \<le> rval r" "rval r + 8 * uint nu \<le> 2147483648"
      using r(1) unfolding sbrk_grows_def r(2) by blast+
  qed
  have "0 \<le> uint nu" by simp
  then have "0 \<le> rval r" "rval r < 4294967296" using g by linarith+
  then have u: "unat hp = nat (rval r)" by (simp add: hp_def unsigned_of_int take_bit_int_eq_self)
  have ge: "brk_of tp (ucalls s) \<le> unat hp" "unat hp + 8 * unat nu \<le> 2147483648" using g u by (auto simp: uint_nat simp del: of_nat_unat)
  show "hp \<noteq> - 1"
  proof
    assume "hp = - 1"
    then have "unat hp = 4294967295" by (simp add: unsigned_minus_1_eq_mask mask_eq_exp_minus_1)
    then show False using ge(2) by simp
  qed
  have far: "a \<noteq> hp" "bend (hsize s) a \<le> unat hp" if "a \<in> set xs \<union> A" for a
    using heap_member(1,3) [OF inv that] bend_grows [of "hsize s" a] ge(1) by auto
  have bhp: "base s \<noteq> hp" using inv ge(1) by (auto simp: heap_inv_def)
  show hpA: "hp \<notin> A" using far(1) by blast
  show keep: "\<forall>a \<in> A. hsize s' a = hsize s a" using far(1) by (auto simp: s'_def)
  have bk: "brk_of tp (ucalls s') = unat hp + 8 * unat nu" using r(1) g u by (simp add: s'_def brk_step_def uint_nat nat_add_distrib nat_mult_distrib del: of_nat_unat)
  have be: "bend (hsize s') hp = unat hp + 8 * unat nu" "\<And>a. a \<in> set xs \<union> A \<Longrightarrow> bend (hsize s') a = bend (hsize s) a"
    using far(1) by (auto simp: s'_def bend_def)
  have mem: "0 < hsize s' a \<and> tp \<le> unat a \<and> bend (hsize s') a \<le> brk_of tp (ucalls s')" if "a \<in> set xs \<union> insert hp A" for a
  proof (cases "a = hp")
    case True
    then show ?thesis using be bk r(3) ge(1) inv by (simp add: s'_def heap_inv_def)
  next
    case False
    then have "a \<in> set xs \<union> A" using that by auto
    then show ?thesis using heap_member(1-3) [OF inv, of a] be(2) [of a] far(2) [of a] bk False by (auto simp: s'_def)
  qed
  have clr: "clear (hsize s') (unat a) (bend (hsize s') a) (set xs \<union> insert hp A - {a})" if "a \<in> insert hp A" for a
  proof (cases "a = hp")
    case True
    then show ?thesis using far be(2) hpA by (auto simp: clear_def)
  next
    case False
    then have "clear (hsize s) (unat a) (bend (hsize s) a) (set xs \<union> A - {a})" using that inv by (auto simp: heap_inv_def)
    then show ?thesis using False that far(2) [of a] be by (auto simp: clear_def)
  qed
  have "ring (hptr s) (hsize s') (base s) xs = ring (hptr s) (hsize s) (base s) xs"
    using far(1) bhp by (intro ring_frame) (auto simp: s'_def)
  then show "heap_inv tp xs (insert hp A) s'" using inv mem clr far(1) bk ge unfolding heap_inv_def by (auto simp: s'_def)
qed

lemma morecore_Ok:
  assumes inv: "heap_inv tp xs A s" and nu: "unat nu < 0x10000000" and fuel: "length xs \<le> fuel"
  shows "(\<exists>s'. morecore fuel nu s = Ok 0 s' \<and> heap_inv tp xs A s' \<and> hsize s' = hsize s) \<or>
    (\<exists>s' xs'. morecore fuel nu s = Ok (freep s') s' \<and> freep s' \<noteq> 0 \<and> heap_inv tp xs' A s' \<and> length xs' \<le> Suc (length xs) \<and>
      (\<exists>x \<in> set xs'. nu \<le> hsize s' x) \<and> (\<forall>a \<in> A. hsize s' a = hsize s a))"
proof -
  define n where "n = (if nu < 4096 then 4096 else nu)"
  define r where "r = kernel s (ucalls s) (Sbrk (8 * uint n))"
  have n: "0 < n" "nu \<le> n" "unat n < 0x10000000" using nu by (auto simp: n_def word_less_nat_alt word_le_nat_alt)
  have un: "unat (n * 8) = 8 * unat n" using n(3) by (subst unat_mult_lem [THEN iffD1]) auto
  then have sn: "sint (n * 8) = 8 * uint n" 
    using n(3) by (simp add: sint_uint uint_nat signed_take_bit_int_eq_self del: of_nat_unat)
  show ?thesis
  proof (cases "rval r = - 1")
    case True
    have "morecore fuel nu s = Ok 0 (s\<lparr>ucalls := ucalls s @ [(Sbrk (8 * uint n), r)]\<rparr>)"
      using True sn by (simp add: morecore_def Let_def n_def [symmetric] sysi_def sys_def kop r_def [symmetric])
    moreover have "heap_inv tp xs A (s\<lparr>ucalls := ucalls s @ [(Sbrk (8 * uint n), r)]\<rparr>)"
      using inv True by (simp add: heap_inv_def brk_step_def)
    ultimately show ?thesis by auto
  next
    case False
    define hp where "hp = (word_of_int (rval r) :: addr)"
    define s1 where "s1 = s\<lparr>ucalls := ucalls s @ [(Sbrk (8 * uint n), r)], hsize := (hsize s)(hp := n)\<rparr>"
    note new = heap_new [OF inv False r_def n(1), folded hp_def, folded s1_def]
    obtain s' xs' where f: "free fuel (hp + 8) s1 = Ok () s'" "heap_inv tp xs' (insert hp A - {hp}) s'" "length xs' \<le> Suc (length xs)"
        "\<forall>a \<in> insert hp A - {hp}. hsize s' a = hsize s1 a" "\<exists>x \<in> set xs'. hsize s1 hp \<le> hsize s' x"
      using free_block [OF new(3) insertI1 fuel] by blast
    have A: "insert hp A - {hp} = A" using new(1) by auto
    have "morecore fuel nu s = Ok (freep s') s'"
      using new(2) sn f(1) by (simp add: morecore_def Let_def n_def [symmetric] sysi_def sys_def kop r_def [symmetric] hp_def [symmetric] s1_def)
    moreover have "freep s' \<noteq> 0" using f(2) heap_freep by blast
    moreover have "\<exists>x \<in> set xs'. nu \<le> hsize s' x" using f(5) n(2) by (auto simp: s1_def intro: order.trans)
    ultimately show ?thesis using f(2-4) new(4) unfolding A by auto
  qed
qed

lemma ring_unlink:
  assumes "ring nx zs b xs" "p \<in> set (b # xs)" "nx p = q" "q \<noteq> b"
  shows "\<exists>ls rs. xs = ls @ q # rs \<and> p = last (b # ls) \<and> ring (nx(p := nx q)) zs b (ls @ rs)"
proof -
  have ch: "chain nx b xs b" and srt: "sorted_wrt (\<lambda>x y. bend zs x < unat y) (b # xs)" "zs b = 0" using assms(1) by (auto simp: ring_def)
  have dist: "distinct (b # xs)" by (rule bend_distinct [OF srt(1)])
  obtain ls vs where s: "xs = ls @ vs" "p = last (b # ls)"
  proof (cases "p = b")
    case True
    then show ?thesis using that [of "[]" xs] by simp
  next
    case False
    then obtain us vs where "xs = (us @ [p]) @ vs" using assms(2) by (metis append_Cons append_Nil append_assoc set_ConsD split_list)
    then show ?thesis using that [of "us @ [p]" vs] by simp
  qed
  have c: "chain nx b ls (hd (vs @ [b]))" "vs \<noteq> [] \<Longrightarrow> chain nx (hd vs) (tl vs) b" using ch s(1) by (auto simp: chain_split)
  have "nx p = hd (vs @ [b])" using chain_next [OF c(1)] s(2) by simp
  then obtain rs where vs: "vs = q # rs" using assms(3,4) by (cases vs) auto
  have cq: "chain nx q rs b" using c(2) vs by simp
  have pin: "p \<notin> set rs" using dist s vs last_in_set [of "b # ls"] by auto
  have "chain (nx(p := nx q)) b (ls @ rs) b"
    unfolding chain_split
  proof
    show "chain (nx(p := nx q)) b ls (hd (rs @ [b]))"
      using chain_last_upd [OF c(1), of "nx q"] dist s vs chain_head [OF cq] by simp
    show "rs \<noteq> [] \<longrightarrow> chain (nx(p := nx q)) (hd rs) (tl rs) b" using cq pin by (cases rs) (auto simp: chain_upd)
  qed
  moreover have "sorted_wrt (\<lambda>x y. bend zs x < unat y) (b # ls @ rs)" using srt(1) s(1) vs by (auto simp: sorted_wrt_append)
  ultimately show ?thesis using s vs srt(2) by (intro exI [of _ ls] exI [of _ rs]) (simp add: ring_def)
qed

text \<open>The whole block is taken.\<close>

lemma take_whole:
  assumes inv: "heap_inv tp xs A s" and pr: "prevp \<in> set (base s # xs)" "hptr s prevp = p" "p \<in> set xs"
  defines "s' \<equiv> s\<lparr>hptr := (hptr s)(prevp := hptr s p), freep := prevp\<rparr>"
  shows "\<exists>xs'. heap_inv tp xs' (insert p A) s' \<and> length xs' \<le> length xs"
proof -
  have pb: "p \<noteq> base s" using heap_member(4) [OF inv, of p] pr(3) by auto
  have r: "ring (hptr s) (hsize s) (base s) xs" and srt: "distinct (base s # xs)"
    using inv bend_distinct unfolding heap_inv_def ring_def by blast+
  obtain ls rs where x: "xs = ls @ p # rs" "prevp = last (base s # ls)"
      "ring ((hptr s)(prevp := hptr s p)) (hsize s) (base s) (ls @ rs)"
    using ring_unlink [OF r pr(1,2) pb] by blast
  have pin: "prevp \<in> set (base s # ls @ rs)" using x(2) last_in_set [of "base s # ls"] by auto
  have all: "set (ls @ rs) \<union> insert p A = set xs \<union> A" using x(1) by auto
  have npA: "p \<notin> A" using inv pr(3) by (auto simp: heap_inv_def)
  have clr: "clear (hsize s) (unat a) (bend (hsize s) a) (set xs \<union> A - {a})" if "a \<in> insert p A" for a
  proof (cases "a = p")
    case True
    have "bend (hsize s) p \<le> unat y \<or> bend (hsize s) y \<le> unat p" if "y \<in> set xs \<union> A - {p}" for y
    proof (cases "y \<in> A")
      case True
      then have "clear (hsize s) (unat y) (bend (hsize s) y) (set xs \<union> A - {y})" using inv by (auto simp: heap_inv_def)
      then show ?thesis using pr(3) npA True by (auto simp: clear_def)
    next
      case False
      then have "y \<in> set ls \<or> y \<in> set rs" using that x(1) by auto
      moreover have "sorted_wrt (\<lambda>x y. bend (hsize s) x < unat y) (ls @ p # rs)" using r x(1) by (auto simp: ring_def)
      ultimately show ?thesis by (auto simp: sorted_wrt_append intro: less_imp_le)
    qed
    then show ?thesis using True by (simp add: clear_def)
  next
    case False
    then show ?thesis using that inv by (auto simp: heap_inv_def)
  qed
  have "heap_inv tp (ls @ rs) (insert p A) s'"
    unfolding heap_inv_def all using inv x(3) pin clr srt x(1) heap_member(1-3) [OF inv] by (simp add: s'_def heap_inv_def)
  then show ?thesis using x(1) by (intro exI [of _ "ls @ rs"]) simp
qed

text \<open>The tail of the block is taken: first the block is split.\<close>

lemma split_block:
  assumes inv: "heap_inv tp xs A s" and p: "p \<in> set xs" and n: "0 < n" "n < hsize s p"
  defines "q \<equiv> p + 8 * (hsize s p - n)"
  defines "s' \<equiv> s\<lparr>hsize := (hsize s)(p := hsize s p - n, q := n)\<rparr>"
  shows "heap_inv tp xs (insert q A) s'" "q \<notin> set xs \<union> A" "hsize s' q = n"
proof -
  let ?z = "hsize s"
  have zn: "unat (?z p - n) = unat (?z p) - unat n" using n(2) by (simp add: unat_sub word_less_nat_alt word_le_nat_alt)
  have nn: "0 < unat n" "unat n < unat (?z p)" using n by (simp_all add: word_less_nat_alt)
  define zt where "zt = ?z(p := ?z p - n)"
  have b1: "bend zt p + 8 * unat n = bend ?z p" "bend zt p < 4294967296"
    using nn zn heap_member(5) [OF inv, of p] p by (auto simp: bend_def zt_def)
  have uq: "unat q = bend zt p" using word_end [OF b1(2)] by (simp add: q_def zt_def)
  have lt: "unat p < unat q" "unat q < bend ?z p" using b1 nn zn uq by (auto simp: bend_def zt_def)
  have r: "ring (hptr s) ?z (base s) xs" using inv by (simp add: heap_inv_def)
  have pA: "p \<notin> A" using inv p by (auto simp: heap_inv_def)
  have oth: "bend ?z p \<le> unat y \<or> bend ?z y \<le> unat p" if "y \<in> set xs \<union> A - {p}" for y
  proof (cases "y \<in> A")
    case True
    then have "clear ?z (unat y) (bend ?z y) (set xs \<union> A - {y})" using inv by (auto simp: heap_inv_def)
    then show ?thesis using p pA True by (auto simp: clear_def)
  next
    case False
    obtain ls rs where x: "xs = ls @ p # rs" using p split_list by fast
    then have "y \<in> set ls \<or> y \<in> set rs" "sorted_wrt (\<lambda>x y. bend ?z x < unat y) (ls @ p # rs)"
      using that False r by (auto simp: ring_def)
    then show ?thesis by (auto simp: sorted_wrt_append intro: less_imp_le)
  qed
  have ylt: "unat y < bend ?z y" if "y \<in> set xs \<union> A" for y using bend_grows heap_member(1) [OF inv that] by blast
  show qn: "q \<notin> set xs \<union> A"
  proof
    assume q: "q \<in> set xs \<union> A"
    then have "q \<noteq> p" using lt(1) by auto
    then show False using oth [of q] q lt ylt [of q] by auto
  qed
  have qb: "q \<noteq> base s" using lt(1) heap_member(4) [OF inv, of p] p by (auto simp: word_less_nat_alt)
  show "hsize s' q = n" by (simp add: s'_def)
  have zq: "hsize s' y = (if y = q then n else if y = p then ?z p - n else ?z y)" for y
    using qn p by (auto simp: s'_def)
  have be: "bend (hsize s') q = bend ?z p" "bend (hsize s') p = unat q" "\<And>y. y \<noteq> q \<Longrightarrow> y \<noteq> p \<Longrightarrow> bend (hsize s') y = bend ?z y"
    using uq b1(1) qn p by (auto simp: bend_def zq zt_def)
  have sm: "bend (hsize s') y \<le> bend ?z y" if "y \<noteq> q" for y
    using that be(2,3) lt(2) by (cases "y = p") auto
  have "ring (hptr s) (hsize s') (base s) xs"
  proof -
    have "sorted_wrt (\<lambda>x y. bend (hsize s') x < unat y) (base s # xs)"
    proof (rule sorted_wrt_mono_rel [of _ "\<lambda>x y. bend ?z x < unat y"])
      show "sorted_wrt (\<lambda>x y. bend ?z x < unat y) (base s # xs)" using r by (simp add: ring_def)
      fix x y assume "x \<in> set (base s # xs)" "bend ?z x < unat y"
      moreover have "x \<noteq> q" using calculation qn qb by auto
      ultimately show "bend (hsize s') x < unat y" using sm le_less_trans by blast
    qed
    moreover have "hsize s' (base s) = 0" using r qb heap_member(4) [OF inv, of p] p by (auto simp: zq ring_def)
    ultimately show ?thesis using r by (simp add: ring_def)
  qed
  moreover have "0 < hsize s' a \<and> tp \<le> unat a \<and> bend (hsize s') a \<le> brk_of tp (ucalls s')" if "a \<in> set xs \<union> insert q A" for a
  proof (cases "a = q")
    case True
    then show ?thesis using n(1) be(1) heap_member(2,3) [OF inv, of p] p lt(1) by (simp add: zq s'_def)
  next
    case False
    then have a: "a \<in> set xs \<union> A" using that by auto
    have "0 < hsize s' a" using heap_member(1) [OF inv a] False nn zn by (auto simp: zq word_less_nat_alt)
    then show ?thesis using heap_member(2,3) [OF inv a] sm [OF False] by (simp add: s'_def)
  qed
  moreover have "clear (hsize s') (unat a) (bend (hsize s') a) (set xs \<union> insert q A - {a})" if "a \<in> insert q A" for a
  proof (cases "a = q")
    case True
    have "bend (hsize s') q \<le> unat y \<or> bend (hsize s') y \<le> unat q" if "y \<in> set xs \<union> A" for y
    proof (cases "y = p")
      case True
      then show ?thesis using be(2) by simp
    next
      case False
      then have "bend (hsize s') y = bend ?z y" using be(3) [of y] qn that by auto
      then show ?thesis using oth [of y] that False be(1) lt(1) by auto
    qed
    then show ?thesis using True qn by (auto simp: clear_def)
  next
    case False
    then have a: "a \<in> A" using that by simp
    then have "clear ?z (unat a) (bend ?z a) (set xs \<union> A - {a})" using inv by (auto simp: heap_inv_def)
    moreover have "bend (hsize s') a \<le> bend ?z a" using sm [OF False] .
    moreover have "bend (hsize s') a \<le> unat q \<or> bend (hsize s') q \<le> unat a"
      using oth [of a] a pA be(1) lt(1) sm [OF False] by fastforce
    moreover have "bend (hsize s') a \<le> unat y \<or> bend (hsize s') y \<le> unat a" if "y \<in> set xs \<union> A - {a}" for y
    proof -
      have "bend ?z a \<le> unat y \<or> bend ?z y \<le> unat a" using calculation(1) that unfolding clear_def by blast
      moreover have "y \<noteq> q" using that qn by auto
      ultimately show ?thesis using sm [OF False] sm [of y] by linarith
    qed
    ultimately show ?thesis unfolding clear_def by blast
  qed
  ultimately show "heap_inv tp xs (insert q A) s'" using inv qn unfolding heap_inv_def by (simp add: s'_def)
qed

section \<open>malloc\<close>

definition got :: "nat \<Rightarrow> addr set \<Rightarrow> u32 \<Rightarrow> nat \<Rightarrow> 'z uheap_scheme \<Rightarrow> addr \<Rightarrow> 'z uheap_scheme \<Rightarrow> bool" where
  "got tp A n k s q s' \<longleftrightarrow> (\<exists>xs. heap_inv tp xs (insert q A) s' \<and> length xs \<le> k) \<and> q \<notin> A \<and> hsize s' q = n \<and> (\<forall>a \<in> A. hsize s' a = hsize s a)"

lemma malloc_take_Ok:
  assumes inv: "heap_inv tp xs A s" and pr: "prevp \<in> set (base s # xs)" "hptr s prevp = p" "p \<in> set xs"
    and n: "0 < n" "n \<le> hsize s p"
  shows "\<exists>q s'. malloc_take n prevp p s = Ok (q + 8) s' \<and> got tp A n (length xs) s q s'"
proof (cases "hsize s p = n")
  case True
  have "malloc_take n prevp p s = Ok (p + 8) (s\<lparr>hptr := (hptr s)(prevp := hptr s p), freep := prevp\<rparr>)"
    using True by (simp add: malloc_take_def kop)
  moreover have "p \<notin> A" using inv pr(3) by (auto simp: heap_inv_def)
  ultimately show ?thesis using take_whole [OF inv pr] True by (auto simp: got_def)
next
  case False
  then have lt: "n < hsize s p" using n(2) by simp
  let ?q = "p + 8 * (hsize s p - n)"
  let ?s = "s\<lparr>hsize := (hsize s)(p := hsize s p - n, ?q := n)\<rparr>"
  note sb = split_block [OF inv pr(3) n(1) lt]
  have "malloc_take n prevp p s = Ok (?q + 8) (?s\<lparr>freep := prevp\<rparr>)"
    using False by (simp add: malloc_take_def kop Let_def)
  moreover have "heap_inv tp xs (insert ?q A) (?s\<lparr>freep := prevp\<rparr>)" using sb(1) pr(1) by (simp add: heap_inv_def)
  moreover have "\<forall>a \<in> A. hsize ?s a = hsize s a" using sb(2) inv pr(3) by (auto simp: heap_inv_def)
  ultimately show ?thesis using sb(2,3) by (auto simp: got_def)
qed

text \<open>The walk around the ring, which ends at \<^verbatim>\<open>freep\<close>.\<close>

lemma malloc_scan:
  assumes "chain (hptr s) pr ys (freep s)" "freep s \<notin> set ys" "length ys \<le> fuel"
  shows "(\<exists>pr' \<in> set (pr # ys). n \<le> hsize s (hptr s pr') \<and> hptr s pr' \<in> set (ys @ [freep s]) \<and>
      malloc_loop fuel n pr (hptr s pr) s = malloc_take n pr' (hptr s pr') s) \<or>
    (\<forall>p \<in> set (ys @ [freep s]). hsize s p < n) \<and>
      malloc_loop fuel n pr (hptr s pr) s = malloc_loop (fuel - length ys) n (last (pr # ys)) (freep s) s"
  using assms
proof (induction ys arbitrary: pr fuel)
  case Nil
  show ?case
  proof (cases "n \<le> hsize s (freep s)")
    case True
    then show ?thesis using Nil by (simp add: malloc_loop.simps [of fuel n pr "freep s"] kop)
  next
    case False
    then show ?thesis using Nil by simp
  qed
next
  case (Cons y ys)
  obtain m where m: "fuel = Suc m" "length ys \<le> m" using Cons.prems(3) by (cases fuel) auto
  have y: "hptr s pr = y" "y \<noteq> freep s" using Cons.prems(1,2) by auto
  show ?case
  proof (cases "n \<le> hsize s y")
    case True
    then show ?thesis using y by (auto simp: malloc_loop.simps [of fuel n pr y] kop)
  next
    case False
    have l: "malloc_loop fuel n pr (hptr s pr) s = malloc_loop m n y (hptr s y) s"
      using y False m(1) by (simp add: malloc_loop.simps [of "Suc m" n pr y] kop)
    have d: "fuel - length (y # ys) = m - length ys" "last (pr # y # ys) = last (y # ys)" using m by simp_all
    have c: "chain (hptr s) y ys (freep s)" "freep s \<notin> set ys" using Cons.prems(1,2) y by auto
    from Cons.IH [OF c m(2)] show ?thesis
    proof (elim disjE bexE conjE)
      fix pr' assume "pr' \<in> set (y # ys)" "n \<le> hsize s (hptr s pr')" "hptr s pr' \<in> set (ys @ [freep s])"
        "malloc_loop m n y (hptr s y) s = malloc_take n pr' (hptr s pr') s"
      then show ?thesis unfolding l by (intro disjI1 bexI [of _ pr']) auto
    next
      assume "\<forall>p \<in> set (ys @ [freep s]). hsize s p < n" "malloc_loop m n y (hptr s y) s = malloc_loop (m - length ys) n (last (y # ys)) (freep s) s"
      then show ?thesis unfolding l d using False by (intro disjI2) auto
    qed
  qed
qed

lemma ring_from:
  assumes inv: "heap_inv tp xs A s"
  shows "\<exists>ys. chain (hptr s) (freep s) ys (freep s) \<and> freep s \<notin> set ys \<and> set (freep s # ys) = set (base s # xs) \<and> length ys = length xs"
proof -
  have ch: "chain (hptr s) (base s) xs (base s)" "freep s \<in> set (base s # xs)" and d: "distinct (base s # xs)"
    using inv bend_distinct unfolding heap_inv_def ring_def by blast+
  obtain ys where ys: "chain (hptr s) (freep s) ys (freep s)" "set (freep s # ys) = set (base s # xs)" "length ys = length xs"
    using chain_rotate [OF ch] by blast
  have "card (set (freep s # ys)) = length (freep s # ys)" using distinct_card [OF d] ys(2,3) by simp
  then have "distinct (freep s # ys)" by (rule card_distinct)
  then show ?thesis using ys by auto
qed

lemma malloc_found:
  assumes inv: "heap_inv tp xs A s" and n: "0 < n" and fuel: "length xs \<le> fuel"
  shows "(\<exists>q s'. malloc_loop fuel n (freep s) (hptr s (freep s)) s = Ok (q + 8) s' \<and> got tp A n (length xs) s q s') \<or>
    (\<forall>p \<in> set xs. hsize s p < n) \<and> hsize s (freep s) < n \<and>
      (\<exists>pr. malloc_loop fuel n (freep s) (hptr s (freep s)) s = malloc_loop (fuel - length xs) n pr (freep s) s)"
proof -
  obtain ys where ys: "chain (hptr s) (freep s) ys (freep s)" "freep s \<notin> set ys" "set (freep s # ys) = set (base s # xs)" "length ys = length xs"
    using ring_from [OF inv] by blast
  have zb: "hsize s (base s) = 0" using inv by (simp add: heap_inv_def ring_def)
  from malloc_scan [OF ys(1,2), of fuel n] fuel ys(4) consider
      (a) pr where "pr \<in> set (freep s # ys)" "n \<le> hsize s (hptr s pr)" "hptr s pr \<in> set (ys @ [freep s])"
        "malloc_loop fuel n (freep s) (hptr s (freep s)) s = malloc_take n pr (hptr s pr) s"
    | (b) "\<forall>p \<in> set (ys @ [freep s]). hsize s p < n"
        "malloc_loop fuel n (freep s) (hptr s (freep s)) s = malloc_loop (fuel - length xs) n (last (freep s # ys)) (freep s) s"
    by fastforce
  then show ?thesis
  proof cases
    case a
    have "hptr s pr \<noteq> base s" using a(2) zb n by auto
    then have "hptr s pr \<in> set xs" using a(3) ys(3) by auto
    then show ?thesis using malloc_take_Ok [OF inv, of pr _ n] a ys(3) n by auto
  next
    case b
    have "set xs \<subseteq> set (ys @ [freep s])" using ys(3) by auto
    then have "\<forall>p \<in> set xs. hsize s p < n" using b(1) by blast
    then show ?thesis using b by (intro disjI2) auto
  qed
qed

lemma malloc_loop_Ok:
  assumes inv: "heap_inv tp xs A s" and n: "0 < n" "unat n < 0x10000000" and fuel: "2 * length xs + 3 \<le> fuel"
  shows "\<exists>r s'. malloc_loop fuel n (freep s) (hptr s (freep s)) s = Ok r s' \<and>
    (r = 0 \<and> heap_inv tp xs A s' \<and> (\<forall>a \<in> A. hsize s' a = hsize s a) \<or> (\<exists>q. r = q + 8 \<and> got tp A n (Suc (length xs)) s q s'))"
proof -
  have fx: "length xs \<le> fuel" using fuel by simp
  from malloc_found [OF inv n(1) fx] show ?thesis
  proof (elim disjE conjE exE)
    fix q s' assume "malloc_loop fuel n (freep s) (hptr s (freep s)) s = Ok (q + 8) s'" "got tp A n (length xs) s q s'"
    then show ?thesis by (fastforce simp: got_def)
  next
    fix pr assume "hsize s (freep s) < n"
      and l: "malloc_loop fuel n (freep s) (hptr s (freep s)) s = malloc_loop (fuel - length xs) n pr (freep s) s"
    then have small: "\<not> n \<le> hsize s (freep s)" by simp
    obtain m where m: "fuel - length xs = Suc m" "Suc (length xs) \<le> m" using fuel by (cases "fuel - length xs") auto
    have m': "length xs \<le> Suc m" using m(2) by simp
    from morecore_Ok [OF inv n(2) m'] show ?thesis
    proof (elim disjE exE conjE)
      fix s' assume "morecore (Suc m) n s = Ok 0 s'" "heap_inv tp xs A s'" "hsize s' = hsize s"
      then show ?thesis unfolding l m(1) using small by (simp add: malloc_loop.simps [of "Suc m"] kop)
    next
      fix t xs' assume t: "morecore (Suc m) n s = Ok (freep t) t" "freep t \<noteq> 0" "heap_inv tp xs' A t" "length xs' \<le> Suc (length xs)"
        "\<exists>x \<in> set xs'. n \<le> hsize t x" "\<forall>a \<in> A. hsize t a = hsize s a"
      have l2: "malloc_loop fuel n (freep s) (hptr s (freep s)) s = malloc_loop m n (freep t) (hptr t (freep t)) t"
        unfolding l m(1) using small t(1,2) by (simp add: malloc_loop.simps [of "Suc m"] kop)
      have "length xs' \<le> m" using t(4) m(2) by simp
      from malloc_found [OF t(3) n(1) this] obtain q s' where
        "malloc_loop m n (freep t) (hptr t (freep t)) t = Ok (q + 8) s'" "got tp A n (length xs') t q s'"
        using t(5) by (auto simp: not_less [symmetric])
      then show ?thesis using l2 t(4,6) by (fastforce simp: got_def)
    qed
  qed
qed

text \<open>The allocator before its first use, and at any time.\<close>

definition heap_ok :: "nat \<Rightarrow> addr list \<Rightarrow> addr set \<Rightarrow> 'z uheap_scheme \<Rightarrow> bool" where
  "heap_ok tp xs A s \<longleftrightarrow> heap_inv tp xs A s \<or>
     xs = [] \<and> A = {} \<and> freep s = 0 \<and> 0 < base s \<and> unat (base s) + 8 \<le> tp \<and> tp \<le> brk_of tp (ucalls s) \<and>
     brk_of tp (ucalls s) \<le> 2147483648 \<and> sbrk_grows tp (kernel s)"

lemma malloc_units_bounds:
  assumes "unat n \<le> 0x7FFFFFF0"
  shows "0 < malloc_units n" "unat (malloc_units n) < 0x10000000" "unat n + 8 \<le> 8 * unat (malloc_units n)"
proof -
  have a: "unat (n + 8 - 1) = unat n + 7"
  proof -
    have e: "n + 8 - 1 = n + 7" by simp
    show ?thesis unfolding e using assms by (subst unat_add_lem [THEN iffD1]) simp_all
  qed
  have d: "unat ((n + 8 - 1) div 8) = (unat n + 7) div 8" by (simp only: unat_div a) simp
  have e: "8 * ((unat n + 7) div 8) + (unat n + 7) mod 8 = unat n + 7" "(unat n + 7) mod 8 < 8" by simp_all
  have lt: "(unat n + 7) div 8 < 0xFFFFFFF" using e assms by linarith
  have u: "unat (malloc_units n) = (unat n + 7) div 8 + 1"
    unfolding malloc_units_def using lt by (subst unat_add_lem [THEN iffD1]) (simp_all only: d, simp_all)
  show "unat (malloc_units n) < 0x10000000" "unat n + 8 \<le> 8 * unat (malloc_units n)" using u e lt by linarith+
  show "0 < malloc_units n" using u by (simp add: word_less_nat_alt)
qed

lemma malloc_Ok:
  assumes inv: "heap_ok tp xs A s" and n: "unat nb \<le> 0x7FFFFFF0" and fuel: "2 * length xs + 3 \<le> fuel"
  shows "\<exists>r s'. malloc fuel nb s = Ok r s' \<and>
    (r = 0 \<and> heap_inv tp xs A s' \<and> (\<forall>a \<in> A. hsize s' a = hsize s a) \<or>
     (\<exists>q. r = q + 8 \<and> got tp A (malloc_units nb) (Suc (length xs)) s q s'))"
proof -
  note mu = malloc_units_bounds [OF n]
  show ?thesis
  proof (cases "freep s = 0")
    case False
    then have i: "heap_inv tp xs A s" using inv by (auto simp: heap_ok_def)
    then show ?thesis using malloc_loop_Ok [OF i mu(1,2) fuel] False by (simp add: malloc_def Let_def kop)
  next
    case True
    then have st: "xs = []" "A = {}" "0 < base s \<and> unat (base s) + 8 \<le> tp \<and> tp \<le> brk_of tp (ucalls s) \<and>
     brk_of tp (ucalls s) \<le> 2147483648 \<and> sbrk_grows tp (kernel s)" using inv heap_freep by (auto simp: heap_ok_def)
    define t where "t = s\<lparr>hptr := (hptr s)(base s := base s), freep := base s, hsize := (hsize s)(base s := 0)\<rparr>"
    have i: "heap_inv tp xs A t" using st by (simp add: heap_inv_def t_def ring_def bend_def)
    have "malloc fuel nb s = malloc_loop fuel (malloc_units nb) (freep t) (hptr t (freep t)) t"
      using True by (simp add: malloc_def Let_def kop t_def)
    then show ?thesis using malloc_loop_Ok [OF i mu(1,2) fuel] st(2) by (auto simp: got_def)
  qed
qed

section \<open>A program that allocates and frees\<close>

text \<open>
  The program calls \<^verbatim>\<open>malloc\<close>, and \<^verbatim>\<open>free\<close> on a block it has: the \<open>k\<close>-th of its list, if it has so many.
\<close>

datatype uop = UMalloc u32 | UFree nat

fun run_ops :: "nat \<Rightarrow> uop list \<Rightarrow> (addr \<times> u32) list \<Rightarrow> ((addr \<times> u32) list, 'z uheap_scheme) kop" where
  "run_ops fuel [] live = retK live"
| "run_ops fuel (UMalloc n # ops) live =
     bindK (malloc fuel n) (\<lambda>p. run_ops fuel ops (if p = 0 then live else live @ [(p, n)]))"
| "run_ops fuel (UFree k # ops) live =
     (if k < length live then thenK (free fuel (fst (live ! k))) (run_ops fuel ops (take k live @ drop (Suc k) live))
      else run_ops fuel ops live)"

text \<open>A header of the ring of free blocks, found by following the links from \<^verbatim>\<open>freep\<close>.\<close>

definition free_header :: "'z uheap_scheme \<Rightarrow> addr \<Rightarrow> bool" where
  "free_header s x \<longleftrightarrow> freep s \<noteq> 0 \<and> (\<exists>k. x = (hptr s ^^ k) (freep s))"

text \<open>
  The blocks in the program's hands, \<open>n\<close> bytes at \<open>p\<close> with the header in front: each lies in the memory that \<^verbatim>\<open>sbrk\<close> gave and is as
  large as its header says at least; header and bytes are apart from those of every other such block, and from the header
  and the bytes of every free block.
\<close>

definition blocks_safe :: "nat \<Rightarrow> (addr \<times> u32) list \<Rightarrow> 'z uheap_scheme \<Rightarrow> bool" where
  "blocks_safe tp live s \<longleftrightarrow> (\<forall>i < length live. let (p, n) = live ! i in
     tp + 8 \<le> unat p \<and> unat p + unat n \<le> bend (hsize s) (p - 8) \<and> bend (hsize s) (p - 8) \<le> brk_of tp (ucalls s) \<and>
     (\<forall>j < length live. j \<noteq> i \<longrightarrow> (let (q, m) = live ! j in unat p + unat n + 8 \<le> unat q \<or> unat q + unat m + 8 \<le> unat p)) \<and>
     (\<forall>x. free_header s x \<longrightarrow> unat p + unat n \<le> unat x \<or> unat x + 8 \<le> unat p - 8 \<and> bend (hsize s) x \<le> unat p - 8))"

definition headers :: "(addr \<times> u32) list \<Rightarrow> addr list" where
  "headers live = map (\<lambda>(p, n). p - 8) live"

definition live_ok :: "nat \<Rightarrow> nat \<Rightarrow> (addr \<times> u32) list \<Rightarrow> 'z uheap_scheme \<Rightarrow> bool" where
  "live_ok tp k live s \<longleftrightarrow> (\<exists>xs. heap_ok tp xs (set (headers live)) s \<and> length xs \<le> k) \<and> distinct (headers live) \<and>
     (\<forall>(p, n) \<in> set live. hsize s (p - 8) = malloc_units n \<and> unat n \<le> 0x7FFFFFF0)"

lemma live_block:
  assumes "live_ok tp k live s" "(p, n) \<in> set live"
  shows "unat p = unat (p - 8) + 8" "unat p + unat n \<le> bend (hsize s) (p - 8)"
proof -
  obtain xs where "heap_ok tp xs (set (headers live)) s" using assms(1) by (auto simp: live_ok_def)
  moreover have a: "p - 8 \<in> set (headers live)" using assms(2) by (force simp: headers_def)
  ultimately have i: "heap_inv tp xs (set (headers live)) s" by (auto simp: heap_ok_def)
  have z: "hsize s (p - 8) = malloc_units n" "unat n \<le> 0x7FFFFFF0" using assms by (auto simp: live_ok_def)
  have b: "unat (p - 8) + 8 * unat (malloc_units n) \<le> 2147483648"
    using heap_member(5) [OF i, of "p - 8"] a z by (simp add: bend_def)
  have m: "unat n + 8 \<le> 8 * unat (malloc_units n)" by (rule malloc_units_bounds(3) [OF z(2)])
  have "unat (p - 8 + 8) = unat (p - 8) + 8" using b m by (subst unat_add_lem [THEN iffD1]) auto
  then show u: "unat p = unat (p - 8) + 8" by simp
  show "unat p + unat n \<le> bend (hsize s) (p - 8)" unfolding u using m z(1) by (simp add: bend_def)
qed

lemma live_heap:
  assumes "live_ok tp k live s" "(p, n) \<in> set live"
  obtains xs where "heap_inv tp xs (set (headers live)) s" "p - 8 \<in> set (headers live)"
    "clear (hsize s) (unat (p - 8)) (bend (hsize s) (p - 8)) (set xs \<union> set (headers live) - {p - 8})"
proof -
  obtain xs where xs: "heap_ok tp xs (set (headers live)) s" using assms(1) by (auto simp: live_ok_def)
  moreover have h: "p - 8 \<in> set (headers live)" using assms(2) by (force simp: headers_def)
  ultimately have i: "heap_inv tp xs (set (headers live)) s" by (auto simp: heap_ok_def)
  then show thesis using that [OF i h] h unfolding heap_inv_def by blast
qed

lemma live_apart:
  assumes l: "live_ok tp k live s" and ij: "i < length live" "j < length live" "j \<noteq> i" and pq: "live ! i = (p, n)" "live ! j = (q, m)"
  shows "unat p + unat n + 8 \<le> unat q \<or> unat q + unat m + 8 \<le> unat p"
proof -
  have mem: "(p, n) \<in> set live" "(q, m) \<in> set live" using ij pq nth_mem [of i live] nth_mem [of j live] by auto
  obtain xs where c: "clear (hsize s) (unat (p - 8)) (bend (hsize s) (p - 8)) (set xs \<union> set (headers live) - {p - 8})"
    using live_heap [OF l mem(1)] .
  have d: "distinct (headers live)" using l by (simp add: live_ok_def)
  have "headers live ! i = p - 8" "headers live ! j = q - 8" using ij pq by (simp_all add: headers_def)
  then have "q - 8 \<noteq> p - 8" "q - 8 \<in> set (headers live)"
    using nth_eq_iff_index_eq [OF d, of j i] ij nth_mem [of j "headers live"] by (auto simp: headers_def)
  then have "bend (hsize s) (p - 8) \<le> unat (q - 8) \<or> bend (hsize s) (q - 8) \<le> unat (p - 8)" using c unfolding clear_def by blast
  then show ?thesis using live_block [OF l mem(1)] live_block [OF l mem(2)] by linarith
qed

lemma chain_closed: "chain nx b xs z \<Longrightarrow> x \<in> set (b # xs) \<Longrightarrow> nx x \<in> insert z (set xs)"
  by (induction xs arbitrary: b) auto

lemma free_header_ring:
  assumes "heap_inv tp xs A s" "free_header s x"
  shows "x \<in> set (base s # xs)"
proof -
  have c: "chain (hptr s) (base s) xs (base s)" "freep s \<in> set (base s # xs)" using assms(1) by (simp_all add: heap_inv_def ring_def)
  have "(hptr s ^^ k) (freep s) \<in> set (base s # xs)" for k
    using c(2) chain_closed [OF c(1)] by (induction k) auto
  then show ?thesis using assms(2) by (auto simp: free_header_def)
qed

lemma live_free_apart:
  assumes l: "live_ok tp k live s" and mem: "(p, n) \<in> set live" and x: "free_header s x"
  shows "unat p + unat n \<le> unat x \<or> unat x + 8 \<le> unat p - 8 \<and> bend (hsize s) x \<le> unat p - 8"
proof -
  obtain xs where xs: "heap_inv tp xs (set (headers live)) s" "p - 8 \<in> set (headers live)"
    "clear (hsize s) (unat (p - 8)) (bend (hsize s) (p - 8)) (set xs \<union> set (headers live) - {p - 8})" using live_heap [OF l mem] .
  note b = live_block [OF l mem]
  show ?thesis
  proof (cases "x = base s")
    case True
    have "hsize s (base s) = 0" "unat (base s) + 8 \<le> tp" using xs(1) by (simp_all add: heap_inv_def ring_def)
    then show ?thesis using True heap_member(2) [OF xs(1), of "p - 8"] xs(2) b(1) by (simp add: bend_def)
  next
    case False
    then have xm: "x \<in> set xs" using free_header_ring [OF xs(1) x] by simp
    then have "x \<noteq> p - 8" using xs(1,2) by (auto simp: heap_inv_def)
    then have "bend (hsize s) (p - 8) \<le> unat x \<or> bend (hsize s) x \<le> unat (p - 8)" using xm xs(3) unfolding clear_def by blast
    moreover have "0 < unat (hsize s x)" using heap_member(1) [OF xs(1), of x] xm by (simp add: word_less_nat_alt)
    then have "unat x + 8 \<le> bend (hsize s) x" by (simp add: bend_def)
    ultimately show ?thesis using b by linarith
  qed
qed

lemma live_safe:
  assumes l: "live_ok tp k live s"
  shows "blocks_safe tp live s"
  unfolding blocks_safe_def
proof (intro allI impI)
  fix i assume i: "i < length live"
  obtain p n where pn: "live ! i = (p, n)" by (metis surj_pair)
  have mem: "(p, n) \<in> set live" using i pn nth_mem [of i live] by auto
  obtain xs where xs: "heap_inv tp xs (set (headers live)) s" "p - 8 \<in> set (headers live)" using live_heap [OF l mem] .
  have "tp + 8 \<le> unat p" "bend (hsize s) (p - 8) \<le> brk_of tp (ucalls s)"
    using heap_member(2,3) [OF xs(1), of "p - 8"] xs(2) live_block(1) [OF l mem] by simp_all
  then show "let (p, n) = live ! i in
     tp + 8 \<le> unat p \<and> unat p + unat n \<le> bend (hsize s) (p - 8) \<and> bend (hsize s) (p - 8) \<le> brk_of tp (ucalls s) \<and>
     (\<forall>j < length live. j \<noteq> i \<longrightarrow> (let (q, m) = live ! j in unat p + unat n + 8 \<le> unat q \<or> unat q + unat m + 8 \<le> unat p)) \<and>
     (\<forall>x. free_header s x \<longrightarrow> unat p + unat n \<le> unat x \<or> unat x + 8 \<le> unat p - 8 \<and> bend (hsize s) x \<le> unat p - 8)"
    using live_block(2) [OF l mem] live_apart [OF l i _ _ pn] live_free_apart [OF l mem]
    by (simp add: pn split: prod.split)
qed

lemma live_malloc:
  assumes l: "live_ok tp k live s" and n: "unat n \<le> 0x7FFFFFF0" and fuel: "2 * k + 3 \<le> fuel"
  shows "\<exists>r t. malloc fuel n s = Ok r t \<and> live_ok tp (Suc k) (if r = 0 then live else live @ [(r, n)]) t"
proof -
  let ?H = "set (headers live)"
  obtain xs where xs: "heap_ok tp xs ?H s" "length xs \<le> k"
    and d: "distinct (headers live)" and z: "\<forall>(p, n) \<in> set live. hsize s (p - 8) = malloc_units n \<and> unat n \<le> 0x7FFFFFF0"
    using l by (auto simp: live_ok_def)
  have hs: "p - 8 \<in> ?H" if "(p, n) \<in> set live" for p n using that by (force simp: headers_def)
  have f: "2 * length xs + 3 \<le> fuel" using xs(2) fuel by simp
  from malloc_Ok [OF xs(1) n f] show ?thesis
  proof (elim exE conjE disjE)
    fix r t assume "malloc fuel n s = Ok r t" "r = 0" "heap_inv tp xs ?H t" "\<forall>a \<in> ?H. hsize t a = hsize s a"
    then show ?thesis using d z hs xs(2) by (fastforce simp: live_ok_def heap_ok_def)
  next
    fix r t q assume m: "malloc fuel n s = Ok r t" and q: "r = q + 8" "got tp ?H (malloc_units n) (Suc (length xs)) s q t"
    then obtain ys where ys: "heap_inv tp ys (insert q ?H) t" "length ys \<le> Suc k"
      using xs(2) unfolding got_def by auto
    have "unat q \<le> 2147483648" using heap_member(5) [OF ys(1), of q] by (simp add: bend_def)
    then have "unat (q + 8) = unat q + 8" by (subst unat_add_lem [THEN iffD1]) auto
    then have "r \<noteq> 0" using q(1) by auto
    moreover have "live_ok tp (Suc k) (live @ [(r, n)]) t"
    proof -
      have h: "headers (live @ [(r, n)]) = headers live @ [q]" using q(1) by (simp add: headers_def)
      have qf: "q \<notin> ?H" "hsize t q = malloc_units n" "\<forall>a \<in> ?H. hsize t a = hsize s a" using q(2) by (auto simp: got_def)
      have "hsize t (p - 8) = malloc_units m \<and> unat m \<le> 0x7FFFFFF0" if "(p, m) \<in> set live" for p m
        using z hs [OF that] qf(3) that by auto
      then show ?thesis unfolding live_ok_def h using ys d qf(1,2) q(1) n by (auto simp: heap_ok_def)
    qed
    ultimately show ?thesis using m by auto
  qed
qed

lemma live_free:
  assumes lv: "live_ok tp k live s" and j: "j < length live" and fuel: "k \<le> fuel"
  shows "\<exists>t. free fuel (fst (live ! j)) s = Ok () t \<and> live_ok tp (Suc k) (take j live @ drop (Suc j) live) t"
proof -
  obtain xs where xs: "heap_ok tp xs (set (headers live)) s" "length xs \<le> k"
    and d: "distinct (headers live)" and z: "\<forall>(p, n) \<in> set live. hsize s (p - 8) = malloc_units n \<and> unat n \<le> 0x7FFFFFF0"
    using lv by (auto simp: live_ok_def)
  obtain p n where pn: "live ! j = (p, n)" by (metis surj_pair)
  let ?l = "take j live @ drop (Suc j) live"
  have l: "live = take j live @ (p, n) # drop (Suc j) live" using id_take_nth_drop [OF j] pn by simp
  then have h: "headers live = headers (take j live) @ (p - 8) # headers (drop (Suc j) live)"
    by (metis (no_types, lifting) headers_def list.simps(9) map_append old.prod.case)
  have dl: "distinct (headers ?l)" "set (headers ?l) = set (headers live) - {p - 8}" "p - 8 \<in> set (headers live)"
    using d unfolding h by (auto simp: headers_def)
  have i: "heap_inv tp xs (set (headers live)) s" using xs(1) dl(3) by (auto simp: heap_ok_def)
  have f: "length xs \<le> fuel" using xs(2) fuel by simp
  obtain t ys where t: "free fuel (p - 8 + 8) s = Ok () t" "heap_inv tp ys (set (headers ?l)) t" "length ys \<le> Suc (length xs)"
      "\<forall>a \<in> set (headers ?l). hsize t a = hsize s a"
    using free_block [OF i dl(3) f] unfolding dl(2) by blast
  have hl: "q - 8 \<in> set (headers ?l)" if "(q, m) \<in> set ?l" for q m using that by (force simp: headers_def)
  have sub: "set ?l \<subseteq> set live" using set_take_subset [of j live] set_drop_subset [of "Suc j" live] by auto
  have "live_ok tp (Suc k) ?l t"
    unfolding live_ok_def using t(2-4) dl(1) z xs(2) hl sub by (fastforce simp: heap_ok_def)
  then show ?thesis using t(1) pn by simp
qed

lemma run_ops_Ok:
  assumes "live_ok tp k live s" "\<forall>n. UMalloc n \<in> set ops \<longrightarrow> unat n \<le> 0x7FFFFFF0" "2 * (k + length ops) + 3 \<le> fuel"
  shows "\<exists>live' k' s'. run_ops fuel ops live s = Ok live' s' \<and> live_ok tp k' live' s'"
  using assms
proof (induction ops arbitrary: live k s)
  case Nil
  then show ?case by (auto simp: kop)
next
  case (Cons op ops)
  have rest: "\<forall>n. UMalloc n \<in> set ops \<longrightarrow> unat n \<le> 0x7FFFFFF0" "2 * (Suc k + length ops) + 3 \<le> fuel"
    using Cons.prems(2,3) by auto
  show ?case
  proof (cases op)
    case (UMalloc n)
    then show ?thesis using live_malloc [OF Cons.prems(1), of n fuel] Cons.IH [OF _ rest] Cons.prems(2,3) by (fastforce simp: kop)
  next
    case (UFree j)
    show ?thesis
    proof (cases "j < length live")
      case False
      then show ?thesis using Cons.IH [OF Cons.prems(1) rest(1)] rest(2) UFree by simp
    next
      case True
      have f: "k \<le> fuel" using Cons.prems(3) by simp
      show ?thesis using live_free [OF Cons.prems(1) True f] Cons.IH [OF _ rest] UFree True by (fastforce simp: kop)
    qed
  qed
qed

text \<open>
  C6. The allocator is safe.  A program allocates blocks of at most 0x7FFFFFF0 bytes and frees blocks it holds, in any order and as often
  as it likes.  It runs without a fault, and for the blocks it holds at the end (hence at any time, since the program may be
  cut short): each is in memory that \<^verbatim>\<open>sbrk\<close> gave and has the size that was asked for; with their headers they do not overlap each
  other, nor the header or the bytes of a free block.  It is enough that \<^verbatim>\<open>sbrk\<close> fails or gives memory that is new and below 2 GB.
\<close>

theorem malloc_free_safe:
  assumes "freep s = 0" "0 < base s" "unat (base s) + 8 \<le> tp" "tp \<le> 2147483648" "ucalls s = []" "sbrk_grows tp (kernel s)"
    and "\<forall>n. UMalloc n \<in> set ops \<longrightarrow> unat n \<le> 0x7FFFFFF0" "2 * length ops + 3 \<le> fuel"
  shows "\<exists>live s'. run_ops fuel ops [] s = Ok live s' \<and> blocks_safe tp live s'"
proof -
  have "live_ok tp 0 [] s" using assms(1-6) by (auto simp: live_ok_def heap_ok_def headers_def brk_of_def)
  then show ?thesis using run_ops_Ok [OF _ assms(7), of tp 0 "[]" s fuel] assms(8) live_safe by auto
qed

text \<open>A kernel whose \<^verbatim>\<open>sbrk\<close> gives the memory after the break, up to 2 GB.\<close>

definition sbrk0 :: "(ucall \<times> reply) list \<Rightarrow> ucall \<Rightarrow> reply" where
  "sbrk0 h c =
     (case c of
        Sbrk n \<Rightarrow> Reply (if int (brk_of 0x2000 h) + n \<le> 2147483648 then int (brk_of 0x2000 h) else - 1) []
      | _ \<Rightarrow> Reply 0 [])"

definition heap0 :: uheap where
  "heap0 = \<lparr>ucalls = [], kernel = sbrk0, hptr = (\<lambda>_. 0), hsize = (\<lambda>_. 0), freep = 0, base = 0x1000\<rparr>"

theorem malloc_free_safe_witness:
  "\<exists>live s'. run_ops 13 [UMalloc 10, UMalloc 100, UFree 0, UMalloc 40000, UFree 1] [] heap0 = Ok live s' \<and> blocks_safe 0x2000 live s'"
proof -
  have "sbrk_grows 0x2000 sbrk0" by (auto simp: sbrk_grows_def sbrk0_def)
  then show ?thesis
    using malloc_free_safe [of heap0 "0x2000" "[UMalloc 10, UMalloc 100, UFree 0, UMalloc 40000, UFree 1]" 13] by (simp add: heap0_def)
qed

end
