(* ===== verification/Usertests.thy ===== *)
theory Usertests
  imports Progs Umalloc
begin

unbundle bit_operations_syntax

text \<open>
  The test program \<^verbatim>\<open>usertests.c\<close>, test by test in the order of the source.  A test is what one process does: after a fork the
  reply says whether it is the parent or the child.  \<open>expect\<close> makes a call and ends the process with a message if its result
  is bad; a child that loops for ever is the outcome \<open>Spin\<close>.  Loops that replies of the kernel may keep going have fuel.
\<close>

section \<open>State and vocabulary\<close>

text \<open>
  The global buffer of 8192 bytes, the first words of the blocks that the test of \<^verbatim>\<open>malloc\<close> links together, the array that is
  not initialised, and the state of \<^verbatim>\<open>rand\<close>.
\<close>

record utst = uheap +
  ubuf :: "byte list"
  ulink :: "addr \<Rightarrow> addr"
  uninit :: "byte list"
  randstate :: u32

abbreviation (input) B :: "string \<Rightarrow> byte list" where "B \<equiv> bytes_of_string"

definition say :: "string \<Rightarrow> (unit, 'z uproc_scheme) kop" where
  "say msg = printf 1 (msg @ NL) []"

definition fail_if :: "bool \<Rightarrow> string \<Rightarrow> carg list \<Rightarrow> (unit, 'z uproc_scheme) kop" where
  "fail_if bad msg args = whenK bad (thenK (printf 1 msg args) uexit)"

definition expect :: "ucall \<Rightarrow> (int \<Rightarrow> bool) \<Rightarrow> string \<Rightarrow> carg list \<Rightarrow> (unit, 'z uproc_scheme) kop" where
  "expect c bad msg args = bindK (sysi c) (\<lambda>r. fail_if (bad r) msg args)"

definition readbuf :: "int \<Rightarrow> int \<Rightarrow> (int, 'z utst_scheme) kop" where
  "readbuf fd n =
     bindK (sys (Read fd n)) (\<lambda>r.
     thenK (modK (\<lambda>s. s\<lparr>ubuf := splice (ubuf s) 0 (take (nat (rval r)) (rdata r))\<rparr>)) (
     retK (rval r)))"

definition writebuf :: "int \<Rightarrow> nat \<Rightarrow> (int, 'z utst_scheme) kop" where
  "writebuf fd n = bindK (getK ubuf) (\<lambda>b. sysi (Write fd (take n b)))"

definition setbuf :: "byte list \<Rightarrow> (unit, 'z utst_scheme) kop" where
  "setbuf bs = modK (\<lambda>s. s\<lparr>ubuf := splice (ubuf s) 0 bs\<rparr>)"

definition close_open :: "byte list \<Rightarrow> int \<Rightarrow> (unit, 'z uproc_scheme) kop" where
  "close_open path mode = bindK (sysi (Open path mode)) (\<lambda>fd. sysu (Close fd))"

definition sbrk :: "int \<Rightarrow> (addr, 'z uproc_scheme) kop" where
  "sbrk n = bindK (sysi (Sbrk n)) (\<lambda>r. retK (word_of_int r))"

definition peekb :: "addr \<Rightarrow> (byte, 'z uproc_scheme) kop" where
  "peekb a = bindK (sysi (Load a)) (\<lambda>r. if r < 0 then Swtch else retK (word_of_int r))"

definition pokeb :: "addr \<Rightarrow> byte \<Rightarrow> (unit, 'z uproc_scheme) kop" where
  "pokeb a v = bindK (sysi (Store a v)) (\<lambda>r. if r < 0 then Swtch else retK ())"

section \<open>References to inodes\<close>

definition iputtest :: "(unit, 'z utst_scheme) kop" where
  "iputtest = seqK
    [say ''iput test'',
     expect (Mkdir (B ''iputdir'')) (\<lambda>r. r < 0) (''mkdir failed'' @ NL) [],
     expect (Chdir (B ''iputdir'')) (\<lambda>r. r < 0) (''chdir iputdir failed'' @ NL) [],
     expect (Unlink (B ''../iputdir'')) (\<lambda>r. r < 0) (''unlink ../iputdir failed'' @ NL) [],
     expect (Chdir (B ''/'')) (\<lambda>r. r < 0) (''chdir / failed'' @ NL) [],
     say ''iput test ok'']"

definition exitiputtest :: "(unit, 'z utst_scheme) kop" where
  "exitiputtest =
     thenK (say ''exitiput test'') (
     bindK (sysi (Fork 0)) (\<lambda>pd. seqK
       [fail_if (pd < 0) (''fork failed'' @ NL) [],
        whenK (pd = 0) (seqK
          [expect (Mkdir (B ''iputdir'')) (\<lambda>r. r < 0) (''mkdir failed'' @ NL) [],
           expect (Chdir (B ''iputdir'')) (\<lambda>r. r < 0) (''child chdir failed'' @ NL) [],
           expect (Unlink (B ''../iputdir'')) (\<lambda>r. r < 0) (''unlink ../iputdir failed'' @ NL) [],
           uexit]),
        sysu Wait,
        say ''exitiput test ok'']))"

definition openiputtest :: "(unit, 'z utst_scheme) kop" where
  "openiputtest =
     thenK (say ''openiput test'') (
     thenK (expect (Mkdir (B ''oidir'')) (\<lambda>r. r < 0) (''mkdir oidir failed'' @ NL) []) (
     bindK (sysi (Fork 0)) (\<lambda>pd. seqK
       [fail_if (pd < 0) (''fork failed'' @ NL) [],
        whenK (pd = 0) (seqK
          [expect (Open (B ''oidir'') O_RDWR) (\<lambda>r. r \<ge> 0) (''open directory for write succeeded'' @ NL) [],
           uexit]),
        sysu (Sleep 1),
        expect (Unlink (B ''oidir'')) (\<lambda>r. r \<noteq> 0) (''unlink failed'' @ NL) [],
        sysu Wait,
        say ''openiput test ok''])))"

section \<open>Simple file system tests\<close>

definition opentest :: "(unit, 'z utst_scheme) kop" where
  "opentest =
     thenK (say ''open test'') (
     bindK (sysi (Open (B ''echo'') 0)) (\<lambda>fd. seqK
       [fail_if (fd < 0) (''open echo failed!'' @ NL) [],
        sysu (Close fd),
        expect (Open (B ''doesnotexist'') 0) (\<lambda>r. r \<ge> 0) (''open doesnotexist succeeded!'' @ NL) [],
        say ''open test ok'']))"

definition writetest :: "(unit, 'z utst_scheme) kop" where
  "writetest =
     thenK (say ''small file test'') (
     bindK (sysi (Open (B ''small'') (O_CREATE OR O_RDWR))) (\<lambda>fd.
     thenK (if fd \<ge> 0 then say ''creat small succeeded; ok'' else thenK (say ''error: creat small failed!'') uexit) (
     thenK (seqK (map (\<lambda>i. seqK
       [expect (Write fd (replicate 10 0x61)) (\<lambda>r. r \<noteq> 10) (''error: write aa %d new file failed'' @ NL) [CInt (int i)],
        expect (Write fd (replicate 10 0x62)) (\<lambda>r. r \<noteq> 10) (''error: write bb %d new file failed'' @ NL) [CInt (int i)]]) [0..<100])) (
     thenK (say ''writes ok'') (
     thenK (sysu (Close fd)) (
     bindK (sysi (Open (B ''small'') O_RDONLY)) (\<lambda>fd.
     thenK (if fd \<ge> 0 then say ''open small succeeded ok'' else thenK (say ''error: open small failed!'') uexit) (
     bindK (readbuf fd 2000) (\<lambda>i.
     thenK (if i = 2000 then say ''read succeeded ok'' else thenK (say ''read failed'') uexit) (
     seqK
       [sysu (Close fd),
        expect (Unlink (B ''small'')) (\<lambda>r. r < 0) (''unlink small failed'' @ NL) [],
        say ''small file test ok'']))))))))))"

fun writetest1_read :: "nat \<Rightarrow> int \<Rightarrow> nat \<Rightarrow> (unit, 'z utst_scheme) kop" where
  "writetest1_read fuel fd n =
     bindK (readbuf fd 512) (\<lambda>i.
     if i = 0 then fail_if (n = MAXFILE - 1) ''read only %d blocks from big'' [CInt (int n)]
     else
       thenK (fail_if (i \<noteq> 512) (''read failed %d'' @ NL) [CInt i]) (
       bindK (getK (\<lambda>s. sint (get32 (ubuf s) 0))) (\<lambda>k.
       thenK (fail_if (k \<noteq> int n) (''read content of block %d is %d'' @ NL) [CInt (int n), CInt k]) (
       case fuel of 0 \<Rightarrow> (\<lambda>_. NoFuel) | Suc fuel' \<Rightarrow> writetest1_read fuel' fd (n + 1)))))"

declare writetest1_read.simps [simp del]

definition writetest1 :: "nat \<Rightarrow> (unit, 'z utst_scheme) kop" where
  "writetest1 fuel =
     thenK (say ''big files test'') (
     bindK (sysi (Open (B ''big'') (O_CREATE OR O_RDWR))) (\<lambda>fd.
     thenK (fail_if (fd < 0) (''error: creat big failed!'' @ NL) []) (
     thenK (seqK (map (\<lambda>i.
       thenK (modK (\<lambda>s. s\<lparr>ubuf := put32 (ubuf s) 0 (of_nat i)\<rparr>)) (
       bindK (writebuf fd 512) (\<lambda>r. fail_if (r \<noteq> 512) (''error: write big file failed'' @ NL) [CInt (int i)]))) [0..<MAXFILE])) (
     thenK (sysu (Close fd)) (
     bindK (sysi (Open (B ''big'') O_RDONLY)) (\<lambda>fd. seqK
       [fail_if (fd < 0) (''error: open big failed!'' @ NL) [],
        writetest1_read fuel fd 0,
        sysu (Close fd),
        expect (Unlink (B ''big'')) (\<lambda>r. r < 0) (''unlink big failed'' @ NL) [],
        say ''big files ok'']))))))"

definition createtest :: "(unit, 'z utst_scheme) kop" where
  "createtest = seqK
    [say ''many creates, followed by unlink test'',
     seqK (map (\<lambda>i. close_open [0x61, 0x30 + of_nat i] (O_CREATE OR O_RDWR)) [0..<52]),
     seqK (map (\<lambda>i. sysu (Unlink [0x61, 0x30 + of_nat i])) [0..<52]),
     say ''many creates, followed by unlink; ok'']"

definition dirtest :: "(unit, 'z utst_scheme) kop" where
  "dirtest = seqK
    [say ''mkdir test'',
     expect (Mkdir (B ''dir0'')) (\<lambda>r. r < 0) (''mkdir failed'' @ NL) [],
     expect (Chdir (B ''dir0'')) (\<lambda>r. r < 0) (''chdir dir0 failed'' @ NL) [],
     expect (Chdir (B ''..'')) (\<lambda>r. r < 0) (''chdir .. failed'' @ NL) [],
     expect (Unlink (B ''dir0'')) (\<lambda>r. r < 0) (''unlink dir0 failed'' @ NL) [],
     say ''mkdir test ok'']"

definition exectest :: "(unit, 'z utst_scheme) kop" where
  "exectest = seqK
    [say ''exec test'',
     uexec (B ''echo'') [B ''echo'', B ''ALL'', B ''TESTS'', B ''PASSED''],
     say ''exec echo failed'',
     uexit]"

section \<open>Pipes and processes\<close>

text \<open>The bytes of a sequence from \<open>seq\<close> on.\<close>

definition seq_bytes :: "nat \<Rightarrow> nat \<Rightarrow> byte list" where
  "seq_bytes seq n = map (\<lambda>i. of_nat (seq + i)) [0..<n]"

text \<open>The reader of \<^verbatim>\<open>pipe1\<close>; \<open>None\<close> when a byte is wrong and the test returns.\<close>

fun pipe1_read :: "nat \<Rightarrow> int \<Rightarrow> int \<Rightarrow> nat \<Rightarrow> nat \<Rightarrow> (nat option, 'z utst_scheme) kop" where
  "pipe1_read fuel fd cc seq tot =
     bindK (readbuf fd cc) (\<lambda>n.
     if n > 0 then
       bindK (getK ubuf) (\<lambda>b.
       if take (nat n) b \<noteq> seq_bytes seq (nat n) then thenK (say (''pipe1 oo'' @ ''ps 2'')) (retK None)
       else
         (case fuel of
            0 \<Rightarrow> (\<lambda>_. NoFuel)
          | Suc fuel' \<Rightarrow> pipe1_read fuel' fd (if cc * 2 > 8192 then 8192 else cc * 2) (seq + nat n) (tot + nat n)))
     else retK (Some tot))"

declare pipe1_read.simps [simp del]

definition pipe1 :: "nat \<Rightarrow> (unit, 'z utst_scheme) kop" where
  "pipe1 fuel =
     bindK (sys Pipe) (\<lambda>r.
     let fd0 = sint (get32 (rdata r) 0); fd1 = sint (get32 (rdata r) 4) in
     thenK (fail_if (rval r \<noteq> 0) (''pipe() failed'' @ NL) []) (
     bindK (sysi (Fork 0)) (\<lambda>pd.
     if pd = 0 then seqK
       [sysu (Close fd0),
        seqK (map (\<lambda>n.
          thenK (setbuf (seq_bytes (1033 * n) 1033)) (
          bindK (writebuf fd1 1033) (\<lambda>c. fail_if (c \<noteq> 1033) (''pipe1 oo'' @ ''ps 1'' @ NL) []))) [0..<5]),
        uexit]
     else if pd > 0 then
       thenK (sysu (Close fd1)) (
       bindK (pipe1_read fuel fd0 1 0 0) (\<lambda>t.
       case t of
         None \<Rightarrow> retK ()
       | Some tot \<Rightarrow> seqK
           [fail_if (tot \<noteq> 5 * 1033) (''pipe1 oo'' @ ''ps 3 total %d'' @ NL) [CInt (int tot)],
            sysu (Close fd0),
            sysu Wait,
            say ''pipe1 ok'']))
     else thenK (say ''fork() failed'') uexit)))"

definition preempt :: "(unit, 'z utst_scheme) kop" where
  "preempt =
     thenK (printf 1 ''preempt: '' []) (
     bindK (sysi (Fork 0)) (\<lambda>pid1.
     thenK (whenK (pid1 = 0) Spin) (
     bindK (sysi (Fork 0)) (\<lambda>pid2.
     thenK (whenK (pid2 = 0) Spin) (
     bindK (sys Pipe) (\<lambda>r.
     let fd0 = sint (get32 (rdata r) 0); fd1 = sint (get32 (rdata r) 4) in
     bindK (sysi (Fork 0)) (\<lambda>pid3.
     thenK (whenK (pid3 = 0) (seqK
       [sysu (Close fd0),
        bindK (sysi (Write fd1 (B ''x''))) (\<lambda>c. whenK (c \<noteq> 1) (printf 1 ''preempt write error'' [])),
        sysu (Close fd1),
        Spin])) (
     thenK (sysu (Close fd1)) (
     bindK (readbuf fd0 8192) (\<lambda>n.
     if n \<noteq> 1 then printf 1 ''preempt read error'' []
     else seqK
       [sysu (Close fd0),
        printf 1 ''kill... '' [],
        sysu (Kill pid1),
        sysu (Kill pid2),
        sysu (Kill pid3),
        printf 1 ''wait... '' [],
        sysu Wait,
        sysu Wait,
        sysu Wait,
        say ''preempt ok'']))))))))))"

fun exitwait_loop :: "nat \<Rightarrow> (unit, 'z utst_scheme) kop" where
  "exitwait_loop 0 = say ''exitwait ok''"
| "exitwait_loop (Suc k) =
     bindK (sysi (Fork 0)) (\<lambda>pd.
     if pd < 0 then say ''fork failed''
     else if pd \<noteq> 0 then bindK (sysi Wait) (\<lambda>w. if w \<noteq> pd then say ''wait wrong pid'' else exitwait_loop k)
     else uexit)"

definition exitwait :: "(unit, 'z utst_scheme) kop" where
  "exitwait = exitwait_loop 100"

text \<open>The loops of \<^verbatim>\<open>mem\<close>: allocate until \<^verbatim>\<open>malloc\<close> fails, each block pointing to the one before; then free them all.\<close>

fun mem_fill :: "nat \<Rightarrow> nat \<Rightarrow> addr \<Rightarrow> (addr, 'z utst_scheme) kop" where
  "mem_fill fuel hf m1 =
     bindK (malloc hf 10001) (\<lambda>m2.
     if m2 \<noteq> 0 then
       thenK (modK (\<lambda>s. s\<lparr>ulink := (ulink s)(m2 := m1)\<rparr>)) (
       case fuel of 0 \<Rightarrow> (\<lambda>_. NoFuel) | Suc n \<Rightarrow> mem_fill n hf m2)
     else retK m1)"

declare mem_fill.simps [simp del]

fun mem_free :: "nat \<Rightarrow> nat \<Rightarrow> addr \<Rightarrow> (unit, 'z utst_scheme) kop" where
  "mem_free fuel hf m1 =
     (if m1 \<noteq> 0 then
        bindK (getK (\<lambda>s. ulink s m1)) (\<lambda>m2.
        thenK (free hf m1) (
        case fuel of 0 \<Rightarrow> (\<lambda>_. NoFuel) | Suc n \<Rightarrow> mem_free n hf m2))
      else retK ())"

declare mem_free.simps [simp del]

definition memtest :: "nat \<Rightarrow> nat \<Rightarrow> (unit, 'z utst_scheme) kop" where
  "memtest fuel hf =
     thenK (say ''mem test'') (
     bindK (sysi Getpid) (\<lambda>ppid.
     bindK (sysi (Fork 0)) (\<lambda>pd.
     if pd = 0 then
       bindK (mem_fill fuel hf 0) (\<lambda>m1.
       thenK (mem_free fuel hf m1) (
       bindK (malloc hf (1024 * 20)) (\<lambda>m1. seqK
         [whenK (m1 = 0) (seqK [say (''couldn'' @ [CHR 0x27] @ ''t allocate mem?!!''), sysu (Kill ppid), uexit]),
          free hf m1,
          say ''mem ok'',
          uexit])))
     else sysu Wait)))"

section \<open>More file system tests\<close>

fun sharedfd_write :: "nat \<Rightarrow> int \<Rightarrow> byte list \<Rightarrow> (unit, 'z utst_scheme) kop" where
  "sharedfd_write 0 fd b = retK ()"
| "sharedfd_write (Suc k) fd b =
     bindK (sysi (Write fd b)) (\<lambda>r.
     if r \<noteq> 10 then say ''fstests: write sharedfd failed'' else sharedfd_write k fd b)"

text \<open>The counts are over the whole buffer of 10 bytes, even if less was read.\<close>

fun sharedfd_read :: "nat \<Rightarrow> int \<Rightarrow> byte list \<Rightarrow> nat \<Rightarrow> nat \<Rightarrow> (nat \<times> nat, 'z utst_scheme) kop" where
  "sharedfd_read fuel fd b nc np =
     bindK (sys (Read fd 10)) (\<lambda>r.
     if rval r > 0 then
       (let b' = splice b 0 (take (nat (rval r)) (rdata r)) in
        case fuel of
          0 \<Rightarrow> (\<lambda>_. NoFuel)
        | Suc n \<Rightarrow> sharedfd_read n fd b' (nc + length (filter ((=) 0x63) b')) (np + length (filter ((=) 0x70) b')))
     else retK (nc, np))"

declare sharedfd_read.simps [simp del]

definition sharedfd :: "nat \<Rightarrow> (unit, 'z utst_scheme) kop" where
  "sharedfd fuel =
     thenK (say ''sharedfd test'') (
     thenK (sysu (Unlink (B ''sharedfd''))) (
     bindK (sysi (Open (B ''sharedfd'') (O_CREATE OR O_RDWR))) (\<lambda>fd.
     if fd < 0 then printf 1 ''fstests: cannot open sharedfd for writing'' []
     else
       bindK (sysi (Fork 0)) (\<lambda>pd.
       let b = replicate 10 (if pd = 0 then 0x63 else 0x70) in
       thenK (sharedfd_write 1000 fd b) (
       thenK (if pd = 0 then uexit else sysu Wait) (
       thenK (sysu (Close fd)) (
       bindK (sysi (Open (B ''sharedfd'') 0)) (\<lambda>fd.
       if fd < 0 then say ''fstests: cannot open sharedfd for reading''
       else
         bindK (sharedfd_read fuel fd b 0 0) (\<lambda>(nc, np).
         thenK (sysu (Close fd)) (
         thenK (sysu (Unlink (B ''sharedfd''))) (
         if nc = 10000 \<and> np = 10000 then say ''sharedfd ok''
         else thenK (printf 1 (''sharedfd oo'' @ ''ps %d %d'' @ NL) [CInt (int nc), CInt (int np)]) uexit)))))))))))"

fun fourfiles_read :: "nat \<Rightarrow> int \<Rightarrow> byte \<Rightarrow> nat \<Rightarrow> (nat, 'z utst_scheme) kop" where
  "fourfiles_read fuel fd c tot =
     bindK (readbuf fd 8192) (\<lambda>n.
     if n > 0 then
       bindK (getK ubuf) (\<lambda>b.
       thenK (fail_if (\<exists>x \<in> set (take (nat n) b). x \<noteq> c) (''wrong char'' @ NL) []) (
       case fuel of 0 \<Rightarrow> (\<lambda>_. NoFuel) | Suc fuel' \<Rightarrow> fourfiles_read fuel' fd c (tot + nat n)))
     else retK tot)"

declare fourfiles_read.simps [simp del]

definition fourfiles :: "nat \<Rightarrow> (unit, 'z utst_scheme) kop" where
  "fourfiles fuel = seqK
    [say ''fourfiles test'',
     seqK (map (\<lambda>pi.
       let fname = [0x66, 0x30 + of_nat pi] in
       thenK (sysu (Unlink fname)) (
       bindK (sysi (Fork 0)) (\<lambda>pd.
       thenK (fail_if (pd < 0) (''fork failed'' @ NL) []) (
       whenK (pd = 0) (
         bindK (sysi (Open fname (O_CREATE OR O_RDWR))) (\<lambda>fd. seqK
           [fail_if (fd < 0) (''create failed'' @ NL) [],
            setbuf (replicate 512 (0x30 + of_nat pi)),
            seqK (map (\<lambda>i. bindK (writebuf fd 500) (\<lambda>n. fail_if (n \<noteq> 500) (''write failed %d'' @ NL) [CInt n])) [0..<12]),
            uexit])))))) [0..<4]),
     seqK (replicate 4 (sysu Wait)),
     seqK (map (\<lambda>i.
       let fname = [0x66, 0x30 + of_nat i] in
       bindK (sysi (Open fname 0)) (\<lambda>fd.
       bindK (fourfiles_read fuel fd (0x30 + of_nat i) 0) (\<lambda>tot. seqK
         [sysu (Close fd),
          fail_if (tot \<noteq> 12 * 500) (''wrong length %d'' @ NL) [CInt (int tot)],
          sysu (Unlink fname)]))) [0..<2]),
     say ''fourfiles ok'']"

text \<open>The clean-up of \<^verbatim>\<open>createdelete\<close> takes \<^verbatim>\<open>i\<close> for both characters of the name.\<close>

definition createdelete_clean :: "(unit, 'z utst_scheme) kop" where
  "createdelete_clean = seqK (map (\<lambda>i. seqK (map (\<lambda>pi. sysu (Unlink [0x70 + of_nat i, 0x30 + of_nat i])) [0..<4::nat])) [0..<20])"

definition createdelete :: "(unit, 'z utst_scheme) kop" where
  "createdelete = seqK
    [say ''createdelete test'',
     seqK (map (\<lambda>pi.
       bindK (sysi (Fork 0)) (\<lambda>pd.
       thenK (fail_if (pd < 0) (''fork failed'' @ NL) []) (
       whenK (pd = 0) (seqK
         [seqK (map (\<lambda>i.
            bindK (sysi (Open [0x70 + of_nat pi, 0x30 + of_nat i] (O_CREATE OR O_RDWR))) (\<lambda>fd. seqK
              [fail_if (fd < 0) (''create failed'' @ NL) [],
               sysu (Close fd),
               whenK (i > 0 \<and> i mod 2 = 0)
                 (expect (Unlink [0x70 + of_nat pi, 0x30 + of_nat (i div 2)]) (\<lambda>r. r < 0) (''unlink failed'' @ NL) [])])) [0..<20]),
          uexit])))) [0..<4]),
     seqK (replicate 4 (sysu Wait)),
     seqK (map (\<lambda>i. seqK (map (\<lambda>pi.
       let name = [0x70 + of_nat pi, 0x30 + of_nat i] in
       bindK (sysi (Open name 0)) (\<lambda>fd. seqK
         [if (i = 0 \<or> i \<ge> 10) \<and> fd < 0
          then fail_if True (''oo'' @ ''ps createdelete %s didn'' @ [CHR 0x27] @ ''t exist'' @ NL) [CStr name]
          else fail_if ((i \<ge> 1 \<and> i < 10) \<and> fd \<ge> 0) (''oo'' @ ''ps createdelete %s did exist'' @ NL) [CStr name],
          whenK (fd \<ge> 0) (sysu (Close fd))])) [0..<4])) [0..<20]),
     createdelete_clean,
     say ''createdelete ok'']"

definition unlinkread :: "(unit, 'z utst_scheme) kop" where
  "unlinkread =
     thenK (say ''unlinkread test'') (
     bindK (sysi (Open (B ''unlinkread'') (O_CREATE OR O_RDWR))) (\<lambda>fd.
     thenK (fail_if (fd < 0) (''create unlinkread failed'' @ NL) []) (
     thenK (sysu (Write fd (B ''hello''))) (
     thenK (sysu (Close fd)) (
     bindK (sysi (Open (B ''unlinkread'') O_RDWR)) (\<lambda>fd.
     thenK (fail_if (fd < 0) (''open unlinkread failed'' @ NL) []) (
     thenK (expect (Unlink (B ''unlinkread'')) (\<lambda>r. r \<noteq> 0) (''unlink unlinkread failed'' @ NL) []) (
     bindK (sysi (Open (B ''unlinkread'') (O_CREATE OR O_RDWR))) (\<lambda>fd1.
     thenK (sysu (Write fd1 (B ''yyy''))) (
     thenK (sysu (Close fd1)) (
     bindK (readbuf fd 8192) (\<lambda>n.
     thenK (fail_if (n \<noteq> 5) ''unlinkread read failed'' []) (
     bindK (getK ubuf) (\<lambda>b.
     thenK (fail_if (b ! 0 \<noteq> 0x68) (''unlinkread wrong data'' @ NL) []) (
     bindK (writebuf fd 10) (\<lambda>c. seqK
       [fail_if (c \<noteq> 10) (''unlinkread write failed'' @ NL) [],
        sysu (Close fd),
        sysu (Unlink (B ''unlinkread'')),
        say ''unlinkread ok'']))))))))))))))))"

definition linktest :: "(unit, 'z utst_scheme) kop" where
  "linktest =
     thenK (say ''linktest'') (
     thenK (sysu (Unlink (B ''lf1''))) (
     thenK (sysu (Unlink (B ''lf2''))) (
     bindK (sysi (Open (B ''lf1'') (O_CREATE OR O_RDWR))) (\<lambda>fd.
     thenK (seqK
       [fail_if (fd < 0) (''create lf1 failed'' @ NL) [],
        expect (Write fd (B ''hello'')) (\<lambda>r. r \<noteq> 5) (''write lf1 failed'' @ NL) [],
        sysu (Close fd),
        expect (Link (B ''lf1'') (B ''lf2'')) (\<lambda>r. r < 0) (''link lf1 lf2 failed'' @ NL) [],
        sysu (Unlink (B ''lf1'')),
        expect (Open (B ''lf1'') 0) (\<lambda>r. r \<ge> 0) (''unlinked lf1 but it is still there!'' @ NL) []]) (
     bindK (sysi (Open (B ''lf2'') 0)) (\<lambda>fd. seqK
       [fail_if (fd < 0) (''open lf2 failed'' @ NL) [],
        bindK (readbuf fd 8192) (\<lambda>n. fail_if (n \<noteq> 5) (''read lf2 failed'' @ NL) []),
        sysu (Close fd),
        expect (Link (B ''lf2'') (B ''lf2'')) (\<lambda>r. r \<ge> 0) (''link lf2 lf2 succeeded! oo'' @ ''ps'' @ NL) [],
        sysu (Unlink (B ''lf2'')),
        expect (Link (B ''lf2'') (B ''lf1'')) (\<lambda>r. r \<ge> 0) (''link non-existant succeeded! oo'' @ ''ps'' @ NL) [],
        expect (Link (B ''.'') (B ''lf1'')) (\<lambda>r. r \<ge> 0) (''link . lf1 succeeded! oo'' @ ''ps'' @ NL) [],
        say ''linktest ok'']))))))"

section \<open>Concurrent creation and directories\<close>

text \<open>
  The directory entries that \<^verbatim>\<open>concreate\<close> reads into \<open>de\<close>, 16 bytes of which a short read keeps the rest; \<open>fa\<close> marks the files
  that were seen.
\<close>

fun concreate_list :: "nat \<Rightarrow> int \<Rightarrow> byte list \<Rightarrow> bool list \<Rightarrow> nat \<Rightarrow> (nat, 'z utst_scheme) kop" where
  "concreate_list fuel fd de fa n =
     bindK (sys (Read fd 16)) (\<lambda>r.
     if rval r > 0 then
       (let de' = splice de 0 (take (nat (rval r)) (rdata r)); name = drop 2 de'; i = sint (name ! 1) - 48;
            again = (\<lambda>fa n. case fuel of 0 \<Rightarrow> (\<lambda>_. NoFuel) | Suc fuel' \<Rightarrow> concreate_list fuel' fd de' fa n) in
        if get16 de' 0 = 0 then again fa n
        else if name ! 0 = 0x43 \<and> name ! 2 = 0 then
          thenK (fail_if (i < 0 \<or> i \<ge> 40) (''concreate weird file %s'' @ NL) [CStr name]) (
          thenK (fail_if (fa ! nat i) (''concreate duplicate file %s'' @ NL) [CStr name]) (
          again (fa[nat i := True]) (n + 1)))
        else again fa n)
     else retK n)"

declare concreate_list.simps [simp del]

text \<open>\<open>junk\<close> is what the directory entry on the stack holds before the first read.\<close>

definition concreate :: "nat \<Rightarrow> byte list \<Rightarrow> (unit, 'z utst_scheme) kop" where
  "concreate fuel junk =
     thenK (say ''concreate test'') (
     thenK (seqK (map (\<lambda>i.
       let file = [0x43, 0x30 + of_nat i] in
       thenK (sysu (Unlink file)) (
       bindK (sysi (Fork 0)) (\<lambda>pd.
       thenK
         (if pd \<noteq> 0 \<and> i mod 3 = 1 then sysu (Link (B ''C0'') file)
          else if pd = 0 \<and> i mod 5 = 1 then sysu (Link (B ''C0'') file)
          else
            bindK (sysi (Open file (O_CREATE OR O_RDWR))) (\<lambda>fd.
            thenK (fail_if (fd < 0) (''concreate create %s failed'' @ NL) [CStr file]) (
            sysu (Close fd)))) (
       if pd = 0 then uexit else sysu Wait)))) [0..<40])) (
     bindK (sysi (Open (B ''.'') 0)) (\<lambda>fd.
     bindK (concreate_list fuel fd junk (replicate 40 False) 0) (\<lambda>n.
     thenK (sysu (Close fd)) (
     thenK (fail_if (n \<noteq> 40) (''concreate not enough files in directory listing'' @ NL) []) (
     thenK (seqK (map (\<lambda>i.
       let file = [0x43, 0x30 + of_nat i] in
       bindK (sysi (Fork 0)) (\<lambda>pd. seqK
         [fail_if (pd < 0) (''fork failed'' @ NL) [],
          if (i mod 3 = 0 \<and> pd = 0) \<or> (i mod 3 = 1 \<and> pd \<noteq> 0) then seqK (replicate 4 (close_open file 0))
          else seqK (replicate 4 (sysu (Unlink file))),
          if pd = 0 then uexit else sysu Wait])) [0..<40])) (
     say ''concreate ok'')))))))"

fun linkunlink_loop :: "nat \<Rightarrow> u32 \<Rightarrow> (unit, 'z utst_scheme) kop" where
  "linkunlink_loop 0 x = retK ()"
| "linkunlink_loop (Suc k) x =
     (let x' = x * 1103515245 + 12345 in
      thenK
        (if x' mod 3 = 0 then close_open (B ''x'') (O_RDWR OR O_CREATE)
         else if x' mod 3 = 1 then sysu (Link (B ''cat'') (B ''x''))
         else sysu (Unlink (B ''x''))) (
      linkunlink_loop k x'))"

definition linkunlink :: "(unit, 'z utst_scheme) kop" where
  "linkunlink =
     thenK (say ''linkunlink test'') (
     thenK (sysu (Unlink (B ''x''))) (
     bindK (sysi (Fork 0)) (\<lambda>pd. seqK
       [fail_if (pd < 0) (''fork failed'' @ NL) [],
        linkunlink_loop 100 (if pd \<noteq> 0 then 1 else 97),
        if pd \<noteq> 0 then sysu Wait else uexit,
        say ''linkunlink ok''])))"

definition bigdir_name :: "nat \<Rightarrow> byte list" where
  "bigdir_name i = [0x78, 0x30 + of_nat (i div 64), 0x30 + of_nat (i mod 64)]"

definition bigdir :: "(unit, 'z utst_scheme) kop" where
  "bigdir =
     thenK (say ''bigdir test'') (
     thenK (sysu (Unlink (B ''bd''))) (
     bindK (sysi (Open (B ''bd'') O_CREATE)) (\<lambda>fd. seqK
       [fail_if (fd < 0) (''bigdir create failed'' @ NL) [],
        sysu (Close fd),
        seqK (map (\<lambda>i. expect (Link (B ''bd'') (bigdir_name i)) (\<lambda>r. r \<noteq> 0) (''bigdir link failed'' @ NL) []) [0..<500]),
        sysu (Unlink (B ''bd'')),
        seqK (map (\<lambda>i. expect (Unlink (bigdir_name i)) (\<lambda>r. r \<noteq> 0) ''bigdir unlink failed'' []) [0..<500]),
        say ''bigdir ok''])))"

text \<open>The second half of \<^verbatim>\<open>subdir\<close>: what must fail in the tree of directories, and its removal.\<close>

definition subdir_rest :: "(unit, 'z utst_scheme) kop" where
  "subdir_rest =
     bindK (sysi (Open (B ''dd/dd/ffff'') 0)) (\<lambda>fd. seqK
       [fail_if (fd < 0) (''open dd/dd/ffff failed'' @ NL) [],
        bindK (readbuf fd 8192) (\<lambda>n. fail_if (n \<noteq> 2) (''read dd/dd/ffff wrong len'' @ NL) []),
        sysu (Close fd),
        expect (Open (B ''dd/dd/ff'') O_RDONLY) (\<lambda>r. r \<ge> 0) (''open (unlinked) dd/dd/ff succeeded!'' @ NL) [],
        expect (Open (B ''dd/ff/ff'') (O_CREATE OR O_RDWR)) (\<lambda>r. r \<ge> 0) (''create dd/ff/ff succeeded!'' @ NL) [],
        expect (Open (B ''dd/xx/ff'') (O_CREATE OR O_RDWR)) (\<lambda>r. r \<ge> 0) (''create dd/xx/ff succeeded!'' @ NL) [],
        expect (Open (B ''dd'') O_CREATE) (\<lambda>r. r \<ge> 0) (''create dd succeeded!'' @ NL) [],
        expect (Open (B ''dd'') O_RDWR) (\<lambda>r. r \<ge> 0) (''open dd rdwr succeeded!'' @ NL) [],
        expect (Open (B ''dd'') O_WRONLY) (\<lambda>r. r \<ge> 0) (''open dd wronly succeeded!'' @ NL) [],
        expect (Link (B ''dd/ff/ff'') (B ''dd/dd/xx'')) (\<lambda>r. r = 0) (''link dd/ff/ff dd/dd/xx succeeded!'' @ NL) [],
        expect (Link (B ''dd/xx/ff'') (B ''dd/dd/xx'')) (\<lambda>r. r = 0) (''link dd/xx/ff dd/dd/xx succeeded!'' @ NL) [],
        expect (Link (B ''dd/ff'') (B ''dd/dd/ffff'')) (\<lambda>r. r = 0) (''link dd/ff dd/dd/ffff succeeded!'' @ NL) [],
        expect (Mkdir (B ''dd/ff/ff'')) (\<lambda>r. r = 0) (''mkdir dd/ff/ff succeeded!'' @ NL) [],
        expect (Mkdir (B ''dd/xx/ff'')) (\<lambda>r. r = 0) (''mkdir dd/xx/ff succeeded!'' @ NL) [],
        expect (Mkdir (B ''dd/dd/ffff'')) (\<lambda>r. r = 0) (''mkdir dd/dd/ffff succeeded!'' @ NL) [],
        expect (Unlink (B ''dd/xx/ff'')) (\<lambda>r. r = 0) (''unlink dd/xx/ff succeeded!'' @ NL) [],
        expect (Unlink (B ''dd/ff/ff'')) (\<lambda>r. r = 0) (''unlink dd/ff/ff succeeded!'' @ NL) [],
        expect (Chdir (B ''dd/ff'')) (\<lambda>r. r = 0) (''chdir dd/ff succeeded!'' @ NL) [],
        expect (Chdir (B ''dd/xx'')) (\<lambda>r. r = 0) (''chdir dd/xx succeeded!'' @ NL) [],
        expect (Unlink (B ''dd/dd/ffff'')) (\<lambda>r. r \<noteq> 0) (''unlink dd/dd/ff failed'' @ NL) [],
        expect (Unlink (B ''dd/ff'')) (\<lambda>r. r \<noteq> 0) (''unlink dd/ff failed'' @ NL) [],
        expect (Unlink (B ''dd'')) (\<lambda>r. r = 0) (''unlink non-empty dd succeeded!'' @ NL) [],
        expect (Unlink (B ''dd/dd'')) (\<lambda>r. r < 0) (''unlink dd/dd failed'' @ NL) [],
        expect (Unlink (B ''dd'')) (\<lambda>r. r < 0) (''unlink dd failed'' @ NL) [],
        say ''subdir ok''])"

definition subdir :: "(unit, 'z utst_scheme) kop" where
  "subdir =
     thenK (say ''subdir test'') (
     thenK (sysu (Unlink (B ''ff''))) (
     thenK (expect (Mkdir (B ''dd'')) (\<lambda>r. r \<noteq> 0) (''subdir mkdir dd failed'' @ NL) []) (
     bindK (sysi (Open (B ''dd/ff'') (O_CREATE OR O_RDWR))) (\<lambda>fd.
     thenK (seqK
       [fail_if (fd < 0) (''create dd/ff failed'' @ NL) [],
        sysu (Write fd (B ''ff'')),
        sysu (Close fd),
        expect (Unlink (B ''dd'')) (\<lambda>r. r \<ge> 0) (''unlink dd (non-empty dir) succeeded!'' @ NL) [],
        expect (Mkdir (B ''/dd/dd'')) (\<lambda>r. r \<noteq> 0) (''subdir mkdir dd/dd failed'' @ NL) []]) (
     bindK (sysi (Open (B ''dd/dd/ff'') (O_CREATE OR O_RDWR))) (\<lambda>fd.
     thenK (seqK
       [fail_if (fd < 0) (''create dd/dd/ff failed'' @ NL) [],
        sysu (Write fd (B ''FF'')),
        sysu (Close fd)]) (
     bindK (sysi (Open (B ''dd/dd/../ff'') 0)) (\<lambda>fd.
     thenK (fail_if (fd < 0) (''open dd/dd/../ff failed'' @ NL) []) (
     bindK (readbuf fd 8192) (\<lambda>cc.
     bindK (getK ubuf) (\<lambda>b.
     thenK (seqK
       [fail_if (cc \<noteq> 2 \<or> b ! 0 \<noteq> 0x66) (''dd/dd/../ff wrong content'' @ NL) [],
        sysu (Close fd),
        expect (Link (B ''dd/dd/ff'') (B ''dd/dd/ffff'')) (\<lambda>r. r \<noteq> 0) (''link dd/dd/ff dd/dd/ffff failed'' @ NL) [],
        expect (Unlink (B ''dd/dd/ff'')) (\<lambda>r. r \<noteq> 0) (''unlink dd/dd/ff failed'' @ NL) [],
        expect (Open (B ''dd/dd/ff'') O_RDONLY) (\<lambda>r. r \<ge> 0) (''open (unlinked) dd/dd/ff succeeded'' @ NL) [],
        expect (Chdir (B ''dd'')) (\<lambda>r. r \<noteq> 0) (''chdir dd failed'' @ NL) [],
        expect (Chdir (B ''dd/../../dd'')) (\<lambda>r. r \<noteq> 0) (''chdir dd/../../dd failed'' @ NL) [],
        expect (Chdir (B ''dd/../../../dd'')) (\<lambda>r. r \<noteq> 0) (''chdir dd/../../dd failed'' @ NL) [],
        expect (Chdir (B ''./..'')) (\<lambda>r. r \<noteq> 0) (''chdir ./.. failed'' @ NL) []]) (
     subdir_rest))))))))))))"

text \<open>The sizes 499, 970 and so on, below 6144.\<close>

definition bigwrite :: "(unit, 'z utst_scheme) kop" where
  "bigwrite = seqK
    [say ''bigwrite test'',
     sysu (Unlink (B ''bigwrite'')),
     seqK (map (\<lambda>k.
       let z = 499 + 471 * k in
       bindK (sysi (Open (B ''bigwrite'') (O_CREATE OR O_RDWR))) (\<lambda>fd. seqK
         [fail_if (fd < 0) (''cannot create bigwrite'' @ NL) [],
          seqK (replicate 2 (bindK (writebuf fd z) (\<lambda>cc. fail_if (cc \<noteq> int z) (''write(%d) ret %d'' @ NL) [CInt (int z), CInt cc]))),
          sysu (Close fd),
          sysu (Unlink (B ''bigwrite''))])) [0..<12]),
     say ''bigwrite ok'']"

fun bigfile_read :: "nat \<Rightarrow> int \<Rightarrow> nat \<Rightarrow> nat \<Rightarrow> (nat, 'z utst_scheme) kop" where
  "bigfile_read fuel fd i tot =
     bindK (readbuf fd 300) (\<lambda>cc.
     thenK (fail_if (cc < 0) (''read bigfile failed'' @ NL) []) (
     if cc = 0 then retK tot
     else
       thenK (fail_if (cc \<noteq> 300) (''short read bigfile'' @ NL) []) (
       bindK (getK ubuf) (\<lambda>b.
       thenK (fail_if (sint (b ! 0) \<noteq> int (i div 2) \<or> sint (b ! 299) \<noteq> int (i div 2)) (''read bigfile wrong data'' @ NL) []) (
       case fuel of 0 \<Rightarrow> (\<lambda>_. NoFuel) | Suc n \<Rightarrow> bigfile_read n fd (i + 1) (tot + nat cc))))))"

declare bigfile_read.simps [simp del]

definition bigfile :: "nat \<Rightarrow> (unit, 'z utst_scheme) kop" where
  "bigfile fuel =
     thenK (say ''bigfile test'') (
     thenK (sysu (Unlink (B ''bigfile''))) (
     bindK (sysi (Open (B ''bigfile'') (O_CREATE OR O_RDWR))) (\<lambda>fd.
     thenK (seqK
       [fail_if (fd < 0) ''cannot create bigfile'' [],
        seqK (map (\<lambda>i.
          thenK (setbuf (replicate 600 (of_nat i))) (
          bindK (writebuf fd 600) (\<lambda>c. fail_if (c \<noteq> 600) (''write bigfile failed'' @ NL) []))) [0..<20]),
        sysu (Close fd)]) (
     bindK (sysi (Open (B ''bigfile'') 0)) (\<lambda>fd.
     thenK (fail_if (fd < 0) (''cannot open bigfile'' @ NL) []) (
     bindK (bigfile_read fuel fd 0 0) (\<lambda>tot. seqK
       [sysu (Close fd),
        fail_if (tot \<noteq> 20 * 600) (''read bigfile wrong total'' @ NL) [],
        sysu (Unlink (B ''bigfile'')),
        say ''bigfile test ok''])))))))"

definition fourteen :: "(unit, 'z utst_scheme) kop" where
  "fourteen =
     thenK (seqK
       [say ''fourteen test'',
        expect (Mkdir (B ''12345678901234'')) (\<lambda>r. r \<noteq> 0) (''mkdir 12345678901234 failed'' @ NL) [],
        expect (Mkdir (B ''12345678901234/123456789012345'')) (\<lambda>r. r \<noteq> 0) (''mkdir 12345678901234/123456789012345 failed'' @ NL) []]) (
     bindK (sysi (Open (B ''123456789012345/123456789012345/123456789012345'') O_CREATE)) (\<lambda>fd.
     thenK (fail_if (fd < 0) (''create 123456789012345/123456789012345/123456789012345 failed'' @ NL) []) (
     thenK (sysu (Close fd)) (
     bindK (sysi (Open (B ''12345678901234/12345678901234/12345678901234'') 0)) (\<lambda>fd. seqK
       [fail_if (fd < 0) (''open 12345678901234/12345678901234/12345678901234 failed'' @ NL) [],
        sysu (Close fd),
        expect (Mkdir (B ''12345678901234/12345678901234'')) (\<lambda>r. r = 0) (''mkdir 12345678901234/12345678901234 succeeded!'' @ NL) [],
        expect (Mkdir (B ''123456789012345/12345678901234'')) (\<lambda>r. r = 0) (''mkdir 12345678901234/123456789012345 succeeded!'' @ NL) [],
        say ''fourteen ok''])))))"

definition rmdot :: "(unit, 'z utst_scheme) kop" where
  "rmdot = seqK
    [say ''rmdot test'',
     expect (Mkdir (B ''dots'')) (\<lambda>r. r \<noteq> 0) (''mkdir dots failed'' @ NL) [],
     expect (Chdir (B ''dots'')) (\<lambda>r. r \<noteq> 0) (''chdir dots failed'' @ NL) [],
     expect (Unlink (B ''.'')) (\<lambda>r. r = 0) (''rm . worked!'' @ NL) [],
     expect (Unlink (B ''..'')) (\<lambda>r. r = 0) (''rm .. worked!'' @ NL) [],
     expect (Chdir (B ''/'')) (\<lambda>r. r \<noteq> 0) (''chdir / failed'' @ NL) [],
     expect (Unlink (B ''dots/.'')) (\<lambda>r. r = 0) (''unlink dots/. worked!'' @ NL) [],
     expect (Unlink (B ''dots/..'')) (\<lambda>r. r = 0) (''unlink dots/.. worked!'' @ NL) [],
     expect (Unlink (B ''dots'')) (\<lambda>r. r \<noteq> 0) (''unlink dots failed!'' @ NL) [],
     say ''rmdot ok'']"

definition dirfile :: "(unit, 'z utst_scheme) kop" where
  "dirfile =
     thenK (say ''dir vs file'') (
     bindK (sysi (Open (B ''dirfile'') O_CREATE)) (\<lambda>fd.
     thenK (seqK
       [fail_if (fd < 0) (''create dirfile failed'' @ NL) [],
        sysu (Close fd),
        expect (Chdir (B ''dirfile'')) (\<lambda>r. r = 0) (''chdir dirfile succeeded!'' @ NL) [],
        expect (Open (B ''dirfile/xx'') 0) (\<lambda>r. r \<ge> 0) (''create dirfile/xx succeeded!'' @ NL) [],
        expect (Open (B ''dirfile/xx'') O_CREATE) (\<lambda>r. r \<ge> 0) (''create dirfile/xx succeeded!'' @ NL) [],
        expect (Mkdir (B ''dirfile/xx'')) (\<lambda>r. r = 0) (''mkdir dirfile/xx succeeded!'' @ NL) [],
        expect (Unlink (B ''dirfile/xx'')) (\<lambda>r. r = 0) (''unlink dirfile/xx succeeded!'' @ NL) [],
        expect (Link (B ''README'') (B ''dirfile/xx'')) (\<lambda>r. r = 0) (''link to dirfile/xx succeeded!'' @ NL) [],
        expect (Unlink (B ''dirfile'')) (\<lambda>r. r \<noteq> 0) (''unlink dirfile failed!'' @ NL) [],
        expect (Open (B ''.'') O_RDWR) (\<lambda>r. r \<ge> 0) (''open . for writing succeeded!'' @ NL) []]) (
     bindK (sysi (Open (B ''.'') 0)) (\<lambda>fd. seqK
       [expect (Write fd (B ''x'')) (\<lambda>r. r > 0) (''write . succeeded!'' @ NL) [],
        sysu (Close fd),
        say ''dir vs file OK'']))))"

definition iref :: "(unit, 'z utst_scheme) kop" where
  "iref = seqK
    [say ''empty file name'',
     seqK (replicate 51 (seqK
       [expect (Mkdir (B ''irefd'')) (\<lambda>r. r \<noteq> 0) (''mkdir irefd failed'' @ NL) [],
        expect (Chdir (B ''irefd'')) (\<lambda>r. r \<noteq> 0) (''chdir irefd failed'' @ NL) [],
        sysu (Mkdir []),
        sysu (Link (B ''README'') []),
        bindK (sysi (Open [] O_CREATE)) (\<lambda>fd. whenK (fd \<ge> 0) (sysu (Close fd))),
        bindK (sysi (Open (B ''xx'') O_CREATE)) (\<lambda>fd. whenK (fd \<ge> 0) (sysu (Close fd))),
        sysu (Unlink (B ''xx''))])),
     sysu (Chdir (B ''/'')),
     say ''empty file name OK'']"

section \<open>Processes and memory\<close>

fun ut_wait :: "nat \<Rightarrow> (unit, 'z utst_scheme) kop" where
  "ut_wait 0 = retK ()"
| "ut_wait (Suc n) = thenK (expect Wait (\<lambda>r. r < 0) (''wait stopped early'' @ NL) []) (ut_wait n)"

definition ut_forktest :: "(unit, 'z utst_scheme) kop" where
  "ut_forktest =
     thenK (say ''fork test'') (
     bindK (ft_fork 0 1000) (\<lambda>n. seqK
       [fail_if (n = 1000) (''fork claimed to work 1000 times!'' @ NL) [],
        ut_wait n,
        expect Wait (\<lambda>r. r \<noteq> - 1) (''wait got too many'' @ NL) [],
        say ''fork test OK'']))"

definition BIG :: u32 where "BIG = 100 * 1024 * 1024"

text \<open>The first loop of \<^verbatim>\<open>sbrktest\<close>: \<open>k\<close> times one byte, from the \<open>i\<close>-th on.\<close>

fun sbrk_bytes :: "nat \<Rightarrow> nat \<Rightarrow> addr \<Rightarrow> (addr, 'z utst_scheme) kop" where
  "sbrk_bytes 0 i a = retK a"
| "sbrk_bytes (Suc k) i a =
     bindK (sbrk 1) (\<lambda>b.
     thenK (fail_if (b \<noteq> a) (''sbrk test failed %d %x %x'' @ NL) [CInt (int i), CInt (uint a), CInt (uint b)]) (
     thenK (pokeb b 1) (
     sbrk_bytes k (i + 1) (b + 1))))"

text \<open>Grow by bytes, across a fork, to a large size, and back by a page.\<close>

definition sbrk_grow :: "(unit, 'z utst_scheme) kop" where
  "sbrk_grow =
     bindK (sbrk 0) (\<lambda>a.
     bindK (sbrk_bytes 5000 0 a) (\<lambda>a.
     bindK (sysi (Fork 0)) (\<lambda>pd.
     thenK (fail_if (pd < 0) (''sbrk test fork failed'' @ NL) []) (
     bindK (sbrk 1) (\<lambda>_.
     bindK (sbrk 1) (\<lambda>c.
     thenK (fail_if (c \<noteq> a + 1) (''sbrk test failed post-fork'' @ NL) []) (
     thenK (whenK (pd = 0) uexit) (
     thenK (sysu Wait) (
     bindK (sbrk 0) (\<lambda>a.
     bindK (sbrk (sint (BIG - a))) (\<lambda>p.
     thenK (fail_if (p \<noteq> a) (''sbrk test failed to grow big address space; enough phys mem?'' @ NL) []) (
     pokeb (BIG - 1) 99))))))))))))"

definition sbrk_shrink :: "addr \<Rightarrow> (unit, 'z utst_scheme) kop" where
  "sbrk_shrink oldbrk =
     bindK (sbrk 0) (\<lambda>a.
     bindK (sbrk (- 4096)) (\<lambda>c.
     thenK (fail_if (c = 0xffffffff) (''sbrk could not deallocate'' @ NL) []) (
     bindK (sbrk 0) (\<lambda>c.
     thenK (fail_if (c \<noteq> a - 4096) (''sbrk deallocation produced wrong address, a %x c %x'' @ NL) [CInt (uint a), CInt (uint c)]) (
     bindK (sbrk 0) (\<lambda>a.
     bindK (sbrk 4096) (\<lambda>c.
     thenK
       (if c \<noteq> a then fail_if True (''sbrk re-allocation failed, a %x c %x'' @ NL) [CInt (uint a), CInt (uint c)]
        else bindK (sbrk 0) (\<lambda>d. fail_if (d \<noteq> a + 4096) (''sbrk re-allocation failed, a %x c %x'' @ NL) [CInt (uint a), CInt (uint c)])) (
     bindK (peekb (BIG - 1)) (\<lambda>b.
     thenK (fail_if (b = 99) (''sbrk de-allocation didn'' @ [CHR 0x27] @ ''t really deallocate'' @ NL) []) (
     bindK (sbrk 0) (\<lambda>a.
     bindK (sbrk 0) (\<lambda>d.
     bindK (sbrk (- sint (d - oldbrk))) (\<lambda>c.
     fail_if (c \<noteq> a) (''sbrk downsize failed, a %x c %x'' @ NL) [CInt (uint a), CInt (uint c)])))))))))))))"

text \<open>Children that try to read the kernel's memory; the load comes before anything is printed.\<close>

definition sbrk_kernel :: "(unit, 'z utst_scheme) kop" where
  "sbrk_kernel = seqK (map (\<lambda>k.
     let a = KERNBASE + 50000 * of_nat k in
     bindK (sysi Getpid) (\<lambda>ppid.
     bindK (sysi (Fork 0)) (\<lambda>pd. seqK
       [fail_if (pd < 0) (''fork failed'' @ NL) [],
        whenK (pd = 0) (
          bindK (peekb a) (\<lambda>b. seqK
            [printf 1 (''oo'' @ ''ps could read %x = %x'' @ NL) [CInt (uint a), CInt (sint b)],
             sysu (Kill ppid),
             uexit])),
        sysu Wait]))) [0..<40])"

fun sleep_ever :: "nat \<Rightarrow> (unit, 'z utst_scheme) kop" where
  "sleep_ever 0 = (\<lambda>_. NoFuel)"
| "sleep_ever (Suc n) = thenK (sysu (Sleep 1000)) (sleep_ever n)"

text \<open>The processes that take all memory; the result is their list.\<close>

fun sbrk_hogs :: "nat \<Rightarrow> nat \<Rightarrow> int \<Rightarrow> int \<Rightarrow> (int list, 'z utst_scheme) kop" where
  "sbrk_hogs fuel 0 fd0 fd1 = retK []"
| "sbrk_hogs fuel (Suc k) fd0 fd1 =
     bindK (sysi (Fork 0)) (\<lambda>pd.
     thenK (whenK (pd = 0) (
       bindK (sbrk 0) (\<lambda>b.
       bindK (sbrk (sint (BIG - b))) (\<lambda>_.
       thenK (sysu (Write fd1 (B ''x''))) (
       sleep_ever fuel))))) (
     thenK (whenK (pd \<noteq> - 1) (sysu (Read fd0 1))) (
     bindK (sbrk_hogs fuel k fd0 fd1) (\<lambda>pids. retK (pd # pids)))))"

definition sbrktest :: "nat \<Rightarrow> (unit, 'z utst_scheme) kop" where
  "sbrktest fuel =
     thenK (say ''sbrk test'') (
     bindK (sbrk 0) (\<lambda>oldbrk.
     thenK sbrk_grow (
     thenK (sbrk_shrink oldbrk) (
     thenK sbrk_kernel (
     bindK (sys Pipe) (\<lambda>r.
     thenK (fail_if (rval r \<noteq> 0) (''pipe() failed'' @ NL) []) (
     bindK (sbrk_hogs fuel 10 (sint (get32 (rdata r) 0)) (sint (get32 (rdata r) 4))) (\<lambda>pids.
     bindK (sbrk 4096) (\<lambda>c.
     thenK (seqK (map (\<lambda>pd. whenK (pd \<noteq> - 1) (thenK (sysu (Kill pd)) (sysu Wait))) pids)) (
     thenK (fail_if (c = 0xffffffff) (''failed sbrk leaked memory'' @ NL) []) (
     bindK (sbrk 0) (\<lambda>b.
     thenK (whenK (b > oldbrk) (bindK (sbrk 0) (\<lambda>d. bindK (sbrk (- sint (d - oldbrk))) (\<lambda>_. retK ())))) (
     say ''sbrk test OK'')))))))))))))"

definition validateint :: "addr \<Rightarrow> (unit, 'z utst_scheme) kop" where
  "validateint p = sysu (Sleepat p)"

definition validatetest :: "(unit, 'z utst_scheme) kop" where
  "validatetest = seqK
    [say ''validate test'',
     seqK (map (\<lambda>k.
       let p = 4096 * of_nat k in
       bindK (sysi (Fork 0)) (\<lambda>pd. seqK
         [whenK (pd = 0) (thenK (validateint p) uexit),
          sysu (Sleep 0),
          sysu (Sleep 0),
          sysu (Kill pd),
          sysu Wait,
          expect (Linkp (B ''nosuchfile'') p) (\<lambda>r. r \<noteq> - 1) (''link should not succeed'' @ NL) []])) [0..<276]),
     say ''validate ok'']"

definition bsstest :: "(unit, 'z utst_scheme) kop" where
  "bsstest = seqK
    [say ''bss test'',
     seqK (map (\<lambda>i. bindK (getK (\<lambda>s. uninit s ! i)) (\<lambda>b. fail_if (b \<noteq> 0) (''bss test failed'' @ NL) [])) [0..<10000]),
     say ''bss test ok'']"

definition bigarg :: "byte list" where
  "bigarg = B ''bigargs test: failed'' @ [10] @ replicate 199 32"

definition bigargtest :: "(unit, 'z utst_scheme) kop" where
  "bigargtest =
     thenK (sysu (Unlink (B ''bigarg-ok''))) (
     bindK (sysi (Fork 0)) (\<lambda>pd.
     thenK
       (if pd = 0 then seqK
          [say ''bigarg test'',
           uexec (B ''echo'') (replicate (MAXARG - 1) bigarg),
           say ''bigarg test ok'',
           close_open (B ''bigarg-ok'') O_CREATE,
           uexit]
        else fail_if (pd < 0) (''bigargtest: fork failed'' @ NL) []) (
     thenK (sysu Wait) (
     bindK (sysi (Open (B ''bigarg-ok'') 0)) (\<lambda>fd. seqK
       [fail_if (fd < 0) (''bigarg test failed!'' @ NL) [],
        sysu (Close fd),
        sysu (Unlink (B ''bigarg-ok''))])))))"

section \<open>Filling the file system\<close>

definition fsfull_name :: "nat \<Rightarrow> byte list" where
  "fsfull_name n = [0x66, 0x30 + of_nat (n div 1000), 0x30 + of_nat (n mod 1000 div 100), 0x30 + of_nat (n mod 100 div 10), 0x30 + of_nat (n mod 10)]"

fun fsfull_write :: "nat \<Rightarrow> int \<Rightarrow> int \<Rightarrow> (int, 'z utst_scheme) kop" where
  "fsfull_write fuel fd tot =
     bindK (writebuf fd 512) (\<lambda>cc.
     if cc < 512 then retK tot
     else (case fuel of 0 \<Rightarrow> (\<lambda>_. NoFuel) | Suc n \<Rightarrow> fsfull_write n fd (tot + cc)))"

declare fsfull_write.simps [simp del]

fun fsfull_fill :: "nat \<Rightarrow> nat \<Rightarrow> (nat, 'z utst_scheme) kop" where
  "fsfull_fill fuel nfiles =
     (let name = fsfull_name nfiles in
      thenK (printf 1 (''writing %s'' @ NL) [CStr name]) (
      bindK (sysi (Open name (O_CREATE OR O_RDWR))) (\<lambda>fd.
      if fd < 0 then thenK (printf 1 (''open %s failed'' @ NL) [CStr name]) (retK nfiles)
      else
        bindK (fsfull_write fuel fd 0) (\<lambda>tot.
        thenK (printf 1 (''wrote %d bytes'' @ NL) [CInt tot]) (
        thenK (sysu (Close fd)) (
        if tot = 0 then retK nfiles
        else (case fuel of 0 \<Rightarrow> (\<lambda>_. NoFuel) | Suc n \<Rightarrow> fsfull_fill n (nfiles + 1))))))))"

declare fsfull_fill.simps [simp del]

definition fsfull :: "nat \<Rightarrow> (unit, 'z utst_scheme) kop" where
  "fsfull fuel =
     thenK (say ''fsfull test'') (
     bindK (fsfull_fill fuel 0) (\<lambda>nfiles.
     thenK (seqK (map (\<lambda>n. sysu (Unlink (fsfull_name n))) (rev [0..<nfiles + 1]))) (
     say ''fsfull test finished'')))"

definition rand :: "(u32, 'z utst_scheme) kop" where
  "rand = thenK (modK (\<lambda>s. s\<lparr>randstate := randstate s * 1664525 + 1013904223\<rparr>)) (getK randstate)"

section \<open>The program\<close>

definition usertests_main :: "nat \<Rightarrow> nat \<Rightarrow> byte list \<Rightarrow> (unit, 'z utst_scheme) kop" where
  "usertests_main fuel hf junk = seqK
    [say ''usertests starting'',
     expect (Open (B ''usertests.ran'') 0) (\<lambda>r. r \<ge> 0) (''already ran user tests -- rebuild fs.img'' @ NL) [],
     close_open (B ''usertests.ran'') O_CREATE,
     createdelete,
     linkunlink,
     concreate fuel junk,
     fourfiles fuel,
     sharedfd fuel,
     bigargtest,
     bigwrite,
     bigargtest,
     bsstest,
     sbrktest fuel,
     validatetest,
     opentest,
     writetest,
     writetest1 fuel,
     createtest,
     openiputtest,
     exitiputtest,
     iputtest,
     memtest fuel hf,
     pipe1 fuel,
     preempt,
     exitwait,
     rmdot,
     fourteen,
     bigfile fuel,
     subdir,
     linktest,
     unlinkread,
     dirfile,
     iref,
     ut_forktest,
     bigdir,
     exectest,
     uexit]"

section \<open>The files that createdelete leaves behind\<close>

text \<open>
  The clean-up of \<^verbatim>\<open>createdelete\<close> unlinks names whose two characters have the same distance from \<^verbatim>\<open>p\<close> and \<^verbatim>\<open>0\<close>.  Of the files
  the test has created, such as \<^verbatim>\<open>q0\<close>, most remain.
\<close>

lemma seqK_sysu:
  "\<exists>t. seqK (map (\<lambda>x. sysu (c x)) xs) s = Ok () t \<and> map fst (ucalls t) = map fst (ucalls s) @ map c xs"
proof (induction xs arbitrary: s)
  case (Cons x xs)
  let ?t = "s\<lparr>ucalls := ucalls s @ [(c x, kernel s (ucalls s) (c x))]\<rparr>"
  have "seqK (map (\<lambda>x. sysu (c x)) (x # xs)) s = seqK (map (\<lambda>x. sysu (c x)) xs) ?t" by (simp add: sysu_def sys_def kop)
  then show ?case using Cons [of ?t] by auto
qed simp

lemma seqK_append: "seqK (xs @ ys) s = thenK (seqK xs) (seqK ys) s"
proof (induction xs arbitrary: s)
  case (Cons x xs)
  then show ?case by (cases "x s") (simp_all add: kop)
qed (simp add: kop)

lemma seqK_nested: "seqK (map (\<lambda>i. seqK (f i)) xs) s = seqK (concat (map f xs)) s"
proof (induction xs arbitrary: s)
  case (Cons x xs)
  then show ?case by (cases "seqK (f x) s") (simp_all add: seqK_append kop)
qed simp

lemma createdelete_leaves:
  "\<exists>t. createdelete_clean s = Ok () t \<and> (\<exists>cs. map fst (ucalls t) = map fst (ucalls s) @ cs \<and> Unlink (B ''q0'') \<notin> set cs)"
proof -
  define c where "c i = Unlink [0x70 + of_nat i, 0x30 + of_nat i]" for i :: nat
  define xs where "xs = concat (map (\<lambda>i. map (\<lambda>pi. i) [0..<4::nat]) [0..<20::nat])"
  have run: "createdelete_clean s = seqK (map (\<lambda>i. sysu (c i)) xs) s"
    unfolding createdelete_clean_def seqK_nested xs_def c_def by (simp only: map_concat map_map o_def)
  have no: "Unlink (B ''q0'') \<noteq> c i" for i
  proof
    assume "Unlink (B ''q0'') = c i"
    then show False by (auto simp: c_def bytes_of_string_def)
  qed
  obtain t where "seqK (map (\<lambda>i. sysu (c i)) xs) s = Ok () t" "map fst (ucalls t) = map fst (ucalls s) @ map c xs" using seqK_sysu [of c xs s] by blast
  moreover have "Unlink (B ''q0'') \<notin> set (map c xs)" using no by auto
  ultimately show ?thesis using run by auto
qed

end
