(* ===== verification/Boot.thy ===== *)
theory Boot
  imports Exec
begin

unbundle bit_operations_syntax

text \<open>
  The boot loader \<^verbatim>\<open>bootmain.c\<close>.  The machine is physical memory and an ATA disk: its command registers as the
  bytes last written to their ports, the drive and sector that the last read command chose, the content of
  the drives, and the status that each reading of port \<^verbatim>\<open>0x1F7\<close> finds.  \<^verbatim>\<open>bootmain\<close> ends by a jump to the
  entry point of the kernel, here its result, or returns to \<^verbatim>\<open>bootasm.S\<close>.
\<close>

section \<open>The machine\<close>

record kboot =
  bmem :: memory
  bregs :: "u16 \<Rightarrow> byte"
  bsel :: "bool \<times> u32"
  bdrive :: "bool \<Rightarrow> u32 \<Rightarrow> byte list"
  bstat :: "nat \<Rightarrow> byte"
  bpolls :: nat

definition SECTSIZE :: nat where "SECTSIZE = 512"

text \<open>The sector that the registers name, and whether they choose the second drive.\<close>

definition reg_sector :: "(u16 \<Rightarrow> byte) \<Rightarrow> bool \<times> u32" where
  "reg_sector r = (bit (r 0x1F6) 4, word_of_bytes (r 0x1F3) (r 0x1F4) (r 0x1F5) (r 0x1F6 AND 0x0F))"

definition boot_outb :: "u16 \<Rightarrow> byte \<Rightarrow> (unit, 'z kboot_scheme) kop" where
  "boot_outb port d = modK (\<lambda>s.
     let r = (bregs s)(port := d) in
     s\<lparr>bregs := r, bsel := (if port = 0x1F7 \<and> d = 0x20 then reg_sector r else bsel s)\<rparr>)"

definition boot_inb :: "(byte, 'z kboot_scheme) kop" where
  "boot_inb = bindK (getK (\<lambda>s. bstat s (bpolls s))) (\<lambda>b. thenK (modK (\<lambda>s. s\<lparr>bpolls := Suc (bpolls s)\<rparr>)) (retK b))"

fun put_bytes :: "memory \<Rightarrow> addr \<Rightarrow> byte list \<Rightarrow> memory" where
  "put_bytes m a [] = m"
| "put_bytes m a (b # bs) = put_bytes (m(a := b)) (a + 1) bs"

definition boot_insl :: "addr \<Rightarrow> nat \<Rightarrow> (unit, 'z kboot_scheme) kop" where
  "boot_insl a n = modK (\<lambda>s. s\<lparr>bmem := put_bytes (bmem s) a (take (4 * n) (bdrive s (fst (bsel s)) (snd (bsel s))))\<rparr>)"

section \<open>The code\<close>

fun waitdisk :: "nat \<Rightarrow> (unit, 'z kboot_scheme) kop" where
  "waitdisk fuel =
     bindK boot_inb (\<lambda>b.
     if b AND 0xC0 \<noteq> 0x40 then (case fuel of 0 \<Rightarrow> (\<lambda>_. NoFuel) | Suc n \<Rightarrow> waitdisk n)
     else retK ())"

declare waitdisk.simps [simp del]

definition readsect :: "nat \<Rightarrow> addr \<Rightarrow> u32 \<Rightarrow> (unit, 'z kboot_scheme) kop" where
  "readsect fuel dst off =
     thenK (waitdisk fuel) (
     thenK (seqK [
       boot_outb 0x1F2 1,
       boot_outb 0x1F3 (ucast off),
       boot_outb 0x1F4 (ucast (drop_bit 8 off)),
       boot_outb 0x1F5 (ucast (drop_bit 16 off)),
       boot_outb 0x1F6 (ucast (drop_bit 24 off OR 0xE0)),
       boot_outb 0x1F7 0x20]) (
     thenK (waitdisk fuel) (
     boot_insl dst (SECTSIZE div 4))))"

fun readseg_loop :: "nat \<Rightarrow> nat \<Rightarrow> addr \<Rightarrow> addr \<Rightarrow> u32 \<Rightarrow> (unit, 'z kboot_scheme) kop" where
  "readseg_loop fuel n pa epa off =
     (if pa < epa then
        thenK (readsect fuel pa off) (
        case n of 0 \<Rightarrow> (\<lambda>_. NoFuel) | Suc n' \<Rightarrow> readseg_loop fuel n' (pa + of_nat SECTSIZE) epa (off + 1))
      else retK ())"

declare readseg_loop.simps [simp del]

text \<open>A round advances by a sector, so the address space bounds the rounds.\<close>

definition readseg :: "nat \<Rightarrow> addr \<Rightarrow> u32 \<Rightarrow> u32 \<Rightarrow> (unit, 'z kboot_scheme) kop" where
  "readseg fuel pa count off =
     readseg_loop fuel (2 ^ 32 div SECTSIZE) (pa - off mod of_nat SECTSIZE) (pa + count) (off div of_nat SECTSIZE + 1)"

text \<open>One segment; the program header's flags are ignored.\<close>

definition boot_seg :: "nat \<Rightarrow> proghdr \<Rightarrow> (unit, 'z kboot_scheme) kop" where
  "boot_seg fuel ph =
     thenK (readseg fuel (ph_paddr ph) (ph_filesz ph) (ph_off ph)) (
     whenK (ph_memsz ph > ph_filesz ph) (modK (\<lambda>s.
       s\<lparr>bmem := stosb (bmem s) (ph_paddr ph + ph_filesz ph) 0 (unat (ph_memsz ph - ph_filesz ph))\<rparr>)))"

fun boot_segs :: "nat \<Rightarrow> addr \<Rightarrow> nat \<Rightarrow> (unit, 'z kboot_scheme) kop" where
  "boot_segs fuel p 0 = retK ()"
| "boot_segs fuel p (Suc n) =
     bindK (getK (\<lambda>s. proghdr_at (bmem s) p)) (\<lambda>ph.
     thenK (boot_seg fuel ph) (
     boot_segs fuel (p + of_nat sizeof_proghdr) n))"

definition bootmain :: "nat \<Rightarrow> (addr option, 'z kboot_scheme) kop" where
  "bootmain fuel =
     thenK (readseg fuel 0x10000 4096 0) (
     bindK (getK (\<lambda>s. elfhdr_at (bmem s) 0x10000)) (\<lambda>elf.
     if e_magic elf \<noteq> ELF_MAGIC then retK None
     else
       thenK (boot_segs fuel (0x10000 + e_phoff elf) (e_phnum elf)) (
       getK (\<lambda>s. Some (e_entry (elfhdr_at (bmem s) 0x10000))))))"

section \<open>Reading a sector\<close>

definition disk_ready :: "nat \<Rightarrow> 'z kboot_scheme \<Rightarrow> bool" where
  "disk_ready fuel s \<longleftrightarrow> (\<forall>k. \<exists>j \<le> fuel. bstat s (k + j) AND 0xC0 = 0x40) \<and> (\<forall>d i. length (bdrive s d i) = SECTSIZE)"

text \<open>What the loader leaves alone.\<close>

definition same_disk :: "'z kboot_scheme \<Rightarrow> 'z kboot_scheme \<Rightarrow> bool" where
  "same_disk s t \<longleftrightarrow> bdrive t = bdrive s \<and> bstat t = bstat s"

lemma same_disk_ready: "same_disk s t \<Longrightarrow> disk_ready fuel t = disk_ready fuel s"
  by (simp add: same_disk_def disk_ready_def)

lemma same_disk_trans: "same_disk s t \<Longrightarrow> same_disk t u \<Longrightarrow> same_disk s u"
  by (simp add: same_disk_def)

lemma waitdisk_Ok:
  assumes "\<exists>j \<le> fuel. bstat s (bpolls s + j) AND 0xC0 = 0x40"
  shows "\<exists>k. waitdisk fuel s = Ok () (s\<lparr>bpolls := k\<rparr>)"
  using assms
proof (induction fuel arbitrary: s)
  case 0
  then show ?case by (auto simp: waitdisk.simps [of 0] boot_inb_def kop)
next
  case (Suc n)
  show ?case
  proof (cases "bstat s (bpolls s) AND 0xC0 = 0x40")
    case True
    then show ?thesis by (auto simp: waitdisk.simps [of "Suc n"] boot_inb_def kop)
  next
    case False
    then obtain j where j: "j \<le> Suc n" "bstat s (bpolls s + j) AND 0xC0 = 0x40" "j \<noteq> 0" using Suc.prems by (metis add_0_right)
    then obtain i where "j = Suc i" using not0_implies_Suc by blast
    then obtain k where "waitdisk n (s\<lparr>bpolls := Suc (bpolls s)\<rparr>) = Ok () (s\<lparr>bpolls := k\<rparr>)"
      using Suc.IH [of "s\<lparr>bpolls := Suc (bpolls s)\<rparr>"] j by auto
    then show ?thesis using False by (auto simp: waitdisk.simps [of "Suc n"] boot_inb_def kop)
  qed
qed

lemma reg_sector_of:
  assumes "off < 0x10000000"
    "r 0x1F3 = ucast off" "r 0x1F4 = ucast (drop_bit 8 off)" "r 0x1F5 = ucast (drop_bit 16 off)"
    "r 0x1F6 = ucast (drop_bit 24 off OR 0xE0)"
  shows "reg_sector r = (False, off)"
proof -
  have tb: "take_bit 28 off = off" 
    using assms(1) by (simp add: word_unat_eq_iff unsigned_take_bit_eq word_less_nat_alt take_bit_nat_eq_self)
  have hi: "\<not> bit off n" if "28 \<le> n" for n
    using that bit_take_bit_iff [of 28 off n] by (simp add: tb)
  have m: "(0x0F :: byte) = mask 4" by (simp add: mask_eq_decr_exp)
  have e: "\<not> bit (0xE0 :: u32) k" "\<not> bit (0xE0 :: int) k" if "k < 5" for k
  proof -
    from that have "k = 0 \<or> k = 1 \<or> k = 2 \<or> k = 3 \<or> k = 4" by arith
    then show "\<not> bit (0xE0 :: u32) k" "\<not> bit (0xE0 :: int) k" by (elim disjE; simp)+
  qed
  have e4: "\<not> bit (0xE0 :: u32) (n - 24)" "\<not> bit (0xE0 :: int) (n - 24)" if "n < 28" for n using e [of "n - 24"] that by auto
  have "word_of_bytes (r 0x1F3) (r 0x1F4) (r 0x1F5) (r 0x1F6 AND 0x0F) = off"
  proof (rule bit_eqI)
    fix n
    show "bit (word_of_bytes (r 0x1F3) (r 0x1F4) (r 0x1F5) (r 0x1F6 AND 0x0F)) n = bit off n"
      by (cases "n < 8"; cases "n < 16"; cases "n < 24"; cases "n < 28")
        (auto simp: bit_word_of_bytes assms(2-5) bit_simps m e4 hi)
  qed
  moreover have "\<not> bit (r 0x1F6) 4" using hi [of 28] e [of 4] by (simp add: assms(5) bit_simps)
  ultimately show ?thesis by (simp add: reg_sector_def)
qed

lemma readsect_Ok:
  assumes "disk_ready fuel s" "off < 0x10000000"
  shows "\<exists>t. readsect fuel dst off s = Ok () t \<and> bmem t = put_bytes (bmem s) dst (bdrive s False off) \<and> same_disk s t"
proof -
  obtain k where k: "waitdisk fuel s = Ok () (s\<lparr>bpolls := k\<rparr>)"
    using waitdisk_Ok [of fuel s] assms(1) by (auto simp: disk_ready_def)
  define r where "r = (bregs s)(0x1F2 := 1, 0x1F3 := ucast off, 0x1F4 := ucast (drop_bit 8 off), 0x1F5 := ucast (drop_bit 16 off),
     0x1F6 := ucast (drop_bit 24 off OR 0xE0), 0x1F7 := 0x20)"
  have r: "reg_sector r = (False, off)" by (rule reg_sector_of [OF assms(2)]) (simp_all add: r_def)
  define u where "u = s\<lparr>bpolls := k, bregs := r, bsel := (False, off)\<rparr>"
  obtain j where j: "waitdisk fuel u = Ok () (u\<lparr>bpolls := j\<rparr>)"
    using waitdisk_Ok [of fuel u] assms(1) by (auto simp: disk_ready_def u_def)
  have "seqK [boot_outb 0x1F2 1, boot_outb 0x1F3 (ucast off), boot_outb 0x1F4 (ucast (drop_bit 8 off)),
     boot_outb 0x1F5 (ucast (drop_bit 16 off)), boot_outb 0x1F6 (ucast (drop_bit 24 off OR 0xE0)), boot_outb 0x1F7 0x20]
     (s\<lparr>bpolls := k\<rparr>) = Ok () u"
    using r by (simp add: boot_outb_def kop Let_def u_def r_def)
  then have "readsect fuel dst off s = boot_insl dst (SECTSIZE div 4) (u\<lparr>bpolls := j\<rparr>)"
    using k j by (simp add: readsect_def kop)
  then show ?thesis
    using assms(1) by (simp add: boot_insl_def kop u_def same_disk_def disk_ready_def SECTSIZE_def)
qed

section \<open>Reading a segment\<close>

lemma put_bytes_apply:
  "length bs \<le> 2 ^ 32 \<Longrightarrow> put_bytes m a bs x = (if unat (x - a) < length bs then bs ! unat (x - a) else m x)"
proof (induction bs arbitrary: m a)
  case (Cons b bs)
  show ?case
  proof (cases "x = a")
    case True
    have "unat (- 1 :: addr) = 2 ^ 32 - 1" by (simp add: unsigned_minus_1_eq_mask mask_eq_exp_minus_1)
    with Cons True show ?thesis by auto
  next
    case False
    then have "unat (x - a) \<noteq> 0" by (simp add: unat_eq_0)
    with False Cons show ?thesis by (auto simp: unat_diff_Suc nth_Cons')
  qed
qed simp

text \<open>The kernel image begins at sector 1.\<close>

definition image :: "'z kboot_scheme \<Rightarrow> nat \<Rightarrow> byte" where
  "image s k = bdrive s False (of_nat (k div SECTSIZE + 1)) ! (k mod SECTSIZE)"

lemma same_disk_image: "same_disk s t \<Longrightarrow> image t = image s"
  by (simp add: same_disk_def image_def fun_eq_iff)

text \<open>\<open>k\<close> sectors from sector \<open>i + 1\<close> on are in memory at \<open>pa\<close>.\<close>

lemma readseg_loop_Ok:
  assumes "disk_ready fuel s" "k \<le> n" "unat pa + 512 * k < 4294967296" "i + k < 0xFFFFFFF"
    "\<And>j. j \<le> k \<Longrightarrow> (pa + of_nat (512 * j) < epa) = (j < k)"
  shows "\<exists>t. readseg_loop fuel n pa epa (of_nat (i + 1)) s = Ok () t \<and> same_disk s t \<and>
    (\<forall>x. bmem t x = (if unat (x - pa) < 512 * k then image s (512 * i + unat (x - pa)) else bmem s x))"
  using assms
proof (induction k arbitrary: s n pa i)
  case 0
  then show ?case using 0(5) [of 0] by (simp add: readseg_loop.simps [of fuel n] kop same_disk_def)
next
  case (Suc k)
  obtain n' where n': "n = Suc n'" using Suc.prems(2) by (cases n) auto
  have lt: "pa < epa" using Suc.prems(5) [of 0] by simp
  have "(of_nat (i + 1) :: u32) < 0x10000000"
    using Suc.prems(4) by (simp add: word_less_nat_alt unat_of_nat take_bit_eq_mod del: of_nat_Suc of_nat_add)
  then obtain u where u: "readsect fuel pa (of_nat (i + 1)) s = Ok () u" "same_disk s u"
      "bmem u = put_bytes (bmem s) pa (bdrive s False (of_nat (i + 1)))"
    using readsect_Ok [OF Suc.prems(1)] by blast
  have len: "length (bdrive s False (of_nat (i + 1))) = 512" using Suc.prems(1) by (simp add: disk_ready_def SECTSIZE_def)
  have pa: "unat (pa + 512) = unat pa + 512" using Suc.prems(3) by (subst unat_add_lem [THEN iffD1]) auto
  have "\<exists>t. readseg_loop fuel n' (pa + 512) epa (of_nat (Suc i + 1)) u = Ok () t \<and> same_disk u t \<and>
    (\<forall>x. bmem t x = (if unat (x - (pa + 512)) < 512 * k then image u (512 * Suc i + unat (x - (pa + 512))) else bmem u x))"
  proof (rule Suc.IH)
    fix j assume "j \<le> k"
    then show "(pa + 512 + of_nat (512 * j) < epa) = (j < k)" using Suc.prems(5) [of "Suc j"] by (simp add: algebra_simps)
  qed (use Suc.prems n' pa u same_disk_ready in auto)
  then obtain t where t: "readseg_loop fuel n' (pa + 512) epa (of_nat (Suc i + 1)) u = Ok () t" "same_disk u t"
      "\<And>x. bmem t x = (if unat (x - (pa + 512)) < 512 * k then image u (512 * Suc i + unat (x - (pa + 512))) else bmem u x)" by blast
  have "bmem t x = (if unat (x - pa) < 512 * Suc k then image s (512 * i + unat (x - pa)) else bmem s x)" for x
  proof -
    define d where "d = unat (x - pa)"
    have dl: "d < 4294967296" unfolding d_def using unsigned_less [of "x - pa"] by simp
    have x: "x - (pa + 512) = of_nat d - 512" by (simp add: d_def)
    have d1: "unat (x - (pa + 512)) = (if d < 512 then d + 4294967296 - 512 else d - 512)"
      using dl by (simp add: x unat_sub_if' unat_of_nat take_bit_eq_mod word_le_nat_alt)
    have b: "bmem u x = (if d < 512 then image s (512 * i + d) else bmem s x)"
      using len by (simp add: u(3) put_bytes_apply d_def [symmetric] image_def SECTSIZE_def div_add1_eq mod_add_eq)
    show ?thesis using t(3) [of x] b d1 dl Suc.prems(3) same_disk_image [OF u(2)] unfolding d_def [symmetric]
      by (auto simp: algebra_simps)
  qed
  moreover have "readseg_loop fuel n pa epa (of_nat (i + 1)) s = Ok () t"
    using u(1) t(1) lt by (simp add: readseg_loop.simps [of fuel "Suc n'"] n' kop SECTSIZE_def add.commute)
  ultimately show ?case using same_disk_trans [OF u(2) t(2)] by blast
qed

definition nsect :: "u32 \<Rightarrow> u32 \<Rightarrow> nat" where
  "nsect count off = (unat count + unat off mod 512 + 511) div 512"

definition seg_start :: "addr \<Rightarrow> u32 \<Rightarrow> addr" where
  "seg_start pa off = pa - off mod 512"

lemma unat_mod512: "unat (off mod 512 :: u32) = unat off mod 512" "unat (off div 512 :: u32) = unat off div 512"
  by (simp_all add: unat_mod unat_div)

lemma seg_start_diff:
  assumes "i + unat off mod 512 < 4294967296"
  shows "unat (pa + of_nat i - seg_start pa off) = i + unat off mod 512"
proof -
  have "pa + of_nat i - seg_start pa off = of_nat (i + unat off mod 512)"
    by (simp add: seg_start_def flip: unat_mod512(1))
  then show ?thesis using assms by (simp add: unat_of_nat take_bit_eq_mod del: of_nat_add)
qed

lemma nsect_bounds:
  "512 * nsect count off \<le> unat count + unat off mod 512 + 511"
  "unat count + unat off mod 512 \<le> 512 * nsect count off"
proof -
  define n where "n = unat count + unat off mod 512 + 511"
  have "512 * (n div 512) + n mod 512 = n" "n mod 512 < 512" by simp_all
  then show "512 * nsect count off \<le> unat count + unat off mod 512 + 511"
      "unat count + unat off mod 512 \<le> 512 * nsect count off"
    unfolding nsect_def n_def [symmetric] by (simp_all add: n_def)
qed

lemma readseg_Ok:
  assumes "disk_ready fuel s" "unat off mod 512 \<le> unat pa" "unat pa + unat count + 512 < 4294967296"
  shows "\<exists>t. readseg fuel pa count off s = Ok () t \<and> same_disk s t \<and>
    (\<forall>x. bmem t x = (if unat (x - seg_start pa off) < 512 * nsect count off
       then image s (512 * (unat off div 512) + unat (x - seg_start pa off)) else bmem s x))"
proof -
  define k where "k = nsect count off"
  have k: "512 * k \<le> unat count + unat off mod 512 + 511" "unat count + unat off mod 512 \<le> 512 * k"
    unfolding k_def by (rule nsect_bounds)+
  have lo: "unat (seg_start pa off) = unat pa - unat off mod 512"
    using assms(2) by (simp add: seg_start_def unat_sub_if' word_le_nat_alt unat_mod512)
  have hi: "unat (pa + count) = unat pa + unat count" using assms(3) by (subst unat_add_lem [THEN iffD1]) auto
  have room: "unat (seg_start pa off) + 512 * k < 4294967296" using lo k assms(2,3) by linarith
  have i: "(of_nat (unat off div 512 + 1) :: u32) = off div 512 + 1" by (simp flip: unat_mod512(2))
  have "unat off < 4294967296" using unsigned_less [of off] by simp
  then have lim: "unat off div 512 + k < 0xFFFFFFF" using room by simp
  have "(seg_start pa off + of_nat (512 * j) < pa + count) = (j < k)" if "j \<le> k" for j
  proof -
    have "unat (of_nat (512 * j) :: addr) = 512 * j"
      using that room by (simp add: unat_of_nat take_bit_eq_mod del: of_nat_mult)
    then have "unat (seg_start pa off + of_nat (512 * j)) = unat (seg_start pa off) + 512 * j"
      using that room by (subst unat_add_lem [THEN iffD1]) auto
    then show ?thesis using lo hi k assms(2) unfolding word_less_nat_alt by linarith
  qed
  from readseg_loop_Ok [OF assms(1) _ room lim this, of "2 ^ 32 div SECTSIZE"] show ?thesis
    using room unfolding readseg_def k_def [symmetric] i by (simp add: SECTSIZE_def seg_start_def)
qed

lemma readseg_loads:
  assumes "disk_ready fuel s" "unat off mod 512 \<le> unat pa" "unat pa + unat count + 512 < 4294967296"
  shows "\<exists>t. readseg fuel pa count off s = Ok () t \<and> same_disk s t \<and>
    (\<forall>i < unat count. bmem t (pa + of_nat i) = image s (unat off + i)) \<and>
    (\<forall>x. 512 * nsect count off \<le> unat (x - seg_start pa off) \<longrightarrow> bmem t x = bmem s x)"
proof -
  obtain t where t: "readseg fuel pa count off s = Ok () t" "same_disk s t"
      "\<And>x. bmem t x = (if unat (x - seg_start pa off) < 512 * nsect count off
       then image s (512 * (unat off div 512) + unat (x - seg_start pa off)) else bmem s x)"
    using readseg_Ok [OF assms] by blast
  have "bmem t (pa + of_nat i) = image s (unat off + i)" if "i < unat count" for i
  proof -
    have "unat (pa + of_nat i - seg_start pa off) = i + unat off mod 512"
      using that assms(3) by (intro seg_start_diff) (use mod_less_divisor [of 512 "unat off"] in simp)
    moreover have "512 * (unat off div 512) + (i + unat off mod 512) = unat off + i"
      using mult_div_mod_eq [of 512 "unat off"] by linarith
    ultimately show ?thesis using t(3) [of "pa + of_nat i"] that nsect_bounds(2) [of count off] by simp
  qed
  moreover have "bmem t x = bmem s x" if "512 * nsect count off \<le> unat (x - seg_start pa off)" for x
    using t(3) [of x] that by simp
  ultimately show ?thesis using t(1,2) by blast
qed

section \<open>Loading the kernel\<close>

text \<open>A segment that does not wrap around the address space, and the addresses that loading it writes.\<close>

definition seg_ok :: "proghdr \<Rightarrow> bool" where
  "seg_ok ph \<longleftrightarrow> unat (ph_off ph) mod 512 \<le> unat (ph_paddr ph) \<and>
     unat (ph_paddr ph) + max (unat (ph_filesz ph)) (unat (ph_memsz ph)) + 512 < 4294967296"

definition seg_area :: "proghdr \<Rightarrow> addr set" where
  "seg_area ph = {x. unat (x - seg_start (ph_paddr ph) (ph_off ph)) < 512 * nsect (ph_filesz ph) (ph_off ph)} \<union>
     {x. unat (x - ph_paddr ph) < unat (ph_memsz ph)}"

definition seg_mem :: "proghdr \<Rightarrow> addr set" where
  "seg_mem ph = {x. unat (x - ph_paddr ph) < max (unat (ph_filesz ph)) (unat (ph_memsz ph))}"

text \<open>The segment is in memory: the bytes of the image, and zeros up to its size in memory.\<close>

definition loaded :: "(nat \<Rightarrow> byte) \<Rightarrow> memory \<Rightarrow> proghdr \<Rightarrow> bool" where
  "loaded im m ph \<longleftrightarrow>
     (\<forall>i < unat (ph_filesz ph). m (ph_paddr ph + of_nat i) = im (unat (ph_off ph) + i)) \<and>
     (\<forall>i. unat (ph_filesz ph) \<le> i \<and> i < unat (ph_memsz ph) \<longrightarrow> m (ph_paddr ph + of_nat i) = 0)"

lemma diff_of_nat:
  fixes a :: addr
  shows "i < 4294967296 \<Longrightarrow> unat (a + of_nat i - a) = i"
  by (simp add: unat_of_nat take_bit_eq_mod)

lemma window:
  fixes a f g d :: nat
  assumes "d = (if f \<le> a then a - f else a + 4294967296 - f)" "g < 4294967296"
  shows "(d < g - f) = (f \<le> a \<and> a < g)"
  using assms by (cases "f \<le> a") auto

lemma stosb_tail:
  fixes pa fs ms :: u32
  assumes "fs < ms"
  shows "stosb m (pa + fs) 0 (unat (ms - fs)) x = (if unat fs \<le> unat (x - pa) \<and> unat (x - pa) < unat ms then 0 else m x)"
proof -
  have d: "unat (ms - fs) = unat ms - unat fs" using assms unat_sub_if' [of ms fs] by (simp add: word_less_nat_alt)
  have l: "unat (x - pa) < 4294967296" "unat ms < 4294967296" "unat fs < 4294967296"
    using unsigned_less [of "x - pa"] unsigned_less [of ms] unsigned_less [of fs] by simp_all
  have e: "x - (pa + fs) = (x - pa) - fs" by simp
  have "unat (x - (pa + fs)) = (if unat fs \<le> unat (x - pa) then unat (x - pa) - unat fs else unat (x - pa) + 4294967296 - unat fs)"
    using unat_sub_if' [of "x - pa" fs] unfolding e by simp
  then have "(unat (x - (pa + fs)) < unat ms - unat fs) = (unat fs \<le> unat (x - pa) \<and> unat (x - pa) < unat ms)"
    by (rule window) (use l in simp_all)
  moreover have "stosb m (pa + fs) 0 (unat (ms - fs)) x = (if unat (x - (pa + fs)) < unat (ms - fs) then 0 else m x)"
    by (rule stosb_apply) (use d l in simp)
  ultimately show ?thesis by (simp only: d)
qed

lemma boot_seg_loads:
  assumes "disk_ready fuel s" "seg_ok ph"
  shows "\<exists>t. boot_seg fuel ph s = Ok () t \<and> same_disk s t \<and> loaded (image s) (bmem t) ph \<and> (\<forall>x. x \<notin> seg_area ph \<longrightarrow> bmem t x = bmem s x)"
proof -
  let ?fs = "ph_filesz ph" and ?ms = "ph_memsz ph" and ?pa = "ph_paddr ph"
  have lim: "unat ?fs < 4294967296" "unat ?ms < 4294967296" using unsigned_less [of ?fs] unsigned_less [of ?ms] by simp_all
  have ok: "unat (ph_off ph) mod 512 \<le> unat ?pa" "unat ?pa + unat ?fs + 512 < 4294967296" using assms(2) unfolding seg_ok_def by linarith+
  obtain u where u: "readseg fuel ?pa ?fs (ph_off ph) s = Ok () u" "same_disk s u"
      "\<forall>i < unat ?fs. bmem u (?pa + of_nat i) = image s (unat (ph_off ph) + i)"
      "\<forall>x. 512 * nsect ?fs (ph_off ph) \<le> unat (x - seg_start ?pa (ph_off ph)) \<longrightarrow> bmem u x = bmem s x"
    using readseg_loads [OF assms(1) ok] by blast
  show ?thesis
  proof (cases "?fs < ?ms")
    case False
    then show ?thesis using u by (auto simp: boot_seg_def kop loaded_def seg_area_def word_less_nat_alt not_less)
  next
    case True
    define t where "t = u\<lparr>bmem := stosb (bmem u) (?pa + ?fs) 0 (unat (?ms - ?fs))\<rparr>"
    have m: "bmem t x = (if unat ?fs \<le> unat (x - ?pa) \<and> unat (x - ?pa) < unat ?ms then 0 else bmem u x)" for x
      using stosb_tail [OF True] by (simp add: t_def)
    have "boot_seg fuel ph s = Ok () t" "same_disk s t" using u True by (simp_all add: boot_seg_def kop t_def same_disk_def)
    moreover have "loaded (image s) (bmem t) ph"
      unfolding loaded_def
    proof (intro conjI allI impI)
      fix i
      show "bmem t (?pa + of_nat i) = image s (unat (ph_off ph) + i)" if "i < unat ?fs"
        using m [of "?pa + of_nat i"] u(3) diff_of_nat [of i ?pa] that lim by simp
      show "bmem t (?pa + of_nat i) = 0" if "unat ?fs \<le> i \<and> i < unat ?ms"
        using m [of "?pa + of_nat i"] diff_of_nat [of i ?pa] that lim by simp
    qed
    moreover have "bmem t x = bmem s x" if "x \<notin> seg_area ph" for x
      using u(4) that by (simp add: m seg_area_def)
    ultimately show ?thesis by blast
  qed
qed

lemma loaded_frame:
  assumes "loaded im m ph" "seg_ok ph" "\<And>x. x \<in> seg_mem ph \<Longrightarrow> m' x = m x"
  shows "loaded im m' ph"
proof -
  have "m' (ph_paddr ph + of_nat i) = m (ph_paddr ph + of_nat i)" if "i < max (unat (ph_filesz ph)) (unat (ph_memsz ph))" for i
  proof (rule assms(3))
    have "i < 4294967296" using that assms(2) unfolding seg_ok_def by linarith
    then show "ph_paddr ph + of_nat i \<in> seg_mem ph" using that by (simp only: seg_mem_def diff_of_nat mem_Collect_eq)
  qed
  then show ?thesis using assms(1) by (simp add: loaded_def)
qed

lemma proghdr_at_cong: "(\<And>x. unat (x - a) < 32 \<Longrightarrow> m x = m' x) \<Longrightarrow> proghdr_at m a = proghdr_at m' a"
  by (simp add: proghdr_at_def ld32_def)

lemma elfhdr_at_cong: "(\<And>x. unat (x - a) < 52 \<Longrightarrow> m x = m' x) \<Longrightarrow> elfhdr_at m a = elfhdr_at m' a"
  by (simp add: elfhdr_at_def ld32_def ld16_def)

text \<open>
  The segments \<open>phs\<close> may be loaded in this order: none is written over by a later one, and none is written over the
  program headers at \<open>p\<close>.
\<close>

fun loadable :: "addr set \<Rightarrow> proghdr list \<Rightarrow> bool" where
  "loadable hs [] = True"
| "loadable hs (ph # phs) =
     (seg_ok ph \<and> seg_area ph \<inter> hs = {} \<and> (\<forall>q \<in> set phs. seg_area q \<inter> seg_mem ph = {}) \<and> loadable hs phs)"

lemma boot_segs_Ok:
  assumes "disk_ready fuel s" "loadable hs phs" "\<And>i. i < length phs \<Longrightarrow> proghdr_at (bmem s) (p + of_nat (32 * i)) = phs ! i"
    "\<And>i x. i < length phs \<Longrightarrow> unat (x - (p + of_nat (32 * i))) < 32 \<Longrightarrow> x \<in> hs"
  shows "\<exists>t. boot_segs fuel p (length phs) s = Ok () t \<and> (\<forall>ph \<in> set phs. loaded (image s) (bmem t) ph) \<and>
    (\<forall>x. (\<forall>ph \<in> set phs. x \<notin> seg_area ph) \<longrightarrow> bmem t x = bmem s x)"
  using assms
proof (induction phs arbitrary: s p)
  case Nil
  then show ?case by (simp add: kop)
next
  case (Cons ph phs)
  have ph: "proghdr_at (bmem s) p = ph" using Cons.prems(3) [of 0] by simp
  obtain u where u: "boot_seg fuel ph s = Ok () u" "same_disk s u" "loaded (image s) (bmem u) ph" "\<And>x. x \<notin> seg_area ph \<Longrightarrow> bmem u x = bmem s x"
    using boot_seg_loads [OF Cons.prems(1), of ph] Cons.prems(2) by auto
  have hs: "bmem u x = bmem s x" if "x \<in> hs" for x using that u(4) Cons.prems(2) by auto
  have "\<exists>t. boot_segs fuel (p + 32) (length phs) u = Ok () t \<and> (\<forall>ph \<in> set phs. loaded (image u) (bmem t) ph) \<and>
    (\<forall>x. (\<forall>ph \<in> set phs. x \<notin> seg_area ph) \<longrightarrow> bmem t x = bmem u x)"
  proof (rule Cons.IH)
    show "disk_ready fuel u" "loadable hs phs" using Cons.prems(1,2) u(2) same_disk_ready by auto
    fix i x assume i: "i < length phs"
    have e: "p + 32 + of_nat (32 * i) = p + of_nat (32 * Suc i)" by simp
    show "x \<in> hs" if "unat (x - (p + 32 + of_nat (32 * i))) < 32"
      using Cons.prems(4) [of "Suc i" x] i that unfolding e by simp
    have "proghdr_at (bmem u) (p + of_nat (32 * Suc i)) = proghdr_at (bmem s) (p + of_nat (32 * Suc i))"
      by (rule proghdr_at_cong, rule hs, rule Cons.prems(4) [of "Suc i"]) (use i in simp_all)
    then show "proghdr_at (bmem u) (p + 32 + of_nat (32 * i)) = phs ! i" using Cons.prems(3) [of "Suc i"] i unfolding e by simp
  qed
  then obtain t where t: "boot_segs fuel (p + 32) (length phs) u = Ok () t" "\<forall>ph \<in> set phs. loaded (image u) (bmem t) ph"
    "\<And>x. (\<forall>ph \<in> set phs. x \<notin> seg_area ph) \<Longrightarrow> bmem t x = bmem u x" by blast
  have "boot_segs fuel p (length (ph # phs)) s = Ok () t"
    using u(1) t(1) by (simp add: kop ph sizeof_proghdr_def)
  moreover have "loaded (image s) (bmem t) ph"
    by (rule loaded_frame [OF u(3)]) (use Cons.prems(2) t(3) in auto)
  ultimately show ?case using t u(4) same_disk_image [OF u(2)] by auto
qed

text \<open>The headers as the first page of the image has them.\<close>

definition hdr_mem :: "'z kboot_scheme \<Rightarrow> memory" where
  "hdr_mem s = (\<lambda>x. image s (unat (x - 0x10000)))"

definition boot_elf :: "'z kboot_scheme \<Rightarrow> elfhdr" where
  "boot_elf s = elfhdr_at (hdr_mem s) 0x10000"

definition boot_phs :: "'z kboot_scheme \<Rightarrow> proghdr list" where
  "boot_phs s = map (\<lambda>i. proghdr_at (hdr_mem s) (0x10000 + e_phoff (boot_elf s) + of_nat (32 * i))) [0..<e_phnum (boot_elf s)]"

definition hdr_page :: "addr set" where
  "hdr_page = {x. unat (x - 0x10000) < 4096}"

definition kernel_ok :: "'z kboot_scheme \<Rightarrow> bool" where
  "kernel_ok s \<longleftrightarrow> unat (e_phoff (boot_elf s)) + 32 * e_phnum (boot_elf s) \<le> 4096 \<and> loadable hdr_page (boot_phs s)"

lemma first_page:
  assumes "disk_ready fuel s"
  shows "\<exists>u. readseg fuel 0x10000 4096 0 s = Ok () u \<and> same_disk s u \<and> (\<forall>x \<in> hdr_page. bmem u x = hdr_mem s x)"
proof -
  obtain u where "readseg fuel 0x10000 4096 0 s = Ok () u" "same_disk s u"
      "\<And>x. bmem u x = (if unat (x - seg_start 0x10000 0) < 512 * nsect 4096 0
       then image s (512 * (unat (0 :: u32) div 512) + unat (x - seg_start 0x10000 0)) else bmem s x)"
    using readseg_Ok [OF assms, of 0 "0x10000" 4096] by auto
  then show ?thesis by (auto simp: hdr_page_def hdr_mem_def nsect_def seg_start_def)
qed

lemma header_in_page:
  fixes x off :: addr
  assumes "unat (x - (0x10000 + off + of_nat k)) < 32" "unat off + k + 32 \<le> 4096"
  shows "x \<in> hdr_page"
proof -
  define j where "j = unat (x - (0x10000 + off + of_nat k))"
  have "x - 0x10000 = of_nat (unat off + k + j)" by (simp add: j_def)
  then have "unat (x - 0x10000) = unat off + k + j"
    using assms by (simp add: j_def [symmetric] unat_of_nat take_bit_eq_mod del: of_nat_add)
  then show ?thesis using assms by (simp add: hdr_page_def j_def)
qed

lemma loadable_keeps: "loadable K phs \<Longrightarrow> ph \<in> set phs \<Longrightarrow> x \<in> K \<Longrightarrow> x \<notin> seg_area ph"
  by (induction phs arbitrary: K) auto

text \<open>
  C16. The boot loader loads the kernel: from a disk that answers and holds, from sector 1 on, an ELF image whose
  headers lie in its first page and whose segments may be loaded in order, \<^verbatim>\<open>bootmain\<close> ends with a jump to the
  entry point of the image, with every segment in memory at its physical address, filled up with zeros to its
  size in memory.  If the image has not the ELF magic number, \<^verbatim>\<open>bootmain\<close> returns.
\<close>

theorem bootmain_loads:
  assumes "disk_ready fuel s" "e_magic (boot_elf s) = ELF_MAGIC \<Longrightarrow> kernel_ok s"
  shows "\<exists>t. bootmain fuel s = Ok (if e_magic (boot_elf s) = ELF_MAGIC then Some (e_entry (boot_elf s)) else None) t \<and>
    (e_magic (boot_elf s) = ELF_MAGIC \<longrightarrow> (\<forall>ph \<in> set (boot_phs s). loaded (image s) (bmem t) ph))"
proof -
  obtain u where u: "readseg fuel 0x10000 4096 0 s = Ok () u" "same_disk s u" "\<forall>x \<in> hdr_page. bmem u x = hdr_mem s x"
    using first_page [OF assms(1)] by blast
  have elf: "elfhdr_at (bmem u) 0x10000 = boot_elf s"
    unfolding boot_elf_def by (rule elfhdr_at_cong) (use u(3) in \<open>simp add: hdr_page_def\<close>)
  show ?thesis
  proof (cases "e_magic (boot_elf s) = ELF_MAGIC")
    case False
    then show ?thesis using u elf by (simp add: bootmain_def kop)
  next
    case True
    let ?p = "0x10000 + e_phoff (boot_elf s)" and ?n = "e_phnum (boot_elf s)"
    have ok: "unat (e_phoff (boot_elf s)) + 32 * ?n \<le> 4096" "loadable hdr_page (boot_phs s)"
      using assms(2) [OF True] by (simp_all add: kernel_ok_def)
    have pg: "x \<in> hdr_page" if "i < length (boot_phs s)" "unat (x - (?p + of_nat (32 * i))) < 32" for i x
      using header_in_page [OF that(2)] that(1) ok(1) by (simp add: boot_phs_def)
    have hd: "proghdr_at (bmem u) (?p + of_nat (32 * i)) = boot_phs s ! i" if i: "i < length (boot_phs s)" for i
    proof -
      have "proghdr_at (bmem u) (?p + of_nat (32 * i)) = proghdr_at (hdr_mem s) (?p + of_nat (32 * i))"
        by (rule proghdr_at_cong) (use u(3) pg [OF i] in blast)
      then show ?thesis using i by (simp add: boot_phs_def)
    qed
    have "disk_ready fuel u" using assms(1) same_disk_ready [OF u(2)] by simp
    then have "\<exists>t. boot_segs fuel ?p (length (boot_phs s)) u = Ok () t \<and> (\<forall>ph \<in> set (boot_phs s). loaded (image u) (bmem t) ph) \<and>
        (\<forall>x. (\<forall>ph \<in> set (boot_phs s). x \<notin> seg_area ph) \<longrightarrow> bmem t x = bmem u x)"
    proof (rule boot_segs_Ok [OF _ ok(2)])
      fix i x assume i: "i < length (boot_phs s)"
      show "proghdr_at (bmem u) (?p + of_nat (32 * i)) = boot_phs s ! i" by (rule hd [OF i])
      show "x \<in> hdr_page" if "unat (x - (?p + of_nat (32 * i))) < 32" by (rule pg [OF i that])
    qed
    then obtain t where
      t: "boot_segs fuel ?p (length (boot_phs s)) u = Ok () t" "\<forall>ph \<in> set (boot_phs s). loaded (image u) (bmem t) ph"
        "\<forall>x. (\<forall>ph \<in> set (boot_phs s). x \<notin> seg_area ph) \<longrightarrow> bmem t x = bmem u x" by blast
    have "bmem t x = bmem u x" if "x \<in> hdr_page" for x using t(3) loadable_keeps [OF ok(2)] that by blast
    then have "elfhdr_at (bmem t) 0x10000 = elfhdr_at (bmem u) 0x10000"
      by (intro elfhdr_at_cong) (simp add: hdr_page_def)
    then have "bootmain fuel s = Ok (Some (e_entry (boot_elf s))) t"
      using u(1) elf True t(1) by (simp add: bootmain_def kop boot_phs_def)
    then show ?thesis using True t(2) same_disk_image [OF u(2)] by auto
  qed
qed

text \<open>A small kernel: one segment of four bytes, taken from sector 9, with four zeros after them.\<close>

definition elf0 :: "nat \<Rightarrow> byte" where
  "elf0 = (\<lambda>_. 0)(0 := 0x7F, 1 := 0x45, 2 := 0x4C, 3 := 0x46, 24 := 0x0C, 26 := 0x10, 28 := 52, 44 := 1,
     52 := 1, 57 := 0x10, 62 := 0x10, 63 := 0x80, 66 := 0x10, 68 := 4, 72 := 8)"

definition boot0 :: kboot where
  "boot0 = \<lparr>bmem = (\<lambda>_. 0xFF), bregs = (\<lambda>_. 0), bsel = (False, 0),
     bdrive = (\<lambda>_ i. if i = 1 then map elf0 [0..<512] else replicate 512 0x90),
     bstat = (\<lambda>k. if even k then 0x80 else 0x40), bpolls = 0\<rparr>"

lemma image_boot0: "k < 512 \<Longrightarrow> image boot0 k = elf0 k"
  by (simp add: image_def boot0_def SECTSIZE_def)

lemma boot0_elf: "boot_elf boot0 = \<lparr>e_magic = ELF_MAGIC, e_entry = 0x10000C, e_phoff = 52, e_phnum = 1\<rparr>"
  by (simp add: boot_elf_def elfhdr_at_def ld32_def ld16_def hdr_mem_def image_boot0 ELF_MAGIC_def) (simp add: elf0_def word_of_bytes_def)

definition ph0 :: proghdr where
  "ph0 = \<lparr>ph_type = 1, ph_off = 0x1000, ph_vaddr = 0x80100000, ph_paddr = 0x100000, ph_filesz = 4, ph_memsz = 8\<rparr>"

lemma boot0_phs: "boot_phs boot0 = [ph0]"
  by (simp add: boot_phs_def boot0_elf proghdr_at_def ld32_def hdr_mem_def image_boot0 ph0_def) (simp add: elf0_def word_of_bytes_def)

lemma boot0_ok: "kernel_ok boot0" "disk_ready 1 boot0"
proof -
  have "seg_area ph0 \<inter> hdr_page = {}"
  proof -
    have "unat (x - 0x10000) = unat (x - 0x100000) + 0xF0000" if "unat (x - 0x100000) < 512" for x :: addr
    proof -
      have "x - 0x10000 = of_nat (unat (x - 0x100000) + 0xF0000)" by simp
      then show ?thesis using that by (simp add: unat_of_nat take_bit_eq_mod del: of_nat_add of_nat_unat)
    qed
    then show ?thesis by (fastforce simp: seg_area_def hdr_page_def ph0_def seg_start_def nsect_def)
  qed
  then show "kernel_ok boot0" by (simp add: kernel_ok_def boot0_elf boot0_phs seg_ok_def ph0_def)
  have "\<exists>j \<le> 1. bstat boot0 (k + j) AND 0xC0 = 0x40" for k
    by (rule exI [of _ "if even k then 1 else 0"]) (simp add: boot0_def)
  then show "disk_ready 1 boot0" by (simp add: disk_ready_def) (simp add: boot0_def SECTSIZE_def elf0_def)
qed

theorem bootmain_loads_witness:
  "\<exists>t. bootmain 1 boot0 = Ok (Some 0x10000C) t \<and> bmem t 0x100003 = 0x90 \<and> bmem t 0x100004 = 0"
proof -
  obtain t where t: "bootmain 1 boot0 = Ok (Some 0x10000C) t" "loaded (image boot0) (bmem t) ph0"
    using bootmain_loads [OF boot0_ok(2) boot0_ok(1)] by (auto simp: boot0_elf boot0_phs)
  from t(2) have "bmem t (0x100000 + of_nat 3) = image boot0 (0x1000 + 3)" "bmem t (0x100000 + of_nat 4) = 0"
    unfolding loaded_def by (simp_all add: ph0_def del: of_nat_numeral)
  moreover have "image boot0 (0x1000 + 3) = 0x90" by (simp add: image_def boot0_def SECTSIZE_def)
  ultimately show ?thesis using t(1) by simp
qed

end
