(* ===== verification/Mkfs.thy ===== *)
theory Mkfs
  imports Log Dir
begin

unbundle bit_operations_syntax

text \<open>
  \<^verbatim>\<open>mkfs.c\<close>, the program on the host that builds the file system image.  The image is a host file, here its
  sectors and its length in sectors: a write after the end makes it longer, a read after the end fails.
  The host's files are a function from names to contents; a regular file is read in pieces of a block.
  A failed assertion and \<^verbatim>\<open>exit(1)\<close> are \<open>Panic\<close>; what is printed is left out.
\<close>

section \<open>Layout\<close>

record kmk =
  mimg :: "u32 \<Rightarrow> byte list"
  mlen :: nat
  freeinode :: u32
  freeblock :: u32

definition NINODES :: nat where "NINODES = 200"
definition nbitmap :: nat where "nbitmap = FSSIZE div (BSIZE * 8) + 1"
definition ninodeblocks :: nat where "ninodeblocks = NINODES div IPB + 1"
definition nlog :: nat where "nlog = LOGSIZE"
definition nmeta :: nat where "nmeta = 2 + nlog + ninodeblocks + nbitmap"
definition nblocks :: nat where "nblocks = FSSIZE - nmeta"

text \<open>
  Conversion to the byte order of the disk: the value whose bytes in the memory of a little-endian host are
  those of the argument from the lowest on.
\<close>

definition xshort :: "u16 \<Rightarrow> u16" where
  "xshort x = ucast (ucast x :: byte) OR push_bit 8 (ucast (ucast (drop_bit 8 x) :: byte))"

definition xint :: "u32 \<Rightarrow> u32" where
  "xint x = word_of_bytes (ucast x) (ucast (drop_bit 8 x)) (ucast (drop_bit 16 x)) (ucast (drop_bit 24 x))"

definition mk_sb :: superblock where
  "mk_sb = \<lparr>sb_size = xint (of_nat FSSIZE), sb_nblocks = xint (of_nat nblocks), sb_ninodes = xint (of_nat NINODES),
     sb_nlog = xint (of_nat nlog), sb_logstart = xint 2, sb_inodestart = xint (of_nat (2 + nlog)),
     sb_bmapstart = xint (of_nat (2 + nlog + ninodeblocks))\<rparr>"

definition bytes_of_sb :: "superblock \<Rightarrow> byte list" where
  "bytes_of_sb b = put32s (replicate BSIZE 0) 0
     [sb_size b, sb_nblocks b, sb_ninodes b, sb_nlog b, sb_logstart b, sb_inodestart b, sb_bmapstart b]"

section \<open>Sectors, inodes and files\<close>

definition wsect :: "u32 \<Rightarrow> byte list \<Rightarrow> (unit, 'z kmk_scheme) kop" where
  "wsect sec buf = modK (\<lambda>s. s\<lparr>mimg := (mimg s)(sec := buf), mlen := max (mlen s) (Suc (unat sec))\<rparr>)"

definition rsect :: "u32 \<Rightarrow> (byte list, 'z kmk_scheme) kop" where
  "rsect sec = bindK (getK (\<lambda>s. (unat sec < mlen s, mimg s sec))) (\<lambda>(ok, b). if ok then retK b else panicK ''read'')"

definition winode :: "u32 \<Rightarrow> dinode \<Rightarrow> (unit, 'z kmk_scheme) kop" where
  "winode i d =
     (let bn = IBLOCK i mk_sb in
      bindK (rsect bn) (\<lambda>buf.
      wsect bn (put_dinode buf (unat (i mod of_nat IPB) * sizeof_dinode) d)))"

definition rinode :: "u32 \<Rightarrow> (dinode, 'z kmk_scheme) kop" where
  "rinode i =
     (let bn = IBLOCK i mk_sb in
      bindK (rsect bn) (\<lambda>buf.
      retK (dinode_at buf (unat (i mod of_nat IPB) * sizeof_dinode))))"

definition mk_ialloc :: "u16 \<Rightarrow> (u32, 'z kmk_scheme) kop" where
  "mk_ialloc ty =
     bindK (getK freeinode) (\<lambda>i.
     thenK (modK (\<lambda>s. s\<lparr>freeinode := i + 1\<rparr>)) (
     thenK (winode i \<lparr>di_type = xshort ty, di_major = 0, di_minor = 0, di_nlink = xshort 1, di_size = xint 0,
       di_addrs = replicate (NDIRECT + 1) 0\<rparr>) (
     retK i)))"

fun mk_bitmap :: "nat \<Rightarrow> byte list" where
  "mk_bitmap 0 = replicate BSIZE 0"
| "mk_bitmap (Suc i) = (let b = mk_bitmap i in b[i div 8 := (b ! (i div 8)) OR push_bit (i mod 8) 1])"

definition mk_balloc :: "u32 \<Rightarrow> (unit, 'z kmk_scheme) kop" where
  "mk_balloc used =
     (if \<not> unat used < BSIZE * 8 then panicK ''assert''
      else wsect (sb_bmapstart mk_sb) (mk_bitmap (unat used)))"

definition take_block :: "(u32, 'z kmk_scheme) kop" where
  "take_block = bindK (getK freeblock) (\<lambda>b. thenK (modK (\<lambda>s. s\<lparr>freeblock := b + 1\<rparr>)) (retK b))"

text \<open>The sector of block \<open>fbn\<close> of a file, which is allocated if there is none.\<close>

definition iappend_block :: "dinode \<Rightarrow> nat \<Rightarrow> (u32 \<times> dinode, 'z kmk_scheme) kop" where
  "iappend_block din fbn =
     (if fbn < NDIRECT then
        (if xint (di_addrs din ! fbn) = 0 then
           bindK take_block (\<lambda>b.
           let din' = din\<lparr>di_addrs := (di_addrs din)[fbn := xint b]\<rparr> in
           retK (xint (di_addrs din' ! fbn), din'))
         else retK (xint (di_addrs din ! fbn), din))
      else
        bindK
          (if xint (di_addrs din ! NDIRECT) = 0
           then bindK take_block (\<lambda>b. retK (din\<lparr>di_addrs := (di_addrs din)[NDIRECT := xint b]\<rparr>))
           else retK din) (\<lambda>din'.
        bindK (rsect (xint (di_addrs din' ! NDIRECT))) (\<lambda>indirect.
        if get32 indirect (4 * (fbn - NDIRECT)) = 0 then
          bindK take_block (\<lambda>b.
          let indirect' = put32 indirect (4 * (fbn - NDIRECT)) (xint b) in
          thenK (wsect (xint (di_addrs din' ! NDIRECT)) indirect') (
          retK (xint (get32 indirect' (4 * (fbn - NDIRECT))), din')))
        else retK (xint (get32 indirect (4 * (fbn - NDIRECT))), din'))))"

text \<open>Every round takes at least one byte, so their number bounds the rounds.\<close>

fun iappend_loop :: "nat \<Rightarrow> dinode \<Rightarrow> nat \<Rightarrow> byte list \<Rightarrow> (dinode \<times> nat, 'z kmk_scheme) kop" where
  "iappend_loop fuel din off p =
     (if p = [] then retK (din, off)
      else
        (let fbn = off div BSIZE in
         if \<not> fbn < MAXFILE then panicK ''assert''
         else
           bindK (iappend_block din fbn) (\<lambda>(x, din').
           let n1 = min (length p) ((fbn + 1) * BSIZE - off) in
           bindK (rsect x) (\<lambda>buf.
           thenK (wsect x (splice buf (off - fbn * BSIZE) (take n1 p))) (
           case fuel of 0 \<Rightarrow> (\<lambda>_. NoFuel) | Suc n \<Rightarrow> iappend_loop n din' (off + n1) (drop n1 p))))))"

declare iappend_loop.simps [simp del]

definition iappend :: "u32 \<Rightarrow> byte list \<Rightarrow> (unit, 'z kmk_scheme) kop" where
  "iappend i p =
     bindK (rinode i) (\<lambda>din.
     bindK (iappend_loop (length p) din (unat (xint (di_size din))) p) (\<lambda>(din', off).
     winode i (din'\<lparr>di_size := xint (of_nat off)\<rparr>)))"

section \<open>The program\<close>

definition mk_dirent :: "u32 \<Rightarrow> byte list \<Rightarrow> byte list" where
  "mk_dirent i name = bytes_of_dirent \<lparr>de_inum = xshort (ucast i), de_name = name14 name\<rparr>"

fun mk_read :: "nat \<Rightarrow> u32 \<Rightarrow> byte list \<Rightarrow> (unit, 'z kmk_scheme) kop" where
  "mk_read 0 i bs = retK ()"
| "mk_read (Suc n) i bs = (if bs = [] then retK () else thenK (iappend i (take BSIZE bs)) (mk_read n i (drop BSIZE bs)))"

fun mk_files :: "(byte list \<Rightarrow> byte list option) \<Rightarrow> u32 \<Rightarrow> byte list list \<Rightarrow> (unit, 'z kmk_scheme) kop" where
  "mk_files host rootino [] = retK ()"
| "mk_files host rootino (f # fs) =
     (if 47 \<in> set f then panicK ''assert''
      else
        (case host f of
           None \<Rightarrow> panicK ''open''
         | Some bs \<Rightarrow>
             (let name = (if f \<noteq> [] \<and> hd f = 95 then tl f else f) in
              bindK (mk_ialloc T_FILE) (\<lambda>i.
              thenK (iappend rootino (mk_dirent i name)) (
              thenK (mk_read (length bs) i bs) (
              mk_files host rootino fs))))))"

definition mk_zero :: "(unit, 'z kmk_scheme) kop" where
  "mk_zero = seqK (map (\<lambda>i. wsect (of_nat i) (replicate BSIZE 0)) [0..<FSSIZE])"

definition mkfs_main :: "(byte list \<Rightarrow> byte list option) \<Rightarrow> byte list list \<Rightarrow> (unit, 'z kmk_scheme) kop" where
  "mkfs_main host argv =
     (if length argv < 2 then panicK ''usage''
      else
        thenK (modK (\<lambda>s. s\<lparr>mlen := 0, freeinode := 1, freeblock := of_nat nmeta\<rparr>)) (
        thenK mk_zero (
        thenK (wsect 1 (bytes_of_sb mk_sb)) (
        bindK (mk_ialloc T_DIR) (\<lambda>rootino.
        if rootino \<noteq> ROOTINO then panicK ''assert''
        else
          thenK (iappend rootino (mk_dirent rootino [46])) (
          thenK (iappend rootino (mk_dirent rootino [46, 46])) (
          thenK (mk_files host rootino (drop 2 argv)) (
          bindK (rinode rootino) (\<lambda>din.
          let off = xint (di_size din); off' = (off div of_nat BSIZE + 1) * of_nat BSIZE in
          thenK (winode rootino (din\<lparr>di_size := xint off'\<rparr>)) (
          bindK (getK freeblock) mk_balloc))))))))))"

section \<open>The blocks of a file\<close>

lemma xint_id [simp]: "xint x = x"
proof -
  have "xint x = word_of_bytes (byte_of 0 x) (byte_of (Suc 0) x) (byte_of 2 x) (byte_of 3 x)" by (simp add: xint_def byte_of_def)
  then show ?thesis by simp
qed

lemma xshort_id [simp]: "xshort x = x"
  unfolding xshort_def by (rule u16_bytes)

definition baddr :: "(u32 \<Rightarrow> byte list) \<Rightarrow> dinode \<Rightarrow> nat \<Rightarrow> u32" where
  "baddr img d k = (if k < 12 then di_addrs d ! k else get32 (img (di_addrs d ! 12)) (4 * (k - 12)))"

text \<open>
  The inode \<open>d\<close> has \<open>n\<close> blocks: they are different and allocated, that is, at least \<open>nmeta\<close> and less than \<open>fb\<close>; the
  other entries are zero; there is an indirect block exactly if it is needed.
\<close>

definition allocated :: "u32 \<Rightarrow> u32 \<Rightarrow> bool" where
  "allocated fb b \<longleftrightarrow> 59 \<le> b \<and> b < fb"

definition blk_ok :: "(u32 \<Rightarrow> byte list) \<Rightarrow> u32 \<Rightarrow> dinode \<Rightarrow> nat \<Rightarrow> bool" where
  "blk_ok img fb d n \<longleftrightarrow> length (di_addrs d) = 13 \<and> n \<le> 140 \<and> (\<forall>k < n. allocated fb (baddr img d k)) \<and>
     inj_on (baddr img d) {..<n} \<and> (\<forall>k. n \<le> k \<and> k < 12 \<longrightarrow> di_addrs d ! k = 0) \<and>
     (if n \<le> 12 then di_addrs d ! 12 = 0
      else allocated fb (di_addrs d ! 12) \<and> di_addrs d ! 12 \<notin> baddr img d ` {..<n} \<and>
        (\<forall>k. n \<le> k \<and> k < 140 \<longrightarrow> baddr img d k = 0))"

definition owned :: "(u32 \<Rightarrow> byte list) \<Rightarrow> dinode \<Rightarrow> nat \<Rightarrow> u32 set" where
  "owned img d n = baddr img d ` {..<n} \<union> (if n > 12 then {di_addrs d ! 12} else {})"

text \<open>The image: sectors are of the right length, those from \<open>freeblock\<close> on are zero.\<close>

definition img_ok :: "'z kmk_scheme \<Rightarrow> bool" where
  "img_ok s \<longleftrightarrow> 59 \<le> freeblock s \<and> unat (freeblock s) \<le> mlen s \<and> mlen s \<le> 1000000 \<and>
     (\<forall>b. unat b < mlen s \<longrightarrow> length (mimg s b) = 512) \<and>
     (\<forall>b. freeblock s \<le> b \<and> unat b < mlen s \<longrightarrow> mimg s b = replicate 512 0)"

lemma allocated_nonzero: "allocated fb b \<Longrightarrow> b \<noteq> 0"
  by (auto simp: allocated_def)

lemma allocated_room: "img_ok s \<Longrightarrow> allocated (freeblock s) b \<Longrightarrow> unat b < mlen s"
  by (auto simp: img_ok_def allocated_def word_less_nat_alt)

lemma blk_ok_data:
  assumes "blk_ok img fb d n" "k < n"
  shows "allocated fb (baddr img d k)" "n > 12 \<Longrightarrow> baddr img d k \<noteq> di_addrs d ! 12"
proof -
  show "allocated fb (baddr img d k)" using assms by (simp add: blk_ok_def)
  assume "n > 12"
  then have "di_addrs d ! 12 \<notin> baddr img d ` {..<n}" using assms(1) by (simp add: blk_ok_def)
  then show "baddr img d k \<noteq> di_addrs d ! 12" using assms(2) by (metis image_eqI lessThan_iff)
qed

lemma block_same:
  assumes "img_ok s" "blk_ok (mimg s) (freeblock s) d n" "k < n"
  shows "iappend_block d k s = Ok (baddr (mimg s) d k, d) s"
proof -
  have nz: "baddr (mimg s) d k \<noteq> 0" using assms(2,3) allocated_nonzero by (auto simp: blk_ok_def)
  show ?thesis
  proof (cases "k < 12")
    case True
    then show ?thesis using nz by (simp add: iappend_block_def NDIRECT_def baddr_def kop)
  next
    case False
    then have "allocated (freeblock s) (di_addrs d ! 12)" using assms(2,3) by (auto simp: blk_ok_def)
    then have "unat (di_addrs d ! 12) < mlen s" "di_addrs d ! 12 \<noteq> 0" using allocated_room [OF assms(1)] allocated_nonzero by blast+
    then show ?thesis using nz False by (simp add: iappend_block_def NDIRECT_def baddr_def kop rsect_def)
  qed
qed

text \<open>The number of blocks, the indirect one included, that a file of \<open>n\<close> data blocks takes.\<close>

definition nown :: "nat \<Rightarrow> nat" where
  "nown n = n + (if n > 12 then 1 else 0)"

definition grown :: "'z kmk_scheme \<Rightarrow> dinode \<Rightarrow> nat \<Rightarrow> u32 \<Rightarrow> dinode \<Rightarrow> 'z kmk_scheme \<Rightarrow> bool" where
  "grown s d n x d' s' \<longleftrightarrow> img_ok s' \<and> blk_ok (mimg s') (freeblock s') d' (Suc n) \<and> x = baddr (mimg s') d' n \<and> freeblock s \<le> x \<and>
     (\<forall>k < n. baddr (mimg s') d' k = baddr (mimg s) d k) \<and> d' = d\<lparr>di_addrs := di_addrs d'\<rparr> \<and>
     unat (freeblock s') + nown n = unat (freeblock s) + nown (Suc n) \<and> mlen s' = mlen s \<and> freeinode s' = freeinode s \<and>
     (\<forall>b. b < freeblock s \<and> \<not> (n > 12 \<and> b = di_addrs d ! 12) \<longrightarrow> mimg s' b = mimg s b) \<and>
     owned (mimg s') d' (Suc n) \<subseteq> owned (mimg s) d n \<union> {b. freeblock s \<le> b}"

lemma next_block:
  assumes "img_ok s" "unat (freeblock s) < mlen s"
  shows "unat (freeblock s + 1) = unat (freeblock s) + 1" "freeblock s < freeblock s + 1"
proof -
  show "unat (freeblock s + 1) = unat (freeblock s) + 1"
    using assms by (subst unat_add_lem [THEN iffD1]) (auto simp: img_ok_def)
  then show "freeblock s < freeblock s + 1" by (simp add: word_less_nat_alt)
qed

lemma allocated_mono: "allocated fb b \<Longrightarrow> fb \<le> fb' \<Longrightarrow> allocated fb' b"
  by (auto simp: allocated_def)

lemma inj_on_grow:
  assumes "inj_on f {..<n}" "\<And>k. k < n \<Longrightarrow> g k = f k" "g n \<notin> f ` {..<n}"
  shows "inj_on g {..<Suc n}"
proof -
  have "inj_on g {..<n}" using assms(1,2) by (simp add: inj_on_def)
  moreover have "g n \<notin> g ` {..<n}" using assms(2,3) by auto
  ultimately show ?thesis by (simp add: lessThan_Suc)
qed

lemma image_grow: "(\<And>k. k < n \<Longrightarrow> g k = f k) \<Longrightarrow> g ` {..<Suc n} = insert (g n) (f ` {..<n})"
  by (auto simp: lessThan_Suc)

lemma fresh_block: "blk_ok img fb d n \<Longrightarrow> fb \<le> b \<Longrightarrow> b \<notin> baddr img d ` {..<n}"
  by (auto simp: blk_ok_def allocated_def)

lemma grow_direct:
  assumes i: "img_ok s" and b: "blk_ok (mimg s) (freeblock s) d n" and n: "n < 12" and room: "unat (freeblock s) < mlen s"
  shows "\<exists>x d' s'. iappend_block d n s = Ok (x, d') s' \<and> grown s d n x d' s'"
proof -
  let ?fb = "freeblock s"
  define d' where "d' = d\<lparr>di_addrs := (di_addrs d)[n := ?fb]\<rparr>"
  define s' where "s' = s\<lparr>freeblock := ?fb + 1\<rparr>"
  note nb = next_block [OF i room]
  have len: "length (di_addrs d) = 13" "di_addrs d ! 12 = 0" "di_addrs d ! n = 0" using b n by (auto simp: blk_ok_def)
  have ba: "baddr (mimg s) d' k = (if k = n then ?fb else baddr (mimg s) d k)" if "k < 12" for k
    using that n len by (simp add: baddr_def d'_def)
  have run: "iappend_block d n s = Ok (?fb, d') s'"
    using n len by (simp add: iappend_block_def NDIRECT_def take_block_def kop Let_def d'_def s'_def)
  have ok: "blk_ok (mimg s) (?fb + 1) d' (Suc n)"
    unfolding blk_ok_def
  proof (intro conjI allI impI)
    show "allocated (?fb + 1) (baddr (mimg s) d' k)" if "k < Suc n" for k
      using that n b i nb(2) ba [of k] allocated_mono [OF _ less_imp_le [OF nb(2)]]
      by (cases "k = n") (auto simp: blk_ok_def allocated_def img_ok_def)
    show "inj_on (baddr (mimg s) d') {..<Suc n}"
      using b n ba fresh_block [OF b order.refl] by (intro inj_on_grow [of "baddr (mimg s) d"]) (auto simp: blk_ok_def)
    show "di_addrs d' ! k = 0" if "Suc n \<le> k \<and> k < 12" for k using that b by (auto simp: blk_ok_def d'_def)
  qed (use n len in \<open>auto simp: d'_def\<close>)
  have "img_ok s'" using i nb room by (auto simp: img_ok_def s'_def)
  moreover have "owned (mimg s) d' (Suc n) \<subseteq> owned (mimg s) d n \<union> {b. ?fb \<le> b}"
    using n ba image_grow [of n "baddr (mimg s) d'" "baddr (mimg s) d"] by (auto simp: owned_def)
  ultimately have "grown s d n ?fb d' s'"
    using ok ba n nb by (auto simp: grown_def s'_def nown_def) (simp add: d'_def)
  then show ?thesis using run by blast
qed

lemma get32_zeros: "k + 4 \<le> m \<Longrightarrow> get32 (replicate m 0) k = 0"
  by (simp add: get32_def word_of_bytes_def)

lemma grow_indirect:
  assumes i: "img_ok s" and b: "blk_ok (mimg s) (freeblock s) d n" and n: "12 < n" "n < 140" and room: "unat (freeblock s) < mlen s"
  shows "\<exists>x d' s'. iappend_block d n s = Ok (x, d') s' \<and> grown s d n x d' s'"
proof -
  let ?fb = "freeblock s" and ?i = "di_addrs d ! 12"
  define img' where "img' = (mimg s)(?i := put32 (mimg s ?i) (4 * (n - 12)) ?fb)"
  define s' where "s' = s\<lparr>freeblock := ?fb + 1, mimg := img'\<rparr>"
  note nb = next_block [OF i room]
  have ia: "allocated ?fb ?i" "?i \<notin> baddr (mimg s) d ` {..<n}" "\<And>k. n \<le> k \<Longrightarrow> k < 140 \<Longrightarrow> baddr (mimg s) d k = 0" using b n by (auto simp: blk_ok_def)
  have ir: "unat ?i < mlen s" "?i \<noteq> 0" "?i < ?fb" using ia allocated_room [OF i] allocated_nonzero by (auto simp: allocated_def)
  have il: "length (mimg s ?i) = 512" using i ir by (simp add: img_ok_def)
  have ba: "baddr img' d k = (if k = n then ?fb else baddr (mimg s) d k)" if "k < 140" for k
  proof (cases "k < 12")
    case True
    then show ?thesis using n by (simp add: baddr_def)
  next
    case False
    then show ?thesis using that n il
      by (cases "k = n") (auto simp: baddr_def img'_def get32_put32_same intro!: get32_put32_other)
  qed
  have run: "iappend_block d n s = Ok (?fb, d) s'"
    using n ir ia(3) [of n] il
    by (simp add: iappend_block_def NDIRECT_def take_block_def kop rsect_def wsect_def Let_def baddr_def s'_def img'_def get32_put32_same max_absorb1)
  have ok: "blk_ok img' (?fb + 1) d (Suc n)"
    unfolding blk_ok_def
  proof (intro conjI allI impI)
    show "allocated (?fb + 1) (baddr img' d k)" if "k < Suc n" for k
      using that n b i nb(2) ba [of k] allocated_mono [OF _ less_imp_le [OF nb(2)]]
      by (cases "k = n") (auto simp: blk_ok_def allocated_def img_ok_def)
    show "inj_on (baddr img' d) {..<Suc n}"
      using b n ba fresh_block [OF b order.refl] by (intro inj_on_grow [of "baddr (mimg s) d"]) (auto simp: blk_ok_def)
    show "if Suc n \<le> 12 then ?i = 0 else allocated (?fb + 1) ?i \<and> ?i \<notin> baddr img' d ` {..<Suc n} \<and> (\<forall>k. Suc n \<le> k \<and> k < 140 \<longrightarrow> baddr img' d k = 0)"
      using n ia ba ir(3) allocated_mono [OF ia(1) less_imp_le [OF nb(2)]] image_grow [of n "baddr img' d" "baddr (mimg s) d"] by auto
  qed (use n b in \<open>auto simp: blk_ok_def\<close>)
  have "img_ok s'" using i nb room il ir by (auto simp: img_ok_def s'_def img'_def)
  moreover have "owned img' d (Suc n) \<subseteq> owned (mimg s) d n \<union> {b. ?fb \<le> b}"
    using n ba image_grow [of n "baddr img' d" "baddr (mimg s) d"] by (auto simp: owned_def)
  ultimately have "grown s d n ?fb d s'"
    using ok ba n nb by (auto simp: grown_def s'_def nown_def) (simp add: img'_def)
  then show ?thesis using run by blast
qed

lemma grow_first_indirect:
  assumes i: "img_ok s" and b: "blk_ok (mimg s) (freeblock s) d 12" and room: "unat (freeblock s) + 1 < mlen s"
  shows "\<exists>x d' s'. iappend_block d 12 s = Ok (x, d') s' \<and> grown s d 12 x d' s'"
proof -
  let ?fb = "freeblock s"
  define d' where "d' = d\<lparr>di_addrs := (di_addrs d)[12 := ?fb]\<rparr>"
  define img' where "img' = (mimg s)(?fb := put32 (replicate 512 0) 0 (?fb + 1))"
  define s' where "s' = s\<lparr>freeblock := ?fb + 1 + 1, mimg := img'\<rparr>"
  have r1: "unat ?fb < mlen s" using room by simp
  note nb = next_block [OF i r1]
  have nb2: "unat (?fb + 1 + 1) = unat ?fb + 2" "?fb + 1 < ?fb + 1 + 1"
  proof -
    show "unat (?fb + 1 + 1) = unat ?fb + 2" using nb(1) room i by (subst unat_add_lem [THEN iffD1]) (auto simp: img_ok_def)
    then show "?fb + 1 < ?fb + 1 + 1" using nb(1) by (simp add: word_less_nat_alt)
  qed
  have lt2: "?fb < ?fb + 1 + 1" "\<not> ?fb + 1 + 1 \<le> ?fb" using nb nb2 by auto
  have zero: "mimg s ?fb = replicate 512 0" using i r1 by (simp add: img_ok_def)
  have len: "length (di_addrs d) = 13" "di_addrs d ! 12 = 0" using b by (auto simp: blk_ok_def)
  have ba: "baddr img' d' k = (if k < 12 then baddr (mimg s) d k else if k = 12 then ?fb + 1 else 0)" if "k < 140" for k
  proof -
    have "get32 (put32 (replicate 512 0) 0 (?fb + 1)) (4 * (k - 12)) = 0" if "12 < k"
      using that \<open>k < 140\<close> by (subst get32_put32_other) (auto simp: get32_zeros)
    then show ?thesis using len by (auto simp: baddr_def d'_def img'_def get32_put32_same)
  qed
  have run: "iappend_block d 12 s = Ok (?fb + 1, d') s'"
    using len zero r1 i
    by (simp add: iappend_block_def NDIRECT_def take_block_def kop rsect_def wsect_def Let_def s'_def img'_def d'_def
      get32_zeros get32_put32_same max_absorb1 img_ok_def) 
  have im: "baddr img' d' ` {..<Suc 12} = insert (?fb + 1) (baddr (mimg s) d ` {..<12})"
    using ba [of 12] image_grow [of 12 "baddr img' d'" "baddr (mimg s) d"] ba by simp
  have ok: "blk_ok img' (?fb + 1 + 1) d' (Suc 12)"
    unfolding blk_ok_def
  proof (intro conjI allI impI)
    show "allocated (?fb + 1 + 1) (baddr img' d' k)" if "k < Suc 12" for k
    proof (cases "k = 12")
      case True
      then show ?thesis using ba [of 12] i nb nb2 by (auto simp: allocated_def img_ok_def)
    next
      case False
      then have "allocated ?fb (baddr (mimg s) d k)" "baddr img' d' k = baddr (mimg s) d k" using b ba [of k] that by (auto simp: blk_ok_def)
      then show ?thesis using allocated_mono less_imp_le [OF lt2(1)] by metis
    qed
    have "?fb + 1 \<notin> baddr (mimg s) d ` {..<12}" by (rule fresh_block [OF b less_imp_le [OF nb(2)]])
    then show "inj_on (baddr img' d') {..<Suc 12}"
      using b ba by (intro inj_on_grow [of "baddr (mimg s) d"]) (auto simp: blk_ok_def)
    have "?fb \<notin> baddr (mimg s) d ` {..<12}" by (rule fresh_block [OF b order.refl])
    then have "?fb \<notin> baddr img' d' ` {..<Suc 12}" using im nb(2) by auto
    moreover have "allocated (?fb + 1 + 1) ?fb" using i lt2 by (simp add: allocated_def img_ok_def)
    ultimately show "if Suc 12 \<le> 12 then di_addrs d' ! 12 = 0 else allocated (?fb + 1 + 1) (di_addrs d' ! 12) \<and>
        di_addrs d' ! 12 \<notin> baddr img' d' ` {..<Suc 12} \<and> (\<forall>k. Suc 12 \<le> k \<and> k < 140 \<longrightarrow> baddr img' d' k = 0)"
      using len ba by (simp add: d'_def)
  qed (use len in \<open>auto simp: d'_def\<close>)
  have "img_ok s'" using i nb nb2 room lt2 by (auto simp: img_ok_def s'_def img'_def)
  moreover have "owned img' d' (Suc 12) \<subseteq> owned (mimg s) d 12 \<union> {b. ?fb \<le> b}"
    using im len nb(2) by (auto simp: owned_def d'_def)
  moreover have "img' b = mimg s b" if "b < ?fb" for b using that by (auto simp: img'_def)
  moreover have "d' = d\<lparr>di_addrs := di_addrs d'\<rparr>" by (simp add: d'_def)
  ultimately have "grown s d 12 (?fb + 1) d' s'"
    using ok ba nb nb2 by (auto simp: grown_def s'_def nown_def)
  then show ?thesis using run by blast
qed

lemma block_grow:
  assumes "img_ok s" "blk_ok (mimg s) (freeblock s) d n" "n < 140" "unat (freeblock s) + nown (Suc n) \<le> mlen s + nown n"
  shows "\<exists>x d' s'. iappend_block d n s = Ok (x, d') s' \<and> grown s d n x d' s'"
proof -
  consider "n < 12" | "n = 12" | "12 < n" by linarith
  then show ?thesis
  proof cases
    case 1
    then show ?thesis using grow_direct [OF assms(1,2)] assms(4) by (simp add: nown_def)
  next
    case 2
    then show ?thesis using grow_first_indirect [of s d] assms by (simp add: nown_def)
  next
    case 3
    then show ?thesis using grow_indirect [OF assms(1,2)] assms(3,4) by (simp add: nown_def)
  qed
qed

section \<open>Appending to a file\<close>

definition nblk :: "nat \<Rightarrow> nat" where
  "nblk off = (off + 511) div 512"

text \<open>The first \<open>off\<close> bytes of the file with inode \<open>d\<close>.\<close>

definition fcontent :: "(u32 \<Rightarrow> byte list) \<Rightarrow> dinode \<Rightarrow> nat \<Rightarrow> byte list" where
  "fcontent img d off = map (\<lambda>j. img (baddr img d (j div 512)) ! (j mod 512)) [0..<off]"

definition appended :: "'z kmk_scheme \<Rightarrow> dinode \<Rightarrow> nat \<Rightarrow> byte list \<Rightarrow> dinode \<Rightarrow> 'z kmk_scheme \<Rightarrow> bool" where
  "appended s d off p d' s' \<longleftrightarrow> img_ok s' \<and> blk_ok (mimg s') (freeblock s') d' (nblk (off + length p)) \<and>
     fcontent (mimg s') d' (off + length p) = fcontent (mimg s) d off @ p \<and> d' = d\<lparr>di_addrs := di_addrs d'\<rparr> \<and>
     unat (freeblock s') + nown (nblk off) = unat (freeblock s) + nown (nblk (off + length p)) \<and> freeblock s \<le> freeblock s' \<and>
     mlen s' = mlen s \<and> freeinode s' = freeinode s \<and>
     (\<forall>b. b < freeblock s \<and> b \<notin> owned (mimg s) d (nblk off) \<longrightarrow> mimg s' b = mimg s b) \<and>
     owned (mimg s') d' (nblk (off + length p)) \<subseteq> owned (mimg s) d (nblk off) \<union> {b. freeblock s \<le> b}"

lemma nblk_bounds: "off \<le> 512 * nblk off" "512 * nblk off < off + 512"
proof -
  have "512 * ((off + 511) div 512) + (off + 511) mod 512 = off + 511" "(off + 511) mod 512 < 512" by simp_all
  then show "off \<le> 512 * nblk off" "512 * nblk off < off + 512" unfolding nblk_def by linarith+
qed

lemma nblk_eq: "e \<le> 512 * n \<Longrightarrow> 512 * n < e + 512 \<Longrightarrow> nblk e = n"
  using nblk_bounds [of e] by linarith

lemma div_nblk: "j < off \<Longrightarrow> j div 512 < nblk off"
proof -
  assume "j < off"
  then have "512 * (j div 512) < 512 * nblk off" using nblk_bounds(1) [of off] mult_div_mod_eq [of 512 j] by linarith
  then show ?thesis by simp
qed

lemma appended_refl:
  assumes "img_ok s" "blk_ok (mimg s) (freeblock s) d (nblk off)"
  shows "appended s d off [] d s"
  using assms by (simp add: appended_def)

lemma appended_trans:
  assumes a: "appended s d off p d1 s1" and b: "appended s1 d1 (off + length p) q d2 s2"
  shows "appended s d off (p @ q) d2 s2"
proof -
  have len: "off + length (p @ q) = off + length p + length q" by simp
  have d: "d2 = d\<lparr>di_addrs := di_addrs d2\<rparr>"
  proof -
    have "d1 = d\<lparr>di_addrs := di_addrs d1\<rparr>" "d2 = d1\<lparr>di_addrs := di_addrs d2\<rparr>" using a b by (simp_all add: appended_def)
    then show ?thesis by (metis dinode.update_convs(6) dinode.surjective)
  qed
  have fb: "freeblock s \<le> freeblock s1" using a by (simp add: appended_def)
  have keep: "mimg s2 x = mimg s x" if "x < freeblock s" "x \<notin> owned (mimg s) d (nblk off)" for x
  proof -
    have "x \<notin> owned (mimg s1) d1 (nblk (off + length p))" using a that by (fastforce simp: appended_def)
    moreover have "x < freeblock s1" using that(1) fb by simp
    ultimately show ?thesis using a b that by (simp add: appended_def)
  qed
  have own: "owned (mimg s2) d2 (nblk (off + length p + length q)) \<subseteq> owned (mimg s) d (nblk off) \<union> {b. freeblock s \<le> b}"
    using a b fb unfolding appended_def by fastforce
  have e: "unat (freeblock s2) + nown (nblk off) = unat (freeblock s) + nown (nblk (off + length p + length q))"
      "freeblock s \<le> freeblock s2" "fcontent (mimg s2) d2 (off + length p + length q) = fcontent (mimg s) d off @ p @ q"
    using a b fb unfolding appended_def by auto
  have "img_ok s2 \<and> blk_ok (mimg s2) (freeblock s2) d2 (nblk (off + length p + length q))" "mlen s2 = mlen s" "freeinode s2 = freeinode s"
    using a b by (simp_all add: appended_def)
  then show ?thesis unfolding appended_def len using d keep own e by blast
qed

lemma fcontent_cong:
  assumes "\<And>k. k < nblk off \<Longrightarrow> baddr img' d' k = baddr img d k \<and> img' (baddr img d k) = img (baddr img d k)"
  shows "fcontent img' d' off = fcontent img d off"
  using assms div_nblk by (simp add: fcontent_def)

text \<open>Writing to one block of a file.\<close>

lemma write_block:
  assumes b: "blk_ok img fb d (Suc n)"
  shows "baddr (img(baddr img d n := buf)) d k = baddr img d k"
proof (cases "k < 12")
  case False
  have a: "allocated fb (baddr img d n)" using b by (simp add: blk_ok_def)
  have "di_addrs d ! 12 \<noteq> baddr img d n"
  proof (cases "Suc n \<le> 12")
    case True
    then have "di_addrs d ! 12 = 0" using b by (simp add: blk_ok_def)
    then show ?thesis using allocated_nonzero [OF a] by simp
  next
    case False
    then have "di_addrs d ! 12 \<notin> baddr img d ` {..<Suc n}" using b by (simp add: blk_ok_def)
    then show ?thesis by (metis image_eqI lessI lessThan_iff)
  qed
  then show ?thesis using False by (simp add: baddr_def)
qed (simp add: baddr_def)

lemma blk_ok_cong: "(\<And>k. baddr img' d k = baddr img d k) \<Longrightarrow> blk_ok img' fb d n = blk_ok img fb d n"
  "(\<And>k. baddr img' d k = baddr img d k) \<Longrightarrow> owned img' d n = owned img d n"
proof -
  assume "\<And>k. baddr img' d k = baddr img d k"
  then have "baddr img' d = baddr img d" by (rule ext)
  then show "blk_ok img' fb d n = blk_ok img fb d n" "owned img' d n = owned img d n" by (simp_all add: blk_ok_def owned_def)
qed

text \<open>The bytes \<open>xs\<close> are written to block \<open>n\<close>, at the end of a file that has got it.\<close>

lemma write_content:
  assumes b: "blk_ok img fb d (Suc n)" and off: "512 * n \<le> off" "off + length xs \<le> 512 * Suc n" "0 < length xs"
    and len: "length (img (baddr img d n)) = 512"
  defines "img' \<equiv> img(baddr img d n := splice (img (baddr img d n)) (off - n * 512) xs)"
  shows "fcontent img' d (off + length xs) = fcontent img d off @ xs"
proof (rule nth_equalityI)
  show "length (fcontent img' d (off + length xs)) = length (fcontent img d off @ xs)" by (simp add: fcontent_def)
  fix j assume "j < length (fcontent img' d (off + length xs))"
  then have j: "j < off + length xs" by (simp add: fcontent_def)
  have ba: "baddr img' d k = baddr img d k" for k unfolding img'_def by (rule write_block [OF b])
  have jm: "512 * (j div 512) + j mod 512 = j" "j mod 512 < 512" by simp_all
  have sp: "splice (img (baddr img d n)) (off - n * 512) xs ! i = (if off - n * 512 \<le> i \<and> i < off - n * 512 + length xs then xs ! (i - (off - n * 512)) else img (baddr img d n) ! i)"
    if "i < 512" for i using that len off by (intro nth_splice) auto
  have L: "fcontent img' d (off + length xs) ! j = img' (baddr img d (j div 512)) ! (j mod 512)" using j ba by (simp add: fcontent_def)
  show "fcontent img' d (off + length xs) ! j = (fcontent img d off @ xs) ! j"
  proof (cases "j div 512 = n")
    case True
    have m: "j mod 512 = j - n * 512" "n * 512 \<le> j" using jm True by linarith+
    have "img' (baddr img d n) ! (j mod 512) = (if off \<le> j then xs ! (j - off) else img (baddr img d n) ! (j mod 512))"
      using sp [OF jm(2)] m off j by (auto simp: img'_def)
    then show ?thesis using L True j by (auto simp: fcontent_def nth_append)
  next
    case False
    have lt: "j div 512 < n"
    proof (rule ccontr)
      assume "\<not> j div 512 < n"
      then have "Suc n \<le> j div 512" using False by simp
      then have "512 * Suc n \<le> j" using jm(1) mult_le_mono2 [of "Suc n" "j div 512" 512] by linarith
      then show False using j off(2) by linarith
    qed
    then have "512 * (j div 512) + 512 \<le> 512 * n" by simp
    then have jo: "j < off" using jm off(1) by linarith
    have "baddr img d (j div 512) \<noteq> baddr img d n" using b lt unfolding blk_ok_def by (metis inj_onD lessI lessThan_iff less_SucI less_irrefl)
    then have "img' (baddr img d (j div 512)) = img (baddr img d (j div 512))" by (simp add: img'_def)
    then show ?thesis using L jo by (simp add: fcontent_def nth_append)
  qed
qed

text \<open>One round of the loop.\<close>

lemma iappend_round:
  assumes i: "img_ok s" and b: "blk_ok (mimg s) (freeblock s) d (nblk off)" and off: "off + length xs \<le> 512 * Suc (off div 512)" "xs \<noteq> []" "off div 512 < 140"
    and room: "unat (freeblock s) + nown (nblk (off + length xs)) \<le> mlen s + nown (nblk off)"
  shows "\<exists>x d' t. iappend_block d (off div 512) s = Ok (x, d') t \<and> unat x < mlen t \<and> length (mimg t x) = 512 \<and>
    appended s d off xs d' (t\<lparr>mimg := (mimg t)(x := splice (mimg t x) (off - off div 512 * 512) xs)\<rparr>)"
proof -
  define n where "n = off div 512"
  define r where "r = off mod 512"
  have om: "512 * n + r = off" "r < 512" by (simp_all add: n_def r_def)
  have off: "off + length xs \<le> 512 * Suc n" "xs \<noteq> []" "n < 140" using off unfolding n_def .
  have len: "0 < length xs" using off(2) by simp
  have nb: "nblk (off + length xs) = Suc n"
  proof (rule nblk_eq)
    show "off + length xs \<le> 512 * Suc n" by (rule off(1))
    show "512 * Suc n < off + length xs + 512" unfolding mult_Suc_right using om len by linarith
  qed
  obtain x d' t where run: "iappend_block d n s = Ok (x, d') t" and ti: "img_ok t" and tb: "blk_ok (mimg t) (freeblock t) d' (Suc n)"
    and x: "x = baddr (mimg t) d' n" and fc: "fcontent (mimg t) d' off = fcontent (mimg s) d off" and d': "d' = d\<lparr>di_addrs := di_addrs d'\<rparr>"
    and fb: "unat (freeblock t) + nown (nblk off) = unat (freeblock s) + nown (Suc n)" and ml: "mlen t = mlen s" "freeinode t = freeinode s"
    and keep: "\<forall>c. c < freeblock s \<and> c \<notin> owned (mimg s) d (nblk off) \<longrightarrow> mimg t c = mimg s c \<and> c \<noteq> x"
    and own: "owned (mimg t) d' (Suc n) \<subseteq> owned (mimg s) d (nblk off) \<union> {c. freeblock s \<le> c}"
  proof (cases "r = 0")
    case True
    have n0: "nblk off = n" using True om by (intro nblk_eq) simp_all
    obtain x d' t where g: "iappend_block d n s = Ok (x, d') t" "grown s d n x d' t"
      using block_grow [OF i _ off(3)] b room unfolding n0 nb by blast
    have same: "baddr (mimg t) d' k = baddr (mimg s) d k \<and> mimg t (baddr (mimg s) d k) = mimg s (baddr (mimg s) d k)" if "k < nblk off" for k
    proof -
      have "allocated (freeblock s) (baddr (mimg s) d k)" "\<not> (n > 12 \<and> baddr (mimg s) d k = di_addrs d ! 12)"
        using blk_ok_data [OF b that] unfolding n0 by auto
      then show ?thesis using g(2) that unfolding n0 grown_def allocated_def by blast
    qed
    have k: "mimg t c = mimg s c \<and> c \<noteq> x" if "c < freeblock s" "c \<notin> owned (mimg s) d (nblk off)" for c
      using that g(2) unfolding n0 grown_def owned_def by auto
    have "fcontent (mimg t) d' off = fcontent (mimg s) d off" by (rule fcontent_cong [OF same])
    then show ?thesis
      by (intro that [OF g(1)]) (use g(2) k in \<open>auto simp: grown_def n0\<close>)
  next
    case False
    then have n0: "nblk off = Suc n" using om by (intro nblk_eq) simp_all
    have r: "iappend_block d n s = Ok (baddr (mimg s) d n, d) s" using block_same [OF i b] n0 by simp
    have "baddr (mimg s) d n \<in> owned (mimg s) d (nblk off)" unfolding n0 owned_def by auto
    then show ?thesis by (intro that [OF r]) (use i b n0 in auto)
  qed
  have xa: "allocated (freeblock t) x" using tb x by (simp add: blk_ok_def)
  have xm: "unat x < mlen t" "length (mimg t x) = 512" using allocated_room [OF ti xa] ti by (auto simp: img_ok_def)
  define u where "u = t\<lparr>mimg := (mimg t)(x := splice (mimg t x) (off - n * 512) xs)\<rparr>"
  have cg: "baddr (mimg u) d' k = baddr (mimg t) d' k" for k using write_block [OF tb] by (simp add: u_def x)
  have sl: "length (splice (mimg t x) (off - n * 512) xs) = 512" using xm off(1) om by (subst length_splice) auto
  have "img_ok u" using ti xa sl by (auto simp: img_ok_def u_def allocated_def)
  moreover have "fcontent (mimg u) d' (off + length xs) = fcontent (mimg s) d off @ xs"
    using write_content [OF tb _ off(1) len] om xm(2) fc by (simp add: u_def x)
  moreover have "freeblock s \<le> freeblock t"
    using fb nblk_bounds [of off] om unfolding word_le_nat_alt nown_def by (auto split: if_splits) 
  ultimately have "appended s d off xs d' u"
    unfolding appended_def nb using tb blk_ok_cong [OF cg] d' fb ml keep own by (simp add: u_def)
  then show ?thesis using run xm unfolding u_def n_def by blast
qed

lemma nown_mono: "m \<le> n \<Longrightarrow> nown m \<le> nown n"
  by (simp add: nown_def)

lemma nblk_mono: "a \<le> b \<Longrightarrow> nblk a \<le> nblk b"
  by (simp add: nblk_def div_le_mono)

lemma iappend_loop_Ok:
  assumes "img_ok s" "blk_ok (mimg s) (freeblock s) d (nblk off)" "off + length p \<le> 71680"
    "unat (freeblock s) + nown (nblk (off + length p)) \<le> mlen s + nown (nblk off)" "length p \<le> fuel"
  shows "\<exists>d' s'. iappend_loop fuel d off p s = Ok (d', off + length p) s' \<and> appended s d off p d' s'"
  using assms
proof (induction fuel arbitrary: s d off p)
  case 0
  then show ?case by (auto simp: iappend_loop.simps [of 0] kop intro: appended_refl)
next
  case (Suc fuel)
  show ?case
  proof (cases "p = []")
    case True
    then show ?thesis using Suc.prems by (auto simp: iappend_loop.simps [of "Suc fuel"] kop intro: appended_refl)
  next
    case False
    define n where "n = off div 512"
    have om: "512 * n \<le> off" "off < 512 * n + 512" unfolding n_def by simp_all
    define n1 where "n1 = min (length p) ((n + 1) * 512 - off)"
    have n1: "0 < n1" "n1 \<le> length p" "off + n1 \<le> 512 * Suc n" using False om unfolding n1_def by auto
    have n140: "n < 140" using om(1) Suc.prems(3) False by (cases p) auto
    define xs where "xs = take n1 p"
    have xs: "length xs = n1" "xs \<noteq> []" "p = xs @ drop n1 p" using n1 by (auto simp: xs_def)
    have room: "unat (freeblock s) + nown (nblk (off + length xs)) \<le> mlen s + nown (nblk off)"
      using Suc.prems(4) nown_mono [OF nblk_mono, of "off + length xs" "off + length p"] n1(2) xs(1) by linarith
    obtain x d1 t where t: "iappend_block d n s = Ok (x, d1) t" "unat x < mlen t" "length (mimg t x) = 512"
        "appended s d off xs d1 (t\<lparr>mimg := (mimg t)(x := splice (mimg t x) (off - n * 512) xs)\<rparr>)"
      using iappend_round [OF Suc.prems(1,2) _ xs(2) _ room] n1(3) n140 xs(1) unfolding n_def by blast
    define u where "u = t\<lparr>mimg := (mimg t)(x := splice (mimg t x) (off - n * 512) xs)\<rparr>"
    have ap: "appended s d off xs d1 u" using t(4) by (simp add: u_def)
    have len: "off + n1 + length (drop n1 p) = off + length p" using n1(2) by simp
    have h: "img_ok u" "blk_ok (mimg u) (freeblock u) d1 (nblk (off + n1))" "off + n1 + length (drop n1 p) \<le> 71680"
        "unat (freeblock u) + nown (nblk (off + n1 + length (drop n1 p))) \<le> mlen u + nown (nblk (off + n1))" "length (drop n1 p) \<le> fuel"
    proof -
      show "img_ok u" "blk_ok (mimg u) (freeblock u) d1 (nblk (off + n1))" using ap xs(1) by (auto simp: appended_def)
      have "unat (freeblock u) + nown (nblk off) = unat (freeblock s) + nown (nblk (off + n1))" "mlen u = mlen s"
        using ap xs(1) by (auto simp: appended_def)
      then show "unat (freeblock u) + nown (nblk (off + n1 + length (drop n1 p))) \<le> mlen u + nown (nblk (off + n1))"
        unfolding len using Suc.prems(4) by linarith
    qed (use Suc.prems(3,5) n1 len in auto)
    obtain d2 s2 where r: "iappend_loop fuel d1 (off + n1) (drop n1 p) u = Ok (d2, off + length p) s2"
        "appended u d1 (off + n1) (drop n1 p) d2 s2"
      using Suc.IH [OF h] unfolding len by blast
    have "iappend_loop (Suc fuel) d off p s = iappend_loop fuel d1 (off + n1) (drop n1 p) u"
      using False n140 t(1,2) unfolding iappend_loop.simps [of "Suc fuel"]
      by (simp add: BSIZE_def MAXFILE_def NDIRECT_def NINDIRECT_def n_def [symmetric] Let_def kop rsect_def wsect_def max_absorb1 u_def xs_def n1_def)
    moreover have "appended s d off p d2 s2" using appended_trans [OF ap] r(2) xs by metis
    ultimately show ?thesis using r(1) by auto
  qed
qed

section \<open>The inodes of an image\<close>

definition idin :: "(u32 \<Rightarrow> byte list) \<Rightarrow> u32 \<Rightarrow> dinode" where
  "idin img i = dinode_at (img (IBLOCK i mk_sb)) (unat (i mod of_nat IPB) * sizeof_dinode)"

definition isz :: "(u32 \<Rightarrow> byte list) \<Rightarrow> u32 \<Rightarrow> nat" where
  "isz img i = unat (di_size (idin img i))"

text \<open>The content of the file with inode \<open>i\<close>.\<close>

definition ifile :: "(u32 \<Rightarrow> byte list) \<Rightarrow> u32 \<Rightarrow> byte list" where
  "ifile img i = fcontent img (idin img i) (isz img i)"

definition inode_used :: "'z kmk_scheme \<Rightarrow> u32 \<Rightarrow> bool" where
  "inode_used s i \<longleftrightarrow> 1 \<le> i \<and> i < freeinode s"

definition mk_inv :: "'z kmk_scheme \<Rightarrow> bool" where
  "mk_inv s \<longleftrightarrow> img_ok s \<and> freeinode s \<le> 200 \<and>
     (\<forall>i. inode_used s i \<longrightarrow> isz (mimg s) i \<le> 71680 \<and> blk_ok (mimg s) (freeblock s) (idin (mimg s) i) (nblk (isz (mimg s) i))) \<and>
     (\<forall>i j. inode_used s i \<and> inode_used s j \<and> i \<noteq> j \<longrightarrow>
       owned (mimg s) (idin (mimg s) i) (nblk (isz (mimg s) i)) \<inter> owned (mimg s) (idin (mimg s) j) (nblk (isz (mimg s) j)) = {})"

lemma mk_sb_start: "IBLOCK i mk_sb = i div 8 + 32"
  by (simp add: IBLOCK_def mk_sb_def nlog_def LOGSIZE_def MAXOPBLOCKS_def IPB_def BSIZE_def)

lemma iblock_low:
  assumes "i < (200 :: u32)"
  shows "IBLOCK i mk_sb < 59" "IBLOCK i mk_sb \<noteq> 0"
proof -
  have "unat (i div 8) < 25" using assms by (simp add: unat_div word_less_nat_alt)
  moreover have "unat (i div 8 + 32) = unat (i div 8) + 32" using calculation by (subst unat_add_lem [THEN iffD1]) auto
  ultimately show "IBLOCK i mk_sb < 59" "IBLOCK i mk_sb \<noteq> 0" unfolding mk_sb_start by (auto simp: word_less_nat_alt unat_eq_0 [symmetric])
qed

lemma iblock_slot: "unat ((i :: u32) mod of_nat IPB) * sizeof_dinode + sizeof_dinode \<le> 512"
proof -
  have "unat (i mod of_nat IPB) = unat i mod 8" by (simp add: IPB_def BSIZE_def unat_mod)
  moreover have "unat i mod 8 \<le> 7" by (simp add: less_Suc_eq_le [symmetric])
  ultimately show ?thesis by (simp add: sizeof_dinode_def)
qed

lemma iblock_other:
  assumes "i \<noteq> (j :: u32)" "IBLOCK i mk_sb = IBLOCK j mk_sb"
  shows "unat (i mod of_nat IPB) * sizeof_dinode + sizeof_dinode \<le> unat (j mod of_nat IPB) * sizeof_dinode \<or>
    unat (j mod of_nat IPB) * sizeof_dinode + sizeof_dinode \<le> unat (i mod of_nat IPB) * sizeof_dinode"
proof -
  have "unat i div 8 = unat j div 8" 
  proof -
    have "i div 8 = j div 8" using assms(2) unfolding mk_sb_start by simp
    then have "unat (i div 8) = unat (j div 8)" by simp
    then show ?thesis by (simp add: unat_div)
  qed
  moreover have "unat i \<noteq> unat j" using assms(1) by (simp add: word_unat_eq_iff)
  ultimately have "unat i mod 8 \<noteq> unat j mod 8" by (metis mult_div_mod_eq)
  moreover have "unat (i mod of_nat IPB) = unat i mod 8" "unat (j mod of_nat IPB) = unat j mod 8" by (simp_all add: IPB_def BSIZE_def unat_mod)
  ultimately show ?thesis by (simp add: sizeof_dinode_def) linarith
qed

lemma owned_allocated: "blk_ok img fb d n \<Longrightarrow> b \<in> owned img d n \<Longrightarrow> allocated fb b"
  by (auto simp: blk_ok_def owned_def split: if_splits)

text \<open>What a file keeps when its own blocks are left alone.\<close>

lemma blk_frame:
  assumes b: "blk_ok img fb d n" and fb: "fb \<le> fb'" and same: "\<And>x. x \<in> owned img d n \<Longrightarrow> img' x = img x"
  shows "blk_ok img' fb' d n" "owned img' d n = owned img d n" "nblk off = n \<Longrightarrow> fcontent img' d off = fcontent img d off"
proof -
  have ba: "baddr img' d k = baddr img d k" if "k < n \<or> n > 12" for k
  proof (cases "k < 12")
    case True
    then show ?thesis by (simp add: baddr_def)
  next
    case False
    then have "di_addrs d ! 12 \<in> owned img d n" using that by (auto simp: owned_def)
    then show ?thesis using same by (simp add: baddr_def)
  qed
  have im: "baddr img' d ` {..<n} = baddr img d ` {..<n}" using ba by auto
  have inj: "inj_on (baddr img' d) {..<n}" using b ba by (auto simp: blk_ok_def inj_on_def)
  show "blk_ok img' fb' d n" using b ba im inj allocated_mono [OF _ fb] unfolding blk_ok_def by (auto split: if_splits)
  show "owned img' d n = owned img d n" using im by (simp add: owned_def)
  assume "nblk off = n"
  then show "fcontent img' d off = fcontent img d off" using ba same by (intro fcontent_cong) (auto simp: owned_def)
qed

lemma baddr_size [simp]: "baddr img (d\<lparr>di_size := z\<rparr>) = baddr img d"
  by (simp add: baddr_def fun_eq_iff)

lemma blk_ok_size [simp]: "blk_ok img fb (d\<lparr>di_size := z\<rparr>) n = blk_ok img fb d n" "owned img (d\<lparr>di_size := z\<rparr>) n = owned img d n"
  "fcontent img (d\<lparr>di_size := z\<rparr>) off = fcontent img d off"
  by (simp_all add: blk_ok_def owned_def fcontent_def)

lemma rinode_Ok:
  assumes "img_ok s" "i < 200"
  shows "rinode i s = Ok (idin (mimg s) i) s"
proof -
  have "unat (IBLOCK i mk_sb) < mlen s" using assms(1) iblock_low(1) [OF assms(2)] by (auto simp: img_ok_def word_less_nat_alt word_le_nat_alt)
  then show ?thesis by (simp add: rinode_def idin_def rsect_def kop Let_def)
qed

text \<open>Writing an inode changes that inode only.\<close>

lemma winode_Ok:
  assumes i: "img_ok s" and n: "i < 200" and d: "length (di_addrs d) = 13"
  shows "\<exists>t. winode i d s = Ok () t \<and> img_ok t \<and> (freeblock t = freeblock s \<and> freeinode t = freeinode s \<and> mlen t = mlen s) \<and> (\<forall>b. 59 \<le> b \<longrightarrow> mimg t b = mimg s b) \<and>
    idin (mimg t) i = d \<and> (\<forall>j. j \<noteq> i \<longrightarrow> idin (mimg t) j = idin (mimg s) j)"
proof -
  let ?bn = "IBLOCK i mk_sb"
  define k where "k = unat (i mod of_nat IPB) * sizeof_dinode"
  define t where "t = s\<lparr>mimg := (mimg s)(?bn := put_dinode (mimg s ?bn) k d)\<rparr>"
  have lo: "?bn < 59" using iblock_low [OF n] by simp
  then have r: "unat ?bn < mlen s" "?bn < freeblock s" using i by (auto simp: img_ok_def word_less_nat_alt word_le_nat_alt)
  have l: "length (mimg s ?bn) = 512" using i r by (simp add: img_ok_def)
  have lp: "length (put_dinode (mimg s ?bn) k d) = 512" using l by (simp add: put_dinode_def)
  have run: "winode i d s = Ok () t" using r by (simp add: winode_def rsect_def wsect_def kop Let_def t_def k_def max_absorb1)
  have "img_ok t" using i r lp by (auto simp: img_ok_def t_def)
  moreover have "idin (mimg t) i = d"
    unfolding idin_def k_def [symmetric] using dinode_at_put_same [of k "mimg s ?bn" d] iblock_slot [of i] l d by (simp add: t_def k_def NDIRECT_def)
  moreover have "idin (mimg t) j = idin (mimg s) j" if "j \<noteq> i" for j
  proof (cases "IBLOCK j mk_sb = ?bn")
    case True
    have "k + sizeof_dinode \<le> unat (j mod of_nat IPB) * sizeof_dinode \<or> unat (j mod of_nat IPB) * sizeof_dinode + sizeof_dinode \<le> k"
      using iblock_other [of i j] that True unfolding k_def by auto
    then show ?thesis using dinode_at_put_other [of k "unat (j mod of_nat IPB) * sizeof_dinode" d "mimg s ?bn"] d True
      by (simp add: idin_def t_def NDIRECT_def)
  next
    case False
    then show ?thesis by (simp add: idin_def t_def)
  qed
  moreover have "mimg t b = mimg s b" if "59 \<le> b" for b using that lo by (auto simp: t_def)
  moreover have "freeblock t = freeblock s \<and> freeinode t = freeinode s \<and> mlen t = mlen s" by (simp add: t_def)
  ultimately show ?thesis using run by blast
qed

text \<open>Appending to file \<open>i\<close> leaves the other files and their blocks alone.\<close>

lemma iappend_other:
  assumes inv: "mk_inv s" and i: "inode_used s i" and app: "appended s (idin (mimg s) i) (isz (mimg s) i) p d' s1"
    and img: "\<forall>b. 59 \<le> b \<longrightarrow> mimg t b = mimg s1 b" and le: "freeblock s \<le> freeblock t"
    and j: "inode_used s j" "j \<noteq> i" and same: "idin (mimg t) j = idin (mimg s1) j"
  shows "isz (mimg t) j = isz (mimg s) j" "blk_ok (mimg t) (freeblock t) (idin (mimg t) j) (nblk (isz (mimg s) j))"
    "owned (mimg t) (idin (mimg t) j) (nblk (isz (mimg s) j)) = owned (mimg s) (idin (mimg s) j) (nblk (isz (mimg s) j))"
    "ifile (mimg t) j = ifile (mimg s) j"
    "owned (mimg s) (idin (mimg s) j) (nblk (isz (mimg s) j)) \<inter> owned (mimg s1) d' (nblk (isz (mimg s) i + length p)) = {}"
proof -
  let ?m = "nblk (isz (mimg s) j)" and ?O = "owned (mimg s) (idin (mimg s) i) (nblk (isz (mimg s) i))"
  have ok: "img_ok s" "blk_ok (mimg s) (freeblock s) (idin (mimg s) i) (nblk (isz (mimg s) i))" "j < 200"
    using inv i j(1) by (auto simp: mk_inv_def inode_used_def)
  have bj: "blk_ok (mimg s) (freeblock s) (idin (mimg s) j) ?m" using inv j by (simp add: mk_inv_def)
  have dis: "owned (mimg s) (idin (mimg s) j) ?m \<inter> ?O = {}" using inv i j unfolding mk_inv_def by blast
  have low: "IBLOCK j mk_sb < freeblock s" "\<not> 59 \<le> IBLOCK j mk_sb" using iblock_low(1) [OF ok(3)] ok(1) by (auto simp: img_ok_def)
  then have "IBLOCK j mk_sb \<notin> ?O" using owned_allocated [OF ok(2)] by (auto simp: allocated_def)
  then have dj: "idin (mimg t) j = idin (mimg s) j" using app low(1) same by (simp add: appended_def idin_def)
  then show zj: "isz (mimg t) j = isz (mimg s) j" by (simp add: isz_def)
  have keep: "mimg t b = mimg s b" if "b \<in> owned (mimg s) (idin (mimg s) j) ?m" for b
    using owned_allocated [OF bj that] dis that app img by (auto simp: appended_def allocated_def)
  note f = blk_frame [OF bj le keep]
  show "blk_ok (mimg t) (freeblock t) (idin (mimg t) j) ?m" "owned (mimg t) (idin (mimg t) j) ?m = owned (mimg s) (idin (mimg s) j) ?m"
    using f(1,2) unfolding dj by blast+
  show "ifile (mimg t) j = ifile (mimg s) j" using f(3) [of "isz (mimg s) j"] unfolding ifile_def dj zj by simp
  have "owned (mimg s1) d' (nblk (isz (mimg s) i + length p)) \<subseteq> ?O \<union> {b. freeblock s \<le> b}" using app by (simp add: appended_def)
  moreover have "\<not> freeblock s \<le> b" if "b \<in> owned (mimg s) (idin (mimg s) j) ?m" for b
    using owned_allocated [OF bj that] by (auto simp: allocated_def)
  ultimately show "owned (mimg s) (idin (mimg s) j) ?m \<inter> owned (mimg s1) d' (nblk (isz (mimg s) i + length p)) = {}" using dis by blast
qed

text \<open>
  C13. \<^verbatim>\<open>iappend\<close> of \<^verbatim>\<open>mkfs\<close> appends: in an image whose files have their blocks for themselves, with room for the blocks that
  are needed and below the largest size of a file, the content of file \<open>i\<close> is afterwards what it was with the
  bytes \<open>p\<close> at its end, through direct and indirect blocks; every other file has the content it had; and the files still
  have their blocks for themselves.
\<close>

theorem iappend_appends:
  assumes inv: "mk_inv s" and i: "inode_used s i" and sz: "isz (mimg s) i + length p \<le> 71680"
    and room: "unat (freeblock s) + nown (nblk (isz (mimg s) i + length p)) \<le> mlen s + nown (nblk (isz (mimg s) i))"
  shows "\<exists>t. iappend i p s = Ok () t \<and> mk_inv t \<and> ifile (mimg t) i = ifile (mimg s) i @ p \<and>
    (\<forall>j. inode_used s j \<and> j \<noteq> i \<longrightarrow> ifile (mimg t) j = ifile (mimg s) j)"
proof -
  let ?d = "idin (mimg s) i" and ?off = "isz (mimg s) i"
  have ok: "img_ok s" "blk_ok (mimg s) (freeblock s) ?d (nblk ?off)" "freeinode s \<le> 200" using inv i by (auto simp: mk_inv_def)
  have lt: "j < 200" if "inode_used s j" for j using that ok(3) by (auto simp: inode_used_def)
  obtain d' s1 where l: "iappend_loop (length p) ?d ?off p s = Ok (d', ?off + length p) s1" "appended s ?d ?off p d' s1"
    using iappend_loop_Ok [OF ok(1,2) sz room order.refl] by blast
  let ?n' = "nblk (?off + length p)"
  let ?d2 = "d'\<lparr>di_size := of_nat (?off + length p)\<rparr>"
  have s1: "img_ok s1" "blk_ok (mimg s1) (freeblock s1) d' ?n'" "freeblock s \<le> freeblock s1" using l(2) by (auto simp: appended_def)
  have "length (di_addrs ?d2) = 13" using s1(2) by (simp add: blk_ok_def)
  then obtain t where t: "winode i ?d2 s1 = Ok () t" "img_ok t" "freeblock t = freeblock s1 \<and> freeinode t = freeinode s1 \<and> mlen t = mlen s1" "\<forall>b. 59 \<le> b \<longrightarrow> mimg t b = mimg s1 b"
      "idin (mimg t) i = ?d2" "\<forall>j. j \<noteq> i \<longrightarrow> idin (mimg t) j = idin (mimg s1) j"
    using winode_Ok [OF s1(1) lt [OF i], of ?d2] by blast
  have fb: "freeblock t = freeblock s1" "freeinode t = freeinode s" using t(3) l(2) by (simp_all add: appended_def)
  have used: "inode_used t j = inode_used s j" for j by (simp add: inode_used_def fb(2))
  have high: "mimg t b = mimg s1 b" if "allocated f b" for f b using that t(4) by (simp add: allocated_def)
  have own: "\<And>b. b \<in> owned (mimg s1) d' ?n' \<Longrightarrow> mimg t b = mimg s1 b" using owned_allocated [OF s1(2)] high by blast
  note fr = blk_frame [OF s1(2) order.refl own]
  have zi: "isz (mimg t) i = ?off + length p"
  proof -
    have "unat (of_nat (?off + length p) :: 32 word) = ?off + length p" using sz by (intro unat_of_nat32) simp
    then show ?thesis using t(5) by (simp add: isz_def)
  qed
  have bi: "blk_ok (mimg t) (freeblock t) (idin (mimg t) i) (nblk (isz (mimg t) i))"
      "owned (mimg t) (idin (mimg t) i) (nblk (isz (mimg t) i)) = owned (mimg s1) d' ?n'"
      "ifile (mimg t) i = ifile (mimg s) i @ p"
  proof -
    show "blk_ok (mimg t) (freeblock t) (idin (mimg t) i) (nblk (isz (mimg t) i))"
        "owned (mimg t) (idin (mimg t) i) (nblk (isz (mimg t) i)) = owned (mimg s1) d' ?n'"
      using fr(1,2) unfolding zi t(5) fb(1) blk_ok_size by blast+
    have "fcontent (mimg t) d' (?off + length p) = fcontent (mimg s1) d' (?off + length p)" by (rule fr(3)) (assumption, rule refl)
    then show "ifile (mimg t) i = ifile (mimg s) i @ p"
      using l(2) unfolding ifile_def zi t(5) blk_ok_size by (simp add: appended_def)
  qed
  have le: "freeblock s \<le> freeblock t" using s1(3) fb(1) by simp
  have o: "idin (mimg t) j = idin (mimg s1) j" if "j \<noteq> i" for j using t(6) that by simp
  note other = iappend_other [OF inv i l(2) t(4) le _ _ o]
  have "mk_inv t"
    unfolding mk_inv_def used fb(2)
  proof (intro conjI allI impI)
    fix a assume "inode_used s a"
    then show "isz (mimg t) a \<le> 71680" "blk_ok (mimg t) (freeblock t) (idin (mimg t) a) (nblk (isz (mimg t) a))"
      using zi sz bi(1) other(1,2) [of a] inv by (cases "a = i"; auto simp: mk_inv_def)+
  next
    fix a b assume ab: "inode_used s a \<and> inode_used s b \<and> a \<noteq> b"
    then show "owned (mimg t) (idin (mimg t) a) (nblk (isz (mimg t) a)) \<inter> owned (mimg t) (idin (mimg t) b) (nblk (isz (mimg t) b)) = {}"
      using inv bi(2) other(1,3) other(5) [of a] other(5) [of b] unfolding mk_inv_def by (cases "a = i"; cases "b = i") auto
  qed (use t(2) ok(3) in auto)
  moreover have "iappend i p s = Ok () t"
    using rinode_Ok [OF ok(1) lt [OF i]] l(1) t(1) by (simp add: iappend_def kop isz_def)
  ultimately show ?thesis using bi(3) other(4) by blast
qed

text \<open>An image with two empty files.\<close>

definition mk0 :: kmk where
  "mk0 = \<lparr>mimg = \<lambda>_. replicate 512 0, mlen = 100, freeinode = 3, freeblock = 59\<rparr>"

lemma get32s_zero: "k + 4 * n \<le> 512 \<Longrightarrow> get32s n (replicate 512 0) k = replicate n 0"
  by (induction n arbitrary: k) (simp_all add: get32_def word_of_bytes_def)

lemma idin_mk0: "di_size (idin (mimg mk0) i) = 0" "di_addrs (idin (mimg mk0) i) = replicate 13 0"
proof -
  show "di_size (idin (mimg mk0) i) = 0"
    using iblock_slot [of i] by (simp add: idin_def dinode_at_def mk0_def get32_def word_of_bytes_def sizeof_dinode_def NDIRECT_def)
  show "di_addrs (idin (mimg mk0) i) = replicate 13 0"
    using iblock_slot [of i] by (simp add: idin_def dinode_at_def mk0_def sizeof_dinode_def NDIRECT_def get32s_zero)
qed

lemma mk_inv_mk0: "mk_inv mk0" "inode_used mk0 1" "inode_used mk0 2" "isz (mimg mk0) i = 0"
proof -
  show z: "isz (mimg mk0) i = 0" for i by (simp add: isz_def idin_mk0)
  have "img_ok mk0" by (simp add: img_ok_def mk0_def)
  moreover have "blk_ok (mimg mk0) (freeblock mk0) (idin (mimg mk0) i) 0" for i by (simp add: blk_ok_def idin_mk0)
  moreover have "freeinode mk0 \<le> 200" by (simp add: mk0_def)
  ultimately show "mk_inv mk0" by (simp add: mk_inv_def z nblk_def owned_def)
qed (simp_all add: inode_used_def mk0_def)

theorem iappend_appends_witness:
  "\<exists>t. iappend 1 (replicate 600 7) mk0 = Ok () t \<and> mk_inv t \<and> ifile (mimg t) 1 = replicate 600 7 \<and> ifile (mimg t) 2 = []"
proof -
  have r: "unat (freeblock mk0) + nown (nblk (isz (mimg mk0) 1 + length (replicate 600 (7 :: byte)))) \<le> mlen mk0 + nown (nblk (isz (mimg mk0) 1))"
    unfolding mk_inv_mk0 by (simp add: nblk_def nown_def mk0_def)
  have s: "isz (mimg mk0) 1 + length (replicate 600 (7 :: byte)) \<le> 71680" by (simp add: mk_inv_mk0)
  have e: "ifile (mimg mk0) i = []" for i by (simp add: ifile_def mk_inv_mk0 fcontent_def)
  have n: "(2 :: u32) \<noteq> 1" by simp
  show ?thesis using iappend_appends [OF mk_inv_mk0(1,2) s r] mk_inv_mk0(3) n unfolding e by auto
qed

end
