(* ===== verification/Spec2Isabelle.thy ===== *)
theory Spec2Isabelle
  imports Ide Logsafe Lines Limits Paging Paths Switch Sh Usertests Boot Mkfs
begin

text \<open>
  \<^bold>\<open>StrideXV6\<close>: a model of an xv6 kernel for the x86 with a stride scheduler, of its boot code, its user programs and
  the program that builds its file system.  File names below are those under \<^verbatim>\<open>src/\<close>.

  \<^bold>\<open>1. Parts and how they interact\<close>

  The boot sector (\<^verbatim>\<open>bootasm.S\<close>, \<^verbatim>\<open>bootmain.c\<close>) loads the kernel, \<^verbatim>\<open>entry.S\<close> turns paging on, \<^verbatim>\<open>main.c\<close> sets up every
  part and starts the other processors through \<^verbatim>\<open>entryother.S\<close>.  From then on each processor runs \<^verbatim>\<open>scheduler\<close>, which
  picks the runnable process with the least pass, charges it its step and switches to it (\<^verbatim>\<open>swtch.S\<close>).  A process enters
  the kernel by a trap (\<^verbatim>\<open>vectors.S\<close>, \<^verbatim>\<open>trapasm.S\<close>, \<^verbatim>\<open>trap.c\<close>); a system call (\<^verbatim>\<open>syscall.c\<close>, \<^verbatim>\<open>sysproc.c\<close>, \<^verbatim>\<open>sysfile.c\<close>) goes to
  processes, memory or files.  Files are pipes, devices or inodes; inodes live in blocks, which the buffer cache holds and
  the log writes in transactions.  User programs see system calls only.

  \<^bold>\<open>2. Shape of the model\<close>

  Kernel code is a function from a state to an outcome (theory \<open>Prelude\<close>): \<open>Ok\<close> with a result and a state; \<open>Swtch\<close> when control leaves
  for the scheduler (or, in a user program, for good); \<open>Spin\<close> when it waits for ever for a lock or a device; \<open>Panic\<close>;
  \<open>Fault\<close> for what C leaves undefined (a null pointer, an index out of a table, a division by zero); \<open>NoFuel\<close>.  The states form
  a chain of records, each adding the variables of a component: \<open>kcpu\<close>, \<open>kmem\<close>, \<open>kvm\<close>, \<open>kproc\<close>, \<open>kbio\<close>, \<open>klog\<close>, \<open>kfs\<close>,
  \<open>kintr\<close>, \<open>kcons\<close>, \<open>kpipe\<close>, \<open>kfile\<close>, \<open>ksys\<close>; an operation is stated for every extension of the record it needs, so its
  lemmas hold for all components above it.  \<open>bindK\<close>, \<open>thenK\<close>, \<open>whenK\<close>, \<open>seqK\<close> compose operations; the collection
  \<open>kop\<close> computes them, \<open>ok_iff\<close> inverts a successful run.  Memory is a function from 32-bit addresses to bytes; C integers are
  machine words where they wrap, otherwise integers with the wrap written out (\<open>s32\<close>).  Pointers into the kernel's static
  tables are indices.  A function that sleeps is split at the switch: the part before ends in \<open>Swtch\<close>, the part after is a
  definition with the suffix \<open>_resume\<close>.

  \<^bold>\<open>3. Theories and sources\<close>

  \<^item> \<open>Prelude\<close>: \<^verbatim>\<open>types.h\<close>, \<^verbatim>\<open>param.h\<close>, outcomes, tables.
  \<^item> \<open>Spinlock\<close>: \<^verbatim>\<open>spinlock.c\<close>; besides the code on one processor, its memory accesses as a step relation of many processors.
  \<^item> \<open>Kstring\<close>: \<^verbatim>\<open>string.c\<close> and the string instructions of \<^verbatim>\<open>x86.h\<close>.  \<open>Uaccess\<close>: access through the page table, trap frames.
  \<^item> \<open>Kalloc\<close>: \<^verbatim>\<open>kalloc.c\<close>.  \<open>Vm\<close>: \<^verbatim>\<open>vm.c\<close>, \<^verbatim>\<open>mmu.h\<close>.  \<open>Paging\<close>: what the page tables mean.
  \<^item> \<open>Proc\<close>, \<open>ProcLife\<close>: \<^verbatim>\<open>proc.c\<close>.  \<open>Sched\<close>: the properties of the scheduler.
  \<^item> \<open>Layout\<close>, \<open>Bio\<close>, \<open>Log\<close>, \<open>Fs\<close>, \<open>Dir\<close>: \<^verbatim>\<open>fs.h\<close>, \<^verbatim>\<open>bio.c\<close> with \<^verbatim>\<open>memide.c\<close>, \<^verbatim>\<open>log.c\<close>, \<^verbatim>\<open>fs.c\<close>.  \<open>Ide\<close>: \<^verbatim>\<open>ide.c\<close>.
    \<open>Paths\<close>: path names and their elements.
  \<^item> \<open>Blockspec\<close>, \<open>Blocks\<close>, \<open>Logsafe\<close>: the interface of the buffer cache, its implementation, and the log above it.
  \<^item> \<open>Intr\<close>: \<^verbatim>\<open>picirq.c\<close>, \<^verbatim>\<open>ioapic.c\<close>, \<^verbatim>\<open>lapic.c\<close>, \<^verbatim>\<open>timer.c\<close>, \<^verbatim>\<open>mp.c\<close>.  \<open>Console\<close>: \<^verbatim>\<open>console.c\<close>, \<^verbatim>\<open>kbd.c\<close>, \<^verbatim>\<open>uart.c\<close>.
  \<^item> \<open>Pipe\<close>, \<open>File\<close>: \<^verbatim>\<open>pipe.c\<close>, \<^verbatim>\<open>file.c\<close>.  \<open>Fifo\<close>, \<open>Lines\<close>: pipes and console input as bounded queues.
  \<^item> \<open>Exec\<close>: \<^verbatim>\<open>exec.c\<close>.  \<open>Syscall\<close>: \<^verbatim>\<open>syscall.c\<close>, \<^verbatim>\<open>sysproc.c\<close>, \<^verbatim>\<open>sysfile.c\<close>.  \<open>Trap\<close>: \<^verbatim>\<open>trap.c\<close>, \<^verbatim>\<open>main.c\<close>.  \<open>Limits\<close>: checks at these borders.
  \<^item> \<open>Machine\<close>: a running machine for the witnesses.
  \<^item> \<open>Asm\<close>, \<open>Switch\<close>: all assembly files, as lists of instructions with an interpreter.  \<open>Boot\<close>: \<^verbatim>\<open>bootmain.c\<close>.
  \<^item> \<open>User\<close>: \<^verbatim>\<open>ulib.c\<close>, \<^verbatim>\<open>printf.c\<close>, \<^verbatim>\<open>usys.S\<close>.  \<open>Umalloc\<close>: \<^verbatim>\<open>umalloc.c\<close>.  \<open>Grep\<close>, \<open>Progs\<close>, \<open>Filters\<close>: the user programs.
    \<open>Sh\<close>: \<^verbatim>\<open>sh.c\<close>.  \<open>Usertests\<close>: \<^verbatim>\<open>usertests.c\<close>.
  \<^item> \<open>Mkfs\<close>: \<^verbatim>\<open>mkfs.c\<close>.

  \<^bold>\<open>4. What is shown\<close>

  \<^item> Scheduling (\<open>Sched\<close>): with positive passes the scan picks a runnable process of least pass, and from a balanced table runs
    are fair within a bound given by the steps, as long as no pass overflows; and what goes wrong when passes are 0, when a process
    is new and when nothing is runnable.  \<open>sleep\<close> loses no wakeup; locks exclude each other, and the code of \<^verbatim>\<open>acquire\<close> and
    \<^verbatim>\<open>release\<close> on one processor is a sequence of the steps that this is shown for.
  \<^item> Context (\<open>Switch\<close>): a switch is undone by switching back; a trap is transparent to the code it interrupts; a new process
    starts in \<^verbatim>\<open>forkret\<close>.
  \<^item> Memory: the allocator hands out every page once and only pages given to it; \<^verbatim>\<open>memset\<close>, \<^verbatim>\<open>memmove\<close>, \<^verbatim>\<open>safestrcpy\<close> do what the C
    standard says, overlap included; the user allocator never hands out blocks that overlap each other, a header or a free
    block.
  \<^item> Address spaces (\<open>Paging\<close>): \<^verbatim>\<open>mappages\<close> maps the pages asked for and no others; \<^verbatim>\<open>allocuvm\<close> gives a process zeroed pages of its own at
    every new address, given the memory for them, and reports success without mapping when only the table's page is missing.
  \<^item> Files: a commit of blocks outside the log, which is the \<^verbatim>\<open>log.size\<close> blocks from \<^verbatim>\<open>log.start\<close> on, is atomic
    when the machine stops between any two disk writes, and recovery may be repeated; pipes refine bounded queues; \<^verbatim>\<open>mkfs\<close> appends to a file without touching another;
    the walk of a path looks up its elements.  The locales \<open>block_cache\<close> and
    \<open>fifo\<close> are the interfaces of these proofs, and both are interpreted on the code's model.
  \<^item> Borders: arguments of system calls, the interrupt table, the console line discipline, numbers printed.
  \<^item> Programs: the boot loader loads what the image says, the shell's parser ends and keeps every word, \<^verbatim>\<open>grep\<close> decides its patterns,
    \<^verbatim>\<open>wc\<close> counts in whatever pieces a file comes.

  \<^bold>\<open>5. Fuel and bounds\<close>

  Loops that the data bound are structural or have a measure.  A loop that hardware, the kernel's replies or a
  damaged structure may keep going has fuel, and the theorems say how much is enough: the parser \<open>4 * n + 4\<close> for a line of
  \<open>n\<close> characters, a walk over the ring of free headers one more than its length, the loader as many polls as the disk needs,
  straight assembly code its length.  Fuel in operations with no such bound (\<^verbatim>\<open>init\<close>, the command loop) is a number of rounds.

  \<^bold>\<open>6. Limits of the model\<close>

  \<^item> Between two switches an operation runs alone on its processor; interleavings are modelled for spin locks and for
    \<open>sleep\<close> and \<open>wakeup\<close> only.
  \<^item> The disk is that of \<^verbatim>\<open>memide.c\<close>, as in the kernel that is linked with the memory disk; \<^verbatim>\<open>ide.c\<close> is modelled by itself.
  \<^item> Symbols and addresses that the linker chooses (the end of the kernel, vectors, \<^verbatim>\<open>initcode\<close>, \<^verbatim>\<open>entryother\<close>) are fields of
    the state or parameters.  Device registers are storage, port writes a trace; waiting for the transmitter is left out.
  \<^item> The call stack recorded by \<^verbatim>\<open>acquire\<close>, the bytes of the segment tables, the blocks of \<^verbatim>\<open>malloc\<close> behind the shell's commands and
    the host's input and output in \<^verbatim>\<open>mkfs\<close> are left out.

  \<^bold>\<open>7. Not modelled\<close>

  \<^verbatim>\<open>defs.h\<close> and \<^verbatim>\<open>asm.h\<close>, prototypes and data macros without code; build files, listings, images and the scripts that print the
  source.
\<close>

end
